(* ===== verification/Prelude.thy ===== *)
theory Prelude
  imports Main "HOL-Library.Word" "HOL-Library.Multiset" "HOL-Library.Monad_Syntax"
begin

text \<open>
  Shared vocabulary of the development: the collections of simplification rules, the
  total-correctness predicate for operations that may hit a \<^verbatim>\<open>BUG_ON\<close>, and generic facts on
  lists, options and machine words that the component theories use.

  An operation that contains a \<^verbatim>\<open>BUG_ON\<close> (or another check whose failure stops the kernel) has a
  result of type \<open>'a option\<close>; \<open>None\<close> is the stopped kernel. \<open>ok m P\<close> says that \<open>m\<close> runs to
  its end and that its result satisfies \<open>P\<close>, so it is never true of an operation that stops.
\<close>

named_theorems rt_simps \<open>accessor macros of litmus.h and the update functions of the task records\<close>
named_theorems ok_simps \<open>evaluation of \<open>ok\<close> on the constructs of the option monad\<close>

section \<open>Operations that may stop the kernel\<close>

definition ok :: "'a option \<Rightarrow> ('a \<Rightarrow> bool) \<Rightarrow> bool" where
  "ok m P \<longleftrightarrow> (case m of None \<Rightarrow> False | Some x \<Rightarrow> P x)"

definition BUG_ON :: "bool \<Rightarrow> unit option" where
  "BUG_ON c = (if c then None else Some ())"

lemma ok_Some [simp, ok_simps]: "ok (Some x) P = P x"
  by (simp add: ok_def)

lemma ok_None [simp, ok_simps]: "ok None P = False"
  by (simp add: ok_def)

lemma ok_bind [ok_simps]: "ok (Option.bind m f) P = ok m (\<lambda>x. ok (f x) P)"
  by (cases m) simp_all

lemma ok_if [ok_simps]: "ok (if c then a else b) P = (if c then ok a P else ok b P)"
  by simp

lemma ok_BUG_ON [simp, ok_simps]: "ok (BUG_ON c) P = (\<not> c \<and> P ())"
  by (simp add: BUG_ON_def)

lemma BUG_ON_simps [simp]: "BUG_ON False = Some ()" "BUG_ON True = None"
  by (simp_all add: BUG_ON_def)

lemma ok_mono: "ok m P \<Longrightarrow> (\<And>x. m = Some x \<Longrightarrow> P x \<Longrightarrow> Q x) \<Longrightarrow> ok m Q"
  by (cases m) simp_all

lemma ok_conj: "ok m (\<lambda>x. P x \<and> Q x) \<longleftrightarrow> ok m P \<and> ok m Q"
  by (cases m) simp_all

lemma okE: "ok m P \<Longrightarrow> (\<And>x. m = Some x \<Longrightarrow> P x \<Longrightarrow> R) \<Longrightarrow> R"
  by (cases m) simp_all

lemma ok_iff_ex: "ok m P \<longleftrightarrow> (\<exists>x. m = Some x \<and> P x)"
  by (cases m) simp_all

lemma BUG_ON_Some_iff [simp]: "BUG_ON c = Some u \<longleftrightarrow> \<not> c"
  by (simp add: BUG_ON_def)

lemma bind_eq_Some_iff: "Option.bind m f = Some y \<longleftrightarrow> (\<exists>x. m = Some x \<and> f x = Some y)"
  by (cases m) simp_all

section \<open>Error numbers\<close>

text \<open>An operation that fails returns the negated error number, as in the source.\<close>

definition EPERM :: int where "EPERM = 1"
definition ENOENT :: int where "ENOENT = 2"
definition ESRCH :: int where "ESRCH = 3"
definition ENOMEM :: int where "ENOMEM = 12"
definition EACCES :: int where "EACCES = 13"
definition EFAULT :: int where "EFAULT = 14"
definition EBUSY :: int where "EBUSY = 16"
definition ENODEV :: int where "ENODEV = 19"
definition EINVAL :: int where "EINVAL = 22"
definition ENOSYS :: int where "ENOSYS = 38"
definition ERESTARTSYS :: int where "ERESTARTSYS = 512"
definition ENOIOCTLCMD :: int where "ENOIOCTLCMD = 515"

section \<open>Machine words\<close>

lemma word_64_bound: "unat (x :: 64 word) < 2 ^ 64"
  using unsigned_less [of x] by simp

lemma unat_int_bound: "unat (a :: 64 word) < 2 ^ n \<Longrightarrow> int (unat a) < 2 ^ n"
  by (metis of_nat_less_iff of_nat_numeral of_nat_power)

lemma sint_diff_64:
  assumes "unat a < 2 ^ 63" and "unat (b :: 64 word) < 2 ^ 63"
  shows "sint (b - a) = int (unat b) - int (unat a)"
proof -
  let ?d = "int (unat b) - int (unat a)"
  have "sint (b - a) = sint (word_of_int ?d :: 64 word)"
    by simp
  also have "\<dots> = signed_take_bit 63 ?d"
    by (simp only: sint_sbintrunc') simp
  also have "\<dots> = ?d"
  proof (rule signed_take_bit_int_eq_self)
    show "- (2 ^ 63) \<le> ?d"
      using unat_int_bound [OF assms(1)] by linarith
    show "?d < 2 ^ 63"
      using unat_int_bound [OF assms(2)] by linarith
  qed
  finally show ?thesis .
qed

lemma unat_plus_no_overflow:
  "unat a + unat b < 2 ^ 64 \<Longrightarrow> unat (a + b :: 64 word) = unat a + unat b"
  by (simp add: unat_word_ariths)

lemma unat_minus_le: "b \<le> a \<Longrightarrow> unat (a - b :: 64 word) = unat a - unat b"
  by (simp add: unat_sub)

section \<open>Reachable states\<close>

text \<open>
  A component as a state machine: \<open>exec c s\<close> runs the call \<open>c\<close> and is \<open>None\<close> if it stops the
  kernel; \<open>enabled c s\<close> says that the environment makes the call \<open>c\<close> in state \<open>s\<close>.
\<close>

inductive reachable :: "('s \<Rightarrow> bool) \<Rightarrow> ('c \<Rightarrow> 's \<Rightarrow> bool) \<Rightarrow> ('c \<Rightarrow> 's \<Rightarrow> 's option) \<Rightarrow> 's \<Rightarrow> bool"
  for init enabled exec where
  start: "init s \<Longrightarrow> reachable init enabled exec s"
| step: "reachable init enabled exec s \<Longrightarrow> enabled c s \<Longrightarrow> exec c s = Some s' \<Longrightarrow> reachable init enabled exec s'"

text \<open>An invariant of a state machine that every enabled call runs to its end and keeps.\<close>

locale kernel_machine =
  fixes init :: "'s \<Rightarrow> bool" and enabled :: "'c \<Rightarrow> 's \<Rightarrow> bool" and exec :: "'c \<Rightarrow> 's \<Rightarrow> 's option"
    and Inv :: "'s \<Rightarrow> bool"
  assumes init_inv: "init s \<Longrightarrow> Inv s"
    and call_ok: "Inv s \<Longrightarrow> enabled c s \<Longrightarrow> ok (exec c s) Inv"
begin

lemma reachable_inv: "reachable init enabled exec s \<Longrightarrow> Inv s"
proof (induction rule: reachable.induct)
  case (start s)
  then show ?case by (rule init_inv)
next
  case (step s c s')
  then show ?case using call_ok [of s c] by simp
qed

lemma reachable_no_bug: "reachable init enabled exec s \<Longrightarrow> enabled c s \<Longrightarrow> exec c s \<noteq> None"
  using call_ok [OF reachable_inv, of s c] by (cases "exec c s") simp_all

lemma reachable_start: "init s \<Longrightarrow> reachable init enabled exec s"
  by (rule reachable.start)

lemma reachable_step:
  assumes "reachable init enabled exec s" "enabled c s"
  shows "reachable init enabled exec (the (exec c s))"
  by (rule reachable.step [where c = c, OF assms]) (use reachable_no_bug [OF assms] in auto)

end

end
