(* ===== verification/Rt_Param.thy ===== *)
theory Rt_Param
  imports Prelude
begin

text \<open>
  The data model of \<^verbatim>\<open>include/litmus/rt_param.h\<close> and the accessor macros and inline
  functions of \<^verbatim>\<open>include/litmus/litmus.h\<close>: time stamps with their wrap-around comparison,
  the parameter and job records of a real-time task, budgets, non-preemptive sections and quanta.

  A task is named by the address of its \<^verbatim>\<open>task_struct\<close> (type \<open>tid\<close>); a pointer that may be
  \<^verbatim>\<open>NULL\<close> is an option. A CPU field that may hold \<^verbatim>\<open>NO_CPU\<close> is an option too. The arrays of
  slices are functions from the index. The configuration modelled has
  \<^verbatim>\<open>CONFIG_NP_SECTION\<close> and \<^verbatim>\<open>CONFIG_RELEASE_MASTER\<close> set.
\<close>

section \<open>Time\<close>

type_synonym lt_t = "64 word"
type_synonym quanta_t = "64 word"
type_synonym tid = nat
type_synonym cpu_id = nat

definition lt_after :: "lt_t \<Rightarrow> lt_t \<Rightarrow> bool" where
  "lt_after a b \<longleftrightarrow> sint (b - a) < 0"

definition lt_before :: "lt_t \<Rightarrow> lt_t \<Rightarrow> bool" where
  "lt_before a b = lt_after b a"

definition lt_after_eq :: "lt_t \<Rightarrow> lt_t \<Rightarrow> bool" where
  "lt_after_eq a b \<longleftrightarrow> 0 \<le> sint (a - b)"

definition lt_before_eq :: "lt_t \<Rightarrow> lt_t \<Rightarrow> bool" where
  "lt_before_eq a b = lt_after_eq b a"

section \<open>Task parameters\<close>

datatype task_class_t = RT_CLASS_HARD | RT_CLASS_SOFT | RT_CLASS_BEST_EFFORT

datatype budget_policy_t = NO_ENFORCEMENT | QUANTUM_ENFORCEMENT | PRECISE_ENFORCEMENT

record edffm_params =
  fm_cpus :: "nat \<Rightarrow> cpu_id"
  nr_cpus :: nat
  fraction :: "nat \<Rightarrow> nat \<Rightarrow> lt_t"

definition MAX_EDF_WM_SLICES :: nat where "MAX_EDF_WM_SLICES = 24"
definition MIN_EDF_WM_SLICE_SIZE :: lt_t where "MIN_EDF_WM_SLICE_SIZE = 50000"

record edf_wm_slice =
  wm_cpu :: cpu_id
  wm_deadline :: lt_t
  wm_budget :: lt_t
  wm_offset :: lt_t

record edf_wm_params =
  wm_slices :: "nat \<Rightarrow> edf_wm_slice"
  wm_count :: nat

definition MAX_HIME_SLICES :: nat where "MAX_HIME_SLICES = 24"
definition MIN_HIME_SLICE_SIZE :: lt_t where "MIN_HIME_SLICE_SIZE = 50000"

record hime_slice =
  hime_cpu :: cpu_id
  hime_budget :: lt_t

record hime_params =
  hime_slices :: "nat \<Rightarrow> hime_slice"
  hime_count :: nat

definition MAX_CD_SLICES :: nat where "MAX_CD_SLICES = 24"
definition MIN_CD_SLICE_SIZE :: lt_t where "MIN_CD_SLICE_SIZE = 50000"

record cd_slice =
  cd_cpu :: cpu_id
  cd_deadline :: lt_t
  cd_budget :: lt_t

record cd_params =
  cd_slices :: "nat \<Rightarrow> cd_slice"
  cd_count :: nat

text \<open>
  The members of the union \<^verbatim>\<open>rt_task.semi_part\<close> are kept side by side: every plugin reads the
  member that user space wrote for it and no other.
\<close>

record rt_task =
  exec_cost :: lt_t
  period :: lt_t
  phase :: lt_t
  cpu :: cpu_id
  cls :: task_class_t
  budget_policy :: budget_policy_t
  fm :: edffm_params
  npsf_id :: int
  wm :: edf_wm_params
  hime :: hime_params
  cd :: cd_params

record control_page =
  np_flag :: int
  delayed_preemption :: int

record rt_job =
  release :: lt_t
  deadline :: lt_t
  exec_time :: lt_t
  job_no :: "32 word"

text \<open>
  The run-time union \<^verbatim>\<open>rt_param.semi_part\<close> is kept as the memory it is: six 64-bit words, which
  the members \<^verbatim>\<open>wm\<close>, \<^verbatim>\<open>hime\<close> and \<^verbatim>\<open>cd\<close> overlay. One access of
  \<^verbatim>\<open>sched_edf_wm.c\<close> goes through a member of another plugin, so the overlay matters. The
  pointer to the current slice is stored as the index of the slice in its array. The counters of
  EDF-fm are not overlaid by any access and are kept beside.
\<close>

record semi_part_rt =
  sp0 :: lt_t
  sp1 :: lt_t
  sp2 :: lt_t
  sp3 :: lt_t
  sp4 :: lt_t
  sp5 :: lt_t
  cpu_job_no :: "nat \<Rightarrow> 32 word"

datatype rt_flag = RT_F_RUNNING | RT_F_SLEEP | RT_F_EXIT_SEM

text \<open>
  \<open>heap_node\<close> says whether the heap node of a task has been allocated and \<open>in_heap\<close> is the
  information the schedulers keep in its degree (\<^verbatim>\<open>degree != NOT_IN_HEAP\<close>); the nodes themselves
  are modelled in the theory of the heap.
\<close>

record rt_param =
  flags :: rt_flag
  srp_non_recurse :: bool
  present :: bool
  task_params :: rt_task
  job_params :: rt_job
  inh_task :: "tid option"
  kernel_np :: "32 word"
  scheduled_on :: "cpu_id option"
  stack_in_use :: "cpu_id option"
  linked_on :: "cpu_id option"
  domain :: "nat option"
  heap_node :: bool
  in_heap :: bool
  ctrl_page :: "control_page option"
  semi_part :: semi_part_rt

definition SCHED_LITMUS :: nat where "SCHED_LITMUS = 6"
definition TASK_RUNNING :: nat where "TASK_RUNNING = 0"
definition TASK_INTERRUPTIBLE :: nat where "TASK_INTERRUPTIBLE = 1"
definition TASK_UNINTERRUPTIBLE :: nat where "TASK_UNINTERRUPTIBLE = 2"

record task_struct =
  pid :: int
  policy :: nat
  state :: nat
  preempt_active :: bool
  task_cpu :: cpu_id
  time_slice :: nat
  need_resched :: bool
  rt_param :: rt_param

section \<open>Updates of nested fields\<close>

definition upd_job :: "(rt_job \<Rightarrow> rt_job) \<Rightarrow> task_struct \<Rightarrow> task_struct" where
  "upd_job f t = t\<lparr>rt_param := (rt_param t)\<lparr>job_params := f (job_params (rt_param t))\<rparr>\<rparr>"

definition upd_params :: "(rt_task \<Rightarrow> rt_task) \<Rightarrow> task_struct \<Rightarrow> task_struct" where
  "upd_params f t = t\<lparr>rt_param := (rt_param t)\<lparr>task_params := f (task_params (rt_param t))\<rparr>\<rparr>"

definition upd_semi :: "(semi_part_rt \<Rightarrow> semi_part_rt) \<Rightarrow> task_struct \<Rightarrow> task_struct" where
  "upd_semi f t = t\<lparr>rt_param := (rt_param t)\<lparr>semi_part := f (semi_part (rt_param t))\<rparr>\<rparr>"

definition upd_rt :: "(rt_param \<Rightarrow> rt_param) \<Rightarrow> task_struct \<Rightarrow> task_struct" where
  "upd_rt f t = t\<lparr>rt_param := f (rt_param t)\<rparr>"

lemmas [rt_simps] = upd_job_def upd_params_def upd_semi_def upd_rt_def

section \<open>Accessors of litmus.h\<close>

definition is_realtime :: "task_struct \<Rightarrow> bool" where
  [rt_simps]: "is_realtime t \<longleftrightarrow> policy t = SCHED_LITMUS"

definition get_rt_flags :: "task_struct \<Rightarrow> rt_flag" where
  [rt_simps]: "get_rt_flags t = flags (rt_param t)"

definition set_rt_flags :: "rt_flag \<Rightarrow> task_struct \<Rightarrow> task_struct" where
  [rt_simps]: "set_rt_flags f t = t\<lparr>rt_param := (rt_param t)\<lparr>flags := f\<rparr>\<rparr>"

definition get_exec_cost :: "task_struct \<Rightarrow> lt_t" where
  [rt_simps]: "get_exec_cost t = exec_cost (task_params (rt_param t))"

definition get_exec_time :: "task_struct \<Rightarrow> lt_t" where
  [rt_simps]: "get_exec_time t = exec_time (job_params (rt_param t))"

definition get_rt_period :: "task_struct \<Rightarrow> lt_t" where
  [rt_simps]: "get_rt_period t = period (task_params (rt_param t))"

definition get_rt_phase :: "task_struct \<Rightarrow> lt_t" where
  [rt_simps]: "get_rt_phase t = phase (task_params (rt_param t))"

definition get_partition :: "task_struct \<Rightarrow> cpu_id" where
  [rt_simps]: "get_partition t = cpu (task_params (rt_param t))"

definition get_deadline :: "task_struct \<Rightarrow> lt_t" where
  [rt_simps]: "get_deadline t = deadline (job_params (rt_param t))"

definition get_release :: "task_struct \<Rightarrow> lt_t" where
  [rt_simps]: "get_release t = release (job_params (rt_param t))"

definition get_class :: "task_struct \<Rightarrow> task_class_t" where
  [rt_simps]: "get_class t = cls (task_params (rt_param t))"

definition budget_exhausted :: "task_struct \<Rightarrow> bool" where
  "budget_exhausted t \<longleftrightarrow> get_exec_cost t \<le> get_exec_time t"

definition budget_remaining :: "task_struct \<Rightarrow> lt_t" where
  "budget_remaining t =
     (if \<not> budget_exhausted t then get_exec_cost t - get_exec_time t else 0)"

definition budget_enforced :: "task_struct \<Rightarrow> bool" where
  "budget_enforced t \<longleftrightarrow> budget_policy (task_params (rt_param t)) \<noteq> NO_ENFORCEMENT"

definition budget_precisely_enforced :: "task_struct \<Rightarrow> bool" where
  "budget_precisely_enforced t \<longleftrightarrow>
     budget_policy (task_params (rt_param t)) = PRECISE_ENFORCEMENT"

definition is_running :: "task_struct \<Rightarrow> bool" where
  "is_running t \<longleftrightarrow> state t = TASK_RUNNING \<or> preempt_active t"

definition is_blocked :: "task_struct \<Rightarrow> bool" where
  "is_blocked t \<longleftrightarrow> \<not> is_running t"

definition is_released :: "task_struct \<Rightarrow> lt_t \<Rightarrow> bool" where
  "is_released t now = lt_before_eq (get_release t) now"

definition is_tardy :: "task_struct \<Rightarrow> lt_t \<Rightarrow> bool" where
  "is_tardy t now = lt_before_eq (get_deadline t) now"

definition earlier_deadline :: "task_struct \<Rightarrow> task_struct \<Rightarrow> bool" where
  "earlier_deadline a b = lt_before (get_deadline a) (get_deadline b)"

definition earlier_release :: "task_struct \<Rightarrow> task_struct \<Rightarrow> bool" where
  "earlier_release a b = lt_before (get_release a) (get_release b)"

section \<open>Non-preemptive sections\<close>

definition is_kernel_np :: "task_struct \<Rightarrow> bool" where
  "is_kernel_np t \<longleftrightarrow> kernel_np (rt_param t) \<noteq> 0"

definition is_user_np :: "task_struct \<Rightarrow> bool" where
  "is_user_np t =
     (case ctrl_page (rt_param t) of None \<Rightarrow> False | Some p \<Rightarrow> np_flag p \<noteq> 0)"

definition request_exit_np :: "task_struct \<Rightarrow> task_struct" where
  "request_exit_np t =
     (if is_user_np t
      then (case ctrl_page (rt_param t) of
              None \<Rightarrow> t
            | Some p \<Rightarrow>
                t\<lparr>rt_param := (rt_param t)\<lparr>ctrl_page := Some (p\<lparr>delayed_preemption := 1\<rparr>)\<rparr>\<rparr>)
      else t)"

definition clear_exit_np :: "task_struct \<Rightarrow> task_struct" where
  "clear_exit_np t =
     (case ctrl_page (rt_param t) of
        None \<Rightarrow> t
      | Some p \<Rightarrow>
          t\<lparr>rt_param := (rt_param t)\<lparr>ctrl_page := Some (p\<lparr>delayed_preemption := 0\<rparr>)\<rparr>\<rparr>)"

definition make_np :: "task_struct \<Rightarrow> task_struct" where
  "make_np t = t\<lparr>rt_param := (rt_param t)\<lparr>kernel_np := kernel_np (rt_param t) + 1\<rparr>\<rparr>"

definition take_np :: "task_struct \<Rightarrow> 32 word \<times> task_struct" where
  "take_np t =
     (let n = kernel_np (rt_param t) - 1
      in (n, t\<lparr>rt_param := (rt_param t)\<lparr>kernel_np := n\<rparr>\<rparr>))"

definition is_np :: "task_struct \<Rightarrow> bool" where
  "is_np t \<longleftrightarrow> is_kernel_np t \<or> is_user_np t"

section \<open>Quanta\<close>

datatype round = FLOOR | CEIL

text \<open>
  \<^verbatim>\<open>tick_period\<close> is set up by the tick code of Linux; it is a parameter here. \<^verbatim>\<open>do_div\<close>
  divides its first argument in place and returns the remainder.
\<close>

definition time2quanta :: "lt_t \<Rightarrow> lt_t \<Rightarrow> round \<Rightarrow> quanta_t" where
  "time2quanta tick_period time rnd =
     (if time mod tick_period \<noteq> 0 \<and> rnd = CEIL then time div tick_period + 1
      else time div tick_period)"


section \<open>Facts on time stamps\<close>

lemma lt_after_shift: "lt_after (k + a) (k + b) = lt_after a b"
  by (simp add: lt_after_def)

lemma lt_after_eq_shift: "lt_after_eq (k + a) (k + b) = lt_after_eq a b"
  by (simp add: lt_after_eq_def)

lemma lt_after_small:
  "unat a < 2 ^ 63 \<Longrightarrow> unat b < 2 ^ 63 \<Longrightarrow> lt_after a b \<longleftrightarrow> b < a"
  unfolding lt_after_def sint_diff_64 by (simp add: word_less_def)

lemma lt_after_eq_small:
  "unat a < 2 ^ 63 \<Longrightarrow> unat b < 2 ^ 63 \<Longrightarrow> lt_after_eq a b \<longleftrightarrow> b \<le> a"
  unfolding lt_after_eq_def sint_diff_64 by (simp add: word_le_def)

lemma lt_before_small:
  "unat a < 2 ^ 63 \<Longrightarrow> unat b < 2 ^ 63 \<Longrightarrow> lt_before a b \<longleftrightarrow> a < b"
  by (simp add: lt_before_def lt_after_small)

lemma lt_before_eq_small:
  "unat a < 2 ^ 63 \<Longrightarrow> unat b < 2 ^ 63 \<Longrightarrow> lt_before_eq a b \<longleftrightarrow> a \<le> b"
  by (simp add: lt_before_eq_def lt_after_eq_small)

lemma lt_before_eq_refl [simp]: "lt_before_eq a a"
  by (simp add: lt_before_eq_def lt_after_eq_def)

lemma lt_before_irrefl [simp]: "\<not> lt_before a a"
  by (simp add: lt_before_def lt_after_def)

text \<open>
  A time stamp reached from a common base by a span below \<open>2 ^ 63\<close> nanoseconds compares by its
  span, also when the 64-bit counter wraps between the base and the stamp.
\<close>

lemma lt_before_window:
  "unat x < 2 ^ 63 \<Longrightarrow> unat y < 2 ^ 63 \<Longrightarrow> lt_before (k + x) (k + y) \<longleftrightarrow> x < y"
  by (simp add: lt_before_def lt_after_shift lt_after_small)

lemma lt_before_eq_window:
  "unat x < 2 ^ 63 \<Longrightarrow> unat y < 2 ^ 63 \<Longrightarrow> lt_before_eq (k + x) (k + y) \<longleftrightarrow> x \<le> y"
  by (simp add: lt_before_eq_def lt_after_eq_shift lt_after_eq_small)

section \<open>Facts on budgets and quanta\<close>

lemma budget_remaining_plus:
  "unat (get_exec_time t) + unat (budget_remaining t) =
     max (unat (get_exec_time t)) (unat (get_exec_cost t))"
  by (auto simp: budget_remaining_def budget_exhausted_def unat_minus_le word_le_nat_alt)

lemma budget_remaining_eq_0: "budget_remaining t = 0 \<longleftrightarrow> budget_exhausted t"
  by (auto simp: budget_remaining_def budget_exhausted_def)

lemma unat_time2quanta_floor:
  "unat (time2quanta tp x FLOOR) = unat x div unat tp"
  by (simp add: time2quanta_def unat_div)

lemma unat_time2quanta_ceil:
  assumes "1 < unat tp"
  shows "unat (time2quanta tp x CEIL) =
           unat x div unat tp + (if unat x mod unat tp = 0 then 0 else 1)"
proof -
  have "unat x div unat tp < unat x \<or> unat x = 0"
    using assms by (cases "unat x = 0") simp_all
  moreover have "unat x < 2 ^ 64" by (rule word_64_bound)
  ultimately have "unat (x div tp) + unat (1 :: 64 word) < 2 ^ 64"
    by (auto simp: unat_div)
  then have "unat (x div tp + 1) = unat x div unat tp + 1"
    by (simp only: unat_plus_no_overflow) (simp add: unat_div)
  moreover have "x mod tp = 0 \<longleftrightarrow> unat x mod unat tp = 0"
    by (metis unat_eq_zero unat_mod)
  ultimately show ?thesis
    by (simp add: time2quanta_def unat_div)
qed

end
