(* ===== verification/Bheap.thy ===== *)
theory Bheap
  imports Prelude
begin

text \<open>
  The binomial heap of \<^verbatim>\<open>litmus/bheap.c\<close>, on the values it stores. A \<^verbatim>\<open>struct bheap_node\<close>
  is a tree node with its degree, its value and the list of its children; a list linked by the
  \<^verbatim>\<open>next\<close> fields is a list of nodes, head first, so that \<^verbatim>\<open>heap->head\<close> and \<^verbatim>\<open>node->child\<close>
  are both lists and \<^verbatim>\<open>NULL\<close> is the empty list. Parent pointers and the back references
  \<^verbatim>\<open>ref\<close> are what lets the code find the node of a value; here a node is found by its value,
  and values are distinct wherever a single value is removed. The comparison function is the
  argument \<open>hp\<close> (\<^verbatim>\<open>higher_prio\<close>).

  After the operations come the binomial-tree and heap-order invariant, the multiset a heap stands
  for, and the interface \<open>prio_queue\<close> that the schedulers rely on, with the heap as its
  interpretation.
\<close>

section \<open>Nodes and heaps\<close>

datatype 'v bheap_node =
  BNode (degree: nat) (bvalue: 'v) (child: "'v bheap_node list")

text \<open>The cached minimum is a node outside the root list; only its value is ever read.\<close>

record 'v bheap =
  head :: "'v bheap_node list"
  bmin :: "'v option"

definition bheap_init :: "'v bheap" where
  "bheap_init = \<lparr>head = [], bmin = None\<rparr>"

definition bheap_empty :: "'v bheap \<Rightarrow> bool" where
  "bheap_empty h \<longleftrightarrow> head h = [] \<and> bmin h = None"

section \<open>Operations\<close>

fun bheap_link :: "'v bheap_node \<Rightarrow> 'v bheap_node \<Rightarrow> 'v bheap_node" where
  "bheap_link (BNode d v cs) c = BNode (d + 1) v (c # cs)"

fun bheap_merge :: "'v bheap_node list \<Rightarrow> 'v bheap_node list \<Rightarrow> 'v bheap_node list" where
  "bheap_merge (a # as) (b # bs) =
     (if degree a < degree b then a # bheap_merge as (b # bs) else b # bheap_merge (a # as) bs)"
| "bheap_merge [] bs = bs"
| "bheap_merge as [] = as"

definition bheap_reverse :: "'v bheap_node list \<Rightarrow> 'v bheap_node list" where
  "bheap_reverse ns = rev ns"

text \<open>
  The scan of \<^verbatim>\<open>__bheap_min\<close>: \<open>node\<close> is the best node so far, at position \<open>at\<close> of the
  root list, and \<open>i\<close> is the position of the next candidate. The position stands for the
  \<^verbatim>\<open>prev\<close> pointer the code returns.
\<close>

fun bheap_min_scan ::
  "('v \<Rightarrow> 'v \<Rightarrow> bool) \<Rightarrow> 'v bheap_node \<Rightarrow> nat \<Rightarrow> nat \<Rightarrow> 'v bheap_node list \<Rightarrow> 'v bheap_node \<times> nat"
where
  "bheap_min_scan hp node at i [] = (node, at)"
| "bheap_min_scan hp node at i (cur # rest) =
     (if hp (bvalue cur) (bvalue node) then bheap_min_scan hp cur i (i + 1) rest
      else bheap_min_scan hp node at (i + 1) rest)"

fun bheap_min :: "('v \<Rightarrow> 'v \<Rightarrow> bool) \<Rightarrow> 'v bheap_node list \<Rightarrow> ('v bheap_node \<times> nat) option" where
  "bheap_min hp [] = None"
| "bheap_min hp (n # ns) = Some (bheap_min_scan hp n 0 1 ns)"

fun bheap_union_loop ::
  "('v \<Rightarrow> 'v \<Rightarrow> bool) \<Rightarrow> 'v bheap_node list \<Rightarrow> 'v bheap_node list"
where
  "bheap_union_loop hp [] = []"
| "bheap_union_loop hp [x] = [x]"
| "bheap_union_loop hp (x # nxt # rest) =
     (if degree x \<noteq> degree nxt \<or> (rest \<noteq> [] \<and> degree (hd rest) = degree x)
      then x # bheap_union_loop hp (nxt # rest)
      else if hp (bvalue x) (bvalue nxt)
      then bheap_union_loop hp (bheap_link x nxt # rest)
      else bheap_union_loop hp (bheap_link nxt x # rest))"

definition bheap_union_roots ::
  "('v \<Rightarrow> 'v \<Rightarrow> bool) \<Rightarrow> 'v bheap \<Rightarrow> 'v bheap_node list \<Rightarrow> 'v bheap"
where
  "bheap_union_roots hp h h2 =
     (if h2 = [] then h
      else if head h = [] then h\<lparr>head := h2\<rparr>
      else h\<lparr>head := bheap_union_loop hp (bheap_merge (head h) h2)\<rparr>)"

definition bheap_remove_at :: "nat \<Rightarrow> 'v bheap_node list \<Rightarrow> 'v bheap_node list" where
  "bheap_remove_at i ns = take i ns @ drop (i + 1) ns"

definition bheap_extract_min ::
  "('v \<Rightarrow> 'v \<Rightarrow> bool) \<Rightarrow> 'v bheap \<Rightarrow> 'v option \<times> 'v bheap"
where
  "bheap_extract_min hp h =
     (case bheap_min hp (head h) of
        None \<Rightarrow> (None, h)
      | Some (node, at) \<Rightarrow>
          (Some (bvalue node),
           bheap_union_roots hp (h\<lparr>head := bheap_remove_at at (head h)\<rparr>)
             (bheap_reverse (child node))))"

definition bheap_insert :: "('v \<Rightarrow> 'v \<Rightarrow> bool) \<Rightarrow> 'v bheap \<Rightarrow> 'v \<Rightarrow> 'v bheap" where
  "bheap_insert hp h v =
     (case bmin h of
        Some m \<Rightarrow>
          if hp v m then (bheap_union_roots hp h [BNode 0 m []])\<lparr>bmin := Some v\<rparr>
          else bheap_union_roots hp h [BNode 0 v []]
      | None \<Rightarrow> bheap_union_roots hp h [BNode 0 v []])"

definition bheap_uncache_min :: "('v \<Rightarrow> 'v \<Rightarrow> bool) \<Rightarrow> 'v bheap \<Rightarrow> 'v bheap" where
  "bheap_uncache_min hp h =
     (case bmin h of
        Some m \<Rightarrow> bheap_insert hp (h\<lparr>bmin := None\<rparr>) m
      | None \<Rightarrow> h)"

definition bheap_union ::
  "('v \<Rightarrow> 'v \<Rightarrow> bool) \<Rightarrow> 'v bheap \<Rightarrow> 'v bheap \<Rightarrow> 'v bheap \<times> 'v bheap"
where
  "bheap_union hp target addition =
     (let target = bheap_uncache_min hp target;
          addition = bheap_uncache_min hp addition
      in (bheap_union_roots hp target (head addition), addition\<lparr>head := []\<rparr>))"

definition bheap_peek :: "('v \<Rightarrow> 'v \<Rightarrow> bool) \<Rightarrow> 'v bheap \<Rightarrow> 'v option \<times> 'v bheap" where
  "bheap_peek hp h =
     (let h = (if bmin h = None
               then (let (m, h') = bheap_extract_min hp h in h'\<lparr>bmin := m\<rparr>) else h)
      in (bmin h, h))"

definition bheap_take :: "('v \<Rightarrow> 'v \<Rightarrow> bool) \<Rightarrow> 'v bheap \<Rightarrow> 'v option \<times> 'v bheap" where
  "bheap_take hp h =
     (let h = (if bmin h = None
               then (let (m, h') = bheap_extract_min hp h in h'\<lparr>bmin := m\<rparr>) else h)
      in (bmin h, h\<lparr>bmin := None\<rparr>))"

text \<open>
  Bubbling a value up exchanges it with the value of the parent node, step by step.
  \<open>bheap_bubble hp v n\<close> moves \<open>v\<close> up in the tree \<open>n\<close> as long as \<open>hp\<close> allows it and
  returns the tree and whether \<open>v\<close> reached the root of \<open>n\<close>; \<open>None\<close> if \<open>v\<close> is not in \<open>n\<close>.
  \<^verbatim>\<open>bheap_decrease\<close> passes the comparison, \<^verbatim>\<open>bheap_delete\<close> goes to the top in any case.
\<close>

fun bheap_set_value :: "'v \<Rightarrow> 'v bheap_node \<Rightarrow> 'v bheap_node" where
  "bheap_set_value v (BNode d w cs) = BNode d v cs"

fun bheap_bubble ::
  "('v \<Rightarrow> 'v \<Rightarrow> bool) \<Rightarrow> 'v \<Rightarrow> 'v bheap_node \<Rightarrow> ('v bheap_node \<times> bool) option"
and bheap_bubble_list ::
  "('v \<Rightarrow> 'v \<Rightarrow> bool) \<Rightarrow> 'v \<Rightarrow> 'v \<Rightarrow> 'v bheap_node list \<Rightarrow> ('v bheap_node list \<times> bool) option"
where
  "bheap_bubble hp v (BNode d w cs) =
     (if w = v then Some (BNode d w cs, True)
      else case bheap_bubble_list hp v w cs of
             None \<Rightarrow> None
           | Some (cs', up) \<Rightarrow> Some (BNode d (if up then v else w) cs', up))"
| "bheap_bubble_list hp v w [] = None"
| "bheap_bubble_list hp v w (n # ns) =
     (case bheap_bubble hp v n of
        Some (n', up) \<Rightarrow>
          if up \<and> hp v w then Some (bheap_set_value w n' # ns, True) else Some (n' # ns, False)
      | None \<Rightarrow>
          (case bheap_bubble_list hp v w ns of
             None \<Rightarrow> None
           | Some (ns', up) \<Rightarrow> Some (n # ns', up)))"

text \<open>The root list with \<open>v\<close> bubbled up, and the position of the tree that holds \<open>v\<close>.\<close>

fun bheap_bubble_roots ::
  "('v \<Rightarrow> 'v \<Rightarrow> bool) \<Rightarrow> 'v \<Rightarrow> 'v bheap_node list \<Rightarrow> ('v bheap_node list \<times> bool \<times> nat) option"
where
  "bheap_bubble_roots hp v [] = None"
| "bheap_bubble_roots hp v (n # ns) =
     (case bheap_bubble hp v n of
        Some (n', up) \<Rightarrow> Some (n' # ns, up, 0)
      | None \<Rightarrow>
          (case bheap_bubble_roots hp v ns of
             None \<Rightarrow> None
           | Some (ns', up, i) \<Rightarrow> Some (n # ns', up, i + 1)))"

definition bheap_decrease ::
  "('v \<Rightarrow> 'v \<Rightarrow> bool) \<Rightarrow> 'v bheap \<Rightarrow> 'v \<Rightarrow> (bool \<times> 'v bheap) option"
where
  "bheap_decrease hp h v =
     (if bmin h = Some v then Some (False, h)
      else case bheap_bubble_roots hp v (head h) of
             None \<Rightarrow> None
           | Some (ns, up, _) \<Rightarrow> Some (\<not> up, h\<lparr>head := ns\<rparr>))"

definition bheap_delete :: "('v \<Rightarrow> 'v \<Rightarrow> bool) \<Rightarrow> 'v bheap \<Rightarrow> 'v \<Rightarrow> 'v bheap option" where
  "bheap_delete hp h v =
     (if bmin h \<noteq> Some v
      then (case bheap_bubble_roots (\<lambda>_ _. True) v (head h) of
              None \<Rightarrow> None
            | Some (ns, _, at) \<Rightarrow>
                Some (bheap_union_roots hp (h\<lparr>head := bheap_remove_at at ns\<rparr>)
                        (bheap_reverse (child (ns ! at)))))
      else Some (h\<lparr>bmin := None\<rparr>))"

text \<open>
  Allocating variants: the node allocation of \<^verbatim>\<open>bheap_add\<close> may fail (\<open>alloc_ok\<close>), and
  \<^verbatim>\<open>bheap_take_del\<close> frees the node it takes and returns the value.
\<close>

definition bheap_add ::
  "('v \<Rightarrow> 'v \<Rightarrow> bool) \<Rightarrow> 'v bheap \<Rightarrow> 'v \<Rightarrow> bool \<Rightarrow> bool \<times> 'v bheap"
where
  "bheap_add hp h v alloc_ok = (if alloc_ok then (True, bheap_insert hp h v) else (False, h))"

definition bheap_take_del :: "('v \<Rightarrow> 'v \<Rightarrow> bool) \<Rightarrow> 'v bheap \<Rightarrow> 'v option \<times> 'v bheap" where
  "bheap_take_del hp h = bheap_take hp h"

section \<open>Invariant and abstraction\<close>

text \<open>The values of a tree and of a heap; the cached minimum belongs to the heap.\<close>

fun node_elems :: "'v bheap_node \<Rightarrow> 'v multiset" where
  "node_elems (BNode d v cs) = add_mset v (sum_list (map node_elems cs))"

definition forest_elems :: "'v bheap_node list \<Rightarrow> 'v multiset" where
  "forest_elems ns = sum_list (map node_elems ns)"

definition bheap_elems :: "'v bheap \<Rightarrow> 'v multiset" where
  "bheap_elems h = forest_elems (head h) + (case bmin h of None \<Rightarrow> {#} | Some m \<Rightarrow> {#m#})"

text \<open>A node of degree \<open>d\<close> has children of degrees \<open>d - 1\<close> down to \<open>0\<close>.\<close>

fun binomial_tree :: "'v bheap_node \<Rightarrow> bool" where
  "binomial_tree (BNode d v cs) \<longleftrightarrow> map degree cs = rev [0..<d] \<and> list_all binomial_tree cs"

text \<open>No child has a higher priority than its parent.\<close>

fun heap_ordered :: "('v \<Rightarrow> 'v \<Rightarrow> bool) \<Rightarrow> 'v bheap_node \<Rightarrow> bool" where
  "heap_ordered hp (BNode d v cs) \<longleftrightarrow>
     list_all (\<lambda>c. heap_ordered hp c \<and> \<not> hp (bvalue c) v) cs"

definition bheap_forest :: "('v \<Rightarrow> 'v \<Rightarrow> bool) \<Rightarrow> 'v bheap_node list \<Rightarrow> bool" where
  "bheap_forest hp ns \<longleftrightarrow> list_all binomial_tree ns \<and> list_all (heap_ordered hp) ns"

definition bheap_inv :: "('v \<Rightarrow> 'v \<Rightarrow> bool) \<Rightarrow> 'v bheap \<Rightarrow> bool" where
  "bheap_inv hp h \<longleftrightarrow>
     bheap_forest hp (head h) \<and> sorted_wrt (<) (map degree (head h)) \<and>
     (case bmin h of None \<Rightarrow> True | Some m \<Rightarrow> \<forall>x \<in># forest_elems (head h). \<not> hp x m)"

lemma forest_elems_simps [simp]:
  "forest_elems [] = {#}"
  "forest_elems (n # ns) = node_elems n + forest_elems ns"
  "forest_elems (ns @ ms) = forest_elems ns + forest_elems ms"
  by (simp_all add: forest_elems_def)

lemma node_elems_eq [simp]: "node_elems (BNode d v cs) = add_mset v (forest_elems cs)"
  by (simp add: forest_elems_def)

declare node_elems.simps [simp del]

lemma forest_elems_rev [simp]: "forest_elems (rev ns) = forest_elems ns"
  by (induction ns) (simp_all add: union_commute)

lemma forest_elems_mset: "mset ns = mset ms \<Longrightarrow> forest_elems ns = forest_elems ms"
  by (metis forest_elems_def mset_map sum_mset_sum_list)

lemma in_forest_elems: "x \<in># forest_elems ns \<longleftrightarrow> (\<exists>n \<in> set ns. x \<in># node_elems n)"
  by (induction ns) auto

lemma bvalue_in_elems [simp]: "bvalue n \<in># node_elems n"
  by (cases n) simp

lemma node_elems_subset: "n \<in> set ns \<Longrightarrow> set_mset (node_elems n) \<subseteq> set_mset (forest_elems ns)"
  using in_forest_elems by fastforce

lemma bvalue_in_forest: "n \<in> set ns \<Longrightarrow> bvalue n \<in># forest_elems ns"
  using in_forest_elems by fastforce

lemma node_elems_child: "node_elems n = add_mset (bvalue n) (forest_elems (child n))"
  by (cases n) simp

lemma size_binomial: "binomial_tree n \<Longrightarrow> size (node_elems n) = 2 ^ degree n"
proof (induction n)
  case (BNode d v cs)
  have "\<forall>c \<in> set cs. size (node_elems c) = 2 ^ degree c"
    using BNode by (simp add: list_all_iff)
  then have "size (forest_elems cs) = sum_list (map (\<lambda>c. 2 ^ degree c) cs)"
    by (induction cs) simp_all
  also have "\<dots> = sum_list (map ((^) (2::nat)) (map degree cs))"
    by (simp add: comp_def)
  also have "\<dots> = sum_list (map ((^) 2) [0..<d])"
    using BNode.prems by (simp add: rev_map [symmetric] sum_list_rev)
  also have "\<dots> = 2 ^ d - 1"
    by (induction d) simp_all
  finally show ?case by simp
qed

section \<open>Shape: the union loop and the merge\<close>

lemma bheap_link_simps [simp]:
  "degree (bheap_link r c) = Suc (degree r)"
  "bvalue (bheap_link r c) = bvalue r"
  "node_elems (bheap_link r c) = node_elems r + node_elems c"
  by (cases r; simp)+

lemma binomial_link:
  "binomial_tree r \<Longrightarrow> binomial_tree c \<Longrightarrow> degree c = degree r \<Longrightarrow> binomial_tree (bheap_link r c)"
  by (cases r) simp

lemma heap_ordered_link:
  "heap_ordered hp r \<Longrightarrow> heap_ordered hp c \<Longrightarrow> \<not> hp (bvalue c) (bvalue r)
    \<Longrightarrow> heap_ordered hp (bheap_link r c)"
  by (cases r) simp

lemma mset_bheap_merge [simp]: "mset (bheap_merge as bs) = mset as + mset bs"
  by (induction as bs rule: bheap_merge.induct) simp_all

lemma set_bheap_merge [simp]: "set (bheap_merge as bs) = set as \<union> set bs"
  by (metis mset_bheap_merge set_mset_mset set_mset_union)

lemma forest_elems_merge [simp]: "forest_elems (bheap_merge as bs) = forest_elems as + forest_elems bs"
  by (metis forest_elems_mset forest_elems_simps(3) mset_append mset_bheap_merge)

text \<open>The input of the union loop: sorted by degree, no degree more than twice.\<close>

definition degrees_le2 :: "'v bheap_node list \<Rightarrow> bool" where
  "degrees_le2 ns \<longleftrightarrow> sorted (map degree ns) \<and> (\<forall>d. count (mset (map degree ns)) d \<le> 2)"

lemma sorted_bheap_merge:
  "sorted (map degree as) \<Longrightarrow> sorted (map degree bs) \<Longrightarrow> sorted (map degree (bheap_merge as bs))"
  by (induction as bs rule: bheap_merge.induct) fastforce+

lemma degrees_le2_merge:
  assumes "sorted_wrt (<) (map degree as)" "sorted_wrt (<) (map degree bs)"
  shows "degrees_le2 (bheap_merge as bs)"
proof -
  have "distinct (map degree as)" "distinct (map degree bs)"
    using assms strict_sorted_iff by blast+
  then have "count (mset (map degree as)) d \<le> 1" "count (mset (map degree bs)) d \<le> 1" for d
    by (simp_all add: distinct_count_atmost_1)
  then have "count (mset (map degree as)) d + count (mset (map degree bs)) d \<le> 2" for d
    by (metis add_mono one_add_one)
  then show ?thesis
    unfolding degrees_le2_def mset_map mset_bheap_merge image_mset_union count_union
    using assms sorted_bheap_merge strict_sorted_iff by blast
qed

lemma degrees_le2_tl:
  assumes "degrees_le2 (n # ns)"
  shows "degrees_le2 ns"
proof -
  have "count (mset (map degree ns)) d \<le> count (mset (map degree (n # ns))) d" for d
    by (simp del: mset_map)
  then show ?thesis
    using assms unfolding degrees_le2_def by (auto simp del: mset_map intro: order_trans)
qed

lemma forest_elems_union_loop [simp]: "forest_elems (bheap_union_loop hp ns) = forest_elems ns"
  by (induction hp ns rule: bheap_union_loop.induct) simp_all

lemma union_loop_lower:
  assumes "\<forall>n \<in> set ns. d \<le> degree n" "m \<in> set (bheap_union_loop hp ns)"
  shows "d \<le> degree m"
  using assms
  by (induction hp ns rule: bheap_union_loop.induct) (auto split: if_splits)

lemma union_loop_keep:
  "degree x \<noteq> degree nxt \<or> (rest \<noteq> [] \<and> degree (hd rest) = degree x) \<Longrightarrow>
     bheap_union_loop hp (x # nxt # rest) = x # bheap_union_loop hp (nxt # rest)"
  by (simp only: bheap_union_loop.simps if_True simp_thms)

lemma union_loop_link:
  "\<not> (degree x \<noteq> degree nxt \<or> (rest \<noteq> [] \<and> degree (hd rest) = degree x)) \<Longrightarrow>
     bheap_union_loop hp (x # nxt # rest) =
     bheap_union_loop hp
       ((if hp (bvalue x) (bvalue nxt) then bheap_link x nxt else bheap_link nxt x) # rest)"
  by (cases "hp (bvalue x) (bvalue nxt)") (simp_all only: bheap_union_loop.simps if_False if_True simp_thms)

declare bheap_union_loop.simps(3) [simp del]

lemma union_loop_strict:
  assumes "degrees_le2 (x # nxt # rest)" "degree x = degree nxt"
    "m \<in> set (bheap_union_loop hp (x # nxt # rest))"
  shows "degree x < degree m"
proof -
  have rest: "degree x < degree r" if "r \<in> set rest" for r
  proof -
    have "degree x \<le> degree r" using assms(1) that by (simp add: degrees_le2_def)
    moreover have "degree x \<noteq> degree r"
    proof
      assume "degree x = degree r"
      with that have "degree x \<in># mset (map degree rest)"
        by auto
      then have "0 < count (mset (map degree rest)) (degree x)"
        by (simp only: count_greater_zero_iff)
      then have "2 < count (mset (map degree (x # nxt # rest))) (degree x)"
        using assms(2) by (simp del: mset_map)
      then show False
        using assms(1) unfolding degrees_le2_def by (meson not_le)
    qed
    ultimately show ?thesis by simp
  qed
  define y where "y = (if hp (bvalue x) (bvalue nxt) then bheap_link x nxt else bheap_link nxt x)"
  have "\<not> (rest \<noteq> [] \<and> degree (hd rest) = degree x)"
    using rest hd_in_set by fastforce
  then have y: "bheap_union_loop hp (x # nxt # rest) = bheap_union_loop hp (y # rest)"
    "degree y = Suc (degree x)"
    using assms(2) union_loop_link [of x nxt rest hp] unfolding y_def by auto
  show ?thesis
    using union_loop_lower [of "y # rest" "Suc (degree x)" m hp] rest y assms(3)
    by (simp add: Suc_le_eq)
qed

lemma sorted_union_loop:
  assumes "degrees_le2 (tl ns)" "sorted (map degree ns)"
  shows "sorted_wrt (<) (map degree (bheap_union_loop hp ns))"
  using assms
proof (induction hp ns rule: bheap_union_loop.induct)
  case (3 hp x nxt rest)
  have tl: "degrees_le2 (nxt # rest)" "degrees_le2 rest" "sorted (map degree (nxt # rest))"
    using 3(4,5) degrees_le2_tl by auto
  show ?case
  proof (cases "degree x \<noteq> degree nxt \<or> (rest \<noteq> [] \<and> degree (hd rest) = degree x)")
    case True
    have "degree x < degree m" if m: "m \<in> set (bheap_union_loop hp (nxt # rest))" for m
    proof (cases "degree x = degree nxt")
      case True': True
      then obtain r rs where "rest = r # rs" "degree r = degree nxt"
        using True by (cases rest) auto
      then show ?thesis using union_loop_strict [of nxt r rs m hp] tl(1) m True' by simp
    next
      case False
      then have "\<forall>n \<in> set (nxt # rest). Suc (degree x) \<le> degree n"
        using 3(5) by (auto simp: Suc_le_eq)
      then show ?thesis using union_loop_lower m by fastforce
    qed
    then show ?thesis using 3(1) tl True by (simp add: union_loop_keep [OF True])
  next
    case False
    then have rest: "\<forall>r \<in> set rest. Suc (degree x) \<le> degree r"
      using tl by (cases rest) auto
    then show ?thesis
      unfolding union_loop_link [OF False] using 3(2,3) False tl by simp
  qed
qed simp_all

definition weak_order_on :: "'v set \<Rightarrow> ('v \<Rightarrow> 'v \<Rightarrow> bool) \<Rightarrow> bool" where
  "weak_order_on S hp \<longleftrightarrow>
     (\<forall>a \<in> S. \<forall>b \<in> S. hp a b \<longrightarrow> \<not> hp b a) \<and>
     (\<forall>a \<in> S. \<forall>b \<in> S. \<forall>c \<in> S. \<not> hp a b \<longrightarrow> \<not> hp b c \<longrightarrow> \<not> hp a c)"

lemma weak_order_asym: "weak_order_on S hp \<Longrightarrow> hp a b \<Longrightarrow> a \<in> S \<Longrightarrow> b \<in> S \<Longrightarrow> \<not> hp b a"
  unfolding weak_order_on_def by blast

lemma weak_order_irrefl: "weak_order_on S hp \<Longrightarrow> a \<in> S \<Longrightarrow> \<not> hp a a"
  unfolding weak_order_on_def by blast

lemma weak_order_ntrans:
  "weak_order_on S hp \<Longrightarrow> \<not> hp a b \<Longrightarrow> \<not> hp b c \<Longrightarrow> a \<in> S \<Longrightarrow> b \<in> S \<Longrightarrow> c \<in> S \<Longrightarrow> \<not> hp a c"
  unfolding weak_order_on_def by blast

lemma weak_order_mono: "weak_order_on S hp \<Longrightarrow> T \<subseteq> S \<Longrightarrow> weak_order_on T hp"
  unfolding weak_order_on_def by blast

lemma bheap_forest_simps [simp]:
  "bheap_forest hp []"
  "bheap_forest hp (n # ns) \<longleftrightarrow> binomial_tree n \<and> heap_ordered hp n \<and> bheap_forest hp ns"
  "bheap_forest hp (ns @ ms) \<longleftrightarrow> bheap_forest hp ns \<and> bheap_forest hp ms"
  "bheap_forest hp (rev ns) \<longleftrightarrow> bheap_forest hp ns"
  by (auto simp: bheap_forest_def)

lemma bheap_forest_set:
  "bheap_forest hp ns \<longleftrightarrow> (\<forall>n \<in> set ns. binomial_tree n \<and> heap_ordered hp n)"
  by (auto simp: bheap_forest_def list_all_iff)

lemma bheap_forest_child:
  "binomial_tree n \<Longrightarrow> heap_ordered hp n \<Longrightarrow> bheap_forest hp (child n)"
  by (cases n) (auto simp: bheap_forest_def list_all_iff)

lemma sorted_child: "binomial_tree n \<Longrightarrow> sorted_wrt (<) (map degree (rev (child n)))"
  by (cases n) (simp flip: rev_map)

lemma bheap_forest_union_loop:
  assumes "weak_order_on (set_mset (forest_elems ns)) hp" "bheap_forest hp ns"
  shows "bheap_forest hp (bheap_union_loop hp ns)"
  using assms
proof (induction hp ns rule: bheap_union_loop.induct)
  case (3 hp x nxt rest)
  have w: "weak_order_on (set_mset (forest_elems (nxt # rest))) hp"
    by (rule weak_order_mono [OF 3(4)]) auto
  have "\<not> hp (bvalue nxt) (bvalue x)" if "hp (bvalue x) (bvalue nxt)"
    using weak_order_asym [OF 3(4) that] by simp
  then show ?case
    using 3 w
    by (cases "degree x \<noteq> degree nxt \<or> (rest \<noteq> [] \<and> degree (hd rest) = degree x)")
      (simp_all add: union_loop_keep union_loop_link binomial_link heap_ordered_link Un_ac)
qed simp_all

lemma node_min:
  assumes "heap_ordered hp n" "weak_order_on S hp" "set_mset (node_elems n) \<subseteq> S" "x \<in># node_elems n"
  shows "\<not> hp x (bvalue n)"
  using assms
proof (induction n arbitrary: x)
  case (BNode d v cs)
  show ?case
  proof (cases "x = v")
    case True
    then show ?thesis using BNode.prems weak_order_irrefl by fastforce
  next
    case False
    then obtain c where c: "c \<in> set cs" "x \<in># node_elems c"
      using BNode.prems by (auto simp: in_forest_elems)
    have sub: "set_mset (node_elems c) \<subseteq> S"
      using BNode.prems(3) c by (fastforce simp: in_forest_elems)
    have "heap_ordered hp c" "\<not> hp (bvalue c) v"
      using BNode.prems c by (auto simp: list_all_iff)
    moreover have "\<not> hp x (bvalue c)"
      using BNode.IH c sub \<open>heap_ordered hp c\<close> BNode.prems(2) by blast
    ultimately show ?thesis
      using weak_order_ntrans [OF BNode.prems(2), of x "bvalue c" v] subsetD [OF sub] c BNode.prems(3)
      by simp
  qed
qed

section \<open>Correctness of the operations\<close>

definition roots_inv :: "('v \<Rightarrow> 'v \<Rightarrow> bool) \<Rightarrow> 'v bheap_node list \<Rightarrow> bool" where
  "roots_inv hp ns \<longleftrightarrow> bheap_forest hp ns \<and> sorted_wrt (<) (map degree ns)"

lemma bheap_inv_roots:
  "bheap_inv hp h \<longleftrightarrow>
     roots_inv hp (head h) \<and> (\<forall>m. bmin h = Some m \<longrightarrow> (\<forall>x \<in># forest_elems (head h). \<not> hp x m))"
  by (auto simp: bheap_inv_def roots_inv_def split: option.splits)

lemma union_roots_simps [simp]:
  "bmin (bheap_union_roots hp h ns) = bmin h"
  "forest_elems (head (bheap_union_roots hp h ns)) = forest_elems (head h) + forest_elems ns"
  by (auto simp: bheap_union_roots_def)

lemma union_roots_inv:
  assumes "weak_order_on (set_mset (forest_elems (head h) + forest_elems ns)) hp"
    "roots_inv hp (head h)" "roots_inv hp ns"
  shows "roots_inv hp (head (bheap_union_roots hp h ns))"
proof -
  have "degrees_le2 (bheap_merge (head h) ns)"
    using assms degrees_le2_merge unfolding roots_inv_def by blast
  moreover from this have "degrees_le2 (tl (bheap_merge (head h) ns))"
    by (cases "bheap_merge (head h) ns") (auto dest: degrees_le2_tl)
  moreover have "bheap_forest hp (bheap_merge (head h) ns)"
    using assms by (auto simp: roots_inv_def bheap_forest_set)
  ultimately have "roots_inv hp (bheap_union_loop hp (bheap_merge (head h) ns))"
    unfolding roots_inv_def
    using sorted_union_loop bheap_forest_union_loop assms(1)
    by (metis degrees_le2_def forest_elems_merge)
  then show ?thesis
    using assms by (simp add: bheap_union_roots_def)
qed

lemma roots_inv_singleton [simp]: "roots_inv hp [BNode 0 v []]"
  by (simp add: roots_inv_def)

lemma min_scan_sound:
  assumes "bheap_min_scan hp node at i rest = (m, k)" "weak_order_on S hp"
    "bvalue ` set (node # rest) \<subseteq> S"
  shows "(m, k) = (node, at) \<or> (\<exists>j < length rest. k = i + j \<and> m = rest ! j)"
    and "\<forall>c \<in> set (node # rest). \<not> hp (bvalue c) (bvalue m)"
proof -
  have "((m, k) = (node, at) \<or> (\<exists>j < length rest. k = i + j \<and> m = rest ! j)) \<and>
    (\<forall>c \<in> set (node # rest). \<not> hp (bvalue c) (bvalue m))"
    using assms
  proof (induction hp node at i rest rule: bheap_min_scan.induct)
    case (1 hp node at i)
    then show ?case using weak_order_irrefl [OF 1(2)] by auto
  next
    case (2 hp node at i cur rest)
    define b where "b = hp (bvalue cur) (bvalue node)"
    define node' where "node' = (if b then cur else node)"
    define at' where "at' = (if b then i else at)"
    have rec: "bheap_min_scan hp node' at' (i + 1) rest = (m, k)"
      using 2(3) by (simp add: node'_def at'_def b_def split: if_splits)
    have sub: "bvalue ` set (node' # rest) \<subseteq> S" and S: "bvalue cur \<in> S" "bvalue node \<in> S"
      using 2(5) by (auto simp: node'_def)
    have IH: "((m, k) = (node', at') \<or> (\<exists>j < length rest. k = i + 1 + j \<and> m = rest ! j)) \<and>
      (\<forall>c \<in> set (node' # rest). \<not> hp (bvalue c) (bvalue m))"
      using 2(1) [folded b_def] 2(2) [folded b_def] rec 2(4) sub unfolding node'_def at'_def
      by (cases b) (simp_all only: if_True if_False simp_thms True_implies_equals, blast+)
    have "m = node' \<or> m \<in> set rest"
      using IH by auto
    then have mem: "bvalue m \<in> S"
      using sub by auto
    have worse: "\<not> hp (bvalue c) (bvalue node')" "bvalue c \<in> S" if "c \<in> {cur, node}" for c
      using that S weak_order_irrefl [OF 2(4)] weak_order_asym [OF 2(4), of "bvalue cur" "bvalue node"]
      unfolding node'_def b_def by (auto split: if_splits)
    have "\<not> hp (bvalue node') (bvalue m)" "bvalue node' \<in> S"
      using IH sub by simp_all
    then have "\<not> hp (bvalue c) (bvalue m)" if "c \<in> {cur, node}" for c
      using weak_order_ntrans [OF 2(4) worse(1) [OF that], of "bvalue m"] mem worse(2) [OF that]
      by blast
    moreover have "(m, k) = (node, at) \<or> (\<exists>j < length (cur # rest). k = i + j \<and> m = (cur # rest) ! j)"
    proof (cases "(m, k) = (node', at')")
      case True
      then show ?thesis unfolding node'_def at'_def by (cases b) auto
    next
      case False
      then obtain j where "j < length rest" "k = i + 1 + j" "m = rest ! j"
        using IH by blast
      then show ?thesis by (intro disjI2 exI [of _ "j + 1"]) simp
    qed
    ultimately show ?case using IH by auto
  qed
  then show "(m, k) = (node, at) \<or> (\<exists>j < length rest. k = i + j \<and> m = rest ! j)"
    and "\<forall>c \<in> set (node # rest). \<not> hp (bvalue c) (bvalue m)" by blast+
qed

lemma bheap_min_None [simp]: "bheap_min hp ns = None \<longleftrightarrow> ns = []"
  by (cases ns) simp_all

lemma bheap_min_sound:
  assumes "bheap_min hp ns = Some (m, k)" "weak_order_on S hp" "set_mset (forest_elems ns) \<subseteq> S"
  shows "k < length ns" "m = ns ! k" "\<forall>c \<in> set ns. \<not> hp (bvalue c) (bvalue m)"
proof -
  obtain n rest where ns: "ns = n # rest"
    using assms(1) by (cases ns) auto
  have scan: "bheap_min_scan hp n 0 1 rest = (m, k)"
    using assms(1) ns by simp
  have vals: "bvalue ` set (n # rest) \<subseteq> S"
    using assms(3) bvalue_in_forest unfolding ns by blast
  note sound = min_scan_sound [OF scan assms(2) vals]
  show "k < length ns" "m = ns ! k"
    using sound(1) ns by auto
  show "\<forall>c \<in> set ns. \<not> hp (bvalue c) (bvalue m)"
    using sound(2) ns by simp
qed

lemma forest_elems_remove_at:
  "i < length ns \<Longrightarrow> forest_elems ns = forest_elems (bheap_remove_at i ns) + node_elems (ns ! i)"
  using id_take_nth_drop [of i ns] forest_elems_simps
  unfolding bheap_remove_at_def by (metis Suc_eq_plus1 union_assoc union_commute)

lemma roots_inv_remove_at:
  assumes "roots_inv hp ns"
  shows "roots_inv hp (bheap_remove_at i ns)"
proof (cases "i < length ns")
  case True
  have "roots_inv hp (take i ns @ ns ! i # drop (i + 1) ns)"
    using assms id_take_nth_drop [OF True] by simp
  then show ?thesis
    by (auto simp: roots_inv_def bheap_remove_at_def sorted_wrt_append)
qed (use assms in \<open>simp add: bheap_remove_at_def\<close>)

lemma roots_inv_children:
  assumes "roots_inv hp ns" "n \<in> set ns"
  shows "roots_inv hp (bheap_reverse (child n))"
  using assms bheap_forest_child sorted_child
  unfolding roots_inv_def bheap_reverse_def by (metis bheap_forest_set bheap_forest_simps(4))

lemma bheap_elems_simps [simp]:
  "bheap_elems (h\<lparr>bmin := None\<rparr>) = forest_elems (head h)"
  "bheap_elems (h\<lparr>bmin := Some v\<rparr>) = add_mset v (forest_elems (head h))"
  by (simp_all add: bheap_elems_def)

text \<open>Taking the best root out of a heap without cached minimum.\<close>

lemma extract_min_None: "fst (bheap_extract_min hp h) = None \<longleftrightarrow> head h = []"
  by (cases "head h") (auto simp: bheap_extract_min_def split: prod.splits)

lemma extract_min_Some:
  assumes "bheap_extract_min hp h = (Some v, h')" "roots_inv hp (head h)"
    "weak_order_on S hp" "set_mset (forest_elems (head h)) \<subseteq> S"
  shows "forest_elems (head h) = add_mset v (forest_elems (head h'))" "bmin h' = bmin h"
    "roots_inv hp (head h')" "\<forall>x \<in># forest_elems (head h). \<not> hp x v"
proof -
  obtain node at where min: "bheap_min hp (head h) = Some (node, at)"
    using assms(1) by (auto simp: bheap_extract_min_def split: option.splits prod.splits)
  then have v: "v = bvalue node" and h': "h' = bheap_union_roots hp
      (h\<lparr>head := bheap_remove_at at (head h)\<rparr>) (bheap_reverse (child node))"
    using assms(1) by (auto simp: bheap_extract_min_def)
  note sound = bheap_min_sound [OF min assms(3,4)]
  have split: "forest_elems (head h) = forest_elems (bheap_remove_at at (head h)) + node_elems node"
    using forest_elems_remove_at [OF sound(1)] sound(2) by simp
  then show *: "forest_elems (head h) = add_mset v (forest_elems (head h'))"
    by (simp add: h' v node_elems_child [of node] bheap_reverse_def)
  show "bmin h' = bmin h" by (simp add: h')
  have node: "node \<in> set (head h)" using sound by simp
  have "weak_order_on (set_mset (forest_elems (bheap_remove_at at (head h)) +
      forest_elems (bheap_reverse (child node)))) hp"
    by (rule weak_order_mono [OF assms(3)])
      (use assms(4) split node_elems_child [of node] in \<open>auto simp: bheap_reverse_def\<close>)
  then show "roots_inv hp (head h')"
    unfolding h' using roots_inv_remove_at roots_inv_children assms(2) node
    by (intro union_roots_inv) simp_all
  show "\<forall>x \<in># forest_elems (head h). \<not> hp x v"
  proof
    fix x assume x: "x \<in># forest_elems (head h)"
    then obtain n where n: "n \<in> set (head h)" "x \<in># node_elems n"
      by (auto simp: in_forest_elems)
    have sub: "set_mset (node_elems n) \<subseteq> S"
      using node_elems_subset [OF n(1)] assms(4) by blast
    have "heap_ordered hp n"
      using assms(2) n by (simp add: roots_inv_def bheap_forest_set)
    then have "\<not> hp x (bvalue n)" using node_min [OF _ assms(3) sub n(2)] by simp
    moreover have "\<not> hp (bvalue n) v" using sound(3) n v by simp
    moreover have "x \<in> S" "bvalue n \<in> S" "v \<in> S"
      using x assms(4) bvalue_in_forest [OF n(1)] bvalue_in_forest [OF node] v by auto
    ultimately show "\<not> hp x v" using weak_order_ntrans [OF assms(3)] by blast
  qed
qed

definition bheap_caches_min :: "('v \<Rightarrow> 'v \<Rightarrow> bool) \<Rightarrow> 'v bheap \<Rightarrow> 'v bheap" where
  "bheap_caches_min hp h =
     (if bmin h = None then (let (m, h') = bheap_extract_min hp h in h'\<lparr>bmin := m\<rparr>) else h)"

lemma peek_take_caches_min:
  "bheap_peek hp h = (bmin (bheap_caches_min hp h), bheap_caches_min hp h)"
  "bheap_take hp h = (bmin (bheap_caches_min hp h), (bheap_caches_min hp h)\<lparr>bmin := None\<rparr>)"
  by (simp_all add: bheap_peek_def bheap_take_def bheap_caches_min_def Let_def)

lemma caches_min:
  assumes "bheap_inv hp h" "weak_order_on S hp" "set_mset (bheap_elems h) \<subseteq> S"
  shows "bheap_elems (bheap_caches_min hp h) = bheap_elems h"
    "bheap_inv hp (bheap_caches_min hp h)"
    "bmin (bheap_caches_min hp h) = None \<longleftrightarrow> bheap_elems h = {#}"
proof -
  have "bheap_elems (bheap_caches_min hp h) = bheap_elems h \<and> bheap_inv hp (bheap_caches_min hp h) \<and>
    (bmin (bheap_caches_min hp h) = None \<longleftrightarrow> bheap_elems h = {#})"
  proof (cases "bmin h")
    case None
    obtain m h' where ex: "bheap_extract_min hp h = (m, h')" by fastforce
    show ?thesis
    proof (cases m)
      case m: None
      then have "head h = []" using extract_min_None [of hp h] ex by simp
      then have "bheap_caches_min hp h = h"
        using None by (simp add: bheap_caches_min_def bheap_extract_min_def)
      then show ?thesis using assms(1) None \<open>head h = []\<close> by (simp add: bheap_elems_def)
    next
      case (Some v)
      have inv: "roots_inv hp (head h)" and sub: "set_mset (forest_elems (head h)) \<subseteq> S"
        using assms None by (auto simp: bheap_inv_roots bheap_elems_def)
      note * = extract_min_Some [OF ex [unfolded Some] inv assms(2) sub]
      have "bheap_caches_min hp h = h'\<lparr>bmin := Some v\<rparr>"
        using None ex Some by (simp add: bheap_caches_min_def)
      then show ?thesis
        using * None by (auto simp: bheap_inv_roots bheap_elems_def)
    qed
  next
    case (Some m)
    then show ?thesis using assms(1) by (simp add: bheap_caches_min_def bheap_elems_def)
  qed
  then show "bheap_elems (bheap_caches_min hp h) = bheap_elems h"
    "bheap_inv hp (bheap_caches_min hp h)"
    "bmin (bheap_caches_min hp h) = None \<longleftrightarrow> bheap_elems h = {#}" by blast+
qed

lemma cached_min_best:
  assumes "bheap_inv hp h" "weak_order_on S hp" "set_mset (bheap_elems h) \<subseteq> S" "bmin h = Some v"
  shows "v \<in># bheap_elems h" "\<forall>x \<in># bheap_elems h. \<not> hp x v"
    "bheap_elems (h\<lparr>bmin := None\<rparr>) = bheap_elems h - {#v#}" "bheap_inv hp (h\<lparr>bmin := None\<rparr>)"
  using assms weak_order_irrefl [OF assms(2), of v]
  by (auto simp: bheap_inv_roots bheap_elems_def)

lemma insert_elems: "bheap_elems (bheap_insert hp h v) = add_mset v (bheap_elems h)"
  by (auto simp: bheap_insert_def bheap_elems_def split: option.splits)

lemma insert_inv:
  assumes "bheap_inv hp h" "weak_order_on S hp" "set_mset (bheap_elems h) \<subseteq> S" "v \<in> S"
  shows "bheap_inv hp (bheap_insert hp h v)"
proof -
  have roots: "roots_inv hp (head (bheap_union_roots hp h [BNode 0 w []]))"
    if "w \<in> S" for w
    using assms(1,3) that
    by (intro union_roots_inv weak_order_mono [OF assms(2)])
      (auto simp: bheap_inv_roots bheap_elems_def)
  show ?thesis
  proof (cases "bmin h")
    case None
    then show ?thesis
      using roots [OF assms(4)] by (simp add: bheap_insert_def bheap_inv_roots)
  next
    case (Some m)
    have m: "m \<in> S" using assms(3) Some by (simp add: bheap_elems_def)
    have min: "\<not> hp x m" if "x \<in># forest_elems (head h)" for x
      using assms(1) Some that by (simp add: bheap_inv_roots)
    show ?thesis
    proof (cases "hp v m")
      case True
      then have "\<not> hp m v" using weak_order_asym [OF assms(2)] assms(4) m by blast
      moreover from this have "\<not> hp x v" if "x \<in># forest_elems (head h)" for x
        using weak_order_ntrans [OF assms(2) min [OF that], of v] that assms(3,4) m
        by (auto simp: bheap_elems_def)
      ultimately show ?thesis
        using roots [OF m] True Some by (auto simp: bheap_insert_def bheap_inv_roots)
    next
      case False
      then show ?thesis
        using roots [OF assms(4)] min Some by (auto simp: bheap_insert_def bheap_inv_roots)
    qed
  qed
qed

lemma uncache_min:
  "bheap_elems (bheap_uncache_min hp h) = bheap_elems h"
  "bmin (bheap_uncache_min hp h) = None"
  by (auto simp: bheap_uncache_min_def insert_elems bheap_elems_def bheap_insert_def split: option.splits)

lemma uncache_min_inv:
  assumes "bheap_inv hp h" "weak_order_on S hp" "set_mset (bheap_elems h) \<subseteq> S"
  shows "bheap_inv hp (bheap_uncache_min hp h)"
proof (cases "bmin h")
  case (Some m)
  then have "m \<in> S" "set_mset (bheap_elems (h\<lparr>bmin := None\<rparr>)) \<subseteq> S" "bheap_inv hp (h\<lparr>bmin := None\<rparr>)"
    using assms(1,3) by (auto simp: bheap_elems_def bheap_inv_roots)
  then show ?thesis
    unfolding bheap_uncache_min_def
    using Some insert_inv [OF _ assms(2), of "h\<lparr>bmin := None\<rparr>" m] by simp
qed (use assms in \<open>simp add: bheap_uncache_min_def\<close>)

lemma union_elems:
  assumes "bheap_union hp t a = (t', a')"
  shows "bheap_elems t' = bheap_elems t + bheap_elems a" "a' = bheap_init"
proof -
  have heads: "forest_elems (head (bheap_uncache_min hp x)) = bheap_elems x" for x :: "'a bheap"
    using uncache_min [of hp x] by (simp add: bheap_elems_def)
  show "bheap_elems t' = bheap_elems t + bheap_elems a"
    using assms by (auto simp: bheap_union_def Let_def bheap_elems_def [of t'] uncache_min heads)
  show "a' = bheap_init"
    using assms uncache_min(2) [of hp a] by (auto simp: bheap_union_def Let_def bheap_init_def)
qed

lemma union_inv:
  assumes "bheap_union hp t a = (t', a')" "bheap_inv hp t" "bheap_inv hp a"
    "weak_order_on S hp" "set_mset (bheap_elems t + bheap_elems a) \<subseteq> S"
  shows "bheap_inv hp t'"
proof -
  let ?t = "bheap_uncache_min hp t" and ?a = "bheap_uncache_min hp a"
  have roots: "roots_inv hp (head ?t)" "roots_inv hp (head ?a)"
    using uncache_min_inv [OF _ assms(4)] assms(2,3,5) by (auto simp: bheap_inv_roots)
  have heads: "forest_elems (head (bheap_uncache_min hp x)) = bheap_elems x" for x :: "'a bheap"
    using uncache_min [of hp x] by (simp add: bheap_elems_def)
  have "roots_inv hp (head (bheap_union_roots hp ?t (head ?a)))"
    using roots heads assms(5) by (intro union_roots_inv weak_order_mono [OF assms(4)]) simp_all
  then show ?thesis
    using assms(1) uncache_min(2) [of hp t] by (auto simp: bheap_union_def Let_def bheap_inv_roots)
qed

lemma set_value_simps [simp]:
  "degree (bheap_set_value w n) = degree n"
  "bvalue (bheap_set_value w n) = w"
  "child (bheap_set_value w n) = child n"
  "binomial_tree (bheap_set_value w n) \<longleftrightarrow> binomial_tree n"
  by (cases n; simp)+

lemma set_value_elems: "add_mset (bvalue n) (node_elems (bheap_set_value w n)) = add_mset w (node_elems n)"
  by (cases n) simp

text \<open>Bubbling keeps the shape and the values, and finds a value exactly if it is there.\<close>

lemma bubble_shape:
  "bheap_bubble hp v n = Some (n', up) \<Longrightarrow>
     degree n' = degree n \<and> (binomial_tree n' \<longleftrightarrow> binomial_tree n) \<and> node_elems n' = node_elems n \<and>
     bvalue n' = (if up then v else bvalue n)"
  "bheap_bubble_list hp v w ns = Some (ns', up) \<Longrightarrow>
     map degree ns' = map degree ns \<and> (list_all binomial_tree ns' \<longleftrightarrow> list_all binomial_tree ns) \<and>
     (if up then add_mset v (forest_elems ns') = add_mset w (forest_elems ns)
      else forest_elems ns' = forest_elems ns)"
proof (induction hp v n and hp v w ns arbitrary: n' up and ns' up
    rule: bheap_bubble_bheap_bubble_list.induct)
  case (1 hp v d w cs)
  show ?case
  proof (cases "w = v")
    case True
    then show ?thesis using 1(2) by auto
  next
    case False
    then obtain cs' where cs': "bheap_bubble_list hp v w cs = Some (cs', up)"
      "n' = BNode d (if up then v else w) cs'"
      using 1(2) by (cases "bheap_bubble_list hp v w cs") auto
    then show ?thesis using 1(1) [OF False cs'(1)] by (cases up) simp_all
  qed
next
  case (3 hp v w n ns)
  show ?case
  proof (cases "bheap_bubble hp v n")
    case None
    then obtain ns1 where ns1: "bheap_bubble_list hp v w ns = Some (ns1, up)" "ns' = n # ns1"
      using 3(3) by (cases "bheap_bubble_list hp v w ns") auto
    have "map degree ns1 = map degree ns" "list_all binomial_tree ns1 = list_all binomial_tree ns"
      "if up then add_mset v (forest_elems ns1) = add_mset w (forest_elems ns)
       else forest_elems ns1 = forest_elems ns"
      using 3(2) [OF None ns1(1)] by simp_all
    then show ?thesis unfolding ns1(2) by (cases up) (simp_all flip: union_mset_add_mset_right)
  next
    case (Some a)
    then obtain n1 u where n1: "bheap_bubble hp v n = Some (n1, u)" by (cases a) auto
    note IH = 3(1) [OF n1]
    show ?thesis
    proof (cases "u \<and> hp v w")
      case True
      then have ns': "ns' = bheap_set_value w n1 # ns" "up" using 3(3) n1 by simp_all
      have "add_mset v (node_elems (bheap_set_value w n1)) = add_mset w (node_elems n)"
        using set_value_elems [of n1 w] IH True by simp
      then have "add_mset v (node_elems (bheap_set_value w n1) + forest_elems ns) =
        add_mset w (node_elems n + forest_elems ns)"
        by (metis union_mset_add_mset_left)
      then show ?thesis using IH unfolding ns'(1) by (simp add: ns'(2))
    next
      case False
      then have "ns' = n1 # ns" "\<not> up" using 3(3) n1 by auto
      then show ?thesis using IH by simp
    qed
  qed
qed auto

lemma bubble_None:
  "bheap_bubble hp v n = None \<longleftrightarrow> v \<notin># node_elems n"
  "bheap_bubble_list hp v w ns = None \<longleftrightarrow> v \<notin># forest_elems ns"
  by (induction hp v n and hp v w ns rule: bheap_bubble_bheap_bubble_list.induct)
    (auto split: option.splits)

text \<open>
  Bubbling to the top in any case leaves a tree that is heap ordered below its root, for every
  value \<open>w\<close> that the old root value may be a child of.
\<close>

lemma bubble_top_ordered:
  "bheap_bubble (\<lambda>_ _. True) v n = Some (n', up) \<Longrightarrow> weak_order_on S hp \<Longrightarrow>
     set_mset (node_elems n) \<subseteq> S \<Longrightarrow> heap_ordered hp n \<Longrightarrow> w \<in> S \<Longrightarrow> \<not> hp (bvalue n) w \<Longrightarrow>
     up \<and> heap_ordered hp (bheap_set_value w n')"
  "bheap_bubble_list (\<lambda>_ _. True) v u ns = Some (ns', up) \<Longrightarrow> weak_order_on S hp \<Longrightarrow>
     set_mset (forest_elems ns) \<subseteq> S \<Longrightarrow> u \<in> S \<Longrightarrow>
     list_all (\<lambda>c. heap_ordered hp c \<and> \<not> hp (bvalue c) u) ns \<Longrightarrow> w \<in> S \<Longrightarrow> \<not> hp u w \<Longrightarrow>
     up \<and> list_all (\<lambda>c. heap_ordered hp c \<and> \<not> hp (bvalue c) w) ns'"
proof (induction "\<lambda>(_ :: 'a) (_ :: 'a). True" v n and "\<lambda>(_ :: 'a) (_ :: 'a). True" v u ns arbitrary: n' up w and ns' up w
    rule: bheap_bubble_bheap_bubble_list.induct)
  case (1 v d x cs)
  have ntr: "\<not> hp (bvalue c) w" if "c \<in> set cs" "\<not> hp (bvalue c) x" for c
    using weak_order_ntrans [OF 1(3) that(2) 1(7) [simplified]] bvalue_in_forest [OF that(1)] 1(4,6)
    by auto
  show ?case
  proof (cases "x = v")
    case True
    then show ?thesis using 1(2,5) ntr by (auto simp: list_all_iff)
  next
    case False
    then obtain cs' b where cs': "bheap_bubble_list (\<lambda>_ _. True) v x cs = Some (cs', b)"
      "n' = BNode d (if b then v else x) cs'" "up = b"
      using 1(2) by (auto split: option.splits)
    have "b \<and> list_all (\<lambda>c. heap_ordered hp c \<and> \<not> hp (bvalue c) w) cs'"
      using 1(1) [OF False cs'(1) 1(3)] 1(4-7) by simp
    then show ?thesis using cs' by simp
  qed
next
  case (3 v u n ns)
  have ntr: "\<not> hp (bvalue c) w" if "c \<in> set (n # ns)" for c
    using weak_order_ntrans [OF 3(4), of "bvalue c" u w] bvalue_in_forest [OF that] that 3(5-9)
    by (auto simp: list_all_iff)
  show ?case
  proof (cases "bheap_bubble (\<lambda>_ _. True) v n")
    case None
    then obtain ns1 where ns1: "bheap_bubble_list (\<lambda>_ _. True) v u ns = Some (ns1, up)" "ns' = n # ns1"
      using 3(3) by (auto split: option.splits)
    then show ?thesis using 3(2) [OF None ns1(1) 3(4)] 3(5-9) ntr [of n] by simp
  next
    case (Some a)
    then obtain n1 t where n1: "bheap_bubble (\<lambda>_ _. True) v n = Some (n1, t)" by (cases a) auto
    have "t \<and> heap_ordered hp (bheap_set_value u n1)"
      using 3(1) [OF n1 3(4)] 3(5-9) by simp
    then show ?thesis using 3(3,7,9) n1 ntr by (auto simp: list_all_iff)
  qed
qed simp_all

lemma bubble_roots_None: "bheap_bubble_roots hp v ns = None \<longleftrightarrow> v \<notin># forest_elems ns"
  by (induction ns) (auto simp flip: bubble_None(1) [of hp] split: option.splits)

lemma bubble_roots_Some:
  "bheap_bubble_roots hp v ns = Some (ns', up, i) \<Longrightarrow>
     i < length ns \<and> (\<exists>n'. ns' = ns[i := n'] \<and> bheap_bubble hp v (ns ! i) = Some (n', up))"
  by (induction ns arbitrary: ns' i) (auto split: option.splits)

lemma remove_at_update [simp]: "bheap_remove_at i (ns[i := n]) = bheap_remove_at i ns"
  by (simp add: bheap_remove_at_def)

lemma delete_None: "bheap_delete hp h v = None \<longleftrightarrow> v \<notin># bheap_elems h"
  using bubble_roots_None [of "\<lambda>_ _. True" v "head h"]
  by (auto simp: bheap_delete_def bheap_elems_def split: option.splits)

lemma delete_Some:
  assumes "bheap_delete hp h v = Some h'" "bheap_inv hp h" "weak_order_on S hp"
    "set_mset (bheap_elems h) \<subseteq> S"
  shows "bheap_elems h = add_mset v (bheap_elems h')" "bheap_inv hp h'"
proof -
  have "bheap_elems h = add_mset v (bheap_elems h') \<and> bheap_inv hp h'"
  proof (cases "bmin h = Some v")
    case True
    then show ?thesis using assms(1,2) by (auto simp: bheap_delete_def bheap_elems_def bheap_inv_roots)
  next
    case False
    then obtain ns up i where ns: "bheap_bubble_roots (\<lambda>_ _. True) v (head h) = Some (ns, up, i)"
      and h': "h' = bheap_union_roots hp (h\<lparr>head := bheap_remove_at i ns\<rparr>)
                      (bheap_reverse (child (ns ! i)))"
      using assms(1) by (auto simp: bheap_delete_def split: option.splits)
    obtain n' where i: "i < length (head h)" "ns = (head h)[i := n']"
      and n': "bheap_bubble (\<lambda>_ _. True) v (head h ! i) = Some (n', up)"
      using bubble_roots_Some [OF ns] by blast
    define n where "n = head h ! i"
    have n: "n \<in> set (head h)" "binomial_tree n" "heap_ordered hp n"
      using assms(2) i by (auto simp: n_def bheap_inv_roots roots_inv_def bheap_forest_set)
    have sub: "set_mset (node_elems n) \<subseteq> S" "set_mset (forest_elems (head h)) \<subseteq> S"
      using node_elems_subset [OF n(1)] assms(4) by (auto simp: bheap_elems_def)
    have "bvalue n \<in> S" using bvalue_in_elems [of n] sub by blast
    then have top: "up" "heap_ordered hp (bheap_set_value (bvalue n) n')"
      using bubble_top_ordered(1) [OF n'[folded n_def] assms(3) sub(1) n(3)] weak_order_irrefl [OF assms(3)]
      by blast+
    note shape = bubble_shape(1) [OF n'[folded n_def]]
    have elems: "node_elems n = add_mset v (forest_elems (child n'))"
      using shape top(1) node_elems_child [of n'] by metis
    have split: "forest_elems (head h) =
        add_mset v (forest_elems (bheap_remove_at i (head h)) + forest_elems (child n'))"
      using forest_elems_remove_at [OF i(1)] elems by (simp add: n_def)
    have h': "h' = bheap_union_roots hp (h\<lparr>head := bheap_remove_at i (head h)\<rparr>) (rev (child n'))"
      using h' i by (simp add: bheap_reverse_def)
    have "roots_inv hp (rev (child n'))"
      using bheap_forest_child [OF _ top(2)] sorted_child [of n'] shape n(2)
      by (simp add: roots_inv_def)
    moreover have "roots_inv hp (bheap_remove_at i (head h))"
      using assms(2) by (simp add: bheap_inv_roots roots_inv_remove_at)
    ultimately have "roots_inv hp (head h')"
      unfolding h' using split sub(2)
      by (intro union_roots_inv weak_order_mono [OF assms(3)]) simp_all
    then show ?thesis
      using split assms(2) unfolding h' by (auto simp: bheap_inv_roots bheap_elems_def)
  qed
  then show "bheap_elems h = add_mset v (bheap_elems h')" "bheap_inv hp h'" by blast+
qed

text \<open>
  Deleting a value compares other values only, so it may be done after the priority of the value has
  changed.
\<close>

lemma bubble_top:
  "bheap_bubble hp v n = Some (n', up) \<Longrightarrow> hp = (\<lambda>_ _. True) \<Longrightarrow> up"
  "bheap_bubble_list hp v w ns = Some (ns', up) \<Longrightarrow> hp = (\<lambda>_ _. True) \<Longrightarrow> up"
  by (induction hp v n and hp v w ns arbitrary: n' up and ns' up
      rule: bheap_bubble_bheap_bubble_list.induct) (auto split: if_splits option.splits prod.splits)

lemma union_loop_cong:
  "(\<And>x y. x \<in># forest_elems ns \<Longrightarrow> y \<in># forest_elems ns \<Longrightarrow> hp x y = hp' x y) \<Longrightarrow>
    bheap_union_loop hp ns = bheap_union_loop hp' ns"
proof (induction hp ns rule: bheap_union_loop.induct)
  case (3 hp x nxt rest)
  have hp: "hp (bvalue x) (bvalue nxt) = hp' (bvalue x) (bvalue nxt)" by (rule 3(4)) simp_all
  show ?case
  proof (cases "degree x \<noteq> degree nxt \<or> rest \<noteq> [] \<and> degree (hd rest) = degree x")
    case True
    have "bheap_union_loop hp (nxt # rest) = bheap_union_loop hp' (nxt # rest)"
      by (rule 3(1) [OF True]) (rule 3(4), auto)
    then show ?thesis using True by (simp only: bheap_union_loop.simps if_True)
  next
    case False
    have "bheap_union_loop hp (bheap_link x nxt # rest) = bheap_union_loop hp' (bheap_link x nxt # rest)"
      if "hp (bvalue x) (bvalue nxt)" by (rule 3(2) [OF False that]) (rule 3(4), auto)
    moreover have "bheap_union_loop hp (bheap_link nxt x # rest) = bheap_union_loop hp' (bheap_link nxt x # rest)"
      if "\<not> hp (bvalue x) (bvalue nxt)" by (rule 3(3) [OF False that]) (rule 3(4), auto)
    ultimately show ?thesis using False hp by (simp only: bheap_union_loop.simps if_False split: if_split) blast
  qed
qed simp_all

lemma delete_cong:
  assumes "\<And>x y. x \<in># bheap_elems h - {#v#} \<Longrightarrow> y \<in># bheap_elems h - {#v#} \<Longrightarrow> hp x y = hp' x y"
  shows "bheap_delete hp h v = bheap_delete hp' h v"
proof (cases "bmin h \<noteq> Some v \<and> bheap_bubble_roots (\<lambda>_ _. True) v (head h) \<noteq> None")
  case True
  then obtain ns up i where ns: "bheap_bubble_roots (\<lambda>_ _. True) v (head h) = Some (ns, up, i)" by auto
  obtain n' where i: "i < length (head h)" "ns = (head h)[i := n']"
    and n': "bheap_bubble (\<lambda>_ _. True) v (head h ! i) = Some (n', up)"
    using bubble_roots_Some [OF ns] by blast
  have "node_elems (head h ! i) = add_mset v (forest_elems (child n'))"
    using bubble_shape(1) [OF n'] bubble_top(1) [OF n' refl] node_elems_child [of n'] by metis
  then have "forest_elems (head h) = add_mset v (forest_elems (bheap_remove_at i (head h)) + forest_elems (child n'))"
    using forest_elems_remove_at [OF i(1)] by simp
  then have sub: "x \<in># bheap_elems h - {#v#}"
    if "x \<in># forest_elems (bheap_merge (bheap_remove_at i (head h)) (rev (child n')))" for x
    using that by (auto simp: bheap_elems_def)
  have "bheap_union_loop hp (bheap_merge (bheap_remove_at i (head h)) (rev (child n'))) =
      bheap_union_loop hp' (bheap_merge (bheap_remove_at i (head h)) (rev (child n')))"
    by (rule union_loop_cong) (use sub assms in blast)
  then show ?thesis using True ns i by (simp add: bheap_delete_def bheap_union_roots_def bheap_reverse_def)
qed (auto simp: bheap_delete_def split: option.splits)

lemma decrease_elems:
  assumes "bheap_decrease hp h v = Some (b, h')"
  shows "bheap_elems h' = bheap_elems h" "bmin h' = bmin h" "map degree (head h') = map degree (head h)"
proof -
  have "bheap_elems h' = bheap_elems h \<and> bmin h' = bmin h \<and> map degree (head h') = map degree (head h)"
  proof (cases "bmin h = Some v")
    case False
    then obtain ns up i where ns: "bheap_bubble_roots hp v (head h) = Some (ns, up, i)"
      "h' = h\<lparr>head := ns\<rparr>"
      using assms by (auto simp: bheap_decrease_def split: option.splits)
    then obtain n' where i: "i < length (head h)" "ns = (head h)[i := n']"
      "bheap_bubble hp v (head h ! i) = Some (n', up)"
      using bubble_roots_Some [OF ns(1)] by blast
    note shape = bubble_shape(1) [OF i(3)]
    have "forest_elems ns = forest_elems (bheap_remove_at i ns) + node_elems (ns ! i)"
      using i by (intro forest_elems_remove_at) simp
    also have "\<dots> = forest_elems (bheap_remove_at i (head h)) + node_elems (head h ! i)"
      using i(1) shape unfolding i(2) by simp
    also have "\<dots> = forest_elems (head h)"
      by (rule forest_elems_remove_at [OF i(1), symmetric])
    finally have "forest_elems ns = forest_elems (head h)" .
    moreover have "map degree ns = map degree (head h)"
      using i(1) shape unfolding i(2) by (simp add: map_update list_update_same_conv)
    ultimately show ?thesis using ns(2) by (simp add: bheap_elems_def)
  qed (use assms in \<open>simp add: bheap_decrease_def\<close>)
  then show "bheap_elems h' = bheap_elems h" "bmin h' = bmin h"
    "map degree (head h') = map degree (head h)" by blast+
qed

lemma bheap_inv_cong:
  assumes "\<And>a b. a \<in># bheap_elems h \<Longrightarrow> b \<in># bheap_elems h \<Longrightarrow> hp a b = hp' a b"
  shows "bheap_inv hp h = bheap_inv hp' h"
proof -
  have node: "heap_ordered hp n = heap_ordered hp' n"
    if "\<And>a b. a \<in># node_elems n \<Longrightarrow> b \<in># node_elems n \<Longrightarrow> hp a b = hp' a b" for n
    using that
  proof (induction n)
    case (BNode d v cs)
    have "heap_ordered hp c = heap_ordered hp' c \<and> hp (bvalue c) v = hp' (bvalue c) v"
      if "c \<in> set cs" for c
    proof
      show "heap_ordered hp c = heap_ordered hp' c"
        by (rule BNode.IH [OF that]) (use node_elems_subset [OF that] BNode.prems in auto)
      show "hp (bvalue c) v = hp' (bvalue c) v"
        by (rule BNode.prems) (use bvalue_in_forest [OF that] in auto)
    qed
    then show ?case by (simp add: list_all_iff)
  qed
  have sub: "set_mset (forest_elems (head h)) \<subseteq> set_mset (bheap_elems h)"
    by (simp add: bheap_elems_def)
  then have "heap_ordered hp n = heap_ordered hp' n" if "n \<in> set (head h)" for n
    using node node_elems_subset [OF that] assms by (meson subset_iff)
  moreover have "hp x m = hp' x m" if "bmin h = Some m" "x \<in># forest_elems (head h)" for x m
    using that sub assms [of x m] by (simp add: bheap_elems_def)
  ultimately show ?thesis by (auto simp: bheap_inv_def bheap_forest_set split: option.splits)
qed

section \<open>The priority queue the schedulers rely on\<close>

text \<open>
  What \<^verbatim>\<open>rt_domain.c\<close> and the plugins assume of a queue: every operation is a multiset operation,
  \<open>peek\<close> and \<open>take\<close> deliver an element that no other one beats, and the invariant only depends
  on the comparison of the stored elements.
\<close>

locale prio_queue =
  fixes elems :: "'q \<Rightarrow> 'v multiset"
    and inv :: "('v \<Rightarrow> 'v \<Rightarrow> bool) \<Rightarrow> 'q \<Rightarrow> bool"
    and empty :: 'q
    and is_empty :: "'q \<Rightarrow> bool"
    and ins :: "('v \<Rightarrow> 'v \<Rightarrow> bool) \<Rightarrow> 'q \<Rightarrow> 'v \<Rightarrow> 'q"
    and join :: "('v \<Rightarrow> 'v \<Rightarrow> bool) \<Rightarrow> 'q \<Rightarrow> 'q \<Rightarrow> 'q \<times> 'q"
    and peek :: "('v \<Rightarrow> 'v \<Rightarrow> bool) \<Rightarrow> 'q \<Rightarrow> 'v option \<times> 'q"
    and pop :: "('v \<Rightarrow> 'v \<Rightarrow> bool) \<Rightarrow> 'q \<Rightarrow> 'v option \<times> 'q"
    and del :: "('v \<Rightarrow> 'v \<Rightarrow> bool) \<Rightarrow> 'q \<Rightarrow> 'v \<Rightarrow> 'q option"
  assumes empty_elems: "elems empty = {#}" and empty_inv: "inv hp empty"
    and is_empty_iff: "is_empty q \<longleftrightarrow> elems q = {#}"
    and ins_elems: "elems (ins hp q v) = add_mset v (elems q)"
    and ins_inv: "inv hp q \<Longrightarrow> weak_order_on (insert v (set_mset (elems q))) hp \<Longrightarrow> inv hp (ins hp q v)"
    and join_elems: "join hp q p = (q', p') \<Longrightarrow> elems q' = elems q + elems p \<and> p' = empty"
    and join_inv: "join hp q p = (q', p') \<Longrightarrow> inv hp q \<Longrightarrow> inv hp p \<Longrightarrow>
      weak_order_on (set_mset (elems q + elems p)) hp \<Longrightarrow> inv hp q'"
    and peek_spec: "peek hp q = (r, q') \<Longrightarrow> inv hp q \<Longrightarrow> weak_order_on (set_mset (elems q)) hp \<Longrightarrow>
      elems q' = elems q \<and> inv hp q' \<and> (r = None \<longleftrightarrow> elems q = {#}) \<and>
      (\<forall>v. r = Some v \<longrightarrow> v \<in># elems q \<and> (\<forall>x \<in># elems q. \<not> hp x v))"
    and pop_spec: "pop hp q = (r, q') \<Longrightarrow> inv hp q \<Longrightarrow> weak_order_on (set_mset (elems q)) hp \<Longrightarrow>
      inv hp q' \<and> (r = None \<longleftrightarrow> elems q = {#}) \<and> (r = None \<longrightarrow> elems q' = {#}) \<and>
      (\<forall>v. r = Some v \<longrightarrow>
         v \<in># elems q \<and> (\<forall>x \<in># elems q. \<not> hp x v) \<and> elems q' = elems q - {#v#})"
    and peek_pop: "fst (pop hp (snd (peek hp q))) = fst (peek hp q)"
    and del_None: "del hp q v = None \<longleftrightarrow> v \<notin># elems q"
    and del_spec: "del hp q v = Some q' \<Longrightarrow> inv hp q \<Longrightarrow> weak_order_on (set_mset (elems q)) hp \<Longrightarrow>
      elems q' = elems q - {#v#} \<and> inv hp q'"
    and inv_cong: "(\<And>a b. a \<in># elems q \<Longrightarrow> b \<in># elems q \<Longrightarrow> hp a b = hp' a b) \<Longrightarrow>
      inv hp q = inv hp' q"
    and del_cong: "(\<And>a b. a \<in># elems q - {#v#} \<Longrightarrow> b \<in># elems q - {#v#} \<Longrightarrow> hp a b = hp' a b) \<Longrightarrow>
      del hp q v = del hp' q v"
begin

text \<open>
  An element whose priority has changed since it was inserted can still be deleted: the other elements
  are what they were under the old order \<open>hp\<close>, and the result is in order under the new one.
\<close>

lemma del_stale:
  assumes "inv hp q" "weak_order_on (set_mset (elems q)) hp" "count (elems q) v = 1"
    "\<And>a b. a \<in># elems q \<Longrightarrow> b \<in># elems q \<Longrightarrow> a \<noteq> v \<Longrightarrow> b \<noteq> v \<Longrightarrow> hp' a b = hp a b"
  shows "\<exists>q'. del hp' q v = Some q' \<and> elems q' = elems q - {#v#} \<and> inv hp' q'"
proof -
  have rest: "a \<in># elems q \<and> a \<noteq> v" if "a \<in># elems q - {#v#}" for a
    using that assms(3) by (metis count_diff count_single diff_self_eq_0 in_diffD not_in_iff)
  have "del hp' q v = del hp q v" by (rule del_cong) (use rest assms(4) in blast)
  moreover obtain q' where q': "del hp q v = Some q'" using del_None [of hp q v] assms(3)
    by (metis count_eq_zero_iff not_None_eq zero_neq_one)
  moreover note spec = del_spec [OF q' assms(1,2)]
  moreover have "inv hp' q' = inv hp q'" by (rule inv_cong) (use spec rest assms(4) in auto)
  ultimately show ?thesis by auto
qed

text \<open>A newcomer that beats everything is what comes out next.\<close>

lemma pop_after_ins:
  assumes "inv hp q" "weak_order_on (insert v (set_mset (elems q))) hp"
    "\<forall>x \<in># elems q. hp v x"
  shows "fst (pop hp (ins hp q v)) = Some v"
proof -
  obtain r q' where pop: "pop hp (ins hp q v) = (r, q')" by fastforce
  have inv: "inv hp (ins hp q v)" and w: "weak_order_on (set_mset (elems (ins hp q v))) hp"
    using ins_inv assms(1,2) by (simp_all add: ins_elems)
  from pop_spec [OF pop inv w] obtain w where w: "r = Some w" "w \<in># elems (ins hp q v)" "\<not> hp v w"
    by (cases r) (auto simp: ins_elems)
  then show ?thesis using assms(3) pop by (auto simp: ins_elems)
qed

text \<open>Peeking and then popping removes exactly the element that was shown.\<close>

lemma peek_then_pop:
  assumes "peek hp q = (Some v, q')" "inv hp q" "weak_order_on (set_mset (elems q)) hp"
  shows "fst (pop hp q') = Some v" "elems (snd (pop hp q')) = elems q - {#v#}"
    "inv hp (snd (pop hp q'))"
proof -
  note peek = peek_spec [OF assms]
  have fst: "fst (pop hp q') = Some v"
    using peek_pop [of hp q] assms(1) by simp
  then obtain q'' where pop: "pop hp q' = (Some v, q'')" by (metis prod.collapse)
  have "weak_order_on (set_mset (elems q')) hp" using peek assms(3) by simp
  then show "fst (pop hp q') = Some v" "elems (snd (pop hp q')) = elems q - {#v#}"
    "inv hp (snd (pop hp q'))"
    using pop_spec [OF pop] peek fst pop by auto
qed

end

interpretation bq: prio_queue bheap_elems bheap_inv bheap_init bheap_empty bheap_insert bheap_union
  bheap_peek bheap_take bheap_delete
proof (unfold_locales, goal_cases)
  case (3 q)
  have "forest_elems ns = {#} \<longleftrightarrow> ns = []" for ns :: "'a bheap_node list"
    by (cases ns) (simp_all add: node_elems_child)
  then show ?case by (auto simp: bheap_empty_def bheap_elems_def split: option.splits)
next
  case (4 hp q v)
  show ?case by (rule insert_elems)
next
  case (5 hp q v)
  then show ?case using insert_inv [OF 5] by auto
next
  case (6 hp q p q' p')
  then show ?case using union_elems by blast
next
  case (7 hp q p q' p')
  then show ?case using union_inv [OF 7(1-4)] by simp
next
  case (8 hp q r q')
  then show ?case
    using caches_min [OF 8(2,3)] cached_min_best [of hp "bheap_caches_min hp q", OF _ 8(3)]
    by (auto simp: peek_take_caches_min)
next
  case (9 hp q r q')
  note c = caches_min [OF 9(2,3) order_refl]
  have q': "r = bmin (bheap_caches_min hp q)" "q' = (bheap_caches_min hp q)\<lparr>bmin := None\<rparr>"
    using 9(1) by (auto simp: peek_take_caches_min)
  show ?case
  proof (cases r)
    case None
    then show ?thesis using c q' by (auto simp: bheap_inv_roots bheap_elems_def)
  next
    case (Some v)
    then show ?thesis
      using cached_min_best [OF c(2) 9(3), of v] c(1,3) q' by simp
  qed
next
  case (10 hp q)
  then show ?case
    by (cases "bmin (bheap_caches_min hp q)")
      (auto simp: peek_take_caches_min bheap_caches_min_def bheap_extract_min_def
            split: prod.splits option.splits if_splits)
next
  case (11 hp q v)
  show ?case by (rule delete_None)
next
  case (12 hp q v q')
  then show ?case using delete_Some [OF 12 order_refl] by simp
next
  case (13 q hp hp')
  then show ?case by (rule bheap_inv_cong)
next
  case (14 q v hp hp')
  then show ?case by (rule delete_cong)
qed (auto simp: bheap_init_def bheap_elems_def bheap_inv_def)

section \<open>Properties of the heap\<close>

text \<open>
  C3: taking from a heap. If the comparison orders the stored values, \<^verbatim>\<open>bheap_take\<close> reports an
  empty heap exactly when it is empty, and otherwise removes exactly one value, one that no stored
  value has a higher priority than; the binomial heap invariant is kept.
\<close>

theorem bheap_take_correct:
  assumes "bheap_inv hp h" "weak_order_on (set_mset (bheap_elems h)) hp"
  shows "case bheap_take hp h of
           (None, h') \<Rightarrow> bheap_elems h = {#} \<and> bheap_elems h' = {#} \<and> bheap_inv hp h'
         | (Some v, h') \<Rightarrow> bheap_elems h = add_mset v (bheap_elems h') \<and> bheap_inv hp h' \<and>
             (\<forall>x \<in># bheap_elems h. \<not> hp x v)"
proof -
  obtain r h' where take: "bheap_take hp h = (r, h')" by fastforce
  show ?thesis using bq.pop_spec [OF take assms] take by (cases r) auto
qed

text \<open>Three insertions around a peek, as a concrete heap.\<close>

definition sample_heap :: "nat bheap" where
  "sample_heap = snd (bheap_peek (<) (fold (\<lambda>v h. bheap_insert (<) h v) [5, 3, 8, 3] bheap_init))"

lemma weak_order_less_nat: "weak_order_on S ((<) :: nat \<Rightarrow> nat \<Rightarrow> bool)"
  unfolding weak_order_on_def by (auto simp: not_less)

lemma sample_heap_inv: "bheap_inv (<) sample_heap"
  by code_simp

theorem bheap_take_correct_witness:
  "case bheap_take (<) sample_heap of
     (None, h') \<Rightarrow> bheap_elems sample_heap = {#} \<and> bheap_elems h' = {#} \<and> bheap_inv (<) h'
   | (Some v, h') \<Rightarrow> bheap_elems sample_heap = add_mset v (bheap_elems h') \<and> bheap_inv (<) h' \<and>
       (\<forall>x \<in># bheap_elems sample_heap. \<not> x < v)"
  by (rule bheap_take_correct [OF sample_heap_inv weak_order_less_nat])

end
