(* ===== verification/Kernel.thy ===== *)
theory Kernel
  imports Rt_Param Bheap
begin

text \<open>
  The part of the kernel state that the schedulers share, and the code that every plugin uses:
  job control (\<^verbatim>\<open>litmus/jobs.c\<close>), budget enforcement (\<^verbatim>\<open>litmus/budget.c\<close>), and the
  preemption primitive of \<^verbatim>\<open>litmus/sched_plugin.c\<close>.

  A release heap belongs to the task that allocated it and is named by that task. A real-time
  domain is named by a number: the CPU for the partitioned plugins. A timer is the pair of its
  expiry and the CPU it is queued on, or \<open>None\<close> when it is inactive. Spin locks serialise the
  operations and have no counterpart in the state; every handler below is what runs between taking
  and returning the locks. Plugins extend the record with their own state.
\<close>

section \<open>State\<close>

type_synonym timer = "(lt_t \<times> cpu_id) option"

record release_heap =
  rh_time :: lt_t
  rh_heap :: "tid bheap"
  rh_timer :: timer
  rh_dom :: nat

definition RELEASE_QUEUE_SLOTS :: nat where "RELEASE_QUEUE_SLOTS = 127"

record rt_domain =
  ready_queue :: "tid bheap"
  slot :: "nat \<Rightarrow> tid list"
  release_master :: "cpu_id option"
  tobe_released :: "tid list"

record enforcement_timer =
  et_timer :: timer
  et_running :: bool
  et_armed :: bool

record kstate =
  tasks :: "tid \<Rightarrow> task_struct"
  rel_heaps :: "tid \<Rightarrow> release_heap"
  doms :: "nat \<Rightarrow> rt_domain"
  curr :: "cpu_id \<Rightarrow> tid"
  this_cpu :: cpu_id
  ipis :: "cpu_id list"
  tick_period :: lt_t
  budget_timer :: "cpu_id \<Rightarrow> enforcement_timer"

definition upd_task :: "tid \<Rightarrow> (task_struct \<Rightarrow> task_struct) \<Rightarrow> 'z kstate_scheme \<Rightarrow> 'z kstate_scheme" where
  "upd_task t f s = s\<lparr>tasks := (tasks s)(t := f (tasks s t))\<rparr>"

definition upd_dom :: "nat \<Rightarrow> (rt_domain \<Rightarrow> rt_domain) \<Rightarrow> 'z kstate_scheme \<Rightarrow> 'z kstate_scheme" where
  "upd_dom d f s = s\<lparr>doms := (doms s)(d := f (doms s d))\<rparr>"

definition upd_rh :: "tid \<Rightarrow> (release_heap \<Rightarrow> release_heap) \<Rightarrow> 'z kstate_scheme \<Rightarrow> 'z kstate_scheme" where
  "upd_rh o' f s = s\<lparr>rel_heaps := (rel_heaps s)(o' := f (rel_heaps s o'))\<rparr>"

lemma upd_task_simps [simp]:
  "tasks (upd_task t f s) = (tasks s)(t := f (tasks s t))"
  "rel_heaps (upd_task t f s) = rel_heaps s"
  "doms (upd_task t f s) = doms s"
  "curr (upd_task t f s) = curr s"
  "this_cpu (upd_task t f s) = this_cpu s"
  "ipis (upd_task t f s) = ipis s"
  "tick_period (upd_task t f s) = tick_period s"
  "budget_timer (upd_task t f s) = budget_timer s"
  "kstate.more (upd_task t f s) = kstate.more s"
  by (simp_all add: upd_task_def)

lemma upd_dom_simps [simp]:
  "tasks (upd_dom d g s) = tasks s"
  "rel_heaps (upd_dom d g s) = rel_heaps s"
  "doms (upd_dom d g s) = (doms s)(d := g (doms s d))"
  "curr (upd_dom d g s) = curr s"
  "this_cpu (upd_dom d g s) = this_cpu s"
  "ipis (upd_dom d g s) = ipis s"
  "tick_period (upd_dom d g s) = tick_period s"
  "budget_timer (upd_dom d g s) = budget_timer s"
  "kstate.more (upd_dom d g s) = kstate.more s"
  by (simp_all add: upd_dom_def)

lemma upd_rh_simps [simp]:
  "tasks (upd_rh r h s) = tasks s"
  "rel_heaps (upd_rh r h s) = (rel_heaps s)(r := h (rel_heaps s r))"
  "doms (upd_rh r h s) = doms s"
  "curr (upd_rh r h s) = curr s"
  "this_cpu (upd_rh r h s) = this_cpu s"
  "ipis (upd_rh r h s) = ipis s"
  "tick_period (upd_rh r h s) = tick_period s"
  "budget_timer (upd_rh r h s) = budget_timer s"
  "kstate.more (upd_rh r h s) = kstate.more s"
  by (simp_all add: upd_rh_def)

section \<open>Job control\<close>

definition prepare_for_next_period :: "task_struct \<Rightarrow> task_struct" where
  "prepare_for_next_period t =
     (upd_job (\<lambda>j. j\<lparr>release := deadline j, deadline := deadline j + get_rt_period t,
                     exec_time := 0, job_no := job_no j + 1\<rparr>) t)\<lparr>time_slice := 1\<rparr>"

definition release_at :: "lt_t \<Rightarrow> task_struct \<Rightarrow> task_struct" where
  "release_at start t =
     set_rt_flags RT_F_RUNNING (prepare_for_next_period (upd_job (\<lambda>j. j\<lparr>deadline := start\<rparr>) t))"

text \<open>The part of \<^verbatim>\<open>complete_job\<close> before the call of the scheduler.\<close>

definition complete_job :: "'z kstate_scheme \<Rightarrow> 'z kstate_scheme" where
  "complete_job s = upd_task (curr s (this_cpu s)) (set_rt_flags RT_F_SLEEP) s"

section \<open>Preemption\<close>

definition set_tsk_need_resched :: "tid \<Rightarrow> 'z kstate_scheme \<Rightarrow> 'z kstate_scheme" where
  "set_tsk_need_resched t = upd_task t (\<lambda>p. p\<lparr>need_resched := True\<rparr>)"

definition smp_send_reschedule :: "cpu_id \<Rightarrow> 'z kstate_scheme \<Rightarrow> 'z kstate_scheme" where
  "smp_send_reschedule c s = s\<lparr>ipis := ipis s @ [c]\<rparr>"

definition preempt_if_preemptable ::
  "tid option \<Rightarrow> cpu_id \<Rightarrow> 'z kstate_scheme \<Rightarrow> 'z kstate_scheme"
where
  "preempt_if_preemptable t on_cpu s =
     (if this_cpu s = on_cpu then
        (case t of
           Some t \<Rightarrow>
             if is_user_np (tasks s t) then upd_task t request_exit_np s
             else if \<not> is_kernel_np (tasks s t) then set_tsk_need_resched t s
             else s
         | None \<Rightarrow> set_tsk_need_resched (curr s (this_cpu s)) s)
      else
        (case t of
           None \<Rightarrow> smp_send_reschedule on_cpu s
         | Some t \<Rightarrow>
             let s = (if is_user_np (tasks s t) then upd_task t request_exit_np s else s)
             in if \<not> is_np (tasks s t) \<and> \<not> is_kernel_np (tasks s t)
                then smp_send_reschedule on_cpu s else s))"

section \<open>Budget enforcement\<close>

definition upd_et ::
  "(enforcement_timer \<Rightarrow> enforcement_timer) \<Rightarrow> 'z kstate_scheme \<Rightarrow> 'z kstate_scheme"
where
  "upd_et f s = s\<lparr>budget_timer := (budget_timer s)(this_cpu s := f (budget_timer s (this_cpu s)))\<rparr>"

text \<open>The callback: the timer has left the queue of active timers when it runs.\<close>

definition on_enforcement_timeout :: "'z kstate_scheme \<Rightarrow> 'z kstate_scheme" where
  "on_enforcement_timeout s =
     set_tsk_need_resched (curr s (this_cpu s)) (upd_et (\<lambda>et. et\<lparr>et_timer := None, et_armed := False\<rparr>) s)"

text \<open>\<open>1\<close> if the timer was active, \<open>0\<close> if it was not, \<open>-1\<close> if its callback is running.\<close>

definition hrtimer_try_to_cancel :: "enforcement_timer \<Rightarrow> int" where
  "hrtimer_try_to_cancel et =
     (if et_running et then -1 else if et_timer et = None then 0 else 1)"

definition cancel_enforcement_timer :: "'z kstate_scheme \<Rightarrow> 'z kstate_scheme option" where
  "cancel_enforcement_timer s =
     (let et = budget_timer s (this_cpu s)
      in if et_armed et then do {
           let ret = hrtimer_try_to_cancel et;
           BUG_ON (ret = 0);
           BUG_ON (ret = -1);
           Some (upd_et (\<lambda>et. et\<lparr>et_timer := None, et_armed := False\<rparr>) s)
         } else Some s)"

definition arm_enforcement_timer ::
  "tid \<Rightarrow> lt_t \<Rightarrow> 'z kstate_scheme \<Rightarrow> 'z kstate_scheme option"
where
  "arm_enforcement_timer t now s = do {
     BUG_ON (budget_exhausted (tasks s t) \<and> \<not> is_np (tasks s t));
     Some (if \<not> is_np (tasks s t)
           then upd_et (\<lambda>et. et\<lparr>et_timer := Some (now + budget_remaining (tasks s t), this_cpu s),
                                 et_armed := True\<rparr>) s
           else s)
   }"

definition update_enforcement_timer ::
  "tid option \<Rightarrow> lt_t \<Rightarrow> 'z kstate_scheme \<Rightarrow> 'z kstate_scheme option"
where
  "update_enforcement_timer t now s =
     (case t of
        Some t' \<Rightarrow>
          if budget_precisely_enforced (tasks s t') then arm_enforcement_timer t' now s
          else if et_armed (budget_timer s (this_cpu s)) then cancel_enforcement_timer s else Some s
      | None \<Rightarrow>
          if et_armed (budget_timer s (this_cpu s)) then cancel_enforcement_timer s else Some s)"

end
