(* ===== verification/Rt_Domain.thy ===== *)
theory Rt_Domain
  imports Kernel
begin

text \<open>
  Real-time domains: \<^verbatim>\<open>litmus/rt_domain.c\<close> and \<^verbatim>\<open>include/litmus/rt_domain.h\<close>. The function pointers
  of \<^verbatim>\<open>rt_domain_t\<close> are arguments: \<open>order\<close> compares two tasks in the current state and
  \<open>check_resched\<close> is the callback of the plugin. A function of the source whose name starts with
  two underscores (the caller holds the lock) has the suffix \<open>_nolock\<close>; the variant that takes the
  lock itself is the same state transformer.
\<close>

type_synonym 's order = "'s \<Rightarrow> tid \<Rightarrow> tid \<Rightarrow> bool"
type_synonym 's check_resched_needed_t = "nat \<Rightarrow> 's \<Rightarrow> 's"

section \<open>Initialisation and defaults\<close>

definition dummy_resched :: "'z kstate_scheme check_resched_needed_t" where
  "dummy_resched d s = s"

definition dummy_order :: "'z kstate_scheme order" where
  "dummy_order s a b = False"

definition rt_domain_init :: "nat \<Rightarrow> 'z kstate_scheme \<Rightarrow> 'z kstate_scheme" where
  "rt_domain_init d =
     upd_dom d (\<lambda>_. \<lparr>ready_queue = bheap_init, slot = (\<lambda>_. []), release_master = None,
                     tobe_released = []\<rparr>)"

definition time2slot :: "lt_t \<Rightarrow> lt_t \<Rightarrow> nat" where
  "time2slot tp time = unat (ucast (time2quanta tp time FLOOR) :: 32 word) mod RELEASE_QUEUE_SLOTS"

section \<open>The ready queue\<close>

definition set_in_heap :: "bool \<Rightarrow> task_struct \<Rightarrow> task_struct" where
  [rt_simps]: "set_in_heap b = upd_rt (\<lambda>p. p\<lparr>in_heap := b\<rparr>)"

definition next_ready :: "'z kstate_scheme order \<Rightarrow> nat \<Rightarrow> 'z kstate_scheme \<Rightarrow> tid option \<times> 'z kstate_scheme" where
  "next_ready order d s =
     (let (r, q) = bheap_peek (order s) (ready_queue (doms s d))
      in (r, upd_dom d (\<lambda>D. D\<lparr>ready_queue := q\<rparr>) s))"

definition peek_ready :: "'z kstate_scheme order \<Rightarrow> nat \<Rightarrow> 'z kstate_scheme \<Rightarrow> tid option \<times> 'z kstate_scheme" where
  "peek_ready order d s =
     (let (r, q) = bheap_peek (order s) (ready_queue (doms s d))
      in (r, upd_dom d (\<lambda>D. D\<lparr>ready_queue := q\<rparr>) s))"

definition take_ready :: "'z kstate_scheme order \<Rightarrow> nat \<Rightarrow> 'z kstate_scheme \<Rightarrow> tid option \<times> 'z kstate_scheme" where
  "take_ready order d s =
     (let (r, q) = bheap_take (order s) (ready_queue (doms s d));
          s = upd_dom d (\<lambda>D. D\<lparr>ready_queue := q\<rparr>) s
      in (r, case r of Some t \<Rightarrow> upd_task t (set_in_heap False) s | None \<Rightarrow> s))"

definition is_queued :: "tid \<Rightarrow> 'z kstate_scheme \<Rightarrow> bool option" where
  "is_queued t s = do {
     BUG_ON (\<not> heap_node (rt_param (tasks s t)));
     Some (in_heap (rt_param (tasks s t)))
   }"

text \<open>
  Deleting a node that is not in the ready queue runs off the root list; that is \<open>None\<close> here.
\<close>

definition remove_rt ::
  "'z kstate_scheme order \<Rightarrow> nat \<Rightarrow> tid \<Rightarrow> 'z kstate_scheme \<Rightarrow> 'z kstate_scheme option"
where
  "remove_rt order d t s = do {
     q \<leftarrow> bheap_delete (order s) (ready_queue (doms s d)) t;
     Some (upd_task t (set_in_heap False) (upd_dom d (\<lambda>D. D\<lparr>ready_queue := q\<rparr>) s))
   }"

definition add_ready ::
  "'z kstate_scheme order \<Rightarrow> 'z kstate_scheme check_resched_needed_t \<Rightarrow> nat \<Rightarrow> tid \<Rightarrow>
   'z kstate_scheme \<Rightarrow> 'z kstate_scheme option"
where
  "add_ready order check_resched d new s = do {
     BUG_ON (in_heap (rt_param (tasks s new)));
     let q = bheap_insert (order s) (ready_queue (doms s d)) new;
     Some (check_resched d
             (upd_task new (set_in_heap True) (upd_dom d (\<lambda>D. D\<lparr>ready_queue := q\<rparr>) s)))
   }"

text \<open>The heap that is merged is the one of the release heap \<open>r\<close>.\<close>

definition merge_ready ::
  "'z kstate_scheme order \<Rightarrow> 'z kstate_scheme check_resched_needed_t \<Rightarrow> nat \<Rightarrow> tid \<Rightarrow>
   'z kstate_scheme \<Rightarrow> 'z kstate_scheme"
where
  "merge_ready order check_resched d r s =
     (let (q, h) = bheap_union (order s) (ready_queue (doms s d)) (rh_heap (rel_heaps s r))
      in check_resched d
           (upd_rh r (\<lambda>R. R\<lparr>rh_heap := h\<rparr>) (upd_dom d (\<lambda>D. D\<lparr>ready_queue := q\<rparr>) s)))"

definition jobs_pending :: "nat \<Rightarrow> 'z kstate_scheme \<Rightarrow> bool" where
  "jobs_pending d s \<longleftrightarrow> \<not> bheap_empty (ready_queue (doms s d))"

section \<open>The release queue\<close>

text \<open>
  The search of \<^verbatim>\<open>get_release_heap\<close> through the list of a slot: the heap with the wanted release
  time if there is one, and the position where the loop stopped.
\<close>

fun find_release_heap :: "(tid \<Rightarrow> release_heap) \<Rightarrow> lt_t \<Rightarrow> tid list \<Rightarrow> tid option \<times> nat" where
  "find_release_heap rhs time [] = (None, 0)"
| "find_release_heap rhs time (r # rs) =
     (if time = rh_time (rhs r) then (Some r, 0)
      else if lt_before time (rh_time (rhs r)) then (None, 0)
      else let (f, pos) = find_release_heap rhs time rs in (f, pos + 1))"

definition get_release_heap ::
  "nat \<Rightarrow> tid \<Rightarrow> bool \<Rightarrow> 'z kstate_scheme \<Rightarrow> tid option \<times> 'z kstate_scheme"
where
  "get_release_heap d t use_task_heap s =
     (let release_time = get_release (tasks s t);
          k = time2slot (tick_period s) release_time;
          rs = slot (doms s d) k;
          (found, pos) = find_release_heap (rel_heaps s) release_time rs
      in if found = None \<and> use_task_heap
         then (Some t,
               upd_dom d (\<lambda>D. D\<lparr>slot := (slot D)(k := take pos rs @ t # drop pos rs)\<rparr>)
                 (upd_rh t (\<lambda>R. R\<lparr>rh_dom := d, rh_time := release_time\<rparr>) s))
         else (found, s))"

text \<open>\<^verbatim>\<open>hrtimer_cancel\<close> returns \<open>1\<close> for an active timer.\<close>

definition reinit_release_heap :: "tid \<Rightarrow> 'z kstate_scheme \<Rightarrow> 'z kstate_scheme option" where
  "reinit_release_heap t s = do {
     BUG_ON (rh_timer (rel_heaps s t) \<noteq> None);
     Some (upd_rh t (\<lambda>R. R\<lparr>rh_heap := bheap_init\<rparr>) s)
   }"

text \<open>
  One round of the loop of \<^verbatim>\<open>arm_release_timer_on\<close>. \<^verbatim>\<open>hrtimer_start_on\<close> hands the timer to the
  target CPU, which queues it when it takes the interrupt; here it is queued there at once.
\<close>

definition arm_release_one ::
  "'z kstate_scheme order \<Rightarrow> nat \<Rightarrow> cpu_id option \<Rightarrow> tid \<Rightarrow> 'z kstate_scheme \<Rightarrow> 'z kstate_scheme option"
where
  "arm_release_one order d target_cpu t s = do {
     (r, s) \<leftarrow>
       (case get_release_heap d t False s of
          (Some r, s) \<Rightarrow> Some (r, s)
        | (None, s) \<Rightarrow> do {
            s \<leftarrow> reinit_release_heap t s;
            (case get_release_heap d t True s of
               (Some r, s) \<Rightarrow> Some (r, s)
             | (None, s) \<Rightarrow> None)
          });
     let h = bheap_insert (order s) (rh_heap (rel_heaps s r)) t;
     let s = upd_task t (set_in_heap True) (upd_rh r (\<lambda>R. R\<lparr>rh_heap := h\<rparr>) s);
     Some (if r = t
           then upd_rh t (\<lambda>R. R\<lparr>rh_timer := Some (rh_time R,
                  case target_cpu of
                    Some c \<Rightarrow> c
                  | None \<Rightarrow> (case release_master (doms s d) of Some c \<Rightarrow> c | None \<Rightarrow> this_cpu s))\<rparr>) s
           else s)
   }"

fun arm_release_loop ::
  "'z kstate_scheme order \<Rightarrow> nat \<Rightarrow> cpu_id option \<Rightarrow> tid list \<Rightarrow> 'z kstate_scheme \<Rightarrow> 'z kstate_scheme option"
where
  "arm_release_loop order d target_cpu [] s = Some s"
| "arm_release_loop order d target_cpu (t # ts) s =
     Option.bind (arm_release_one order d target_cpu t s) (arm_release_loop order d target_cpu ts)"

definition arm_release_timer_on ::
  "'z kstate_scheme order \<Rightarrow> nat \<Rightarrow> cpu_id option \<Rightarrow> 'z kstate_scheme \<Rightarrow> 'z kstate_scheme option"
where
  "arm_release_timer_on order d target_cpu s =
     (let l = tobe_released (doms s d)
      in arm_release_loop order d target_cpu l (upd_dom d (\<lambda>D. D\<lparr>tobe_released := []\<rparr>) s))"

definition add_release_on ::
  "'z kstate_scheme order \<Rightarrow> nat \<Rightarrow> tid \<Rightarrow> cpu_id option \<Rightarrow> 'z kstate_scheme \<Rightarrow> 'z kstate_scheme option"
where
  "add_release_on order d t target_cpu s =
     arm_release_timer_on order d target_cpu
       (upd_task t (upd_rt (\<lambda>p. p\<lparr>domain := Some d\<rparr>))
         (upd_dom d (\<lambda>D. D\<lparr>tobe_released := t # tobe_released D\<rparr>) s))"

definition add_release ::
  "'z kstate_scheme order \<Rightarrow> nat \<Rightarrow> tid \<Rightarrow> 'z kstate_scheme \<Rightarrow> 'z kstate_scheme option"
where
  "add_release order d t s =
     arm_release_timer_on order d None
       (upd_task t (upd_rt (\<lambda>p. p\<lparr>domain := Some d\<rparr>))
         (upd_dom d (\<lambda>D. D\<lparr>tobe_released := t # tobe_released D\<rparr>) s))"

text \<open>
  The callback of a release timer; the timer is inactive when it runs. \<^verbatim>\<open>default_release_jobs\<close>
  is the release function of every plugin that leaves it unset.
\<close>

definition default_release_jobs ::
  "'z kstate_scheme order \<Rightarrow> 'z kstate_scheme check_resched_needed_t \<Rightarrow> nat \<Rightarrow> tid \<Rightarrow>
   'z kstate_scheme \<Rightarrow> 'z kstate_scheme"
where
  "default_release_jobs = merge_ready"

definition on_release_timer ::
  "(nat \<Rightarrow> tid \<Rightarrow> 'z kstate_scheme \<Rightarrow> 'r) \<Rightarrow> tid \<Rightarrow> 'z kstate_scheme \<Rightarrow> 'r"
where
  "on_release_timer release_jobs r s =
     (let d = rh_dom (rel_heaps s r);
          k = time2slot (tick_period s) (rh_time (rel_heaps s r))
      in release_jobs d r
           (upd_dom d (\<lambda>D. D\<lparr>slot := (slot D)(k := remove1 r (slot D k))\<rparr>)
             (upd_rh r (\<lambda>R. R\<lparr>rh_timer := None\<rparr>) s)))"

end
