(* ===== verification/Edf_Common.thy ===== *)
theory Edf_Common
  imports Rt_Domain "HOL-Library.Product_Lexorder"
begin

text \<open>
  The EDF priority order of \<^verbatim>\<open>litmus/edf_common.c\<close>: earlier absolute deadline first, ties broken by
  PID, and a task that inherits a priority wins against the task it inherits from.
\<close>

section \<open>The comparison\<close>

definition edf_higher_prio :: "(tid \<Rightarrow> task_struct) \<Rightarrow> tid option \<Rightarrow> tid option \<Rightarrow> bool" where
  "edf_higher_prio ts first second =
     (if first \<noteq> None \<and> first = second then False
      else
        let first_task = (case first of
              Some f \<Rightarrow> (case inh_task (rt_param (ts f)) of Some i \<Rightarrow> Some i | None \<Rightarrow> first)
            | None \<Rightarrow> None);
            second_task = (case second of
              Some g \<Rightarrow> (case inh_task (rt_param (ts g)) of Some i \<Rightarrow> Some i | None \<Rightarrow> second)
            | None \<Rightarrow> None)
        in case first_task of
             None \<Rightarrow> False
           | Some f \<Rightarrow>
               (case second_task of
                  None \<Rightarrow> True
                | Some g \<Rightarrow>
                    \<not> is_realtime (ts g) \<or> earlier_deadline (ts f) (ts g) \<or>
                    (get_deadline (ts f) = get_deadline (ts g) \<and>
                     (pid (ts f) < pid (ts g) \<or>
                      (pid (ts f) = pid (ts g) \<and>
                       (case second of Some g' \<Rightarrow> inh_task (rt_param (ts g')) = None | None \<Rightarrow> True))))))"

definition edf_ready_order :: "'z kstate_scheme order" where
  "edf_ready_order s a b = edf_higher_prio (tasks s) (Some a) (Some b)"

definition edf_preemption_needed ::
  "nat \<Rightarrow> tid option \<Rightarrow> 'z kstate_scheme \<Rightarrow> bool \<times> 'z kstate_scheme"
where
  "edf_preemption_needed d t s =
     (if \<not> jobs_pending d s then (False, s)
      else case t of
             None \<Rightarrow> (True, s)
           | Some t \<Rightarrow>
               if \<not> is_realtime (tasks s t) then (True, s)
               else let (r, s') = next_ready edf_ready_order d s
                    in (edf_higher_prio (tasks s') r (Some t), s'))"

definition edf_domain_init :: "nat \<Rightarrow> 'z kstate_scheme \<Rightarrow> 'z kstate_scheme" where
  "edf_domain_init d = rt_domain_init d"

section \<open>The order is a strict weak order\<close>

text \<open>The task whose deadline and PID count, and the rank of a task in the order.\<close>

definition eff :: "(tid \<Rightarrow> task_struct) \<Rightarrow> tid \<Rightarrow> tid" where
  "eff ts t = (case inh_task (rt_param (ts t)) of Some i \<Rightarrow> i | None \<Rightarrow> t)"

definition edf_key :: "(tid \<Rightarrow> task_struct) \<Rightarrow> lt_t \<Rightarrow> tid \<Rightarrow> nat \<times> int \<times> bool" where
  "edf_key ts base t =
     (unat (get_deadline (ts (eff ts t)) - base), pid (ts (eff ts t)), inh_task (rt_param (ts t)) = None)"

text \<open>
  The tasks of \<open>S\<close> are comparable: the tasks that count are real-time tasks with distinct PIDs,
  and their deadlines lie in a window of half the range of the clock, which starts at \<open>base\<close>.
\<close>

definition edf_comparable :: "(tid \<Rightarrow> task_struct) \<Rightarrow> lt_t \<Rightarrow> tid set \<Rightarrow> bool" where
  "edf_comparable ts base S \<longleftrightarrow>
     (\<forall>a \<in> S. is_realtime (ts (eff ts a)) \<and> unat (get_deadline (ts (eff ts a)) - base) < 2 ^ 63) \<and>
     (\<forall>a \<in> S. \<forall>b \<in> S. pid (ts (eff ts a)) = pid (ts (eff ts b)) \<longrightarrow> eff ts a = eff ts b)"

lemma edf_higher_prio_Some:
  "edf_higher_prio ts (Some a) (Some b) \<longleftrightarrow>
     a \<noteq> b \<and>
     (\<not> is_realtime (ts (eff ts b)) \<or> earlier_deadline (ts (eff ts a)) (ts (eff ts b)) \<or>
      get_deadline (ts (eff ts a)) = get_deadline (ts (eff ts b)) \<and>
      (pid (ts (eff ts a)) < pid (ts (eff ts b)) \<or>
       pid (ts (eff ts a)) = pid (ts (eff ts b)) \<and> inh_task (rt_param (ts b)) = None))"
  by (auto simp: edf_higher_prio_def eff_def split: option.splits)

lemma edf_higher_prio_None [simp]:
  "\<not> edf_higher_prio ts None x"
  "edf_higher_prio ts (Some a) None"
  by (auto simp: edf_higher_prio_def split: option.splits)

lemma lt_before_base:
  "unat (a - base) < 2 ^ 63 \<Longrightarrow> unat (b - base) < 2 ^ 63 \<Longrightarrow>
     lt_before a b \<longleftrightarrow> unat (a - base) < unat (b - base)"
  using lt_before_window [of "a - base" "b - base" base] by (simp add: word_less_nat_alt)

lemma edf_higher_prio_key:
  assumes "edf_comparable ts base S" "a \<in> S" "b \<in> S"
  shows "edf_higher_prio ts (Some a) (Some b) \<longleftrightarrow> edf_key ts base a < edf_key ts base b"
proof -
  have win: "unat (get_deadline (ts (eff ts x)) - base) < 2 ^ 63" "is_realtime (ts (eff ts x))"
    if "x \<in> S" for x
    using assms(1) that by (simp_all add: edf_comparable_def)
  have eq: "get_deadline (ts (eff ts a)) = get_deadline (ts (eff ts b)) \<longleftrightarrow>
    unat (get_deadline (ts (eff ts a)) - base) = unat (get_deadline (ts (eff ts b)) - base)"
    by (metis diff_add_cancel unsigned_word_eqI)
  have same: "eff ts a = eff ts b" if "pid (ts (eff ts a)) = pid (ts (eff ts b))"
    using assms that by (simp add: edf_comparable_def)
  have inh: "a = b" if "pid (ts (eff ts a)) = pid (ts (eff ts b))"
    "inh_task (rt_param (ts a)) = None" "inh_task (rt_param (ts b)) = None"
    using same [OF that(1)] that(2,3) by (simp add: eff_def)
  have cmp: "earlier_deadline (ts (eff ts a)) (ts (eff ts b)) \<longleftrightarrow>
    unat (get_deadline (ts (eff ts a)) - base) < unat (get_deadline (ts (eff ts b)) - base)"
    unfolding earlier_deadline_def
    by (rule lt_before_base [OF win(1) [OF assms(2)] win(1) [OF assms(3)]])
  show ?thesis
  proof (cases "a = b")
    case True
    then show ?thesis by (simp add: edf_higher_prio_Some)
  next
    case False
    then show ?thesis
      using inh win(2) [OF assms(3)]
      unfolding edf_higher_prio_Some edf_key_def cmp eq less_prod_simp less_bool_def le_less by blast
  qed
qed

lemma weak_order_on_key:
  assumes "\<And>a b. a \<in> S \<Longrightarrow> b \<in> S \<Longrightarrow> hp a b \<longleftrightarrow> key a < (key b :: 'k :: linorder)"
  shows "weak_order_on S hp"
proof -
  have "\<not> hp b a" if "a \<in> S" "b \<in> S" "hp a b" for a b
    using that by (simp add: assms)
  moreover have "\<not> hp a c" if "a \<in> S" "b \<in> S" "c \<in> S" "\<not> hp a b" "\<not> hp b c" for a b c
    using that by (simp add: assms)
  ultimately show ?thesis unfolding weak_order_on_def by blast
qed

lemma edf_weak_order:
  "edf_comparable (tasks s) base S \<Longrightarrow> weak_order_on S (edf_ready_order s)"
  unfolding edf_ready_order_def
  by (rule weak_order_on_key [where key = "edf_key (tasks s) base"]) (simp add: edf_higher_prio_key)

end
