(* ===== verification/Edf_Queues.thy ===== *)
theory Edf_Queues
  imports Edf_Common
begin

text \<open>
  The invariant that the EDF plugins keep over all ready and release queues, and what the
  operations of \<^verbatim>\<open>rt_domain.c\<close> do to it. A placement says for every task whether it is in no heap, in
  the ready queue of a domain, or in the release heap owned by some task. The invariant ties the
  placement to the heaps (every task is in exactly the heap its placement names, once), to the
  \<^verbatim>\<open>degree\<close> of the heap node, to the sorted slots of the release queue and to the release timers.
\<close>

section \<open>Placement and invariant\<close>

datatype place = Nowhere | Ready nat | Waiting tid

abbreviation ready_of :: "'z kstate_scheme \<Rightarrow> nat \<Rightarrow> tid multiset" where
  "ready_of s d \<equiv> bheap_elems (ready_queue (doms s d))"

abbreviation waiting_of :: "'z kstate_scheme \<Rightarrow> tid \<Rightarrow> tid multiset" where
  "waiting_of s r \<equiv> bheap_elems (rh_heap (rel_heaps s r))"

text \<open>A task that may be queued: real-time, with a heap node, time stamps below \<open>2 ^ 63\<close>.\<close>

definition edf_ok :: "task_struct \<Rightarrow> bool" where
  "edf_ok t \<longleftrightarrow> is_realtime t \<and> heap_node (rt_param t) \<and> inh_task (rt_param t) = None \<and>
     get_deadline t < 2 ^ 63 \<and> get_release t < 2 ^ 63"

lemma below_2p63: "(x :: lt_t) < 9223372036854775808 \<longleftrightarrow> unat x < 9223372036854775808"
  by (simp add: word_less_nat_alt)

definition heaps_ok :: "'z kstate_scheme \<Rightarrow> bool" where
  "heaps_ok s \<longleftrightarrow>
     (\<forall>d. bheap_inv (edf_ready_order s) (ready_queue (doms s d)) \<and> tobe_released (doms s d) = []) \<and>
     (\<forall>r. bheap_inv (edf_ready_order s) (rh_heap (rel_heaps s r)))"

definition placed :: "(task_struct \<Rightarrow> nat) \<Rightarrow> (tid \<Rightarrow> place) \<Rightarrow> 'z kstate_scheme \<Rightarrow> bool" where
  "placed home pl s \<longleftrightarrow>
     (\<forall>d t. count (ready_of s d) t = (if pl t = Ready d then 1 else 0)) \<and>
     (\<forall>r t. count (waiting_of s r) t = (if pl t = Waiting r then 1 else 0)) \<and>
     (\<forall>t. in_heap (rt_param (tasks s t)) \<longleftrightarrow> pl t \<noteq> Nowhere) \<and>
     (\<forall>t. pl t \<noteq> Nowhere \<longrightarrow> edf_ok (tasks s t)) \<and>
     (\<forall>t d. pl t = Ready d \<longrightarrow> home (tasks s t) = d) \<and>
     (\<forall>t r. pl t = Waiting r \<longrightarrow> home (tasks s t) = rh_dom (rel_heaps s r)) \<and>
     (\<forall>a b. pid (tasks s a) = pid (tasks s b) \<longrightarrow> a = b)"

text \<open>
  The release queue: the slot of a domain lists, sorted by release time, exactly the release heaps
  in use for it; a heap is in use if and only if its owner waits in it, and then its timer is
  queued for its release time. Every task in a release heap has the release time of the heap.
\<close>

definition slot_of :: "'z kstate_scheme \<Rightarrow> tid \<Rightarrow> tid list" where
  "slot_of s r = slot (doms s (rh_dom (rel_heaps s r))) (time2slot (tick_period s) (rh_time (rel_heaps s r)))"

definition release_ok :: "(tid \<Rightarrow> place) \<Rightarrow> 'z kstate_scheme \<Rightarrow> bool" where
  "release_ok pl s \<longleftrightarrow>
     (\<forall>d k. sorted_wrt (\<lambda>a b. rh_time (rel_heaps s a) < rh_time (rel_heaps s b)) (slot (doms s d) k)) \<and>
     (\<forall>d k. \<forall>r \<in> set (slot (doms s d) k). pl r = Waiting r \<and> rh_dom (rel_heaps s r) = d \<and>
        time2slot (tick_period s) (rh_time (rel_heaps s r)) = k) \<and>
     (\<forall>r. pl r = Waiting r \<longrightarrow> r \<in> set (slot_of s r)) \<and>
     (\<forall>r. pl r = Waiting r \<longleftrightarrow> rh_timer (rel_heaps s r) \<noteq> None) \<and>
     (\<forall>r e c. rh_timer (rel_heaps s r) = Some (e, c) \<longrightarrow> e = rh_time (rel_heaps s r)) \<and>
     (\<forall>t r. pl t = Waiting r \<longrightarrow> pl r = Waiting r \<and> get_release (tasks s t) = rh_time (rel_heaps s r))"

definition queue_inv :: "(task_struct \<Rightarrow> nat) \<Rightarrow> (tid \<Rightarrow> place) \<Rightarrow> 'z kstate_scheme \<Rightarrow> bool" where
  "queue_inv home pl s \<longleftrightarrow> heaps_ok s \<and> placed home pl s \<and> release_ok pl s"

section \<open>Consequences\<close>

lemma placed_simps:
  assumes "placed home pl s"
  shows "count (ready_of s d) t = (if pl t = Ready d then 1 else 0)"
    "count (waiting_of s r) t = (if pl t = Waiting r then 1 else 0)"
    "t \<in># ready_of s d \<longleftrightarrow> pl t = Ready d"
    "t \<in># waiting_of s r \<longleftrightarrow> pl t = Waiting r"
    "in_heap (rt_param (tasks s t)) \<longleftrightarrow> pl t \<noteq> Nowhere"
    "pl t \<noteq> Nowhere \<Longrightarrow> edf_ok (tasks s t)"
    "pid (tasks s a) = pid (tasks s b) \<longleftrightarrow> a = b"
  using assms unfolding placed_def by (auto simp: count_greater_zero_iff [symmetric] simp del: count_greater_zero_iff)

lemma eff_no_inh: "inh_task (rt_param (ts t)) = None \<Longrightarrow> eff ts t = t"
  by (simp add: eff_def)

lemma placed_comparable: "placed home pl s \<Longrightarrow> edf_comparable (tasks s) 0 {t. edf_ok (tasks s t)}"
  unfolding edf_comparable_def by (auto simp: edf_ok_def below_2p63 eff_no_inh placed_simps(7))

lemma placed_weak_order:
  "placed home pl s \<Longrightarrow> weak_order_on {t. edf_ok (tasks s t)} (edf_ready_order s)"
  using edf_weak_order [OF placed_comparable] .

lemma queue_inv_weak_order:
  assumes "queue_inv home pl s"
  shows "weak_order_on {t. edf_ok (tasks s t)} (edf_ready_order s)"
    "weak_order_on (set_mset (ready_of s d)) (edf_ready_order s)"
    "weak_order_on (set_mset (waiting_of s r)) (edf_ready_order s)"
    "weak_order_on (set_mset (ready_of s d + waiting_of s r)) (edf_ready_order s)"
proof -
  have p: "placed home pl s" using assms by (simp add: queue_inv_def)
  show *: "weak_order_on {t. edf_ok (tasks s t)} (edf_ready_order s)"
    by (rule placed_weak_order [OF p])
  have "set_mset (ready_of s d) \<subseteq> {t. edf_ok (tasks s t)}" "set_mset (waiting_of s r) \<subseteq> {t. edf_ok (tasks s t)}"
    using placed_simps(6) [OF p] by (auto simp: placed_simps(3,4) [OF p])
  then show "weak_order_on (set_mset (ready_of s d)) (edf_ready_order s)"
    "weak_order_on (set_mset (waiting_of s r)) (edf_ready_order s)"
    "weak_order_on (set_mset (ready_of s d + waiting_of s r)) (edf_ready_order s)"
    by (auto intro: weak_order_mono [OF *])
qed

text \<open>The order looks only at these fields of the two tasks compared.\<close>

lemma edf_ready_order_cong:
  assumes "inh_task (rt_param (tasks s a)) = None" "inh_task (rt_param (tasks s' a)) = None"
    "inh_task (rt_param (tasks s b)) = None" "inh_task (rt_param (tasks s' b)) = None"
    "get_deadline (tasks s' a) = get_deadline (tasks s a)" "get_deadline (tasks s' b) = get_deadline (tasks s b)"
    "pid (tasks s' a) = pid (tasks s a)" "pid (tasks s' b) = pid (tasks s b)"
    "is_realtime (tasks s' b) = is_realtime (tasks s b)"
  shows "edf_ready_order s' a b = edf_ready_order s a b"
  using assms unfolding edf_ready_order_def edf_higher_prio_Some earlier_deadline_def
  by (simp add: eff_no_inh)

text \<open>What of a task the queues depend on.\<close>

definition qview :: "task_struct \<Rightarrow> int \<times> nat \<times> tid option \<times> lt_t \<times> lt_t \<times> bool \<times> bool" where
  "qview t = (pid t, policy t, inh_task (rt_param t), get_deadline t, get_release t,
     heap_node (rt_param t), in_heap (rt_param t))"

lemma qviewD:
  assumes "qview t = qview t'"
  shows "pid t = pid t'" "is_realtime t = is_realtime t'" "inh_task (rt_param t) = inh_task (rt_param t')"
    "get_deadline t = get_deadline t'" "get_release t = get_release t'"
    "heap_node (rt_param t) = heap_node (rt_param t')" "in_heap (rt_param t) = in_heap (rt_param t')"
    "edf_ok t = edf_ok t'"
  using assms by (simp_all add: qview_def is_realtime_def edf_ok_def)

text \<open>
  A step that leaves the queues alone keeps the invariant, if it keeps the PIDs and the heap flags
  and, of the tasks in a queue, everything the queues depend on.
\<close>

lemma heaps_ok_cong:
  assumes "heaps_ok s" "placed home pl s" "doms s' = doms s" "rel_heaps s' = rel_heaps s"
    and same: "\<And>t. pl t \<noteq> Nowhere \<Longrightarrow> qview (tasks s' t) = qview (tasks s t)"
  shows "heaps_ok s'"
proof -
  have ord: "edf_ready_order s' a b = edf_ready_order s a b" if "pl a \<noteq> Nowhere" "pl b \<noteq> Nowhere" for a b
  proof -
    have "edf_ok (tasks s a)" "edf_ok (tasks s b)" using that placed_simps(6) [OF assms(2)] by blast+
    then show ?thesis
      using qviewD [OF same [OF that(1)]] qviewD [OF same [OF that(2)]]
      by (intro edf_ready_order_cong) (simp_all add: edf_ok_def)
  qed
  have "bheap_inv (edf_ready_order s') (ready_queue (doms s d)) =
    bheap_inv (edf_ready_order s) (ready_queue (doms s d))" for d
    by (rule bheap_inv_cong) (simp add: ord placed_simps(3) [OF assms(2)])
  moreover have "bheap_inv (edf_ready_order s') (rh_heap (rel_heaps s r)) =
    bheap_inv (edf_ready_order s) (rh_heap (rel_heaps s r))" for r
    by (rule bheap_inv_cong) (simp add: ord placed_simps(4) [OF assms(2)])
  ultimately show ?thesis using assms(1,3,4) by (simp add: heaps_ok_def)
qed

lemma release_okD:
  assumes "release_ok pl s"
  shows "sorted_wrt (\<lambda>a b. rh_time (rel_heaps s a) < rh_time (rel_heaps s b)) (slot (doms s d) k)"
    "r \<in> set (slot (doms s d) k) \<Longrightarrow> pl r = Waiting r"
    "r \<in> set (slot (doms s d) k) \<Longrightarrow> rh_dom (rel_heaps s r) = d"
    "r \<in> set (slot (doms s d) k) \<Longrightarrow> time2slot (tick_period s) (rh_time (rel_heaps s r)) = k"
    "pl r = Waiting r \<Longrightarrow> r \<in> set (slot_of s r)"
    "rh_timer (rel_heaps s r) = None \<longleftrightarrow> pl r \<noteq> Waiting r"
    "rh_timer (rel_heaps s r) = Some (e, c) \<Longrightarrow> e = rh_time (rel_heaps s r)"
    "pl t = Waiting r \<Longrightarrow> pl r = Waiting r"
    "pl t = Waiting r \<Longrightarrow> get_release (tasks s t) = rh_time (rel_heaps s r)"
  using assms unfolding release_ok_def by blast+

lemma release_okI:
  assumes "\<And>d k. sorted_wrt (\<lambda>a b. rh_time (rel_heaps s a) < rh_time (rel_heaps s b)) (slot (doms s d) k)"
    "\<And>r d k. r \<in> set (slot (doms s d) k) \<Longrightarrow> pl r = Waiting r \<and> rh_dom (rel_heaps s r) = d \<and>
       time2slot (tick_period s) (rh_time (rel_heaps s r)) = k"
    "\<And>r. pl r = Waiting r \<Longrightarrow> r \<in> set (slot_of s r)"
    "\<And>r. rh_timer (rel_heaps s r) = None \<longleftrightarrow> pl r \<noteq> Waiting r"
    "\<And>r e c. rh_timer (rel_heaps s r) = Some (e, c) \<Longrightarrow> e = rh_time (rel_heaps s r)"
    "\<And>t r. pl t = Waiting r \<Longrightarrow> pl r = Waiting r \<and> get_release (tasks s t) = rh_time (rel_heaps s r)"
  shows "release_ok pl s"
  unfolding release_ok_def
proof (intro conjI)
  show "\<forall>d k. \<forall>r \<in> set (slot (doms s d) k). pl r = Waiting r \<and> rh_dom (rel_heaps s r) = d \<and>
      time2slot (tick_period s) (rh_time (rel_heaps s r)) = k"
    using assms(2) by blast
  show "\<forall>r. (pl r = Waiting r) = (rh_timer (rel_heaps s r) \<noteq> None)"
    by (simp add: assms(4) del: not_None_eq)
  show "\<forall>t r. pl t = Waiting r \<longrightarrow> pl r = Waiting r \<and> get_release (tasks s t) = rh_time (rel_heaps s r)"
    using assms(6) by blast
qed (use assms(1,3,5) in simp_all)

lemma release_ok_frame:
  assumes "release_ok pl s" "\<And>d. slot (doms s' d) = slot (doms s d)"
    "\<And>r. rh_time (rel_heaps s' r) = rh_time (rel_heaps s r)"
    "\<And>r. rh_dom (rel_heaps s' r) = rh_dom (rel_heaps s r)"
    "\<And>r. rh_timer (rel_heaps s' r) = rh_timer (rel_heaps s r)"
    "tick_period s' = tick_period s"
    "\<And>x r. pl' x = Waiting r \<longleftrightarrow> pl x = Waiting r"
    "\<And>x r. pl x = Waiting r \<Longrightarrow> get_release (tasks s' x) = get_release (tasks s x)"
  shows "release_ok pl' s'"
  using assms(1) unfolding release_ok_def slot_of_def assms(2-7)
  by (elim conjE, intro conjI) (assumption+, simp add: assms(8))

lemma queue_inv_frame:
  assumes "queue_inv home pl s" "doms s' = doms s" "rel_heaps s' = rel_heaps s" "tick_period s' = tick_period s"
    and same: "\<And>t. pl t \<noteq> Nowhere \<Longrightarrow> qview (tasks s' t) = qview (tasks s t) \<and> home (tasks s' t) = home (tasks s t)"
    and ids: "\<And>t. pid (tasks s' t) = pid (tasks s t) \<and> in_heap (rt_param (tasks s' t)) = in_heap (rt_param (tasks s t))"
  shows "queue_inv home pl s'"
proof -
  have p: "placed home pl s" using assms(1) by (simp add: queue_inv_def)
  have "heaps_ok s'"
    using heaps_ok_cong [OF _ p assms(2,3)] same assms(1) by (simp add: queue_inv_def)
  moreover have "placed home pl s'"
    unfolding placed_def assms(2,3)
  proof (intro conjI allI impI)
    show "edf_ok (tasks s' t)" if "pl t \<noteq> Nowhere" for t
      using same [OF that] qviewD(8) placed_simps(6) [OF p that] by blast
    show "home (tasks s' t) = d" if "pl t = Ready d" for t d
      using same [of t] p that by (simp add: placed_def)
    show "home (tasks s' t) = rh_dom (rel_heaps s r)" if "pl t = Waiting r" for t r
      using same [of t] p that by (simp add: placed_def)
  qed (use p ids in \<open>simp_all add: placed_def\<close>)
  moreover have "release_ok pl s'"
    by (rule release_ok_frame [of pl s])
      (use assms(1) same in \<open>auto simp: assms(2-4) queue_inv_def qview_def\<close>)
  ultimately show ?thesis by (simp add: queue_inv_def)
qed

section \<open>Operations on the ready queue\<close>

lemma set_in_heap_simps [simp]:
  "pid (set_in_heap b t) = pid t" "policy (set_in_heap b t) = policy t"
  "state (set_in_heap b t) = state t" "preempt_active (set_in_heap b t) = preempt_active t"
  "get_deadline (set_in_heap b t) = get_deadline t" "get_release (set_in_heap b t) = get_release t"
  "get_partition (set_in_heap b t) = get_partition t" "get_rt_flags (set_in_heap b t) = get_rt_flags t"
  "inh_task (rt_param (set_in_heap b t)) = inh_task (rt_param t)"
  "heap_node (rt_param (set_in_heap b t)) = heap_node (rt_param t)"
  "in_heap (rt_param (set_in_heap b t)) = b"
  "edf_ok (set_in_heap b t) = edf_ok t" "is_realtime (set_in_heap b t) = is_realtime t"
  by (simp_all add: rt_simps edf_ok_def)

lemma edf_order_in_heap [simp]:
  "edf_ready_order (upd_task t (set_in_heap b) s) = edf_ready_order s"
proof (intro ext)
  fix x y
  have "eff ((tasks s)(t := set_in_heap b (tasks s t))) z = eff (tasks s) z" for z
    by (simp add: eff_def)
  then show "edf_ready_order (upd_task t (set_in_heap b) s) x y = edf_ready_order s x y"
    unfolding edf_ready_order_def edf_higher_prio_Some earlier_deadline_def by simp
qed

lemma edf_order_upd [simp]:
  "edf_ready_order (upd_dom d f s) = edf_ready_order s"
  "edf_ready_order (upd_rh r g s) = edf_ready_order s"
  "edf_ready_order (s\<lparr>doms := D\<rparr>) = edf_ready_order s"
  "edf_ready_order (s\<lparr>rel_heaps := H\<rparr>) = edf_ready_order s"
  by (intro ext; simp add: edf_ready_order_def)+

text \<open>
  Exchanging the ready queue of a domain for one that has the task \<open>t\<close> in addition, or no longer,
  or neither, with the heap flag of \<open>t\<close> set accordingly.
\<close>

lemma queue_inv_ready_upd:
  assumes inv: "queue_inv home pl s" and q: "bheap_inv (edf_ready_order s) q"
    and elems: "\<And>x. count (bheap_elems q) x = (if (pl(t := p)) x = Ready d then 1 else 0)"
    and p: "p \<in> {Nowhere, Ready d}" "pl t \<in> {Nowhere, Ready d}"
    and t: "p = Ready d \<Longrightarrow> edf_ok (tasks s t) \<and> home (set_in_heap True (tasks s t)) = d"
    and home: "\<And>x. p = Ready d \<or> home (set_in_heap False x) = home x"
  shows "queue_inv home (pl(t := p))
    (upd_task t (set_in_heap (p = Ready d)) (upd_dom d (\<lambda>D. D\<lparr>ready_queue := q\<rparr>) s))"
    (is "queue_inv home ?pl ?s")
proof -
  have pl: "placed home pl s" and h: "heaps_ok s" and r: "release_ok pl s"
    using inv by (simp_all add: queue_inv_def)
  have "heaps_ok ?s"
    using h q by (simp add: heaps_ok_def)
  moreover have "placed home ?pl ?s"
    unfolding placed_def
  proof (intro conjI allI impI)
    show "count (ready_of ?s d') x = (if ?pl x = Ready d' then 1 else 0)" for d' x
      using elems [of x] p placed_simps(1) [OF pl, of d' x] by auto
    show "count (waiting_of ?s r) x = (if ?pl x = Waiting r then 1 else 0)" for r x
      using p placed_simps(2) [OF pl, of r x] by auto
    show "in_heap (rt_param (tasks ?s x)) = (?pl x \<noteq> Nowhere)" for x
      using p placed_simps(5) [OF pl, of x] by auto
    show "edf_ok (tasks ?s x)" if "?pl x \<noteq> Nowhere" for x
      using t p that placed_simps(6) [OF pl, of x] by (auto split: if_splits)
    show "home (tasks ?s x) = d'" if "?pl x = Ready d'" for x d'
      using t p that pl by (auto split: if_splits simp: placed_def)
    show "home (tasks ?s x) = rh_dom (rel_heaps ?s r)" if "?pl x = Waiting r" for x r
      using p that pl by (auto split: if_splits simp: placed_def)
    show "a = b" if "pid (tasks ?s a) = pid (tasks ?s b)" for a b
      using placed_simps(7) [OF pl] that by (auto split: if_splits)
  qed
  moreover have "release_ok ?pl ?s"
    by (rule release_ok_frame [OF r]) (use p in auto)
  ultimately show ?thesis by (simp add: queue_inv_def)
qed

lemma queue_inv_ready_same:
  assumes "queue_inv home pl s" "bheap_inv (edf_ready_order s) q" "bheap_elems q = ready_of s d"
  shows "queue_inv home pl (upd_dom d (\<lambda>D. D\<lparr>ready_queue := q\<rparr>) s)"
proof -
  have "release_ok pl (upd_dom d (\<lambda>D. D\<lparr>ready_queue := q\<rparr>) s)"
    by (rule release_ok_frame [of pl s]) (use assms(1) in \<open>auto simp: queue_inv_def\<close>)
  then show ?thesis
    using assms unfolding queue_inv_def heaps_ok_def placed_def by simp
qed

lemma queue_inv_heap:
  assumes "queue_inv home pl s"
  shows "bheap_inv (edf_ready_order s) (ready_queue (doms s d))"
    "bheap_inv (edf_ready_order s) (rh_heap (rel_heaps s r))" "placed home pl s"
  using assms by (simp_all add: queue_inv_def heaps_ok_def)

text \<open>Looking at the head of a ready queue only caches its minimum.\<close>

lemma next_ready_spec:
  assumes "queue_inv home pl s" "next_ready edf_ready_order d s = (r, s')"
  shows "queue_inv home pl s'" "tasks s' = tasks s" "\<exists>q. s' = upd_dom d (\<lambda>D. D\<lparr>ready_queue := q\<rparr>) s"
    "r = None \<longleftrightarrow> (\<forall>t. pl t \<noteq> Ready d)"
    "r = Some v \<Longrightarrow> pl v = Ready d" "r = Some v \<Longrightarrow> pl x = Ready d \<Longrightarrow> \<not> edf_ready_order s x v"
proof -
  obtain q where q: "bheap_peek (edf_ready_order s) (ready_queue (doms s d)) = (r, q)"
    "s' = upd_dom d (\<lambda>D. D\<lparr>ready_queue := q\<rparr>) s"
    using assms(2) by (auto simp: next_ready_def split: prod.splits)
  note spec = bq.peek_spec [OF q(1) queue_inv_heap(1) [OF assms(1)] queue_inv_weak_order(2) [OF assms(1)]]
  show "queue_inv home pl s'" unfolding q(2) using queue_inv_ready_same assms(1) spec by blast
  show "tasks s' = tasks s" "\<exists>q. s' = upd_dom d (\<lambda>D. D\<lparr>ready_queue := q\<rparr>) s" using q(2) by auto
  note in_ready = placed_simps(3) [OF queue_inv_heap(3) [OF assms(1)]]
  have "ready_of s d = {#} \<longleftrightarrow> (\<forall>t. pl t \<noteq> Ready d)"
    by (simp add: multiset_eq_iff flip: in_ready)
  then show "r = None \<longleftrightarrow> (\<forall>t. pl t \<noteq> Ready d)" using spec by simp
  show "r = Some v \<Longrightarrow> pl v = Ready d" "r = Some v \<Longrightarrow> pl x = Ready d \<Longrightarrow> \<not> edf_ready_order s x v"
    using spec by (simp_all flip: in_ready)
qed

lemma jobs_pending_iff:
  assumes "queue_inv home pl s"
  shows "jobs_pending d s \<longleftrightarrow> (\<exists>t. pl t = Ready d)"
proof -
  note in_ready = placed_simps(3) [OF queue_inv_heap(3) [OF assms]]
  show ?thesis
    unfolding jobs_pending_def bq.is_empty_iff multiset_eq_iff
    by (simp flip: in_ready)
qed

lemma take_ready_spec:
  assumes inv: "queue_inv home pl s" and take: "take_ready edf_ready_order d s = (r, s')"
    and home: "\<And>x. home (set_in_heap False x) = home x"
  shows "r = None \<longleftrightarrow> (\<forall>t. pl t \<noteq> Ready d)" "r = None \<Longrightarrow> queue_inv home pl s' \<and> tasks s' = tasks s"
    "r = Some v \<Longrightarrow> queue_inv home (pl(v := Nowhere)) s'"
    "r = Some v \<Longrightarrow> tasks s' = (tasks s)(v := set_in_heap False (tasks s v))"
    "r = Some v \<Longrightarrow> pl v = Ready d" "r = Some v \<Longrightarrow> pl x = Ready d \<Longrightarrow> \<not> edf_ready_order s x v"
    "rel_heaps s' = rel_heaps s" "kstate.more s' = kstate.more s" "this_cpu s' = this_cpu s" "curr s' = curr s"
    "ipis s' = ipis s" "budget_timer s' = budget_timer s"
proof -
  obtain q where q: "bheap_take (edf_ready_order s) (ready_queue (doms s d)) = (r, q)"
    and s': "s' = (case r of Some t \<Rightarrow> upd_task t (set_in_heap False) (upd_dom d (\<lambda>D. D\<lparr>ready_queue := q\<rparr>) s)
                 | None \<Rightarrow> upd_dom d (\<lambda>D. D\<lparr>ready_queue := q\<rparr>) s)"
    using take by (auto simp: take_ready_def Let_def split: prod.splits)
  note spec = bq.pop_spec [OF q queue_inv_heap(1) [OF inv] queue_inv_weak_order(2) [OF inv]]
  note p = queue_inv_heap(3) [OF inv]
  have empty: "ready_of s d = {#} \<longleftrightarrow> (\<forall>t. pl t \<noteq> Ready d)"
    by (simp add: multiset_eq_iff flip: placed_simps(3) [OF p])
  then show "r = None \<longleftrightarrow> (\<forall>t. pl t \<noteq> Ready d)" using spec by simp
  show "r = Some v \<Longrightarrow> pl v = Ready d" "r = Some v \<Longrightarrow> pl x = Ready d \<Longrightarrow> \<not> edf_ready_order s x v"
    using spec by (simp_all flip: placed_simps(3) [OF p])
  show "rel_heaps s' = rel_heaps s" "kstate.more s' = kstate.more s" "this_cpu s' = this_cpu s" "curr s' = curr s"
    "ipis s' = ipis s" "budget_timer s' = budget_timer s"
    unfolding s' by (simp_all split: option.splits)
  show "r = Some v \<Longrightarrow> tasks s' = (tasks s)(v := set_in_heap False (tasks s v))"
    unfolding s' by simp
  show "queue_inv home pl s' \<and> tasks s' = tasks s" if "r = None"
    using that s' spec empty queue_inv_ready_same [OF inv] by simp
  show "queue_inv home (pl(v := Nowhere)) s'" if v: "r = Some v"
  proof -
    have "count (bheap_elems q) x = (if (pl(v := Nowhere)) x = Ready d then 1 else 0)" for x
      using spec v placed_simps(1) [OF p, of d x] placed_simps(3) [OF p, of v d] by auto
    then show ?thesis
      using queue_inv_ready_upd [OF inv, of q v Nowhere d] spec v s' home
        placed_simps(3) [OF p, of v d] by simp
  qed
qed

lemma remove_rt_spec:
  assumes inv: "queue_inv home pl s" and t: "pl t = Ready d"
    and home: "\<And>x. home (set_in_heap False x) = home x"
  shows "ok (remove_rt edf_ready_order d t s) (\<lambda>s'. queue_inv home (pl(t := Nowhere)) s' \<and>
    tasks s' = (tasks s)(t := set_in_heap False (tasks s t)) \<and> kstate.more s' = kstate.more s \<and>
    rel_heaps s' = rel_heaps s \<and> this_cpu s' = this_cpu s \<and> curr s' = curr s)"
proof -
  note p = queue_inv_heap(3) [OF inv]
  obtain q where q: "bheap_delete (edf_ready_order s) (ready_queue (doms s d)) t = Some q"
    using bq.del_None [of "edf_ready_order s" "ready_queue (doms s d)" t] placed_simps(3) [OF p, of t d] t
    by (cases "bheap_delete (edf_ready_order s) (ready_queue (doms s d)) t") auto
  note spec = bq.del_spec [OF q queue_inv_heap(1) [OF inv] queue_inv_weak_order(2) [OF inv]]
  have "count (bheap_elems q) x = (if (pl(t := Nowhere)) x = Ready d then 1 else 0)" for x
    using spec placed_simps(1) [OF p, of d x] t by auto
  then show ?thesis
    using queue_inv_ready_upd [OF inv, of q t Nowhere d] spec home t q by (simp add: remove_rt_def)
qed

text \<open>Adding a task to a ready queue, up to the callback that checks for a preemption.\<close>

lemma add_ready_core:
  assumes inv: "queue_inv home pl s" and t: "pl t = Nowhere" "edf_ok (tasks s t)"
    "home (set_in_heap True (tasks s t)) = d"
  shows "queue_inv home (pl(t := Ready d)) (upd_task t (set_in_heap True)
    (upd_dom d (\<lambda>D. D\<lparr>ready_queue := bheap_insert (edf_ready_order s) (ready_queue (doms s d)) t\<rparr>) s))"
proof -
  let ?q = "bheap_insert (edf_ready_order s) (ready_queue (doms s d)) t"
  note p = queue_inv_heap(3) [OF inv]
  have sub: "insert t (set_mset (ready_of s d)) \<subseteq> {t. edf_ok (tasks s t)}"
    using t(2) placed_simps(6) [OF p] by (auto simp: placed_simps(3) [OF p])
  have "bheap_inv (edf_ready_order s) ?q"
    by (rule bq.ins_inv [OF queue_inv_heap(1) [OF inv]])
      (rule weak_order_mono [OF queue_inv_weak_order(1) [OF inv] sub])
  moreover have "count (bheap_elems ?q) x = (if (pl(t := Ready d)) x = Ready d then 1 else 0)" for x
    using placed_simps(1) [OF p, of d x] t(1) by (auto simp: bq.ins_elems)
  ultimately show ?thesis
    using queue_inv_ready_upd [OF inv, of ?q t "Ready d" d] t by simp
qed

section \<open>Operations on the release queue\<close>

lemma find_release_heap_Some:
  "find_release_heap rhs T rs = (Some r, pos) \<Longrightarrow> r \<in> set rs \<and> rh_time (rhs r) = T"
  by (induction rs arbitrary: pos) (auto split: if_splits prod.splits)

lemma find_release_heap_None:
  assumes "find_release_heap rhs T rs = (None, pos)" "sorted_wrt (\<lambda>a b. rh_time (rhs a) < rh_time (rhs b)) rs"
    "\<And>r. r \<in> set rs \<Longrightarrow> unat (rh_time (rhs r)) < 2 ^ 63" "unat T < 2 ^ 63"
  shows "(\<forall>x \<in> set (take pos rs). rh_time (rhs x) < T) \<and> (\<forall>x \<in> set (drop pos rs). T < rh_time (rhs x))"
  using assms
proof (induction rs arbitrary: pos)
  case (Cons r rs)
  have cmp: "lt_before T (rh_time (rhs r)) \<longleftrightarrow> T < rh_time (rhs r)"
    using Cons.prems(3,4) by (intro lt_before_small) simp_all
  show ?case
  proof (cases "lt_before T (rh_time (rhs r))")
    case True
    then show ?thesis using Cons.prems(1,2) cmp by (auto split: if_splits intro: less_trans)
  next
    case False
    then obtain p where p: "find_release_heap rhs T rs = (None, p)" "pos = p + 1" "T \<noteq> rh_time (rhs r)"
      using Cons.prems(1) by (auto split: if_splits prod.splits)
    then have "rh_time (rhs r) < T" using False cmp by auto
    then show ?thesis using Cons.IH [OF p(1)] Cons.prems(2-4) p(2) by simp
  qed
qed simp

text \<open>A task joins a release heap that is already in use for its release time.\<close>

lemma queue_inv_join:
  assumes inv: "queue_inv home pl s" and t: "pl t = Nowhere" "edf_ok (tasks s t)"
    "home (set_in_heap True (tasks s t)) = rh_dom (rel_heaps s r)"
    and r: "pl r = Waiting r" "get_release (tasks s t) = rh_time (rel_heaps s r)"
  shows "queue_inv home (pl(t := Waiting r)) (upd_task t (set_in_heap True)
    (upd_rh r (\<lambda>R. R\<lparr>rh_heap := bheap_insert (edf_ready_order s) (rh_heap (rel_heaps s r)) t\<rparr>) s))"
    (is "queue_inv home ?pl ?s")
proof -
  let ?q = "bheap_insert (edf_ready_order s) (rh_heap (rel_heaps s r)) t"
  have p: "placed home pl s" and h: "heaps_ok s" and rel: "release_ok pl s"
    using inv by (simp_all add: queue_inv_def)
  have "r \<noteq> t" using r t by auto
  have sub: "insert t (set_mset (waiting_of s r)) \<subseteq> {t. edf_ok (tasks s t)}"
    using t(2) placed_simps(6) [OF p] by (auto simp: placed_simps(4) [OF p])
  have "bheap_inv (edf_ready_order s) ?q"
    by (rule bq.ins_inv [OF queue_inv_heap(2) [OF inv]])
      (rule weak_order_mono [OF queue_inv_weak_order(1) [OF inv] sub])
  then have "heaps_ok ?s" using h by (simp add: heaps_ok_def)
  moreover have "placed home ?pl ?s"
    unfolding placed_def
  proof (intro conjI allI impI)
    show "count (ready_of ?s d) x = (if ?pl x = Ready d then 1 else 0)" for d x
      using placed_simps(1) [OF p, of d x] t(1) by auto
    show "count (waiting_of ?s r') x = (if ?pl x = Waiting r' then 1 else 0)" for r' x
      using placed_simps(2) [OF p, of r' x] t(1) by (auto simp: bq.ins_elems)
    show "in_heap (rt_param (tasks ?s x)) = (?pl x \<noteq> Nowhere)" for x
      using placed_simps(5) [OF p, of x] by auto
    show "edf_ok (tasks ?s x)" if "?pl x \<noteq> Nowhere" for x
      using t(2) that placed_simps(6) [OF p, of x] by auto
    show "home (tasks ?s x) = d" if "?pl x = Ready d" for x d
      using that p by (auto split: if_splits simp: placed_def)
    show "home (tasks ?s x) = rh_dom (rel_heaps ?s r')" if "?pl x = Waiting r'" for x r'
      using that p t(3) by (auto split: if_splits simp: placed_def)
    show "a = b" if "pid (tasks ?s a) = pid (tasks ?s b)" for a b
      using placed_simps(7) [OF p] that by (auto split: if_splits)
  qed
  moreover have "release_ok (pl(t := Waiting r)) s"
  proof (rule release_okI)
    show "(pl(t := Waiting r)) x = Waiting x \<and> rh_dom (rel_heaps s x) = d \<and>
       time2slot (tick_period s) (rh_time (rel_heaps s x)) = k" if "x \<in> set (slot (doms s d) k)" for x d k
      using release_okD(2-4) [OF rel that] t(1) by auto
    show "x \<in> set (slot_of s x)" if "(pl(t := Waiting r)) x = Waiting x" for x
      using release_okD(5) [OF rel, of x] that \<open>r \<noteq> t\<close> by (auto split: if_splits)
    show "(rh_timer (rel_heaps s x) = None) = ((pl(t := Waiting r)) x \<noteq> Waiting x)" for x
      using release_okD(6) [OF rel, of x] t(1) \<open>r \<noteq> t\<close> by auto
    show "(pl(t := Waiting r)) y = Waiting y \<and> get_release (tasks s x) = rh_time (rel_heaps s y)"
      if "(pl(t := Waiting r)) x = Waiting y" for x y
      using release_okD(8,9) [OF rel, of x y] that t(1) r \<open>r \<noteq> t\<close> by (auto split: if_splits)
  qed (use release_okD [OF rel] in blast)+
  then have "release_ok ?pl ?s"
    by (rule release_ok_frame) auto
  ultimately show ?thesis by (simp add: queue_inv_def)
qed

text \<open>A task opens its own release heap.\<close>

definition open_heap :: "nat \<Rightarrow> nat \<Rightarrow> tid list \<Rightarrow> tid bheap \<Rightarrow> lt_t \<Rightarrow> cpu_id \<Rightarrow> tid \<Rightarrow> 'z kstate_scheme \<Rightarrow> 'z kstate_scheme" where
  "open_heap d k rs q T c t s =
     upd_task t (set_in_heap True) (upd_dom d (\<lambda>D. D\<lparr>slot := (slot D)(k := rs)\<rparr>)
       (upd_rh t (\<lambda>R. R\<lparr>rh_dom := d, rh_time := T, rh_heap := q, rh_timer := Some (T, c)\<rparr>) s))"

lemma sorted_insert_at:
  assumes "sorted_wrt P rs" "\<forall>x \<in> set (take pos rs). P x t" "\<forall>x \<in> set (drop pos rs). P t x"
  shows "sorted_wrt P (take pos rs @ t # drop pos rs)"
proof -
  have "sorted_wrt P (take pos rs @ drop pos rs)" using assms(1) by simp
  from this [unfolded sorted_wrt_append] show ?thesis
    using assms(2,3) by (simp add: sorted_wrt_append)
qed

lemma set_insert_at: "set (take pos rs @ t # drop pos rs) = insert t (set rs)"
  by (metis append_take_drop_id list.simps(15) set_append Un_insert_right)

lemma release_ok_open:
  assumes rel: "release_ok pl s" and t: "pl t = Nowhere" "get_release (tasks s t) = T"
    and k: "k = time2slot (tick_period s) T"
    and sorted: "\<forall>x \<in> set (take pos (slot (doms s d) k)). rh_time (rel_heaps s x) < T"
      "\<forall>x \<in> set (drop pos (slot (doms s d) k)). T < rh_time (rel_heaps s x)"
  shows "release_ok (pl(t := Waiting t))
    (open_heap d k (take pos (slot (doms s d) k) @ t # drop pos (slot (doms s d) k)) q T c t s)"
    (is "release_ok ?pl ?s")
proof -
  let ?rs = "slot (doms s d) k"
  have notin: "t \<notin> set (slot (doms s d') k')" for d' k'
    using release_okD(2) [OF rel, of t d' k'] t(1) by auto
  have waiting: "r \<noteq> t" if "pl x = Waiting r" for x r
    using release_okD(8) [OF rel that] t(1) by auto
  have time [simp]: "rh_time (rel_heaps ?s x) = (if x = t then T else rh_time (rel_heaps s x))"
    "rh_dom (rel_heaps ?s x) = (if x = t then d else rh_dom (rel_heaps s x))"
    "rh_timer (rel_heaps ?s x) = (if x = t then Some (T, c) else rh_timer (rel_heaps s x))"
    "get_release (tasks ?s x) = get_release (tasks s x)" "tick_period ?s = tick_period s" for x
    by (simp_all add: open_heap_def)
  have slots: "slot (doms ?s d') k' = (if d' = d \<and> k' = k then take pos ?rs @ t # drop pos ?rs
    else slot (doms s d') k')" for d' k'
    by (simp add: open_heap_def)
  have old: "sorted_wrt (\<lambda>a b. rh_time (rel_heaps ?s a) < rh_time (rel_heaps ?s b)) (slot (doms s d') k')"
    for d' k'
    by (rule sorted_wrt_mono_rel [OF _ release_okD(1) [OF rel]]) (use notin in auto)
  show ?thesis
  proof (rule release_okI)
    have "sorted_wrt (\<lambda>a b. rh_time (rel_heaps ?s a) < rh_time (rel_heaps ?s b)) (take pos ?rs @ t # drop pos ?rs)"
      by (rule sorted_insert_at [OF old])
        (use sorted notin in \<open>auto dest: in_set_takeD in_set_dropD\<close>)
    then show "sorted_wrt (\<lambda>a b. rh_time (rel_heaps ?s a) < rh_time (rel_heaps ?s b)) (slot (doms ?s d') k')" for d' k'
      using old [of d' k'] unfolding slots by simp
    show "?pl r = Waiting r \<and> rh_dom (rel_heaps ?s r) = d' \<and>
        time2slot (tick_period ?s) (rh_time (rel_heaps ?s r)) = k'"
      if "r \<in> set (slot (doms ?s d') k')" for r d' k'
    proof (cases "r = t")
      case True
      then have "d' = d \<and> k' = k" using that notin [of d' k'] unfolding slots by (metis (full_types))
      then show ?thesis using True by (simp flip: k)
    next
      case False
      then have "r \<in> set (slot (doms s d') k')"
        using that by (auto simp: slots set_insert_at split: if_splits dest: in_set_takeD in_set_dropD)
      then show ?thesis using release_okD(2-4) [OF rel] False by simp
    qed
    show "r \<in> set (slot_of ?s r)" if "?pl r = Waiting r" for r
    proof (cases "r = t")
      case True
      then show ?thesis unfolding slot_of_def slots by (simp flip: k)
    next
      case False
      then have "r \<in> set (slot_of s r)" using release_okD(5) [OF rel, of r] that by simp
      then show ?thesis
        using False set_insert_at [of pos ?rs t] unfolding slot_of_def slots by auto
    qed
    show "(rh_timer (rel_heaps ?s r) = None) = (?pl r \<noteq> Waiting r)" for r
      using release_okD(6) [OF rel, of r] by simp
    show "e = rh_time (rel_heaps ?s r)" if "rh_timer (rel_heaps ?s r) = Some (e, c')" for r e c'
      using release_okD(7) [OF rel, of r e c'] that by (auto split: if_splits)
    show "?pl r = Waiting r \<and> get_release (tasks ?s x) = rh_time (rel_heaps ?s r)"
      if "?pl x = Waiting r" for x r
      using release_okD(8,9) [OF rel, of x r] waiting [of x r] that t(2) by (auto split: if_splits)
  qed
qed

lemma queue_inv_open:
  assumes inv: "queue_inv home pl s" and t: "pl t = Nowhere" "edf_ok (tasks s t)"
    "home (set_in_heap True (tasks s t)) = d" "get_release (tasks s t) = T"
    and k: "k = time2slot (tick_period s) T"
    and sorted: "\<forall>x \<in> set (take pos (slot (doms s d) k)). rh_time (rel_heaps s x) < T"
      "\<forall>x \<in> set (drop pos (slot (doms s d) k)). T < rh_time (rel_heaps s x)"
  shows "queue_inv home (pl(t := Waiting t))
    (open_heap d k (take pos (slot (doms s d) k) @ t # drop pos (slot (doms s d) k))
       (bheap_insert (edf_ready_order s) bheap_init t) T c t s)"
    (is "queue_inv home ?pl (open_heap d k ?rs ?q T c t s)" is "queue_inv home ?pl ?s")
proof -
  have p: "placed home pl s" and h: "heaps_ok s" and rel: "release_ok pl s"
    using inv by (simp_all add: queue_inv_def)
  have "bheap_inv (edf_ready_order s) ?q"
    by (rule bq.ins_inv [OF bq.empty_inv])
      (rule weak_order_mono [OF queue_inv_weak_order(1) [OF inv]], use t(2) in \<open>simp add: bq.empty_elems\<close>)
  then have "heaps_ok ?s" using h by (simp add: heaps_ok_def open_heap_def)
  moreover have "placed home ?pl ?s"
    unfolding placed_def
  proof (intro conjI allI impI)
    have waiting: "pl x \<noteq> Waiting t" for x
      using release_okD(8) [OF rel, of x t] t(1) by auto
    show "count (ready_of ?s d') x = (if ?pl x = Ready d' then 1 else 0)" for d' x
      using placed_simps(1) [OF p, of d' x] t(1) by (auto simp: open_heap_def)
    show "count (waiting_of ?s r) x = (if ?pl x = Waiting r then 1 else 0)" for r x
      using placed_simps(2) [OF p, of r x] t(1) waiting [of x]
      by (auto simp: open_heap_def bq.ins_elems bq.empty_elems)
    show "in_heap (rt_param (tasks ?s x)) = (?pl x \<noteq> Nowhere)" for x
      using placed_simps(5) [OF p, of x] by (auto simp: open_heap_def)
    show "edf_ok (tasks ?s x)" if "?pl x \<noteq> Nowhere" for x
      using t(2) that placed_simps(6) [OF p, of x] by (auto simp: open_heap_def)
    show "home (tasks ?s x) = d'" if "?pl x = Ready d'" for x d'
      using that p by (auto split: if_splits simp: placed_def open_heap_def)
    show "home (tasks ?s x) = rh_dom (rel_heaps ?s r)" if "?pl x = Waiting r" for x r
      using that p t(3) waiting [of x] by (auto split: if_splits simp: placed_def open_heap_def)
    show "a = b" if "pid (tasks ?s a) = pid (tasks ?s b)" for a b
      using placed_simps(7) [OF p] that by (auto split: if_splits simp: open_heap_def)
  qed
  moreover have "release_ok ?pl ?s"
    by (rule release_ok_open [OF rel t(1,4) k sorted])
  ultimately show ?thesis by (simp add: queue_inv_def)
qed

text \<open>
  Putting a task into the release queue never stops the kernel, and afterwards the task waits in
  the heap of its release time. The timer of a heap is armed by its owner.
\<close>

lemma arm_release_one_spec:
  assumes inv: "queue_inv home pl s" and t: "pl t = Nowhere" "edf_ok (tasks s t)"
    "home (set_in_heap True (tasks s t)) = d"
  shows "ok (arm_release_one edf_ready_order d target t s) (\<lambda>s'. (\<exists>r. queue_inv home (pl(t := Waiting r)) s') \<and>
    tasks s' = (tasks s)(t := set_in_heap True (tasks s t)) \<and> kstate.more s' = kstate.more s \<and>
    (\<forall>d. ready_queue (doms s' d) = ready_queue (doms s d)) \<and>
    this_cpu s' = this_cpu s \<and> curr s' = curr s \<and> ipis s' = ipis s)"
proof -
  let ?T = "get_release (tasks s t)" and ?k = "time2slot (tick_period s) (get_release (tasks s t))"
  let ?rs = "slot (doms s d) ?k"
  have p: "placed home pl s" and rel: "release_ok pl s" using inv by (simp_all add: queue_inv_def)
  obtain f pos where find: "find_release_heap (rel_heaps s) ?T ?rs = (f, pos)" by fastforce
  show ?thesis
  proof (cases f)
    case (Some r)
    note found = find_release_heap_Some [OF find [unfolded Some]]
    then have r: "pl r = Waiting r" "rh_dom (rel_heaps s r) = d" "?T = rh_time (rel_heaps s r)"
      using release_okD(2,3) [OF rel] by auto
    then have "r \<noteq> t" using t(1) by auto
    then show ?thesis
      using queue_inv_join [OF inv t(1,2) _ r(1,3)] t(3) r(2) find Some
      by (auto simp: arm_release_one_def get_release_heap_def Let_def)
  next
    case None
    have times: "unat (rh_time (rel_heaps s r)) < 2 ^ 63" if "r \<in> set ?rs" for r
    proof -
      have "pl r = Waiting r" using release_okD(2) [OF rel that] .
      then show ?thesis
        using release_okD(9) [OF rel, of r r] placed_simps(6) [OF p, of r]
        by (simp add: edf_ok_def below_2p63)
    qed
    note sorted = find_release_heap_None [OF find [unfolded None] release_okD(1) [OF rel] times]
    have T: "unat ?T < 2 ^ 63" using t(2) by (simp add: edf_ok_def below_2p63)
    have notin: "t \<notin> set ?rs" using release_okD(2) [OF rel, of t d ?k] t(1) by auto
    have cong: "find_release_heap (rhs(t := R)) T xs = find_release_heap rhs T xs"
      if "t \<notin> set xs" for rhs R T xs
      using that by (induction xs) auto
    have timer: "rh_timer (rel_heaps s t) = None" using release_okD(6) [OF rel, of t] t(1) by simp
    define c where "c = (case target of Some c \<Rightarrow> c
      | None \<Rightarrow> (case release_master (doms s d) of Some c \<Rightarrow> c | None \<Rightarrow> this_cpu s))"
    have "arm_release_one edf_ready_order d target t s =
      Some (open_heap d ?k (take pos ?rs @ t # drop pos ?rs)
        (bheap_insert (edf_ready_order s) bheap_init t) ?T c t s)"
      using find None timer cong [OF notin]
      by (simp add: arm_release_one_def get_release_heap_def reinit_release_heap_def Let_def
          open_heap_def c_def upd_rh_def upd_dom_def upd_task_def cong: option.case_cong)
    then show ?thesis
      using queue_inv_open [OF inv t refl refl] sorted T by (auto simp: open_heap_def)
  qed
qed

lemma add_release_on_spec:
  assumes inv: "queue_inv home pl s" and t: "pl t = Nowhere" "edf_ok (tasks s t)" "home (upd_rt (\<lambda>p. p\<lparr>domain := Some d\<rparr>) (tasks s t)) = d"
    and home: "\<And>x b. home (set_in_heap b x) = home x"
  shows "ok (add_release_on edf_ready_order d t target s) (\<lambda>s'. (\<exists>r. queue_inv home (pl(t := Waiting r)) s') \<and>
    tasks s' = (tasks s)(t := set_in_heap True (upd_rt (\<lambda>p. p\<lparr>domain := Some d\<rparr>) (tasks s t))) \<and>
    kstate.more s' = kstate.more s \<and> (\<forall>d. ready_queue (doms s' d) = ready_queue (doms s d)) \<and>
    this_cpu s' = this_cpu s \<and> curr s' = curr s \<and> ipis s' = ipis s)"
proof -
  define s1 where "s1 = upd_task t (upd_rt (\<lambda>p. p\<lparr>domain := Some d\<rparr>)) s"
  have tobe: "tobe_released (doms s d) = []" using inv by (simp add: queue_inv_def heaps_ok_def)
  then have "doms s d\<lparr>tobe_released := []\<rparr> = doms s d" by simp
  then have s1: "upd_dom d (\<lambda>D. D\<lparr>tobe_released := []\<rparr>) (upd_task t (upd_rt (\<lambda>p. p\<lparr>domain := Some d\<rparr>))
      (upd_dom d (\<lambda>D. D\<lparr>tobe_released := t # tobe_released D\<rparr>) s)) = s1"
    unfolding s1_def upd_dom_def upd_task_def by simp
  have eq: "add_release_on edf_ready_order d t target s = arm_release_one edf_ready_order d target t s1"
    using tobe by (cases "arm_release_one edf_ready_order d target t s1")
      (simp_all add: add_release_on_def arm_release_timer_on_def Let_def s1)
  have "queue_inv home pl s1"
    by (rule queue_inv_frame [OF inv]) (use t(1) in \<open>auto simp: s1_def rt_simps\<close>)
  moreover have "edf_ok (tasks s1 t)" using t(2) by (simp add: s1_def rt_simps edf_ok_def)
  moreover have "home (set_in_heap True (tasks s1 t)) = d" using t(3) home by (simp add: s1_def)
  ultimately have "ok (arm_release_one edf_ready_order d target t s1) (\<lambda>s'. (\<exists>r. queue_inv home (pl(t := Waiting r)) s') \<and>
    tasks s' = (tasks s1)(t := set_in_heap True (tasks s1 t)) \<and> kstate.more s' = kstate.more s1 \<and>
    (\<forall>d. ready_queue (doms s' d) = ready_queue (doms s1 d)) \<and>
    this_cpu s' = this_cpu s1 \<and> curr s' = curr s1 \<and> ipis s' = ipis s1)"
    using arm_release_one_spec t(1) by blast
  then show ?thesis unfolding eq by (rule ok_mono) (simp add: s1_def)
qed

lemma add_release_eq: "add_release order d t = add_release_on order d t None"
  by (intro ext) (simp add: add_release_def add_release_on_def)

text \<open>
  A release timer fires: every task of the heap moves to the ready queue of its domain, up to the
  callback that checks for a preemption.
\<close>

definition merged :: "tid \<Rightarrow> 'z kstate_scheme \<Rightarrow> 'z kstate_scheme" where
  "merged r s =
     (let d = rh_dom (rel_heaps s r);
          k = time2slot (tick_period s) (rh_time (rel_heaps s r));
          (q, h) = bheap_union (edf_ready_order s) (ready_queue (doms s d)) (rh_heap (rel_heaps s r))
      in upd_rh r (\<lambda>R. R\<lparr>rh_timer := None, rh_heap := h\<rparr>)
           (upd_dom d (\<lambda>D. D\<lparr>slot := (slot D)(k := remove1 r (slot D k)), ready_queue := q\<rparr>) s))"

lemma on_release_timer_merged:
  "on_release_timer (default_release_jobs edf_ready_order cr) r s = cr (rh_dom (rel_heaps s r)) (merged r s)"
  unfolding on_release_timer_def default_release_jobs_def merge_ready_def merged_def Let_def
  by (simp split: prod.splits) (simp add: upd_rh_def upd_dom_def)

lemma sorted_wrt_remove1: "sorted_wrt P xs \<Longrightarrow> sorted_wrt P (remove1 x xs)"
  by (induction xs) (auto dest: in_set_remove1 [THEN iffD1, rotated] notin_set_remove1)

lemma sorted_wrt_less_distinct: "sorted_wrt (\<lambda>a b. f a < (f b :: 'b :: order)) xs \<Longrightarrow> distinct xs"
  by (induction xs) auto

lemma release_ok_merged:
  assumes rel: "release_ok pl s" and r: "pl r = Waiting r"
  shows "release_ok (\<lambda>x. if pl x = Waiting r then Ready d' else pl x) (merged r s)"
    (is "release_ok ?pl ?s")
proof -
  have time [simp]: "rh_time (rel_heaps ?s x) = rh_time (rel_heaps s x)"
    "rh_dom (rel_heaps ?s x) = rh_dom (rel_heaps s x)"
    "rh_timer (rel_heaps ?s x) = (if x = r then None else rh_timer (rel_heaps s x))"
    "tasks ?s = tasks s" "tick_period ?s = tick_period s" for x
    by (simp_all add: merged_def Let_def split: prod.splits)
  have slots: "slot (doms ?s d) k = (if d = rh_dom (rel_heaps s r) \<and>
      k = time2slot (tick_period s) (rh_time (rel_heaps s r)) then remove1 r (slot (doms s d) k)
    else slot (doms s d) k)" for d k
    by (simp add: merged_def Let_def split: prod.splits)
  have dist: "distinct (slot (doms s d) k)" for d k
    by (rule sorted_wrt_less_distinct [OF release_okD(1) [OF rel]])
  have set_slots: "set (slot (doms ?s d) k) = set (slot (doms s d) k) - {r}" for d k
  proof (cases "r \<in> set (slot (doms s d) k)")
    case True
    then show ?thesis
      using release_okD(3,4) [OF rel True] set_remove1_eq [OF dist] by (simp add: slots)
  next
    case False
    then have "slot (doms ?s d) k = slot (doms s d) k"
      using remove1_idem [OF False] unfolding slots by (simp only: if_cancel if_P if_not_P split: if_split)
    then show ?thesis using False by simp
  qed
  show ?thesis
  proof (rule release_okI)
    show "sorted_wrt (\<lambda>a b. rh_time (rel_heaps ?s a) < rh_time (rel_heaps ?s b)) (slot (doms ?s d) k)" for d k
      unfolding time slots by (simp add: release_okD(1) [OF rel] sorted_wrt_remove1)
    show "?pl x = Waiting x \<and> rh_dom (rel_heaps ?s x) = d \<and>
        time2slot (tick_period ?s) (rh_time (rel_heaps ?s x)) = k" if "x \<in> set (slot (doms ?s d) k)" for x d k
      using release_okD(2-4) [OF rel, of x d k] that unfolding set_slots by simp
    show "x \<in> set (slot_of ?s x)" if "?pl x = Waiting x" for x
      using release_okD(5) [OF rel, of x] that r unfolding slot_of_def set_slots
      by (auto split: if_splits)
    show "(rh_timer (rel_heaps ?s x) = None) = (?pl x \<noteq> Waiting x)" for x
      using release_okD(6) [OF rel, of x] r by auto
    show "e = rh_time (rel_heaps ?s x)" if "rh_timer (rel_heaps ?s x) = Some (e, c)" for x e c
      using release_okD(7) [OF rel, of x e c] that by (auto split: if_splits)
    show "?pl y = Waiting y \<and> get_release (tasks ?s x) = rh_time (rel_heaps ?s y)" if "?pl x = Waiting y" for x y
      using release_okD(8,9) [OF rel, of x y] that r by (auto split: if_splits)
  qed
qed

lemma queue_inv_merged:
  assumes inv: "queue_inv home pl s" and r: "pl r = Waiting r"
  shows "queue_inv home (\<lambda>x. if pl x = Waiting r then Ready (rh_dom (rel_heaps s r)) else pl x) (merged r s)"
    (is "queue_inv home ?pl ?s")
proof -
  have p: "placed home pl s" and h: "heaps_ok s" and rel: "release_ok pl s"
    using inv by (simp_all add: queue_inv_def)
  let ?d = "rh_dom (rel_heaps s r)"
  obtain q h' where u: "bheap_union (edf_ready_order s) (ready_queue (doms s ?d)) (rh_heap (rel_heaps s r)) = (q, h')"
    by fastforce
  note elems = bq.join_elems [OF u]
  have q: "bheap_inv (edf_ready_order s) q"
    by (rule bq.join_inv [OF u queue_inv_heap(1,2) [OF inv] queue_inv_weak_order(4) [OF inv]])
  have tasks: "tasks ?s = tasks s" by (simp add: merged_def Let_def split: prod.splits)
  have ord: "edf_ready_order ?s = edf_ready_order s" by (simp add: edf_ready_order_def tasks fun_eq_iff)
  have ready: "ready_queue (doms ?s x) = (if x = ?d then q else ready_queue (doms s x))" for x
    by (simp add: merged_def u Let_def)
  have wait: "rh_heap (rel_heaps ?s x) = (if x = r then bheap_init else rh_heap (rel_heaps s x))" for x
    using elems by (simp add: merged_def u Let_def)
  have dom: "rh_dom (rel_heaps ?s x) = rh_dom (rel_heaps s x)" "tobe_released (doms ?s x) = tobe_released (doms s x)" for x
    by (simp_all add: merged_def u Let_def)
  have "heaps_ok ?s"
    using h q by (simp add: heaps_ok_def ord ready wait dom bq.empty_inv)
  moreover have "placed home ?pl ?s"
    unfolding placed_def tasks ready wait dom
  proof (intro conjI allI impI)
    show "count (bheap_elems (if d = ?d then q else ready_queue (doms s d))) x = (if ?pl x = Ready d then 1 else 0)"
      for d x
      using placed_simps(1) [OF p, of d x] placed_simps(2) [OF p, of r x] elems by auto
    show "count (bheap_elems (if y = r then bheap_init else rh_heap (rel_heaps s y))) x =
      (if ?pl x = Waiting y then 1 else 0)" for x y
      using placed_simps(2) [OF p, of y x] by (auto simp: bq.empty_elems)
    show "in_heap (rt_param (tasks s x)) = (?pl x \<noteq> Nowhere)" for x
      using placed_simps(5) [OF p, of x] by auto
    show "edf_ok (tasks s x)" if "?pl x \<noteq> Nowhere" for x
      using that placed_simps(6) [OF p, of x] by (auto split: if_splits)
    show "home (tasks s x) = d" if "?pl x = Ready d" for x d
      using that p by (auto split: if_splits simp: placed_def)
    show "home (tasks s x) = rh_dom (rel_heaps s y)" if "?pl x = Waiting y" for x y
      using that p by (auto split: if_splits simp: placed_def)
    show "a = b" if "pid (tasks s a) = pid (tasks s b)" for a b
      using placed_simps(7) [OF p] that by auto
  qed
  moreover have "release_ok ?pl ?s" by (rule release_ok_merged [OF rel r])
  ultimately show ?thesis by (simp add: queue_inv_def)
qed

end
