(* ===== verification/Partitioned.thy ===== *)
theory Partitioned
  imports Edf_Queues
begin

text \<open>
  What the partitioned EDF plugins (PSN-EDF, EDF-WM, C=D, HIME) have in common: one real-time domain
  per CPU, the task that the plugin has scheduled on each CPU, the invariant over both, and the
  contract of the preemption callback, from which the effect of adding, requeueing and releasing
  jobs follows once for all plugins.
\<close>

section \<open>State and invariant\<close>

record pstate = kstate +
  scheduled :: "cpu_id \<Rightarrow> tid option"

lemma scheduled_simps [simp]:
  "scheduled (upd_task t f s) = scheduled s" "scheduled (upd_dom d g s) = scheduled s"
  "scheduled (upd_rh r h s) = scheduled s"
  by (simp_all add: upd_task_def upd_dom_def upd_rh_def)

lemma scheduled_more: "kstate.more s' = kstate.more s \<Longrightarrow> scheduled s' = scheduled s"
  by (cases s, cases s') simp

text \<open>Every task is at most at one place: in one heap or scheduled on one CPU.\<close>

definition sched_ok :: "(tid \<Rightarrow> place) \<Rightarrow> 'z pstate_scheme \<Rightarrow> bool" where
  "sched_ok pl s \<longleftrightarrow>
     (\<forall>c t. scheduled s c = Some t \<longrightarrow> pl t = Nowhere \<and> edf_ok (tasks s t)) \<and>
     (\<forall>c c' t. scheduled s c = Some t \<longrightarrow> scheduled s c' = Some t \<longrightarrow> c = c')"

definition part_inv :: "(tid \<Rightarrow> place) \<Rightarrow> 'z pstate_scheme \<Rightarrow> bool" where
  "part_inv pl s \<longleftrightarrow> queue_inv get_partition pl s \<and> sched_ok pl s"

section \<open>What a preemption request leaves alone\<close>

text \<open>The task without the two flags that ask for a reschedule.\<close>

definition tview :: "task_struct \<Rightarrow> task_struct" where
  "tview t = t\<lparr>need_resched := False,
     rt_param := (rt_param t)\<lparr>ctrl_page := map_option (\<lambda>p. p\<lparr>delayed_preemption := 0\<rparr>) (ctrl_page (rt_param t))\<rparr>\<rparr>"

definition same_tasks :: "'z kstate_scheme \<Rightarrow> 'y kstate_scheme \<Rightarrow> bool" where
  "same_tasks s s' \<longleftrightarrow> (\<forall>t. tview (tasks s' t) = tview (tasks s t))"

lemma tview_fields:
  "pid t = pid (tview t)" "policy t = policy (tview t)" "state t = state (tview t)"
  "preempt_active t = preempt_active (tview t)" "task_cpu t = task_cpu (tview t)"
  "flags (rt_param t) = flags (rt_param (tview t))"
  "task_params (rt_param t) = task_params (rt_param (tview t))"
  "job_params (rt_param t) = job_params (rt_param (tview t))"
  "inh_task (rt_param t) = inh_task (rt_param (tview t))"
  "kernel_np (rt_param t) = kernel_np (rt_param (tview t))"
  "heap_node (rt_param t) = heap_node (rt_param (tview t))"
  "in_heap (rt_param t) = in_heap (rt_param (tview t))"
  "semi_part (rt_param t) = semi_part (rt_param (tview t))"
  by (simp_all add: tview_def)

lemma tviewD:
  assumes "tview t = tview t'"
  shows "pid t = pid t'" "policy t = policy t'" "state t = state t'" "preempt_active t = preempt_active t'"
    "task_cpu t = task_cpu t'" "flags (rt_param t) = flags (rt_param t')"
    "task_params (rt_param t) = task_params (rt_param t')" "job_params (rt_param t) = job_params (rt_param t')"
    "inh_task (rt_param t) = inh_task (rt_param t')" "kernel_np (rt_param t) = kernel_np (rt_param t')"
    "heap_node (rt_param t) = heap_node (rt_param t')" "in_heap (rt_param t) = in_heap (rt_param t')"
    "semi_part (rt_param t) = semi_part (rt_param t')"
  by (simp_all only: tview_fields [of t] tview_fields [of t'] assms)

lemma tview_view:
  assumes "tview t = tview t'"
  shows "qview t = qview t'" "get_partition t = get_partition t'" "edf_ok t = edf_ok t'"
    "get_deadline t = get_deadline t'" "get_release t = get_release t'" "is_realtime t = is_realtime t'"
    "is_running t = is_running t'" "get_rt_flags t = get_rt_flags t'"
    "budget_exhausted t = budget_exhausted t'" "budget_enforced t = budget_enforced t'"
  using tviewD [OF assms]
  by (simp_all add: qview_def rt_simps edf_ok_def is_running_def budget_exhausted_def budget_enforced_def)

lemma same_tasks_refl [simp]: "same_tasks s s"
  by (simp add: same_tasks_def)

lemma same_tasks_trans: "same_tasks s s' \<Longrightarrow> same_tasks s' s'' \<Longrightarrow> same_tasks s s''"
  by (simp add: same_tasks_def)

lemma same_tasks_order: "same_tasks s s' \<Longrightarrow> edf_ready_order s' = edf_ready_order s"
proof (intro ext)
  fix a b
  assume same: "same_tasks s s'"
  have *: "tview (tasks s' t) = tview (tasks s t)" for t using same by (simp add: same_tasks_def)
  have "eff (tasks s') t = eff (tasks s) t" for t using tviewD(9) [OF *] by (simp add: eff_def)
  then show "edf_ready_order s' a b = edf_ready_order s a b"
    unfolding edf_ready_order_def edf_higher_prio_Some earlier_deadline_def
    by (simp add: tview_view [OF *] tviewD [OF *])
qed

lemma tview_np [simp]:
  "tview (request_exit_np t) = tview t" "tview (t\<lparr>need_resched := b\<rparr>) = tview t"
  by (simp_all add: tview_def request_exit_np_def option.map_comp comp_def split: option.splits)

lemma preempt_frame [simp]:
  "same_tasks s (preempt_if_preemptable t c s)"
  "doms (preempt_if_preemptable t c s) = doms s" "rel_heaps (preempt_if_preemptable t c s) = rel_heaps s"
  "tick_period (preempt_if_preemptable t c s) = tick_period s" "this_cpu (preempt_if_preemptable t c s) = this_cpu s"
  "curr (preempt_if_preemptable t c s) = curr s" "kstate.more (preempt_if_preemptable t c s) = kstate.more s"
  by (auto simp: preempt_if_preemptable_def set_tsk_need_resched_def smp_send_reschedule_def same_tasks_def
      Let_def split: option.splits if_splits)

lemma scheduled_preempt [simp]: "scheduled (preempt_if_preemptable t c s) = scheduled s"
  by (rule scheduled_more) simp

lemma queue_inv_same:
  assumes "queue_inv get_partition pl s" "doms s' = doms s" "rel_heaps s' = rel_heaps s"
    "tick_period s' = tick_period s" "same_tasks s s'"
  shows "queue_inv get_partition pl s'"
proof -
  have *: "tview (tasks s' t) = tview (tasks s t)" for t using assms(5) by (simp add: same_tasks_def)
  show ?thesis
    by (rule queue_inv_frame [OF assms(1-4)]) (simp_all add: tview_view [OF *] tviewD [OF *])
qed

lemma edf_preemption_needed_spec:
  assumes "queue_inv home pl s" "edf_preemption_needed d t s = (b, s')"
  shows "queue_inv home pl s'" "tasks s' = tasks s" "rel_heaps s' = rel_heaps s"
    "kstate.more s' = kstate.more s" "this_cpu s' = this_cpu s" "curr s' = curr s" "ipis s' = ipis s"
    "t = None \<Longrightarrow> b \<longleftrightarrow> (\<exists>x. pl x = Ready d)"
    "t = Some u \<Longrightarrow> \<not> is_realtime (tasks s u) \<Longrightarrow> b \<longleftrightarrow> (\<exists>x. pl x = Ready d)"
    "t = Some u \<Longrightarrow> edf_ok (tasks s u) \<Longrightarrow> b \<longleftrightarrow> (\<exists>x. pl x = Ready d \<and> edf_ready_order s x u)"
proof -
  obtain r s1 where nr: "next_ready edf_ready_order d s = (r, s1)" by fastforce
  note spec = next_ready_spec [OF assms(1) nr] and pend = jobs_pending_iff [OF assms(1), of d]
  obtain q where s1: "s1 = upd_dom d (\<lambda>D. D\<lparr>ready_queue := q\<rparr>) s" using spec(3) by blast
  have s': "s' = s \<or> s' = s1" using assms(2) nr by (auto simp: edf_preemption_needed_def split: if_splits option.splits)
  show "queue_inv home pl s'" "tasks s' = tasks s" "rel_heaps s' = rel_heaps s"
    "kstate.more s' = kstate.more s" "this_cpu s' = this_cpu s" "curr s' = curr s" "ipis s' = ipis s"
    using s' spec(1) assms(1) s1 by auto
  show "t = None \<Longrightarrow> b \<longleftrightarrow> (\<exists>x. pl x = Ready d)"
    "t = Some u \<Longrightarrow> \<not> is_realtime (tasks s u) \<Longrightarrow> b \<longleftrightarrow> (\<exists>x. pl x = Ready d)"
    using assms(2) pend by (auto simp: edf_preemption_needed_def split: if_splits)
  assume t: "t = Some u" and u: "edf_ok (tasks s u)"
  show "b \<longleftrightarrow> (\<exists>x. pl x = Ready d \<and> edf_ready_order s x u)"
  proof (cases "\<exists>x. pl x = Ready d")
    case False
    then show ?thesis using assms(2) pend by (auto simp: edf_preemption_needed_def)
  next
    case True
    then obtain v where v: "r = Some v" using spec(4) by auto
    have b: "b = edf_ready_order s v u"
      using assms(2) pend True t u nr v spec(2) by (auto simp: edf_preemption_needed_def edf_ready_order_def edf_ok_def)
    have ok: "edf_ok (tasks s x)" if "pl x = Ready d" for x
      using placed_simps(6) [OF queue_inv_heap(3) [OF assms(1)], of x] that by simp
    have "edf_ready_order s v u" if x: "pl x = Ready d" "edf_ready_order s x u" for x
    proof (rule ccontr)
      assume "\<not> edf_ready_order s v u"
      then show False
        using weak_order_ntrans [OF queue_inv_weak_order(1) [OF assms(1)] spec(6) [OF v x(1)], of u]
          x ok [OF x(1)] ok [OF spec(5) [OF v]] u by simp
    qed
    then show ?thesis using b spec(5) [OF v] by blast
  qed
qed

text \<open>The task without the two flags and without its position in the queues.\<close>

definition jview :: "task_struct \<Rightarrow> task_struct" where
  "jview t = (tview t)\<lparr>rt_param := (rt_param (tview t))\<lparr>in_heap := False, domain := None\<rparr>\<rparr>"

definition same_jobs :: "'z kstate_scheme \<Rightarrow> 'y kstate_scheme \<Rightarrow> bool" where
  "same_jobs s s' \<longleftrightarrow> (\<forall>t. jview (tasks s' t) = jview (tasks s t))"

lemma jview_fields:
  "pid t = pid (jview t)" "policy t = policy (jview t)" "state t = state (jview t)"
  "preempt_active t = preempt_active (jview t)" "task_cpu t = task_cpu (jview t)"
  "flags (rt_param t) = flags (rt_param (jview t))"
  "task_params (rt_param t) = task_params (rt_param (jview t))"
  "job_params (rt_param t) = job_params (rt_param (jview t))"
  "inh_task (rt_param t) = inh_task (rt_param (jview t))"
  "heap_node (rt_param t) = heap_node (rt_param (jview t))"
  "semi_part (rt_param t) = semi_part (rt_param (jview t))"
  by (simp_all add: jview_def tview_def)

lemma jviewD:
  assumes "jview t = jview t'"
  shows "pid t = pid t'" "policy t = policy t'" "state t = state t'" "preempt_active t = preempt_active t'"
    "task_cpu t = task_cpu t'" "flags (rt_param t) = flags (rt_param t')"
    "task_params (rt_param t) = task_params (rt_param t')" "job_params (rt_param t) = job_params (rt_param t')"
    "inh_task (rt_param t) = inh_task (rt_param t')" "heap_node (rt_param t) = heap_node (rt_param t')"
    "semi_part (rt_param t) = semi_part (rt_param t')"
  by (simp_all only: jview_fields [of t] jview_fields [of t'] assms)

lemma jview_view:
  assumes "jview t = jview t'"
  shows "get_partition t = get_partition t'" "edf_ok t = edf_ok t'"
    "get_deadline t = get_deadline t'" "get_release t = get_release t'" "is_realtime t = is_realtime t'"
    "is_running t = is_running t'" "get_rt_flags t = get_rt_flags t'"
  using jviewD [OF assms] by (simp_all add: rt_simps edf_ok_def is_running_def)

lemma same_jobs_order: "same_jobs s s' \<Longrightarrow> edf_ready_order s' = edf_ready_order s"
proof (intro ext)
  fix a b
  assume same: "same_jobs s s'"
  have *: "jview (tasks s' t) = jview (tasks s t)" for t using same by (simp add: same_jobs_def)
  have "eff (tasks s') t = eff (tasks s) t" for t using jviewD(9) [OF *] by (simp add: eff_def)
  then show "edf_ready_order s' a b = edf_ready_order s a b"
    unfolding edf_ready_order_def edf_higher_prio_Some earlier_deadline_def
    by (simp add: jview_view [OF *] jviewD [OF *])
qed

lemma same_jobs_refl [simp]: "same_jobs s s"
  by (simp add: same_jobs_def)

lemma same_jobs_trans: "same_jobs s s' \<Longrightarrow> same_jobs s' s'' \<Longrightarrow> same_jobs s s''"
  by (simp add: same_jobs_def)

lemma same_tasks_jobs: "same_tasks s s' \<Longrightarrow> same_jobs s s'"
  by (simp add: same_tasks_def same_jobs_def jview_def)

lemma jview_queue [simp]:
  "jview (set_in_heap b t) = jview t" "jview (upd_rt (\<lambda>p. p\<lparr>domain := v\<rparr>) t) = jview t"
  by (simp_all add: jview_def tview_def rt_simps)

lemma get_partition_stable [simp]:
  "get_partition (upd_rt (\<lambda>p. p\<lparr>domain := v\<rparr>) t) = get_partition t"
  by (simp add: rt_simps)

section \<open>Requeueing\<close>

text \<open>
  \<^verbatim>\<open>requeue\<close> of PSN-EDF and \<^verbatim>\<open>wm_requeue_local\<close> and its copies in the other plugins, and the remote
  variant, which arms the release timer on the CPU of the task.
\<close>

definition part_requeue ::
  "(nat \<Rightarrow> 'z pstate_scheme \<Rightarrow> 'z pstate_scheme) \<Rightarrow> nat \<Rightarrow> tid \<Rightarrow> lt_t \<Rightarrow> 'z pstate_scheme \<Rightarrow> 'z pstate_scheme option"
where
  "part_requeue cr d t now s =
     (let s = upd_task t (set_rt_flags RT_F_RUNNING) s
      in if is_released (tasks s t) now then add_ready edf_ready_order cr d t s
         else add_release edf_ready_order d t s)"

definition part_requeue_remote ::
  "(nat \<Rightarrow> 'z pstate_scheme \<Rightarrow> 'z pstate_scheme) \<Rightarrow> tid \<Rightarrow> lt_t \<Rightarrow> 'z pstate_scheme \<Rightarrow> 'z pstate_scheme option"
where
  "part_requeue_remote cr t now s =
     (let d = get_partition (tasks s t);
          s = upd_task t (set_rt_flags RT_F_RUNNING) s
      in if is_released (tasks s t) now then add_ready edf_ready_order cr d t s
         else add_release_on edf_ready_order d t (Some (get_partition (tasks s t))) s)"

text \<open>The check for a preemption; \<open>preempt\<close> is the one of the plugin.\<close>

definition part_check_resched ::
  "(nat \<Rightarrow> 'z pstate_scheme \<Rightarrow> 'z pstate_scheme) \<Rightarrow> nat \<Rightarrow> 'z pstate_scheme \<Rightarrow> 'z pstate_scheme"
where
  "part_check_resched preempt d s =
     (let (needed, s) = edf_preemption_needed d (scheduled s d) s in if needed then preempt d s else s)"

text \<open>The contract of the callback: it may only raise requests for a preemption.\<close>

locale resched_callback =
  fixes cr :: "nat \<Rightarrow> 'z pstate_scheme \<Rightarrow> 'z pstate_scheme"
  assumes cr_inv: "queue_inv get_partition pl s \<Longrightarrow> queue_inv get_partition pl (cr d s)"
    and cr_tasks: "queue_inv get_partition pl s \<Longrightarrow> same_tasks s (cr d s)"
    and cr_frame: "queue_inv get_partition pl s \<Longrightarrow> kstate.more (cr d s) = kstate.more s \<and>
      this_cpu (cr d s) = this_cpu s \<and> curr (cr d s) = curr s"
begin

lemma add_ready_ok:
  assumes "queue_inv get_partition pl s" "pl t = Nowhere" "edf_ok (tasks s t)" "get_partition (tasks s t) = d"
  shows "ok (add_ready edf_ready_order cr d t s) (\<lambda>s'. queue_inv get_partition (pl(t := Ready d)) s' \<and>
    same_jobs s s' \<and> kstate.more s' = kstate.more s \<and> this_cpu s' = this_cpu s \<and> curr s' = curr s)"
proof -
  let ?s = "upd_task t (set_in_heap True) (upd_dom d (\<lambda>D. D\<lparr>ready_queue :=
    bheap_insert (edf_ready_order s) (ready_queue (doms s d)) t\<rparr>) s)"
  have core: "queue_inv get_partition (pl(t := Ready d)) ?s"
    using add_ready_core [OF assms(1-3), of d] assms(4) by simp
  have "\<not> in_heap (rt_param (tasks s t))"
    using placed_simps(5) [OF queue_inv_heap(3) [OF assms(1)], of t] assms(2) by simp
  moreover have "same_jobs s ?s" by (simp add: same_jobs_def)
  ultimately show ?thesis
    using cr_inv [OF core] same_tasks_jobs [OF cr_tasks [OF core]] cr_frame [OF core] same_jobs_trans
    by (simp add: add_ready_def) blast
qed

lemma add_release_ok:
  assumes "queue_inv get_partition pl s" "pl t = Nowhere" "edf_ok (tasks s t)" "get_partition (tasks s t) = d"
  shows "ok (add_release_on edf_ready_order d t target s) (\<lambda>s'. (\<exists>r. queue_inv get_partition (pl(t := Waiting r)) s') \<and>
    same_jobs s s' \<and> kstate.more s' = kstate.more s \<and> this_cpu s' = this_cpu s \<and> curr s' = curr s)"
  by (rule ok_mono [OF add_release_on_spec [OF assms(1-3)]]) (use assms(4) in \<open>auto simp: same_jobs_def\<close>)

text \<open>A requeued task is in the ready queue if its release time has come, and waits for it otherwise.\<close>

lemma requeue_ok:
  fixes s :: "'z pstate_scheme"
  assumes "queue_inv get_partition pl s" "pl t = Nowhere" "edf_ok (tasks s t)" "get_partition (tasks s t) = d"
  defines "s1 \<equiv> upd_task t (set_rt_flags RT_F_RUNNING) s"
  shows "ok (part_requeue cr d t now s) (\<lambda>s'. \<exists>p. queue_inv get_partition (pl(t := p)) s' \<and> p \<noteq> Nowhere \<and>
    (p = Ready d \<longleftrightarrow> is_released (tasks s t) now) \<and> (\<forall>d'. d' \<noteq> d \<longrightarrow> p \<noteq> Ready d') \<and>
    same_jobs s1 s' \<and> kstate.more s' = kstate.more s \<and> this_cpu s' = this_cpu s \<and> curr s' = curr s)"
    and "ok (part_requeue_remote cr t now s) (\<lambda>s'. \<exists>p. queue_inv get_partition (pl(t := p)) s' \<and> p \<noteq> Nowhere \<and>
    (p = Ready d \<longleftrightarrow> is_released (tasks s t) now) \<and> (\<forall>d'. d' \<noteq> d \<longrightarrow> p \<noteq> Ready d') \<and>
    same_jobs s1 s' \<and> kstate.more s' = kstate.more s \<and> this_cpu s' = this_cpu s \<and> curr s' = curr s)"
proof -
  have s1: "queue_inv get_partition pl s1"
    by (rule queue_inv_frame [OF assms(1)]) (use assms(2) in \<open>auto simp: s1_def rt_simps\<close>)
  have t: "edf_ok (tasks s1 t)" "get_partition (tasks s1 t) = d" "is_released (tasks s1 t) now = is_released (tasks s t) now"
    using assms(3,4) by (simp_all add: s1_def rt_simps edf_ok_def is_released_def)
  have frame: "kstate.more s1 = kstate.more s" "this_cpu s1 = this_cpu s" "curr s1 = curr s"
    by (simp_all add: s1_def)
  note ready = add_ready_ok [OF s1 assms(2) t(1,2)] and wait = add_release_ok [OF s1 assms(2) t(1,2)]
  let ?Q = "\<lambda>s'. \<exists>p. queue_inv get_partition (pl(t := p)) s' \<and> p \<noteq> Nowhere \<and>
    (p = Ready d \<longleftrightarrow> is_released (tasks s t) now) \<and> (\<forall>d'. d' \<noteq> d \<longrightarrow> p \<noteq> Ready d') \<and>
    same_jobs s1 s' \<and> kstate.more s' = kstate.more s \<and> this_cpu s' = this_cpu s \<and> curr s' = curr s"
  have r: "ok (add_ready edf_ready_order cr d t s1) ?Q" if "is_released (tasks s t) now"
    by (rule ok_mono [OF ready]) (use that frame in \<open>auto intro: exI [of _ "Ready d"]\<close>)
  have w: "ok (add_release_on edf_ready_order d t target s1) ?Q" if "\<not> is_released (tasks s t) now" for target
  proof (rule ok_mono [OF wait], elim conjE exE)
    fix s' r
    assume "queue_inv get_partition (pl(t := Waiting r)) s'" "same_jobs s1 s'" "kstate.more s' = kstate.more s1"
      "this_cpu s' = this_cpu s1" "curr s' = curr s1"
    then show "?Q s'" using that frame by (intro exI [of _ "Waiting r"]) simp
  qed
  show "ok (part_requeue cr d t now s) ?Q"
    unfolding part_requeue_def Let_def add_release_eq s1_def [symmetric] t(3) ok_if using r w by simp
  show "ok (part_requeue_remote cr t now s) ?Q"
    unfolding part_requeue_remote_def Let_def s1_def [symmetric] t(3) ok_if using r w t(2) assms(4) by simp
qed

text \<open>A release timer moves all jobs of its heap to the ready queue.\<close>

lemma release_timer_ok:
  assumes "queue_inv get_partition pl s" "pl r = Waiting r"
  shows "queue_inv get_partition (\<lambda>x. if pl x = Waiting r then Ready (rh_dom (rel_heaps s r)) else pl x)
      (on_release_timer (default_release_jobs edf_ready_order cr) r s)"
    "same_tasks s (on_release_timer (default_release_jobs edf_ready_order cr) r s)"
    "kstate.more (on_release_timer (default_release_jobs edf_ready_order cr) r s) = kstate.more s"
proof -
  note core = queue_inv_merged [OF assms]
  have "tasks (merged r s) = tasks s" "kstate.more (merged r s) = kstate.more s"
    by (simp_all add: merged_def Let_def split: prod.splits)
  then show "queue_inv get_partition (\<lambda>x. if pl x = Waiting r then Ready (rh_dom (rel_heaps s r)) else pl x)
      (on_release_timer (default_release_jobs edf_ready_order cr) r s)"
    "same_tasks s (on_release_timer (default_release_jobs edf_ready_order cr) r s)"
    "kstate.more (on_release_timer (default_release_jobs edf_ready_order cr) r s) = kstate.more s"
    using cr_inv [OF core] cr_tasks [OF core] cr_frame [OF core]
    by (simp_all add: on_release_timer_merged same_tasks_def)
qed

end

lemma part_check_resched_contract:
  assumes "\<And>d s. \<exists>t. preempt d s = preempt_if_preemptable t d s"
  shows "resched_callback (part_check_resched preempt)"
proof
  fix pl and s :: "'a pstate_scheme" and d
  assume inv: "queue_inv get_partition pl s"
  obtain b s1 where pn: "edf_preemption_needed d (scheduled s d) s = (b, s1)" by fastforce
  obtain t where t: "preempt d s1 = preempt_if_preemptable t d s1" using assms by blast
  note spec = edf_preemption_needed_spec(1-7) [OF inv pn]
  have "queue_inv get_partition pl (preempt_if_preemptable t d s1)"
    by (rule queue_inv_same [OF spec(1)]) simp_all
  moreover have "same_tasks s s1" using spec(2) by (simp add: same_tasks_def)
  moreover from this have "same_tasks s (preempt_if_preemptable t d s1)"
    using same_tasks_trans preempt_frame(1) by blast
  ultimately show "queue_inv get_partition pl (part_check_resched preempt d s)"
    "same_tasks s (part_check_resched preempt d s)"
    "kstate.more (part_check_resched preempt d s) = kstate.more s \<and>
      this_cpu (part_check_resched preempt d s) = this_cpu s \<and> curr (part_check_resched preempt d s) = curr s"
    using spec t by (simp_all add: part_check_resched_def pn)
qed

section \<open>The scheduling decision\<close>

text \<open>A condition on, and an update of, the task that a CPU has scheduled.\<close>

definition on_sched :: "cpu_id \<Rightarrow> (task_struct \<Rightarrow> bool) \<Rightarrow> 'z pstate_scheme \<Rightarrow> bool" where
  "on_sched c P s = (case scheduled s c of None \<Rightarrow> False | Some t \<Rightarrow> P (tasks s t))"

definition upd_sched :: "cpu_id \<Rightarrow> (task_struct \<Rightarrow> task_struct) \<Rightarrow> 'z pstate_scheme \<Rightarrow> 'z pstate_scheme" where
  "upd_sched c f s = (case scheduled s c of None \<Rightarrow> s | Some t \<Rightarrow> upd_task t f s)"

text \<open>The end of every \<^verbatim>\<open>schedule\<close> handler: mark the next task as running and remember it.\<close>

definition set_scheduled :: "cpu_id \<Rightarrow> tid option \<Rightarrow> 'z pstate_scheme \<Rightarrow> 'z pstate_scheme" where
  "set_scheduled c nxt s =
     (let s = (case nxt of Some n \<Rightarrow> upd_task n (set_rt_flags RT_F_RUNNING) s | None \<Rightarrow> s)
      in s\<lparr>scheduled := (scheduled s)(c := nxt)\<rparr>)"

text \<open>The invariant for all CPUs but \<open>c\<close>, whose task is just being handled.\<close>

definition sched_ok_but :: "cpu_id \<Rightarrow> (tid \<Rightarrow> place) \<Rightarrow> 'z pstate_scheme \<Rightarrow> bool" where
  "sched_ok_but c pl s \<longleftrightarrow>
     (\<forall>c' t. c' \<noteq> c \<longrightarrow> scheduled s c' = Some t \<longrightarrow> pl t = Nowhere \<and> edf_ok (tasks s t)) \<and>
     (\<forall>c' c'' t. c' \<noteq> c \<longrightarrow> c'' \<noteq> c \<longrightarrow> scheduled s c' = Some t \<longrightarrow> scheduled s c'' = Some t \<longrightarrow> c' = c'')"

lemma sched_ok_but_mono:
  assumes "sched_ok_but c pl s" "scheduled s' = scheduled s"
    "\<And>t. pl t = Nowhere \<Longrightarrow> (\<exists>c' \<noteq> c. scheduled s c' = Some t) \<Longrightarrow> pl' t = Nowhere \<and> edf_ok (tasks s' t) = edf_ok (tasks s t)"
  shows "sched_ok_but c pl' s'"
  using assms unfolding sched_ok_but_def by metis

lemma queue_inv_scheduled [simp]: "queue_inv home pl (s\<lparr>scheduled := f\<rparr>) = queue_inv home pl s"
  by (simp add: queue_inv_def heaps_ok_def placed_def release_ok_def slot_of_def edf_ready_order_def [abs_def])

lemma edf_order_flags [simp]:
  "edf_ready_order (upd_task t (set_rt_flags f) s) = edf_ready_order s"
proof (intro ext)
  fix x y
  have "eff ((tasks s)(t := set_rt_flags f (tasks s t))) z = eff (tasks s) z" for z
    by (simp add: eff_def rt_simps)
  then show "edf_ready_order (upd_task t (set_rt_flags f) s) x y = edf_ready_order s x y"
    unfolding edf_ready_order_def edf_higher_prio_Some earlier_deadline_def by (simp add: rt_simps)
qed

lemma set_scheduled_simps [simp]:
  "scheduled (set_scheduled c nxt s) = (scheduled s)(c := nxt)"
  "edf_ready_order (set_scheduled c nxt s) = edf_ready_order s"
  "this_cpu (set_scheduled c nxt s) = this_cpu s" "curr (set_scheduled c nxt s) = curr s"
proof -
  have "edf_ready_order (s\<lparr>scheduled := f\<rparr>) = edf_ready_order s" for f and s :: "'a pstate_scheme"
    by (intro ext) (simp add: edf_ready_order_def)
  then show "scheduled (set_scheduled c nxt s) = (scheduled s)(c := nxt)"
    "edf_ready_order (set_scheduled c nxt s) = edf_ready_order s"
    "this_cpu (set_scheduled c nxt s) = this_cpu s" "curr (set_scheduled c nxt s) = curr s"
    by (auto simp: set_scheduled_def Let_def split: option.splits)
qed

lemma edf_ok_flags [simp]: "edf_ok (set_rt_flags f t) = edf_ok t"
  by (simp add: edf_ok_def rt_simps)

lemma queue_inv_set_scheduled:
  assumes "queue_inv get_partition pl s" "\<And>n. nxt = Some n \<Longrightarrow> pl n = Nowhere"
  shows "queue_inv get_partition pl (set_scheduled c nxt s)"
proof (cases nxt)
  case (Some n)
  have "queue_inv get_partition pl (upd_task n (set_rt_flags RT_F_RUNNING) s)"
    by (rule queue_inv_frame [OF assms(1)]) (auto simp: rt_simps qview_def)
  then show ?thesis using Some by (simp add: set_scheduled_def Let_def)
qed (use assms in \<open>simp add: set_scheduled_def Let_def\<close>)

lemma part_inv_set_scheduled:
  assumes "queue_inv get_partition pl s" "sched_ok_but c pl s"
    "\<And>n. nxt = Some n \<Longrightarrow> pl n = Nowhere \<and> edf_ok (tasks s n) \<and> (\<forall>c' \<noteq> c. scheduled s c' \<noteq> Some n)"
  shows "part_inv pl (set_scheduled c nxt s)"
proof -
  have tasks: "edf_ok (tasks (set_scheduled c nxt s) t) = edf_ok (tasks s t)" for t
    by (auto simp: set_scheduled_def Let_def split: option.splits)
  have "sched_ok pl (set_scheduled c nxt s)"
    using assms(2,3) unfolding sched_ok_def sched_ok_but_def set_scheduled_simps tasks
    by (auto split: if_splits)
  then show ?thesis using queue_inv_set_scheduled [OF assms(1)] assms(3) by (simp add: part_inv_def)
qed

text \<open>Taking the head of the queue and running it.\<close>

definition removed :: "tid option \<Rightarrow> (tid \<Rightarrow> place) \<Rightarrow> tid \<Rightarrow> place" where
  "removed nxt pl = (case nxt of Some n \<Rightarrow> pl(n := Nowhere) | None \<Rightarrow> pl)"

lemma take_and_run:
  assumes "queue_inv get_partition pl s" "sched_ok_but c pl s" "take_ready edf_ready_order c s = (nxt, s1)"
  defines "pl' \<equiv> removed nxt pl"
  shows "part_inv pl' (set_scheduled c nxt s1)"
    "nxt = None \<Longrightarrow> pl' x \<noteq> Ready c"
    "nxt = Some n \<Longrightarrow> pl n = Ready c"
    "nxt = Some n \<Longrightarrow> pl' x = Ready c \<Longrightarrow> \<not> edf_ready_order (set_scheduled c nxt s1) x n"
    "edf_ready_order (set_scheduled c nxt s1) = edf_ready_order s" "this_cpu s1 = this_cpu s"
    "same_jobs s s1" "scheduled s1 = scheduled s" "curr s1 = curr s"
proof -
  note spec = take_ready_spec [OF assms(1,3) set_in_heap_simps(7)]
  show sched: "scheduled s1 = scheduled s" using scheduled_more [OF spec(8)] .
  show jobs: "same_jobs s s1" using spec(2,4) by (cases nxt) (auto simp: same_jobs_def)
  have ord: "edf_ready_order s1 = edf_ready_order s" by (rule same_jobs_order [OF jobs])
  then show "edf_ready_order (set_scheduled c nxt s1) = edf_ready_order s" by simp
  show "this_cpu s1 = this_cpu s" "curr s1 = curr s" by (rule spec(9), rule spec(10))
  show "nxt = None \<Longrightarrow> pl' x \<noteq> Ready c" using spec(1) by (simp add: pl'_def removed_def)
  show "nxt = Some n \<Longrightarrow> pl' x = Ready c \<Longrightarrow> \<not> edf_ready_order (set_scheduled c nxt s1) x n"
    using spec(6) ord by (auto simp: pl'_def removed_def split: if_splits)
  have ok: "edf_ok (tasks s1 t) = edf_ok (tasks s t)" for t
    using jview_view(2) jobs unfolding same_jobs_def by blast
  show next_ready: "nxt = Some n \<Longrightarrow> pl n = Ready c" using spec(5) by simp
  have "queue_inv get_partition pl' s1" using spec(2,3) by (cases nxt) (auto simp: pl'_def removed_def)
  moreover have "sched_ok_but c pl' s1"
    by (rule sched_ok_but_mono [OF assms(2) sched]) (auto simp: pl'_def removed_def ok split: option.splits)
  moreover have "pl' n = Nowhere \<and> edf_ok (tasks s1 n) \<and> (\<forall>c' \<noteq> c. scheduled s1 c' \<noteq> Some n)" if "nxt = Some n" for n
  proof -
    have "pl n = Ready c" using spec(5) that by simp
    then show ?thesis
      using placed_simps(6) [OF queue_inv_heap(3) [OF assms(1)], of n] assms(2) that sched ok
      by (auto simp: pl'_def removed_def sched_ok_but_def)
  qed
  ultimately show "part_inv pl' (set_scheduled c nxt s1)" by (intro part_inv_set_scheduled) auto
qed

text \<open>
  The choice is EDF: no job in the ready queue of the CPU has a higher priority than the chosen
  one, and if none is chosen the queue is empty.
\<close>

definition edf_choice :: "cpu_id \<Rightarrow> tid option \<Rightarrow> (tid \<Rightarrow> place) \<Rightarrow> 'z kstate_scheme \<Rightarrow> bool" where
  "edf_choice c nxt pl s =
     (case nxt of
        None \<Rightarrow> (\<forall>x. pl x \<noteq> Ready c)
      | Some n \<Rightarrow> (\<forall>x. pl x = Ready c \<longrightarrow> \<not> edf_ready_order s x n))"

text \<open>
  What a handler has reached after it has switched to the task at the head of the ready queue, where
  \<open>pl\<close> are the places before it took the task.
\<close>

definition switched ::
  "cpu_id \<Rightarrow> (tid \<Rightarrow> place) \<Rightarrow> 'z pstate_scheme \<Rightarrow> tid option \<times> 'z pstate_scheme \<Rightarrow> bool"
where
  "switched c pl s ns \<longleftrightarrow>
     part_inv (removed (fst ns) pl) (set_scheduled c (fst ns) (snd ns)) \<and>
     edf_choice c (fst ns) (removed (fst ns) pl) (set_scheduled c (fst ns) (snd ns)) \<and>
     (\<forall>n. fst ns = Some n \<longrightarrow> get_partition (tasks (snd ns) n) = c \<and> pl n = Ready c) \<and>
     same_jobs s (snd ns) \<and> scheduled (snd ns) = scheduled s \<and> this_cpu (snd ns) = this_cpu s \<and>
     curr (snd ns) = curr s"

lemma take_switched:
  assumes "queue_inv get_partition pl s" "sched_ok_but c pl s"
  shows "switched c pl s (take_ready edf_ready_order c s)"
proof -
  obtain nxt s1 where take: "take_ready edf_ready_order c s = (nxt, s1)" by fastforce
  note run = take_and_run [OF assms take]
  have part: "get_partition (tasks s n) = c" if "pl n = Ready c" for n
    using queue_inv_heap(3) [OF assms(1)] that by (simp add: placed_def)
  have "get_partition (tasks s1 n) = c" if "nxt = Some n" for n
    using run(3,7) part [of n] jview_view(1) that unfolding same_jobs_def by metis
  then show ?thesis
    unfolding switched_def take fst_conv snd_conv
    using run(1-4,6-9) by (auto simp: edf_choice_def split: option.splits)
qed

lemma switched_trans:
  "switched c pl s' ns \<Longrightarrow> same_jobs s s' \<Longrightarrow> scheduled s' = scheduled s \<Longrightarrow> this_cpu s' = this_cpu s \<Longrightarrow>
     curr s' = curr s \<Longrightarrow> switched c pl s ns"
  unfolding switched_def using same_jobs_trans by metis

text \<open>
  The effect of a scheduling decision on the places: only the task that was running (\<open>old\<close>) and the
  chosen one move; the chosen one comes from the ready queue of the CPU if it was not running; and
  the one that was running, if it is not chosen, is put in a queue exactly if it stays.
\<close>

definition resched_places ::
  "cpu_id \<Rightarrow> tid option \<Rightarrow> bool \<Rightarrow> tid option \<Rightarrow> (tid \<Rightarrow> place) \<Rightarrow> (tid \<Rightarrow> place) \<Rightarrow> bool"
where
  "resched_places c old stays nxt pl pl' \<longleftrightarrow>
     (\<forall>x. old \<noteq> Some x \<longrightarrow> pl' x = (if nxt = Some x then Nowhere else pl x)) \<and>
     (\<forall>n. nxt = Some n \<longrightarrow> old \<noteq> Some n \<longrightarrow> pl n = Ready c) \<and>
     (\<forall>t. old = Some t \<longrightarrow> nxt \<noteq> Some t \<longrightarrow> (pl' t \<noteq> Nowhere \<longleftrightarrow> stays))"

lemma resched_places_take:
  assumes "\<And>n. nxt = Some n \<Longrightarrow> pl n = Ready c" "\<And>t. old = Some t \<Longrightarrow> pl t = Nowhere \<and> \<not> stays"
  shows "resched_places c old stays nxt pl (removed nxt pl)"
  using assms by (auto simp: resched_places_def removed_def split: option.splits)

lemma resched_places_requeue:
  assumes "\<And>n. nxt = Some n \<Longrightarrow> (pl(t := p)) n = Ready c" "p \<noteq> Nowhere" "stays"
  shows "resched_places c (Some t) stays nxt pl (removed nxt (pl(t := p)))"
  using assms by (auto simp: resched_places_def removed_def split: option.splits if_splits)

lemma resched_places_keep: "resched_places c (Some t) stays (Some t) pl pl"
  by (auto simp: resched_places_def)

lemma resched_placesD:
  assumes "resched_places c old stays nxt pl pl'"
  shows "nxt = Some n \<Longrightarrow> pl n = Nowhere \<Longrightarrow> old = Some n" "pl x = Nowhere \<Longrightarrow> old \<noteq> Some x \<Longrightarrow> pl' x = Nowhere"
  using assms unfolding resched_places_def by auto

lemma sched_ok_but_requeue:
  assumes "sched_ok_but c pl s" "\<And>c'. c' \<noteq> c \<Longrightarrow> scheduled s c' \<noteq> Some t" "scheduled s' = scheduled s"
    "same_jobs (upd_task t (set_rt_flags RT_F_RUNNING) s) s'"
  shows "sched_ok_but c (pl(t := p)) s'"
proof (rule sched_ok_but_mono [OF assms(1,3)])
  fix x assume "pl x = Nowhere" "\<exists>c' \<noteq> c. scheduled s c' = Some x"
  then have "x \<noteq> t" using assms(2) by blast
  moreover have "edf_ok (tasks s' x) = edf_ok (tasks (upd_task t (set_rt_flags RT_F_RUNNING) s) x)"
    using assms(4) jview_view(2) unfolding same_jobs_def by blast
  ultimately show "(pl(t := p)) x = Nowhere \<and> edf_ok (tasks s' x) = edf_ok (tasks s x)"
    using \<open>pl x = Nowhere\<close> by simp
qed

lemma requeued_switched:
  assumes "queue_inv get_partition (pl(t := p)) s'" "sched_ok_but c pl s" "\<And>c'. c' \<noteq> c \<Longrightarrow> scheduled s c' \<noteq> Some t"
    "same_jobs (upd_task t (set_rt_flags RT_F_RUNNING) s) s'" "kstate.more s' = kstate.more s"
    "this_cpu s' = this_cpu s" "curr s' = curr s"
  shows "switched c (pl(t := p)) (upd_task t (set_rt_flags RT_F_RUNNING) s) (take_ready edf_ready_order c s')"
proof -
  have "sched_ok_but c (pl(t := p)) s'"
    by (rule sched_ok_but_requeue [OF assms(2,3) scheduled_more [OF assms(5)] assms(4)])
  from take_switched [OF assms(1) this] show ?thesis
    by (rule switched_trans) (use assms(4,6,7) scheduled_more [OF assms(5)] in auto)
qed

context resched_callback
begin

lemma requeue_switched:
  assumes "queue_inv get_partition pl s" "sched_ok_but c pl s" "pl t = Nowhere" "edf_ok (tasks s t)"
    "get_partition (tasks s t) = c" "\<And>c'. c' \<noteq> c \<Longrightarrow> scheduled s c' \<noteq> Some t"
  shows "ok (part_requeue cr c t now s) (\<lambda>s'. \<exists>p. p \<noteq> Nowhere \<and>
    switched c (pl(t := p)) (upd_task t (set_rt_flags RT_F_RUNNING) s) (take_ready edf_ready_order c s'))"
  by (rule ok_mono [OF requeue_ok(1) [OF assms(1,3-5)]]) (use requeued_switched [OF _ assms(2,6)] in blast)

end

text \<open>Before the decision, a handler may change the task that is scheduled on its CPU.\<close>

lemma sched_ok_but_sched: "sched_ok pl s \<Longrightarrow> sched_ok_but c pl s"
  unfolding sched_ok_def sched_ok_but_def by blast

lemma part_inv_sched_upd:
  assumes "part_inv pl s" "scheduled s c = Some t"
    "\<And>x. x \<noteq> t \<Longrightarrow> tasks s' x = tasks s x" "pid (tasks s' t) = pid (tasks s t)"
    "in_heap (rt_param (tasks s' t)) = in_heap (rt_param (tasks s t))"
    "doms s' = doms s" "rel_heaps s' = rel_heaps s" "tick_period s' = tick_period s" "scheduled s' = scheduled s"
  shows "queue_inv get_partition pl s'" "sched_ok_but c pl s'" "pl t = Nowhere" "edf_ok (tasks s t)"
    "\<And>c'. c' \<noteq> c \<Longrightarrow> scheduled s c' \<noteq> Some t"
proof -
  have so: "sched_ok pl s" and q: "queue_inv get_partition pl s" using assms(1) by (simp_all add: part_inv_def)
  show t: "pl t = Nowhere" "edf_ok (tasks s t)" "\<And>c'. c' \<noteq> c \<Longrightarrow> scheduled s c' \<noteq> Some t"
    using so assms(2) unfolding sched_ok_def by blast+
  show "queue_inv get_partition pl s'"
  proof (rule queue_inv_frame [OF q assms(6-8)])
    show "qview (tasks s' x) = qview (tasks s x) \<and> get_partition (tasks s' x) = get_partition (tasks s x)"
      if "pl x \<noteq> Nowhere" for x
      using assms(3) [of x] that t(1) by (cases "x = t") simp_all
    show "pid (tasks s' x) = pid (tasks s x) \<and> in_heap (rt_param (tasks s' x)) = in_heap (rt_param (tasks s x))" for x
      using assms(3) [of x] assms(4,5) by (cases "x = t") auto
  qed
  show "sched_ok_but c pl s'"
    by (rule sched_ok_but_mono [OF sched_ok_but_sched [OF so] assms(9)]) (use assms(3) t(3) in metis)
qed

section \<open>Steps that all plugins share\<close>

lemma part_invD:
  assumes "part_inv pl s"
  shows "queue_inv get_partition pl s" "sched_ok pl s" "placed get_partition pl s"
    "scheduled s c = Some t \<Longrightarrow> pl t = Nowhere \<and> edf_ok (tasks s t)"
    "scheduled s c = Some t \<Longrightarrow> scheduled s c' = Some t \<Longrightarrow> c' = c"
    "\<not> in_heap (rt_param (tasks s t)) \<longleftrightarrow> pl t = Nowhere"
proof -
  show q: "queue_inv get_partition pl s" "sched_ok pl s" "placed get_partition pl s"
    using assms by (simp_all add: part_inv_def queue_inv_def)
  show "scheduled s c = Some t \<Longrightarrow> pl t = Nowhere \<and> edf_ok (tasks s t)"
    "scheduled s c = Some t \<Longrightarrow> scheduled s c' = Some t \<Longrightarrow> c' = c"
    using q(2) unfolding sched_ok_def by blast+
  show "\<not> in_heap (rt_param (tasks s t)) \<longleftrightarrow> pl t = Nowhere"
    using placed_simps(5) [OF q(3)] by blast
qed

lemma part_inv_same:
  assumes "part_inv pl s" "doms s' = doms s" "rel_heaps s' = rel_heaps s" "tick_period s' = tick_period s"
    "same_tasks s s'" "scheduled s' = scheduled s"
  shows "part_inv pl s'"
proof -
  have *: "tview (tasks s' t) = tview (tasks s t)" for t using assms(5) by (simp add: same_tasks_def)
  have "queue_inv get_partition pl s'" by (rule queue_inv_same [OF part_invD(1) [OF assms(1)] assms(2-5)])
  then show ?thesis using assms(1,6) by (simp add: part_inv_def sched_ok_def tview_view [OF *])
qed

lemma part_inv_upd_free:
  assumes "part_inv pl s" "pl t = Nowhere" "pid p = pid (tasks s t)"
    "in_heap (rt_param p) = in_heap (rt_param (tasks s t))"
    "\<And>c. scheduled s c = Some t \<Longrightarrow> edf_ok p"
  shows "part_inv pl (upd_task t (\<lambda>_. p) s)"
proof -
  have "queue_inv get_partition pl (upd_task t (\<lambda>_. p) s)"
    by (rule queue_inv_frame [OF part_invD(1) [OF assms(1)]]) (use assms(2-4) in auto)
  then show ?thesis
    using part_invD(4,5) [OF assms(1)] assms(5) unfolding part_inv_def sched_ok_def by auto
qed

text \<open>An update by the rest of the kernel.\<close>

lemma part_inv_linux:
  assumes "part_inv pl s" "qview (f (tasks s t)) = qview (tasks s t)" "get_partition (f (tasks s t)) = get_partition (tasks s t)"
  shows "part_inv pl (upd_task t f s)" "edf_ok (tasks (upd_task t f s) x) = edf_ok (tasks s x)"
proof -
  show ok: "edf_ok (tasks (upd_task t f s) x) = edf_ok (tasks s x)" for x using qviewD(8) [OF assms(2)] by simp
  have "queue_inv get_partition pl (upd_task t f s)"
    by (rule queue_inv_frame [OF part_invD(1) [OF assms(1)]]) (use assms(2,3) qviewD [OF assms(2)] in auto)
  then show "part_inv pl (upd_task t f s)"
    using part_invD(4,5) [OF assms(1)] ok unfolding part_inv_def sched_ok_def by auto
qed

text \<open>A request to reschedule or to leave a non-preemptive section.\<close>

lemma part_inv_request:
  assumes "part_inv pl s" "tview (f (tasks s t)) = tview (tasks s t)"
  shows "part_inv pl (upd_task t f s)" "same_tasks s (upd_task t f s)"
proof -
  show tasks: "same_tasks s (upd_task t f s)" using assms(2) by (simp add: same_tasks_def)
  show "part_inv pl (upd_task t f s)" by (rule part_inv_same [OF assms(1) _ _ _ tasks]) simp_all
qed

context resched_callback
begin

lemma release_timer_part_inv:
  assumes "part_inv pl s" "rh_timer (rel_heaps s r) \<noteq> None"
  defines "s' \<equiv> on_release_timer (default_release_jobs edf_ready_order cr) r s"
  shows "part_inv (\<lambda>x. if pl x = Waiting r then Ready (rh_dom (rel_heaps s r)) else pl x) s'"
    "pl r = Waiting r" "same_tasks s s'" "scheduled s' = scheduled s" "curr s' = curr s"
proof -
  have rel: "release_ok pl s" using part_invD(1) [OF assms(1)] by (simp add: queue_inv_def)
  show r: "pl r = Waiting r" using release_okD(6) [OF rel, of r] assms(2) by auto
  note t = release_timer_ok [OF part_invD(1) [OF assms(1)] r]
  show tasks: "same_tasks s s'" unfolding s'_def by (rule t(2))
  then have view: "tview (tasks s' x) = tview (tasks s x)" for x by (simp add: same_tasks_def)
  show sched: "scheduled s' = scheduled s" using scheduled_more [OF t(3)] by (simp add: s'_def)
  show "curr s' = curr s"
    using cr_frame [OF queue_inv_merged [OF part_invD(1) [OF assms(1)] r]]
    by (simp add: s'_def on_release_timer_merged merged_def Let_def split: prod.splits)
  show "part_inv (\<lambda>x. if pl x = Waiting r then Ready (rh_dom (rel_heaps s r)) else pl x) s'"
    using t(1) [folded s'_def] part_invD(4,5) [OF assms(1)] sched
    unfolding part_inv_def sched_ok_def tview_view [OF view] by auto
qed

end

text \<open>Whoever exits is in no release heap, so it is free or in the ready queue of its CPU.\<close>

lemma part_inv_exits:
  assumes "part_inv pl s" "\<forall>r. t \<notin># waiting_of s r"
  shows "pl t = Nowhere \<or> pl t = Ready (get_partition (tasks s t))"
  using assms(2) placed_simps(4) [OF part_invD(3) [OF assms(1)], of t] part_invD(3) [OF assms(1)]
  by (cases "pl t") (auto simp: placed_def)

text \<open>What every \<^verbatim>\<open>task_exit\<close> does with the queues.\<close>

lemma part_dequeue_ok:
  assumes "part_inv pl s" "pl t = Nowhere \<or> pl t = Ready (get_partition (tasks s t))"
  shows "ok (if in_heap (rt_param (tasks s t)) then remove_rt edf_ready_order (get_partition (tasks s t)) t s else Some s)
    (\<lambda>s'. part_inv (pl(t := Nowhere)) s' \<and> scheduled s' = scheduled s \<and> curr s' = curr s \<and> this_cpu s' = this_cpu s \<and>
      (\<forall>x. jview (tasks s' x) = jview (tasks s x)))"
proof (cases "pl t = Nowhere")
  case True
  then show ?thesis using assms(1) part_invD(6) [OF assms(1), of t] by (simp add: fun_upd_idem)
next
  case False
  then have pl: "pl t = Ready (get_partition (tasks s t))" using assms(2) by blast
  have free: "\<And>c. scheduled s c \<noteq> Some t" using part_invD(4) [OF assms(1)] False by blast
  have "in_heap (rt_param (tasks s t))" using part_invD(6) [OF assms(1), of t] False by blast
  then show ?thesis
    using part_invD(4,5) [OF assms(1)] free
    by simp
      (rule ok_mono [OF remove_rt_spec [OF part_invD(1) [OF assms(1)] pl set_in_heap_simps(7)]],
       auto simp: part_inv_def sched_ok_def dest!: scheduled_more)
qed

lemma part_inv_clear: "part_inv pl s \<Longrightarrow> part_inv pl (s\<lparr>scheduled := (scheduled s)(c := None)\<rparr>)"
  unfolding part_inv_def sched_ok_def by auto

section \<open>Initial states and context switches\<close>

text \<open>
  The calls of Linux into a plugin, each with the CPU it runs on and the clock readings it uses.
  \<open>Schedule\<close> also names the Linux task that runs if no real-time task is chosen; \<open>Linux\<close> is any
  change of a task by the rest of the kernel (its state, its flags, its execution time) that leaves
  alone what the queues depend on.
\<close>

datatype plugin_call =
    Schedule cpu_id lt_t tid
  | ReleaseTimer cpu_id tid
  | TaskNew cpu_id tid bool lt_t lt_t
  | WakeUp cpu_id tid lt_t lt_t
  | Block cpu_id tid
  | Exit cpu_id tid
  | Tick cpu_id
  | Linux tid "task_struct \<Rightarrow> task_struct"

text \<open>No task is in a queue or scheduled.\<close>

definition part_init :: "'z pstate_scheme \<Rightarrow> bool" where
  "part_init s \<longleftrightarrow>
     (\<forall>d. ready_queue (doms s d) = bheap_init \<and> tobe_released (doms s d) = [] \<and> (\<forall>k. slot (doms s d) k = [])) \<and>
     (\<forall>r. rh_heap (rel_heaps s r) = bheap_init \<and> rh_timer (rel_heaps s r) = None) \<and>
     (\<forall>t. \<not> in_heap (rt_param (tasks s t))) \<and> (\<forall>c. scheduled s c = None) \<and> inj (\<lambda>t. pid (tasks s t))"

lemma part_init_inv:
  assumes "part_init s"
  shows "part_inv (\<lambda>_. Nowhere) s"
proof -
  have "queue_inv get_partition (\<lambda>_. Nowhere) s"
    using assms unfolding part_init_def queue_inv_def heaps_ok_def placed_def release_ok_def slot_of_def inj_def
    by (simp add: bq.empty_inv bq.empty_elems)
  then show ?thesis using assms by (simp add: part_init_def part_inv_def sched_ok_def)
qed

text \<open>Linux switches to the task that the plugin has chosen, or to one of its own tasks.\<close>

definition switch_to :: "cpu_id \<Rightarrow> tid \<Rightarrow> tid option \<times> 'z kstate_scheme \<Rightarrow> 'z kstate_scheme" where
  "switch_to c idle ns =
     (snd ns)\<lparr>curr := (curr (snd ns))(c := case fst ns of Some n \<Rightarrow> n | None \<Rightarrow> idle)\<rparr>"

lemma part_inv_this_cpu [simp]:
  "part_inv pl (s\<lparr>this_cpu := c\<rparr>) = part_inv pl s" "part_inv pl (s\<lparr>curr := f\<rparr>) = part_inv pl s"
  by (simp_all add: part_inv_def sched_ok_def queue_inv_def heaps_ok_def placed_def release_ok_def
      slot_of_def edf_ready_order_def [abs_def])

end
