(* ===== verification/Sample_State.thy ===== *)
theory Sample_State
  imports Partitioned
begin

text \<open>
  A concrete kernel state with empty queues, from which the examples of the other theories start.
  The PID of a task is its number; all tasks are real-time tasks with the period and the cost given.
\<close>

definition sample_rt_task :: "cpu_id \<Rightarrow> lt_t \<Rightarrow> lt_t \<Rightarrow> rt_task" where
  "sample_rt_task c cost per =
     \<lparr>exec_cost = cost, period = per, phase = 0, cpu = c, cls = RT_CLASS_HARD,
      budget_policy = PRECISE_ENFORCEMENT, fm = \<lparr>fm_cpus = (\<lambda>_. 0), nr_cpus = 0, fraction = (\<lambda>_ _. 0)\<rparr>,
      npsf_id = 0, wm = \<lparr>wm_slices = (\<lambda>_. \<lparr>wm_cpu = 0, wm_deadline = 0, wm_budget = 0, wm_offset = 0\<rparr>), wm_count = 0\<rparr>,
      hime = \<lparr>hime_slices = (\<lambda>_. \<lparr>hime_cpu = 0, hime_budget = 0\<rparr>), hime_count = 0\<rparr>,
      cd = \<lparr>cd_slices = (\<lambda>_. \<lparr>cd_cpu = 0, cd_deadline = 0, cd_budget = 0\<rparr>), cd_count = 0\<rparr>\<rparr>"

definition sample_task :: "rt_task \<Rightarrow> tid \<Rightarrow> task_struct" where
  "sample_task params t =
     \<lparr>pid = int t, policy = SCHED_LITMUS, state = TASK_RUNNING, preempt_active = False,
      task_cpu = cpu params, time_slice = 1, need_resched = False,
      rt_param = \<lparr>flags = RT_F_RUNNING, srp_non_recurse = False, present = True, task_params = params,
        job_params = \<lparr>release = 0, deadline = 0, exec_time = 0, job_no = 0\<rparr>, inh_task = None, kernel_np = 0,
        scheduled_on = None, stack_in_use = None, linked_on = None, domain = None, heap_node = True,
        in_heap = False, ctrl_page = None,
        semi_part = \<lparr>sp0 = 0, sp1 = 0, sp2 = 0, sp3 = 0, sp4 = 0, sp5 = 0, cpu_job_no = (\<lambda>_. 0)\<rparr>\<rparr>\<rparr>"

definition sample_state :: "(tid \<Rightarrow> rt_task) \<Rightarrow> pstate" where
  "sample_state params =
     \<lparr>tasks = (\<lambda>t. sample_task (params t) t),
      rel_heaps = (\<lambda>_. \<lparr>rh_time = 0, rh_heap = bheap_init, rh_timer = None, rh_dom = 0\<rparr>),
      doms = (\<lambda>_. \<lparr>ready_queue = bheap_init, slot = (\<lambda>_. []), release_master = None, tobe_released = []\<rparr>),
      curr = (\<lambda>_. 0), this_cpu = 0, ipis = [], tick_period = 1000000,
      budget_timer = (\<lambda>_. \<lparr>et_timer = None, et_running = False, et_armed = False\<rparr>),
      scheduled = (\<lambda>_. None)\<rparr>"

lemmas sample_simps = sample_state_def sample_task_def sample_rt_task_def

lemma sample_state_queue_inv: "queue_inv get_partition (\<lambda>_. Nowhere) (sample_state params)"
  by (simp add: sample_simps queue_inv_def heaps_ok_def placed_def release_ok_def slot_of_def
      bq.empty_inv bq.empty_elems)

lemma sample_state_inv: "part_inv (\<lambda>_. Nowhere) (sample_state params)"
  using sample_state_queue_inv [of params] by (simp add: part_inv_def sched_ok_def sample_state_def)

end
