(* ===== verification/Psn_Edf.thy ===== *)
theory Psn_Edf
  imports Sample_State
begin

text \<open>
  The plugin PSN-EDF (\<^verbatim>\<open>litmus/sched_psn_edf.c\<close>): partitioned EDF with non-preemptive sections. The
  domain of a CPU has the number of the CPU. Every read of the clock that a handler uses is an
  argument (\<open>now\<close>). The priority inheritance handlers for FMLP semaphores are not part of this
  theory.
\<close>

section \<open>Handlers\<close>

definition psnedf_domain_init :: "cpu_id \<Rightarrow> 'z pstate_scheme \<Rightarrow> 'z pstate_scheme" where
  "psnedf_domain_init c s = (let s = edf_domain_init c s in s\<lparr>scheduled := (scheduled s)(c := None)\<rparr>)"

fun init_psn_edf :: "nat \<Rightarrow> 'z pstate_scheme \<Rightarrow> 'z pstate_scheme" where
  "init_psn_edf 0 s = s"
| "init_psn_edf (Suc n) s = psnedf_domain_init n (init_psn_edf n s)"

definition psnedf_preempt :: "cpu_id \<Rightarrow> 'z pstate_scheme \<Rightarrow> 'z pstate_scheme" where
  "psnedf_preempt c s = preempt_if_preemptable (scheduled s c) c s"

definition psnedf_check_resched :: "nat \<Rightarrow> 'z pstate_scheme \<Rightarrow> 'z pstate_scheme" where
  "psnedf_check_resched = part_check_resched psnedf_preempt"

definition requeue :: "tid \<Rightarrow> nat \<Rightarrow> lt_t \<Rightarrow> 'z pstate_scheme \<Rightarrow> 'z pstate_scheme option" where
  "requeue t d now s = part_requeue psnedf_check_resched d t now s"

definition job_completion :: "task_struct \<Rightarrow> task_struct" where
  "job_completion t = prepare_for_next_period (set_rt_flags RT_F_SLEEP t)"

definition psnedf_tick :: "tid \<Rightarrow> 'z pstate_scheme \<Rightarrow> 'z pstate_scheme option" where
  "psnedf_tick t s = do {
     BUG_ON (is_realtime (tasks s t) \<and> scheduled s (this_cpu s) \<noteq> Some t);
     Some (if is_realtime (tasks s t) \<and> budget_enforced (tasks s t) \<and> budget_exhausted (tasks s t)
           then if \<not> is_np (tasks s t) then set_tsk_need_resched t s
                else if is_user_np (tasks s t) then upd_task t request_exit_np s
                else s
           else s)
   }"

definition psnedf_schedule ::
  "tid \<Rightarrow> lt_t \<Rightarrow> 'z pstate_scheme \<Rightarrow> (tid option \<times> 'z pstate_scheme) option"
where
  "psnedf_schedule prev now s = do {
     let c = this_cpu s;
     BUG_ON (scheduled s c \<noteq> None \<and> scheduled s c \<noteq> Some prev);
     BUG_ON (scheduled s c \<noteq> None \<and> \<not> is_realtime (tasks s prev));
     let exsts = (scheduled s c \<noteq> None);
     let blocks = on_sched c (\<lambda>t. \<not> is_running t) s;
     let out_of_time = on_sched c (\<lambda>t. budget_enforced t \<and> budget_exhausted t) s;
     let np = on_sched c is_np s;
     let sleep = on_sched c (\<lambda>t. get_rt_flags t = RT_F_SLEEP) s;
     let (preempt, s) = edf_preemption_needed c (Some prev) s;
     let s = (if np \<and> (out_of_time \<or> preempt \<or> sleep) then upd_sched c request_exit_np s else s);
     let completes = (\<not> np \<and> (out_of_time \<or> sleep) \<and> \<not> blocks);
     let s = (if completes then upd_sched c job_completion s else s);
     let resched = (preempt \<or> blocks \<or> completes);
     (nxt, s) \<leftarrow>
       (if (\<not> np \<or> blocks) \<and> (resched \<or> \<not> exsts) then do {
          s \<leftarrow> (case scheduled s c of
                  Some t \<Rightarrow> if \<not> blocks then requeue t c now s else Some s
                | None \<Rightarrow> Some s);
          Some (take_ready edf_ready_order c s)
        } else Some (if exsts then Some prev else None, s));
     Some (nxt, set_scheduled c nxt s)
   }"

definition psnedf_task_new ::
  "tid \<Rightarrow> bool \<Rightarrow> lt_t \<Rightarrow> lt_t \<Rightarrow> 'z pstate_scheme \<Rightarrow> 'z pstate_scheme option"
where
  "psnedf_task_new t running now now' s = do {
     let c = get_partition (tasks s t);
     let s = upd_task t (release_at now) s;
     (if running then do {
        BUG_ON (scheduled s c \<noteq> None);
        Some (s\<lparr>scheduled := (scheduled s)(c := Some t)\<rparr>)
      } else do {
        s \<leftarrow> requeue t c now' s;
        Some (psnedf_preempt c s)
      })
   }"

definition psnedf_task_wake_up ::
  "tid \<Rightarrow> lt_t \<Rightarrow> lt_t \<Rightarrow> 'z pstate_scheme \<Rightarrow> 'z pstate_scheme option"
where
  "psnedf_task_wake_up t now now' s = do {
     let c = get_partition (tasks s t);
     q \<leftarrow> is_queued t s;
     BUG_ON q;
     let s = (if is_tardy (tasks s t) now \<and> get_rt_flags (tasks s t) \<noteq> RT_F_EXIT_SEM
              then upd_task t (release_at now) s else s);
     (if scheduled s c \<noteq> Some t then requeue t c now' s else Some s)
   }"

definition psnedf_task_block :: "tid \<Rightarrow> 'z pstate_scheme \<Rightarrow> 'z pstate_scheme option" where
  "psnedf_task_block t s = do {
     BUG_ON (\<not> is_realtime (tasks s t));
     q \<leftarrow> is_queued t s;
     BUG_ON q;
     Some s
   }"

definition psnedf_task_exit :: "tid \<Rightarrow> 'z pstate_scheme \<Rightarrow> 'z pstate_scheme option" where
  "psnedf_task_exit t s = do {
     let c = get_partition (tasks s t);
     q \<leftarrow> is_queued t s;
     s \<leftarrow> (if q then remove_rt edf_ready_order c t s else Some s);
     let s = (if scheduled s c = Some t then s\<lparr>scheduled := (scheduled s)(c := None)\<rparr> else s);
     Some (psnedf_preempt c s)
   }"

definition psnedf_admit_task :: "task_struct \<Rightarrow> int" where
  "psnedf_admit_task t = (if task_cpu t = cpu (task_params (rt_param t)) then 0 else - EINVAL)"

section \<open>The callback contract\<close>

interpretation psn: resched_callback psnedf_check_resched
  unfolding psnedf_check_resched_def
  by (rule part_check_resched_contract) (auto simp: psnedf_preempt_def)

section \<open>Invariant and scheduling\<close>

text \<open>In addition to the invariant of all partitioned plugins, tasks never leave their CPU.\<close>

definition psn_inv :: "(tid \<Rightarrow> place) \<Rightarrow> 'z pstate_scheme \<Rightarrow> bool" where
  "psn_inv pl s \<longleftrightarrow> part_inv pl s \<and> (\<forall>c t. scheduled s c = Some t \<longrightarrow> get_partition (tasks s t) = c)"

lemma get_partition_job [simp]:
  "get_partition (job_completion t) = get_partition t" "get_partition (request_exit_np t) = get_partition t"
  "get_partition (set_rt_flags f t) = get_partition t" "get_partition (release_at now t) = get_partition t"
  by (simp_all add: job_completion_def prepare_for_next_period_def request_exit_np_def release_at_def rt_simps
      split: option.splits)

lemma job_fields [simp]:
  "pid (job_completion t) = pid t" "in_heap (rt_param (job_completion t)) = in_heap (rt_param t)"
  "pid (release_at now t) = pid t" "in_heap (rt_param (release_at now t)) = in_heap (rt_param t)"
  "pid (request_exit_np t) = pid t" "in_heap (rt_param (request_exit_np t)) = in_heap (rt_param t)"
  "edf_ok (request_exit_np t) = edf_ok t" "heap_node (rt_param (release_at now t)) = heap_node (rt_param t)"
  by (simp_all add: job_completion_def prepare_for_next_period_def request_exit_np_def release_at_def rt_simps
      edf_ok_def split: option.splits)

lemma set_scheduled_partition [simp]:
  "get_partition (tasks (set_scheduled c nxt s) t) = get_partition (tasks s t)"
  by (auto simp: set_scheduled_def Let_def split: option.splits)

text \<open>Switching keeps the tasks of all CPUs at home.\<close>

lemma switched_psn:
  assumes "switched c pl s ns" "\<And>c' t. c' \<noteq> c \<Longrightarrow> scheduled s c' = Some t \<Longrightarrow> get_partition (tasks s t) = c'"
  shows "psn_inv (removed (fst ns) pl) (set_scheduled c (fst ns) (snd ns))"
    "edf_choice c (fst ns) (removed (fst ns) pl) (set_scheduled c (fst ns) (snd ns))"
    "scheduled (set_scheduled c (fst ns) (snd ns)) = (scheduled s)(c := fst ns)"
    "curr (set_scheduled c (fst ns) (snd ns)) = curr s" "fst ns = Some n \<Longrightarrow> pl n = Ready c"
proof -
  have sw: "part_inv (removed (fst ns) pl) (set_scheduled c (fst ns) (snd ns))"
    "\<forall>n. fst ns = Some n \<longrightarrow> get_partition (tasks (snd ns) n) = c \<and> pl n = Ready c" "same_jobs s (snd ns)"
    "scheduled (snd ns) = scheduled s" "curr (snd ns) = curr s"
    using assms(1) unfolding switched_def by blast+
  have "get_partition (tasks (snd ns) t) = get_partition (tasks s t)" for t
    using sw(3) jview_view(1) unfolding same_jobs_def by blast
  then show "psn_inv (removed (fst ns) pl) (set_scheduled c (fst ns) (snd ns))"
    using sw assms(2) by (auto simp: psn_inv_def)
  show "edf_choice c (fst ns) (removed (fst ns) pl) (set_scheduled c (fst ns) (snd ns))"
    using assms(1) unfolding switched_def by blast
  show "scheduled (set_scheduled c (fst ns) (snd ns)) = (scheduled s)(c := fst ns)"
    "curr (set_scheduled c (fst ns) (snd ns)) = curr s" "fst ns = Some n \<Longrightarrow> pl n = Ready c"
    using sw(2,4,5) by auto
qed

lemma edf_choice_keep:
  assumes "queue_inv get_partition pl s" "edf_preemption_needed c (Some t) s = (False, s1)"
    "edf_ok (tasks s t)" "edf_ready_order s' = edf_ready_order s"
  shows "edf_choice c (Some t) pl s'"
  using edf_preemption_needed_spec(10) [OF assms(1,2) refl assms(3)] assms(4) by (auto simp: edf_choice_def)

text \<open>The scheduler; stated for the users of the plugin in the section on its properties.\<close>

lemma psnedf_schedule_ok:
  assumes inv: "psn_inv pl s"
    and sched: "\<And>t. scheduled s (this_cpu s) = Some t \<Longrightarrow> prev = t \<and> edf_ok (job_completion (tasks s t))"
  shows "ok (psnedf_schedule prev now s) (\<lambda>(nxt, s').
    scheduled s' = (scheduled s)(this_cpu s := nxt) \<and> curr s' = curr s \<and>
    (\<exists>pl'. psn_inv pl' s' \<and>
      resched_places (this_cpu s) (scheduled s (this_cpu s)) (on_sched (this_cpu s) is_running s) nxt pl pl' \<and>
      (if on_sched (this_cpu s) (\<lambda>t. is_np t \<and> is_running t) s then nxt = Some prev
       else edf_choice (this_cpu s) nxt pl' s')))"
proof -
  define c where "c = this_cpu s"
  have p: "part_inv pl s" and home: "\<And>c' t. scheduled s c' = Some t \<Longrightarrow> get_partition (tasks s t) = c'"
    using inv by (simp_all add: psn_inv_def)
  obtain preempt s1 where pn: "edf_preemption_needed c (Some prev) s = (preempt, s1)" by fastforce
  have q: "queue_inv get_partition pl s" and so: "sched_ok pl s" using p by (simp_all add: part_inv_def)
  note spec = edf_preemption_needed_spec(1-7) [OF q pn]
  have sched1: "scheduled s1 = scheduled s" by (rule scheduled_more [OF spec(4)])
  have p1: "part_inv pl s1" using spec(1,2) so sched1 by (simp add: part_inv_def sched_ok_def)
  show ?thesis
  proof (cases "scheduled s c")
    case None
    let ?t = "take_ready edf_ready_order c s1"
    have "switched c pl s1 ?t"
      by (rule take_switched [OF spec(1)]) (use p1 sched_ok_but_sched part_inv_def in blast)
    note sw = switched_psn [OF this]
    have home1: "get_partition (tasks s1 x) = c'" if "scheduled s1 c' = Some x" for c' x
      using home that sched1 spec(2) by simp
    have "resched_places c None False (fst ?t) pl (removed (fst ?t) pl)"
      by (rule resched_places_take) (use sw(5) home1 in auto)
    then show ?thesis
      using None pn sched1 home1 spec(2,6) sw(1-4) unfolding psnedf_schedule_def c_def [symmetric]
      by (simp add: Let_def on_sched_def split_beta) blast
  next
    case (Some t)
    then have prev: "prev = t" and jc: "edf_ok (job_completion (tasks s t))" using sched by (simp_all add: c_def)
    define np where "np = is_np (tasks s t)"
    define blocks where "blocks = (\<not> is_running (tasks s t))"
    define oot where "oot = (budget_enforced (tasks s t) \<and> budget_exhausted (tasks s t))"
    define sleep where "sleep = (get_rt_flags (tasks s t) = RT_F_SLEEP)"
    define completes where "completes = (\<not> np \<and> (oot \<or> sleep) \<and> \<not> blocks)"
    define s2 where "s2 = (if np \<and> (oot \<or> preempt \<or> sleep) then upd_task t request_exit_np s1 else s1)"
    define s3 where "s3 = (if completes then upd_task t job_completion s2 else s2)"
    have s3: "scheduled s3 = scheduled s" "doms s3 = doms s1" "rel_heaps s3 = rel_heaps s1"
      "tick_period s3 = tick_period s1" "this_cpu s3 = this_cpu s" "\<And>x. x \<noteq> t \<Longrightarrow> tasks s3 x = tasks s1 x"
      "pid (tasks s3 t) = pid (tasks s1 t)" "in_heap (rt_param (tasks s3 t)) = in_heap (rt_param (tasks s1 t))"
      "get_partition (tasks s3 t) = get_partition (tasks s1 t)" "curr s3 = curr s"
      using sched1 spec(5,6) by (auto simp: s3_def s2_def)
    note upd = part_inv_sched_upd [OF p1 _ s3(6-8,2-4), of c]
    have upd: "queue_inv get_partition pl s3" "sched_ok_but c pl s3" "pl t = Nowhere" "edf_ok (tasks s1 t)"
      "\<And>c'. c' \<noteq> c \<Longrightarrow> scheduled s3 c' \<noteq> Some t"
      using upd Some sched1 s3(1) by auto
    have ok3: "edf_ok (tasks s3 t)"
      using upd(4) jc spec(2) by (auto simp: s3_def s2_def completes_def)
    have home3: "get_partition (tasks s3 x) = c'" if "scheduled s3 c' = Some x" for c' x
      using home [of c' x] that s3(1,6,9) spec(2) by (cases "x = t") auto
    have eq: "psnedf_schedule prev now s = Option.bind
        (if (\<not> np \<or> blocks) \<and> (preempt \<or> blocks \<or> completes)
         then Option.bind (if \<not> blocks then requeue t c now s3 else Some s3) (\<lambda>s. Some (take_ready edf_ready_order c s))
         else Some (Some t, s3)) (\<lambda>(nxt, s). Some (nxt, set_scheduled c nxt s))"
    proof -
      have st: "on_sched c (\<lambda>t. \<not> is_running t) s = blocks"
        "on_sched c (\<lambda>t. budget_enforced t \<and> budget_exhausted t) s = oot" "on_sched c is_np s = np"
        "on_sched c (\<lambda>t. get_rt_flags t = RT_F_SLEEP) s = sleep"
        using Some by (simp_all add: on_sched_def np_def blocks_def oot_def sleep_def)
      have up: "upd_sched c f s1 = upd_task t f s1" "upd_sched c f s2 = upd_task t f s2" for f
        using Some sched1 by (simp_all add: upd_sched_def s2_def)
      show ?thesis
        unfolding psnedf_schedule_def c_def [symmetric] Let_def st pn prod.case up
          completes_def [symmetric] s2_def [symmetric] s3_def [symmetric]
        using Some prev upd(4) spec(2) s3(1) by (simp add: edf_ok_def)
    qed
    have npb: "on_sched c (\<lambda>t. is_np t \<and> is_running t) s = (np \<and> \<not> blocks)"
      using Some by (simp add: on_sched_def np_def blocks_def)
    show ?thesis
    proof (cases "(\<not> np \<or> blocks) \<and> (preempt \<or> blocks \<or> completes)")
      case True
      have fin: "(\<exists>pl'. psn_inv pl' (set_scheduled c (fst ns) (snd ns)) \<and>
          resched_places c (Some t) (\<not> blocks) (fst ns) pl pl' \<and> edf_choice c (fst ns) pl' (set_scheduled c (fst ns) (snd ns))) \<and>
        scheduled (set_scheduled c (fst ns) (snd ns)) = (scheduled s)(c := fst ns) \<and>
        curr (set_scheduled c (fst ns) (snd ns)) = curr s"
        if sw: "switched c (pl(t := p)) s4 ns" and p: "p \<noteq> Nowhere \<longleftrightarrow> \<not> blocks"
          and s4: "scheduled s4 = scheduled s3" "curr s4 = curr s3" "\<And>x. get_partition (tasks s4 x) = get_partition (tasks s3 x)"
        for p s4 ns
      proof -
        note psn = switched_psn [OF sw]
        have h4: "get_partition (tasks s4 x) = c'" if "scheduled s4 c' = Some x" for c' x using home3 that s4 by simp
        have "resched_places c (Some t) (\<not> blocks) (fst ns) pl (removed (fst ns) (pl(t := p)))"
        proof (cases blocks)
          case True
          then have "pl(t := p) = pl" using p upd(3) by (simp add: fun_upd_idem)
          then show ?thesis using psn(5) h4 True upd(3) by (auto intro!: resched_places_take)
        next
          case False
          then show ?thesis using psn(5) h4 p by (auto intro!: resched_places_requeue)
        qed
        then show ?thesis using psn(1-4) h4 s4 s3(1,10) by auto
      qed
      have run: "on_sched c is_running s = (\<not> blocks)" using Some by (simp add: on_sched_def blocks_def)
      show ?thesis
      proof (cases blocks)
        case True
        have "switched c (pl(t := Nowhere)) s3 (take_ready edf_ready_order c s3)"
          using take_switched [OF upd(1,2)] upd(3) by (simp add: fun_upd_idem)
        from fin [OF this] show ?thesis
          unfolding eq npb run c_def [symmetric] if_P [OF \<open>(\<not> np \<or> blocks) \<and> (preempt \<or> blocks \<or> completes)\<close>]
          using True Some by (simp add: split_beta)
      next
        case False
        have "ok (requeue t c now s3) (\<lambda>s'. \<exists>p. p \<noteq> Nowhere \<and>
            switched c (pl(t := p)) (upd_task t (set_rt_flags RT_F_RUNNING) s3) (take_ready edf_ready_order c s'))"
          using psn.requeue_switched [OF upd(1,2,3) ok3 _ upd(5), of now] s3(9) spec(2) home [OF Some]
          by (simp add: requeue_def)
        then show ?thesis
          unfolding eq npb run c_def [symmetric] if_P [OF \<open>(\<not> np \<or> blocks) \<and> (preempt \<or> blocks \<or> completes)\<close>] ok_bind
          using False \<open>(\<not> np \<or> blocks) \<and> (preempt \<or> blocks \<or> completes)\<close> Some
          by (auto simp: split_beta elim!: ok_mono dest!: fin)
      qed
    next
      case False
      have inv3: "psn_inv pl (set_scheduled c (Some t) s3)"
        using part_inv_set_scheduled [OF upd(1,2), of "Some t"] upd(3,5) ok3 home3 s3(1) home [OF Some] spec(2) s3(9)
        by (auto simp: psn_inv_def)
      have "edf_choice c (Some t) pl (set_scheduled c (Some t) s3)" if "\<not> (np \<and> \<not> blocks)"
      proof -
        have "\<not> preempt" "\<not> completes" "\<not> np" using that False by auto
        then have "s3 = s1" by (simp add: s3_def s2_def)
        moreover have "edf_ready_order s1 = edf_ready_order s"
          using same_tasks_order [of s s1] spec(2) by (simp add: same_tasks_def)
        ultimately show ?thesis
          using pn prev \<open>\<not> preempt\<close> upd(4) spec(2) by (intro edf_choice_keep [OF q, of c t s1]) simp_all
      qed
      then show ?thesis
        unfolding eq npb c_def [symmetric] if_not_P [OF False]
        using inv3 prev s3(1,10) resched_places_keep Some by auto
    qed
  qed
qed

section \<open>The other handlers\<close>

lemma psn_inv_partsD:
  assumes "psn_inv pl s"
  shows "queue_inv get_partition pl s" "sched_ok pl s" "placed get_partition pl s"
    "scheduled s c = Some t \<Longrightarrow> get_partition (tasks s t) = c \<and> pl t = Nowhere \<and> edf_ok (tasks s t)"
    "scheduled s c = Some t \<Longrightarrow> scheduled s c' = Some t \<Longrightarrow> c' = c"
  using assms unfolding psn_inv_def part_inv_def queue_inv_def sched_ok_def by blast+

text \<open>A step that only raises requests for a preemption.\<close>

lemma psn_inv_same:
  assumes "psn_inv pl s" "doms s' = doms s" "rel_heaps s' = rel_heaps s" "tick_period s' = tick_period s"
    "same_tasks s s'" "scheduled s' = scheduled s"
  shows "psn_inv pl s'"
proof -
  have *: "tview (tasks s' t) = tview (tasks s t)" for t using assms(5) by (simp add: same_tasks_def)
  have "queue_inv get_partition pl s'" by (rule queue_inv_same [OF psn_inv_partsD(1) [OF assms(1)] assms(2-5)])
  then show ?thesis
    using assms(1,6) by (simp add: psn_inv_def part_inv_def sched_ok_def tview_view [OF *])
qed

lemma psn_inv_preempt: "psn_inv pl s \<Longrightarrow> psn_inv pl (psnedf_preempt c s)"
  unfolding psnedf_preempt_def by (rule psn_inv_same) simp_all

lemma psnedf_preempt_simps [simp]:
  "this_cpu (psnedf_preempt c s) = this_cpu s" "curr (psnedf_preempt c s) = curr s"
  "scheduled (psnedf_preempt c s) = scheduled s"
  by (simp_all add: psnedf_preempt_def)

text \<open>Requeueing a task that is nowhere.\<close>

lemma psn_requeue:
  assumes "psn_inv pl s" "pl t = Nowhere" "edf_ok (tasks s t)" "get_partition (tasks s t) = c"
    "\<And>c'. scheduled s c' \<noteq> Some t"
  shows "ok (requeue t c now s) (\<lambda>s'. \<exists>p. psn_inv (pl(t := p)) s' \<and> this_cpu s' = this_cpu s \<and> curr s' = curr s \<and>
    scheduled s' = scheduled s \<and> same_jobs (upd_task t (set_rt_flags RT_F_RUNNING) s) s')"
  unfolding requeue_def
proof (rule ok_mono [OF psn.requeue_ok(1) [OF psn_inv_partsD(1) [OF assms(1)] assms(2-4)]], elim exE conjE)
  fix s' p
  assume s': "queue_inv get_partition (pl(t := p)) s'" "same_jobs (upd_task t (set_rt_flags RT_F_RUNNING) s) s'"
    "kstate.more s' = kstate.more s" "this_cpu s' = this_cpu s" "curr s' = curr s"
  have *: "jview (tasks s' x) = jview (tasks (upd_task t (set_rt_flags RT_F_RUNNING) s) x)" for x
    using s'(2) by (simp add: same_jobs_def)
  have view: "edf_ok (tasks s' x) = edf_ok (tasks s x)" "get_partition (tasks s' x) = get_partition (tasks s x)" for x
    using jview_view(1,2) [OF * [of x]] by auto
  have "psn_inv (pl(t := p)) s'"
    using s'(1) psn_inv_partsD(4,5) [OF assms(1)] assms(5) scheduled_more [OF s'(3)]
    unfolding psn_inv_def part_inv_def sched_ok_def view by auto
  then show "\<exists>p. psn_inv (pl(t := p)) s' \<and> this_cpu s' = this_cpu s \<and> curr s' = curr s \<and>
      scheduled s' = scheduled s \<and> same_jobs (upd_task t (set_rt_flags RT_F_RUNNING) s) s'"
    using s' scheduled_more by blast
qed

text \<open>Giving a task that is in no queue and on no CPU new job parameters.\<close>

lemma psn_inv_upd_free:
  assumes "psn_inv pl s" "pl t = Nowhere" "pid (f (tasks s t)) = pid (tasks s t)"
    "in_heap (rt_param (f (tasks s t))) = in_heap (rt_param (tasks s t))"
    "\<And>c. scheduled s c = Some t \<Longrightarrow> edf_ok (f (tasks s t)) \<and> get_partition (f (tasks s t)) = c"
  shows "psn_inv pl (upd_task t f s)"
proof -
  have "queue_inv get_partition pl (upd_task t f s)"
    by (rule queue_inv_frame [OF psn_inv_partsD(1) [OF assms(1)]]) (use assms(2-4) in auto)
  then show ?thesis
    using psn_inv_partsD(4,5) [OF assms(1)] assms(5) unfolding psn_inv_def part_inv_def sched_ok_def by auto
qed

lemma psn_task_new_ok:
  assumes "psn_inv pl s" "pl t = Nowhere" "\<And>c. scheduled s c \<noteq> Some t" "edf_ok (release_at now (tasks s t))"
    "running \<Longrightarrow> scheduled s (get_partition (tasks s t)) = None"
  shows "ok (psnedf_task_new t running now now' s) (\<lambda>s'. (\<exists>pl'. psn_inv pl' s') \<and> this_cpu s' = this_cpu s \<and>
    curr s' = curr s \<and> scheduled s' = (if running then (scheduled s)(get_partition (tasks s t) := Some t) else scheduled s))"
proof -
  let ?c = "get_partition (tasks s t)" and ?s = "upd_task t (release_at now) s"
  have inv: "psn_inv pl ?s" by (rule psn_inv_upd_free [OF assms(1,2)]) (simp_all add: assms(3))
  show ?thesis
  proof (cases running)
    case True
    have "psn_inv pl (?s\<lparr>scheduled := (scheduled ?s)(?c := Some t)\<rparr>)"
      using inv assms(2-4) unfolding psn_inv_def part_inv_def sched_ok_def by auto
    then show ?thesis using True assms(5) by (auto simp: psnedf_task_new_def Let_def)
  next
    case False
    have "ok (requeue t ?c now' ?s) (\<lambda>s'. \<exists>p. psn_inv (pl(t := p)) s' \<and> this_cpu s' = this_cpu s \<and> curr s' = curr s \<and>
        scheduled s' = scheduled s)"
      by (rule ok_mono [OF psn_requeue [OF inv assms(2), of ?c now']]) (use assms(3,4) in auto)
    then show ?thesis
      using False by (simp add: psnedf_task_new_def Let_def ok_bind)
        (auto elim!: ok_mono intro: psn_inv_preempt)
  qed
qed

lemma psn_task_wake_up_ok:
  assumes "psn_inv pl s" "pl t = Nowhere" "edf_ok (tasks s t)"
    "edf_ok (release_at now (tasks s t))"
    "\<And>c. scheduled s c = Some t \<Longrightarrow> c = get_partition (tasks s t)"
  shows "ok (psnedf_task_wake_up t now now' s) (\<lambda>s'. (\<exists>pl'. psn_inv pl' s') \<and> this_cpu s' = this_cpu s \<and>
    curr s' = curr s \<and> scheduled s' = scheduled s)"
proof -
  let ?c = "get_partition (tasks s t)"
  define s1 where "s1 = (if is_tardy (tasks s t) now \<and> get_rt_flags (tasks s t) \<noteq> RT_F_EXIT_SEM
    then upd_task t (release_at now) s else s)"
  have inv: "psn_inv pl s1"
    using assms psn_inv_upd_free [OF assms(1,2), of "release_at now"] by (auto simp: s1_def)
  have s1: "edf_ok (tasks s1 t)" "get_partition (tasks s1 t) = ?c" "scheduled s1 = scheduled s"
    "this_cpu s1 = this_cpu s" "curr s1 = curr s"
    using assms by (auto simp: s1_def)
  have "\<not> in_heap (rt_param (tasks s t))" "heap_node (rt_param (tasks s t))"
    using placed_simps(5) [OF psn_inv_partsD(3) [OF assms(1)], of t] assms(2,3) by (simp_all add: edf_ok_def)
  then have eq: "psnedf_task_wake_up t now now' s = (if scheduled s1 ?c \<noteq> Some t then requeue t ?c now' s1 else Some s1)"
    by (simp add: psnedf_task_wake_up_def is_queued_def Let_def s1_def)
  show ?thesis
  proof (cases "scheduled s1 ?c = Some t")
    case True
    then show ?thesis using eq inv s1 by auto
  next
    case False
    then have "\<And>c'. scheduled s1 c' \<noteq> Some t" using assms(5) s1(3) by metis
    from psn_requeue [OF inv assms(2) s1(1,2) this, of now']
    show ?thesis unfolding eq using False s1 by (auto elim!: ok_mono)
  qed
qed

lemma psn_task_exit_ok:
  assumes "psn_inv pl s" "heap_node (rt_param (tasks s t))" "pl t = Nowhere \<or> pl t = Ready (get_partition (tasks s t))"
  shows "ok (psnedf_task_exit t s) (\<lambda>s'. (\<exists>pl'. psn_inv pl' s' \<and> pl' t = Nowhere) \<and> this_cpu s' = this_cpu s \<and>
    curr s' = curr s \<and> scheduled s' = (scheduled s)(get_partition (tasks s t) :=
      if scheduled s (get_partition (tasks s t)) = Some t then None else scheduled s (get_partition (tasks s t))))"
proof -
  let ?c = "get_partition (tasks s t)"
  have part: "part_inv pl s" and home: "\<And>c x. scheduled s c = Some x \<Longrightarrow> get_partition (tasks s x) = c"
    using assms(1) by (simp_all add: psn_inv_def)
  have "ok (if in_heap (rt_param (tasks s t)) then remove_rt edf_ready_order ?c t s else Some s)
    (\<lambda>s'. psn_inv (pl(t := Nowhere)) s' \<and> this_cpu s' = this_cpu s \<and> curr s' = curr s \<and> scheduled s' = scheduled s)"
    by (rule ok_mono [OF part_dequeue_ok [OF part assms(3)]]) (use home in \<open>auto simp: psn_inv_def dest: jview_view(1)\<close>)
  moreover have "psn_inv (pl(t := Nowhere)) (s'\<lparr>scheduled := (scheduled s)(?c := None)\<rparr>)"
    if "psn_inv (pl(t := Nowhere)) s'" "scheduled s' = scheduled s" for s' :: "'a pstate_scheme"
    using that unfolding psn_inv_def part_inv_def sched_ok_def by auto
  ultimately show ?thesis
    using assms(2)
    by (simp add: psnedf_task_exit_def is_queued_def Let_def ok_bind)
      (auto elim!: ok_mono intro!: exI [of _ "pl(t := Nowhere)"] psn_inv_preempt
        simp: fun_upd_idem)
qed

section \<open>The plugin as a state machine\<close>

fun psn_exec :: "plugin_call \<Rightarrow> pstate \<Rightarrow> pstate option" where
  "psn_exec (Schedule c now idle) s =
     map_option (switch_to c idle) (psnedf_schedule (curr s c) now (s\<lparr>this_cpu := c\<rparr>))"
| "psn_exec (ReleaseTimer c r) s =
     Some (on_release_timer (default_release_jobs edf_ready_order psnedf_check_resched) r (s\<lparr>this_cpu := c\<rparr>))"
| "psn_exec (TaskNew c t running now now') s = psnedf_task_new t running now now' (s\<lparr>this_cpu := c\<rparr>)"
| "psn_exec (WakeUp c t now now') s = psnedf_task_wake_up t now now' (s\<lparr>this_cpu := c\<rparr>)"
| "psn_exec (Block c t) s = psnedf_task_block t (s\<lparr>this_cpu := c\<rparr>)"
| "psn_exec (Exit c t) s = psnedf_task_exit t (s\<lparr>this_cpu := c\<rparr>)"
| "psn_exec (Tick c) s = psnedf_tick (curr s c) (s\<lparr>this_cpu := c\<rparr>)"
| "psn_exec (Linux t f) s = Some (upd_task t f s)"

text \<open>
  When Linux makes a call: only tasks in no queue are created, woken up or block; a task exits from
  its CPU or its ready queue; the tick finds the task that the plugin has scheduled; and the time
  stamps of the next job stay below \<open>2 ^ 63\<close> nanoseconds.
\<close>

fun psn_enabled :: "plugin_call \<Rightarrow> pstate \<Rightarrow> bool" where
  "psn_enabled (Schedule c now idle) s =
     (case scheduled s c of None \<Rightarrow> True | Some t \<Rightarrow> edf_ok (job_completion (tasks s t)))"
| "psn_enabled (ReleaseTimer c r) s = (rh_timer (rel_heaps s r) \<noteq> None)"
| "psn_enabled (TaskNew c t running now now') s =
     (\<not> in_heap (rt_param (tasks s t)) \<and> (\<forall>c'. scheduled s c' \<noteq> Some t) \<and>
      edf_ok (release_at now (tasks s t)) \<and>
      (running \<longrightarrow> scheduled s (get_partition (tasks s t)) = None \<and> curr s (get_partition (tasks s t)) = t))"
| "psn_enabled (WakeUp c t now now') s =
     (\<not> in_heap (rt_param (tasks s t)) \<and> edf_ok (tasks s t) \<and> edf_ok (release_at now (tasks s t)))"
| "psn_enabled (Block c t) s =
     (is_realtime (tasks s t) \<and> heap_node (rt_param (tasks s t)) \<and> \<not> in_heap (rt_param (tasks s t)))"
| "psn_enabled (Exit c t) s = (heap_node (rt_param (tasks s t)) \<and> (\<forall>r. t \<notin># waiting_of s r))"
| "psn_enabled (Tick c) s = (is_realtime (tasks s (curr s c)) \<longrightarrow> scheduled s c = Some (curr s c))"
| "psn_enabled (Linux t f) s =
     (qview (f (tasks s t)) = qview (tasks s t) \<and> get_partition (f (tasks s t)) = get_partition (tasks s t))"

definition psn_safe :: "pstate \<Rightarrow> bool" where
  "psn_safe s \<longleftrightarrow> (\<exists>pl. psn_inv pl s) \<and> (\<forall>c t. scheduled s c = Some t \<longrightarrow> curr s c = t)"

lemma psn_inv_this_cpu [simp]:
  "psn_inv pl (s\<lparr>this_cpu := c\<rparr>) = psn_inv pl s" "psn_inv pl (s\<lparr>curr := f\<rparr>) = psn_inv pl s"
  by (simp_all add: psn_inv_def)

lemma psn_init_safe: "part_init s \<Longrightarrow> psn_safe s"
  using part_init_inv [of s] by (auto simp: psn_safe_def psn_inv_def part_init_def)

lemma psn_safe_nowhere: "psn_inv pl s \<Longrightarrow> \<not> in_heap (rt_param (tasks s t)) \<Longrightarrow> pl t = Nowhere"
  using placed_simps(5) [OF psn_inv_partsD(3)] by blast

lemma psn_call_ok:
  assumes "psn_safe s" "psn_enabled call s"
  shows "ok (psn_exec call s) psn_safe"
proof -
  obtain pl where inv: "psn_inv pl s" and cur: "\<And>c t. scheduled s c = Some t \<Longrightarrow> curr s c = t"
    using assms(1) by (auto simp: psn_safe_def)
  note p = psn_inv_partsD(3) [OF inv] and nw = psn_safe_nowhere [OF inv]
  have safe: "psn_safe s'" if "psn_inv pl' s'" "scheduled s' = scheduled s" "curr s' = curr s" for pl' s'
    using that cur by (auto simp: psn_safe_def)
  show ?thesis
  proof (cases call)
    case (Schedule c now idle)
    let ?s = "s\<lparr>this_cpu := c\<rparr>"
    have "ok (psnedf_schedule (curr s c) now ?s) (\<lambda>ns. psn_safe (switch_to c idle ns))"
      by (rule ok_mono [OF psnedf_schedule_ok [of pl]])
        (use inv cur assms(2) Schedule in \<open>auto simp: psn_safe_def switch_to_def split: if_splits\<close>)
    then show ?thesis using Schedule by (cases "psnedf_schedule (curr s c) now ?s") simp_all
  next
    case (ReleaseTimer c r)
    have inv': "part_inv pl (s\<lparr>this_cpu := c\<rparr>)" "rh_timer (rel_heaps (s\<lparr>this_cpu := c\<rparr>) r) \<noteq> None"
      using inv assms(2) ReleaseTimer by (auto simp: psn_inv_def)
    note t = psn.release_timer_part_inv [OF inv']
    have view: "tview (tasks (on_release_timer (default_release_jobs edf_ready_order psnedf_check_resched) r
        (s\<lparr>this_cpu := c\<rparr>)) x) = tview (tasks s x)" for x using t(3) by (simp add: same_tasks_def)
    have "psn_inv (\<lambda>x. if pl x = Waiting r then Ready (rh_dom (rel_heaps (s\<lparr>this_cpu := c\<rparr>) r)) else pl x)
        (on_release_timer (default_release_jobs edf_ready_order psnedf_check_resched) r (s\<lparr>this_cpu := c\<rparr>))"
      using t(1,4) inv unfolding psn_inv_def tview_view [OF view] by simp
    then show ?thesis using ReleaseTimer safe t(4,5) by simp
  next
    case (TaskNew c t running now now')
    have "ok (psnedf_task_new t running now now' (s\<lparr>this_cpu := c\<rparr>)) psn_safe"
      by (rule ok_mono [OF psn_task_new_ok [of pl]])
        (use inv assms(2) TaskNew nw cur in \<open>auto simp: psn_safe_def split: if_splits\<close>)
    then show ?thesis using TaskNew by simp
  next
    case (WakeUp c t now now')
    have "ok (psnedf_task_wake_up t now now' (s\<lparr>this_cpu := c\<rparr>)) psn_safe"
      by (rule ok_mono [OF psn_task_wake_up_ok [of pl]])
        (use inv assms(2) WakeUp nw cur psn_inv_partsD(4) [OF inv] in \<open>auto simp: psn_safe_def\<close>)
    then show ?thesis using WakeUp by simp
  next
    case (Block c t)
    then show ?thesis using assms(2) safe inv by (auto simp: psnedf_task_block_def is_queued_def)
  next
    case (Exit c t)
    have "pl t = Nowhere \<or> pl t = Ready (get_partition (tasks s t))"
      using assms(2) Exit inv by (intro part_inv_exits) (simp_all add: psn_inv_def)
    then have "ok (psnedf_task_exit t (s\<lparr>this_cpu := c\<rparr>)) psn_safe"
      by (intro ok_mono [OF psn_task_exit_ok [of pl]])
        (use inv assms(2) Exit cur in \<open>auto simp: psn_safe_def split: if_splits\<close>)
    then show ?thesis using Exit by simp
  next
    case (Tick c)
    let ?s = "s\<lparr>this_cpu := c\<rparr>"
    have "part_inv pl ?s" using inv by (simp add: psn_inv_def)
    note upd = part_inv_request [OF this]
    have "psn_safe (upd_task t f ?s)" if f: "tview (f (tasks s t)) = tview (tasks s t)" for t f
    proof (rule safe [of pl])
      have view: "tview (tasks (upd_task t f ?s) x) = tview (tasks s x)" for x
        using upd(2) [of f t] f by (simp add: same_tasks_def)
      show "psn_inv pl (upd_task t f ?s)"
        using upd(1) f inv unfolding psn_inv_def tview_view [OF view] by simp
    qed simp_all
    moreover have "psn_safe ?s" by (rule safe [of pl]) (use inv in simp_all)
    ultimately show ?thesis using Tick assms(2) by (simp add: psnedf_tick_def set_tsk_need_resched_def ok_bind)
  next
    case (Linux t f)
    have "psn_inv pl (upd_task t f s)"
      using assms(2) Linux inv part_inv_linux(1) [of pl s f t] by (auto simp: psn_inv_def)
    then show ?thesis using Linux safe by simp
  qed
qed

interpretation psn_machine: kernel_machine part_init psn_enabled psn_exec psn_safe
  by unfold_locales (simp_all add: psn_init_safe psn_call_ok)

section \<open>Properties\<close>

text \<open>
  C1: the scheduler of PSN-EDF. In a state that satisfies the invariant, where the CPU runs the task
  that the plugin has scheduled there and the time stamps of its next job stay in the window, the
  handler stops at no \<^verbatim>\<open>BUG_ON\<close> and keeps the invariant. Only the chosen task and the one that was
  running change their place: a task that gives up the CPU is put in a queue exactly if it is still
  runnable. A task in a non-preemptive section that does not block keeps the CPU; in every other
  case the choice is EDF among the task that was running and all jobs that are ready on the CPU.
\<close>

theorem psnedf_schedule_correct:
  assumes "psn_inv pl s"
    and "\<And>t. scheduled s (this_cpu s) = Some t \<Longrightarrow> prev = t \<and> edf_ok (job_completion (tasks s t))"
  shows "ok (psnedf_schedule prev now s) (\<lambda>(nxt, s').
    scheduled s' = (scheduled s)(this_cpu s := nxt) \<and>
    (\<exists>pl'. psn_inv pl' s' \<and>
      resched_places (this_cpu s) (scheduled s (this_cpu s)) (on_sched (this_cpu s) is_running s) nxt pl pl' \<and>
      (if on_sched (this_cpu s) (\<lambda>t. is_np t \<and> is_running t) s then nxt = Some prev
       else edf_choice (this_cpu s) nxt pl' s')))"
  by (rule ok_mono [OF psnedf_schedule_ok [of pl]]) (use assms in auto)

text \<open>Two tasks become ready on CPU 0, the second one with the earlier deadline.\<close>

definition psn_sample :: pstate where
  "psn_sample = sample_state (\<lambda>t. sample_rt_task 0 100 (if t = 2 then 500 else 900))"

definition psn_sample1 :: pstate where
  "psn_sample1 = the (psn_exec (TaskNew 0 1 False 10 20) psn_sample)"

definition psn_sample2 :: pstate where
  "psn_sample2 = the (psn_exec (TaskNew 0 2 False 30 40) psn_sample1)"

lemma psn_sample_init: "part_init psn_sample"
  by (simp add: part_init_def psn_sample_def sample_simps inj_def)

lemma psn_sample1_exec: "psn_exec (TaskNew 0 1 False 10 20) psn_sample = Some psn_sample1" "scheduled psn_sample1 = (\<lambda>_. None)"
proof -
  have en: "psn_enabled (TaskNew 0 1 False 10 20) psn_sample"
    by (simp add: psn_sample_def sample_simps release_at_def prepare_for_next_period_def edf_ok_def rt_simps)
  have "ok (psn_exec (TaskNew 0 1 False 10 20) psn_sample) psn_safe"
    by (rule psn_call_ok [OF psn_init_safe [OF psn_sample_init] en])
  then show ex: "psn_exec (TaskNew 0 1 False 10 20) psn_sample = Some psn_sample1"
    by (auto simp: psn_sample1_def ok_iff_ex)
  have "scheduled psn_sample = (\<lambda>_. None)" by (simp add: psn_sample_def sample_state_def)
  moreover have "psn_inv (\<lambda>_. Nowhere) (psn_sample\<lparr>this_cpu := 0\<rparr>)"
    using sample_state_inv by (simp add: psn_inv_def psn_sample_def) (simp add: sample_state_def)
  ultimately show "scheduled psn_sample1 = (\<lambda>_. None)"
    using psn_task_new_ok [of "\<lambda>_. Nowhere" "psn_sample\<lparr>this_cpu := 0\<rparr>" 1 10 False 20] en ex by simp
qed

lemma psn_sample2_reachable: "reachable part_init psn_enabled psn_exec psn_sample2"
proof -
  have "reachable part_init psn_enabled psn_exec psn_sample"
    by (rule reachable.start) (rule psn_sample_init)
  then have r1: "reachable part_init psn_enabled psn_exec psn_sample1"
    by (rule reachable.step [where c = "TaskNew 0 1 False 10 20"])
      (simp add: psn_sample_def sample_simps release_at_def prepare_for_next_period_def edf_ok_def rt_simps,
       rule psn_sample1_exec(1))
  have "\<not> in_heap (rt_param (tasks psn_sample1 2)) \<and> edf_ok (release_at 30 (tasks psn_sample1 2))"
    by code_simp
  then have en: "psn_enabled (TaskNew 0 2 False 30 40) psn_sample1"
    by (simp add: psn_sample1_exec(2))
  have "psn_exec (TaskNew 0 2 False 30 40) psn_sample1 = Some psn_sample2"
    using psn_machine.reachable_no_bug [OF r1 en] by (auto simp: psn_sample2_def)
  with r1 en show ?thesis by (rule reachable.step)
qed

theorem psnedf_schedule_correct_witness:
  "ok (psnedf_schedule 0 50 psn_sample2) (\<lambda>(nxt, s'). scheduled s' = (scheduled psn_sample2)(0 := nxt) \<and>
     (\<exists>pl'. psn_inv pl' s' \<and> edf_choice 0 nxt pl' s')) \<and>
   fst (the (psnedf_schedule 0 50 psn_sample2)) = Some 2"
proof -
  obtain pl where inv: "psn_inv pl psn_sample2"
    using psn_machine.reachable_inv [OF psn_sample2_reachable] by (auto simp: psn_safe_def)
  have ev: "this_cpu psn_sample2 = 0 \<and> scheduled psn_sample2 0 = None" by code_simp
  have "fst (the (psnedf_schedule 0 50 psn_sample2)) = Some 2" by code_simp
  moreover have "ok (psnedf_schedule 0 50 psn_sample2) (\<lambda>(nxt, s'). scheduled s' = (scheduled psn_sample2)(0 := nxt) \<and>
     (\<exists>pl'. psn_inv pl' s' \<and> edf_choice 0 nxt pl' s'))"
    by (rule ok_mono [OF psnedf_schedule_correct [OF inv]]) (use ev in \<open>auto simp: on_sched_def\<close>)
  ultimately show ?thesis by blast
qed



end
