(* ===== verification/Linked_Edf.thy ===== *)
theory Linked_Edf
  imports Partitioned
begin

text \<open>
  The scheduler code that GSN-EDF (\<^verbatim>\<open>litmus/sched_gsn_edf.c\<close>) and C-EDF
  (\<^verbatim>\<open>litmus/sched_cedf.c\<close>) have in common. The second file is the first one with one domain and
  one heap of CPUs for each cluster; GSN-EDF is the case of a single cluster, number \<open>0\<close>. A job is
  first \<^emph>\<open>linked\<close> to a CPU, which is what the heap of CPUs is ordered by, and scheduled there when
  that CPU calls the scheduler. A cluster and its domain have the same number; the entry of a CPU has
  the number of the CPU.

  A function that reads the clock gets its readings as a sequence \<open>clk\<close>, one per possible reading.
  Priority inheritance is not part of this theory.
\<close>

section \<open>State\<close>

text \<open>
  \<open>scheduled\<close> and \<open>linked\<close> are the fields of \<^verbatim>\<open>cpu_entry_t\<close>; \<open>hn_in_heap\<close> is what the degree
  of the heap node of an entry tells.
\<close>

record gstate = pstate +
  linked :: "cpu_id \<Rightarrow> tid option"
  cpu_heap :: "nat \<Rightarrow> cpu_id bheap"
  hn_in_heap :: "cpu_id \<Rightarrow> bool"
  will_schedule :: "cpu_id \<Rightarrow> bool"
  cluster :: "cpu_id \<Rightarrow> nat"

definition set_linked_on :: "cpu_id option \<Rightarrow> task_struct \<Rightarrow> task_struct" where
  "set_linked_on c = upd_rt (\<lambda>p. p\<lparr>linked_on := c\<rparr>)"

definition set_scheduled_on :: "cpu_id option \<Rightarrow> task_struct \<Rightarrow> task_struct" where
  "set_scheduled_on c = upd_rt (\<lambda>p. p\<lparr>scheduled_on := c\<rparr>)"

definition set_linked :: "cpu_id \<Rightarrow> tid option \<Rightarrow> 'z gstate_scheme \<Rightarrow> 'z gstate_scheme" where
  "set_linked c t s = s\<lparr>linked := (linked s)(c := t)\<rparr>"

definition task_cpu_cluster :: "tid \<Rightarrow> 'z gstate_scheme \<Rightarrow> nat" where
  "task_cpu_cluster t s = cluster s (get_partition (tasks s t))"

section \<open>The heap of CPUs\<close>

definition cpu_lower_prio :: "'z gstate_scheme \<Rightarrow> cpu_id \<Rightarrow> cpu_id \<Rightarrow> bool" where
  "cpu_lower_prio s a b = edf_higher_prio (tasks s) (linked s b) (linked s a)"

text \<open>As in the ready queue, deleting an entry that is not in the heap runs off its root list.\<close>

definition update_cpu_position :: "cpu_id \<Rightarrow> 'z gstate_scheme \<Rightarrow> 'z gstate_scheme option" where
  "update_cpu_position c s = do {
     let d = cluster s c;
     h \<leftarrow> (if hn_in_heap s c then bheap_delete (cpu_lower_prio s) (cpu_heap s d) c
           else Some (cpu_heap s d));
     Some (s\<lparr>cpu_heap := (cpu_heap s)(d := bheap_insert (cpu_lower_prio s) h c),
             hn_in_heap := (hn_in_heap s)(c := True)\<rparr>)
   }"

text \<open>The node is read even if there is none, which is a \<^verbatim>\<open>NULL\<close> access.\<close>

definition lowest_prio_cpu :: "nat \<Rightarrow> 'z gstate_scheme \<Rightarrow> (cpu_id \<times> 'z gstate_scheme) option" where
  "lowest_prio_cpu d s = do {
     let (hn, h) = bheap_peek (cpu_lower_prio s) (cpu_heap s d);
     c \<leftarrow> hn;
     Some (c, s\<lparr>cpu_heap := (cpu_heap s)(d := h)\<rparr>)
   }"

section \<open>Linking\<close>

text \<open>
  The new task of the entry: if the task to be linked is scheduled on another CPU, it is linked to
  that CPU instead, and the entry gets the task that was linked there.
\<close>

definition relink ::
  "tid \<Rightarrow> cpu_id \<Rightarrow> 'z gstate_scheme \<Rightarrow> (tid option \<times> 'z gstate_scheme) option"
where
  "relink t e s =
     (case scheduled_on (rt_param (tasks s t)) of
        None \<Rightarrow> Some (Some t, s)
      | Some on_cpu \<Rightarrow> do {
          BUG_ON (linked s on_cpu = Some t);
          if e \<noteq> on_cpu then do {
            let tmp = linked s on_cpu;
            s \<leftarrow> update_cpu_position on_cpu
                   (set_linked on_cpu (Some t) (upd_task t (set_linked_on (Some on_cpu)) s));
            Some (tmp, s)
          } else Some (Some t, s)
        })"

definition link_task_to_cpu ::
  "tid option \<Rightarrow> cpu_id \<Rightarrow> 'z gstate_scheme \<Rightarrow> 'z gstate_scheme option"
where
  "link_task_to_cpu t e s = do {
     BUG_ON (case t of Some t \<Rightarrow> \<not> is_realtime (tasks s t) | None \<Rightarrow> False);
     let s = (case linked s e of Some l \<Rightarrow> upd_task l (set_linked_on None) s | None \<Rightarrow> s);
     (t', s) \<leftarrow> (case t of
                  None \<Rightarrow> Some (None, s)
                | Some t \<Rightarrow> do {
                    (t', s) \<leftarrow> relink t e (upd_task t (set_rt_flags RT_F_RUNNING) s);
                    Some (t', case t' of Some l \<Rightarrow> upd_task l (set_linked_on (Some e)) s | None \<Rightarrow> s)
                  });
     update_cpu_position e (set_linked e t' s)
   }"

definition unlink :: "tid option \<Rightarrow> 'z gstate_scheme \<Rightarrow> 'z gstate_scheme option" where
  "unlink t s =
     (case t of
        None \<Rightarrow> Some s
      | Some t \<Rightarrow>
          (case linked_on (rt_param (tasks s t)) of
             Some c \<Rightarrow> link_task_to_cpu None c (upd_task t (set_linked_on None) s)
           | None \<Rightarrow> do {
               q \<leftarrow> is_queued t s;
               if q then remove_rt edf_ready_order (task_cpu_cluster t s) t s else Some s
             }))"

definition gsn_preempt :: "cpu_id \<Rightarrow> 'z gstate_scheme \<Rightarrow> 'z gstate_scheme" where
  "gsn_preempt c s = preempt_if_preemptable (scheduled s c) c s"

definition gsn_requeue :: "tid \<Rightarrow> lt_t \<Rightarrow> 'z gstate_scheme \<Rightarrow> 'z gstate_scheme option" where
  "gsn_requeue t now s = do {
     q \<leftarrow> is_queued t s;
     BUG_ON q;
     if is_released (tasks s t) now
     then add_ready edf_ready_order dummy_resched (task_cpu_cluster t s) t s
     else add_release edf_ready_order (task_cpu_cluster t s) t s
   }"

text \<open>
  One round of the loop of \<^verbatim>\<open>check_for_preemptions\<close> after its test, and the loop. It need not end
  if the heaps are not in order.
\<close>

definition preempt_lowest ::
  "nat \<Rightarrow> lt_t \<Rightarrow> cpu_id \<Rightarrow> 'z gstate_scheme \<Rightarrow> 'z gstate_scheme option"
where
  "preempt_lowest d now c s = do {
     let (task, s) = take_ready edf_ready_order d s;
     s \<leftarrow> (case linked s c of Some l \<Rightarrow> gsn_requeue l now s | None \<Rightarrow> Some s);
     s \<leftarrow> link_task_to_cpu task c s;
     Some (gsn_preempt c s)
   }"

definition preemption_test ::
  "nat \<Rightarrow> 'z gstate_scheme \<Rightarrow> (cpu_id \<times> bool \<times> 'z gstate_scheme) option"
where
  "preemption_test d s = do {
     (c, s) \<leftarrow> lowest_prio_cpu d s;
     let (needed, s) = edf_preemption_needed d (linked s c) s;
     Some (c, needed, s)
   }"

partial_function (option) check_for_preemptions ::
  "nat \<Rightarrow> (nat \<Rightarrow> lt_t) \<Rightarrow> 'z gstate_scheme \<Rightarrow> 'z gstate_scheme option"
where
  "check_for_preemptions d clk s = do {
     (c, needed, s) \<leftarrow> preemption_test d s;
     if needed then do {
       s \<leftarrow> preempt_lowest d (clk 0) c s;
       check_for_preemptions d (\<lambda>i. clk (Suc i)) s
     } else Some s
   }"

declare check_for_preemptions.simps [code]

definition gsn_job_arrival :: "tid \<Rightarrow> (nat \<Rightarrow> lt_t) \<Rightarrow> 'z gstate_scheme \<Rightarrow> 'z gstate_scheme option" where
  "gsn_job_arrival t clk s = do {
     let d = task_cpu_cluster t s;
     s \<leftarrow> gsn_requeue t (clk 0) s;
     check_for_preemptions d (\<lambda>i. clk (Suc i)) s
   }"

definition gsn_release_jobs ::
  "(nat \<Rightarrow> lt_t) \<Rightarrow> nat \<Rightarrow> tid \<Rightarrow> 'z gstate_scheme \<Rightarrow> 'z gstate_scheme option"
where
  "gsn_release_jobs clk d r s =
     check_for_preemptions d clk (merge_ready edf_ready_order dummy_resched d r s)"

definition gsn_job_completion :: "tid \<Rightarrow> (nat \<Rightarrow> lt_t) \<Rightarrow> 'z gstate_scheme \<Rightarrow> 'z gstate_scheme option" where
  "gsn_job_completion t clk s = do {
     s \<leftarrow> unlink (Some t) (upd_task t (\<lambda>p. prepare_for_next_period (set_rt_flags RT_F_SLEEP p)) s);
     if is_running (tasks s t) then gsn_job_arrival t clk s else Some s
   }"

section \<open>Handlers\<close>

definition linked_tick :: "tid \<Rightarrow> 'z gstate_scheme \<Rightarrow> 'z gstate_scheme" where
  "linked_tick t s =
     (if is_realtime (tasks s t) \<and> budget_enforced (tasks s t) \<and> budget_exhausted (tasks s t)
      then if \<not> is_np (tasks s t)
           then (let s = set_tsk_need_resched t s
                 in s\<lparr>will_schedule := (will_schedule s)(this_cpu s := True)\<rparr>)
           else if is_user_np (tasks s t) then upd_task t request_exit_np s else s
      else s)"

text \<open>
  The two halves of the scheduler: updating the links, and the decision, which makes the linked task
  the next one unless a non-preemptive task is running.
\<close>

definition schedule_links ::
  "bool \<Rightarrow> bool \<Rightarrow> bool \<Rightarrow> bool \<Rightarrow> bool \<Rightarrow> (nat \<Rightarrow> lt_t) \<Rightarrow> 'z gstate_scheme \<Rightarrow> 'z gstate_scheme option"
where
  "schedule_links blocks out_of_time np sleep preempt clk s = do {
     let c = this_cpu s;
     s \<leftarrow> (if blocks then unlink (scheduled s c) s else Some s);
     s \<leftarrow> (if np \<and> (out_of_time \<or> preempt \<or> sleep) then do {
             s \<leftarrow> unlink (scheduled s c) s;
             Some (case scheduled s c of Some t \<Rightarrow> upd_task t request_exit_np s | None \<Rightarrow> s)
           } else Some s);
     s \<leftarrow> (if \<not> np \<and> (out_of_time \<or> sleep) \<and> \<not> blocks \<and> \<not> preempt
           then (case scheduled s c of Some t \<Rightarrow> gsn_job_completion t clk s | None \<Rightarrow> None)
           else Some s);
     if linked s c = None
     then (case take_ready edf_ready_order (cluster s c) s of (t, s) \<Rightarrow> link_task_to_cpu t c s)
     else Some s
   }"

definition schedule_decide ::
  "bool \<Rightarrow> bool \<Rightarrow> tid \<Rightarrow> 'z gstate_scheme \<Rightarrow> tid option \<times> 'z gstate_scheme"
where
  "schedule_decide blocks np prev s =
     (let c = this_cpu s
      in if (\<not> np \<or> blocks) \<and> linked s c \<noteq> scheduled s c then
           (let s1 = (case linked s c of Some l \<Rightarrow> upd_task l (set_scheduled_on (Some c)) s | None \<Rightarrow> s)
            in (linked s c,
                case scheduled s c of Some t \<Rightarrow> upd_task t (set_scheduled_on None) s1 | None \<Rightarrow> s1))
         else (if scheduled s c \<noteq> None then Some prev else None, s))"

definition linked_schedule ::
  "tid \<Rightarrow> (nat \<Rightarrow> lt_t) \<Rightarrow> 'z gstate_scheme \<Rightarrow> (tid option \<times> 'z gstate_scheme) option"
where
  "linked_schedule prev clk s = do {
     let c = this_cpu s;
     let s = s\<lparr>will_schedule := (will_schedule s)(c := False)\<rparr>;
     BUG_ON (scheduled s c \<noteq> None \<and> scheduled s c \<noteq> Some prev);
     BUG_ON (scheduled s c \<noteq> None \<and> \<not> is_realtime (tasks s prev));
     BUG_ON (is_realtime (tasks s prev) \<and> scheduled s c = None);
     let blocks = on_sched c (\<lambda>t. \<not> is_running t) s;
     let out_of_time = on_sched c (\<lambda>t. budget_enforced t \<and> budget_exhausted t) s;
     let np = on_sched c is_np s;
     let sleep = on_sched c (\<lambda>t. get_rt_flags t = RT_F_SLEEP) s;
     let preempt = (scheduled s c \<noteq> linked s c);
     s \<leftarrow> schedule_links blocks out_of_time np sleep preempt clk s;
     Some (schedule_decide blocks np prev s)
   }"

definition linked_finish_switch :: "'z gstate_scheme \<Rightarrow> 'z gstate_scheme" where
  "linked_finish_switch s =
     (let t = curr s (this_cpu s)
      in s\<lparr>scheduled := (scheduled s)(this_cpu s := if is_realtime (tasks s t) then Some t else None)\<rparr>)"

definition linked_wake_task :: "lt_t \<Rightarrow> task_struct \<Rightarrow> task_struct" where
  "linked_wake_task now t =
     (if get_rt_flags t = RT_F_EXIT_SEM then set_rt_flags RT_F_RUNNING t
      else if is_tardy t now then release_at now t
      else if time_slice t \<noteq> 0 then set_rt_flags RT_F_RUNNING t
      else t)"

definition linked_task_wake_up :: "tid \<Rightarrow> (nat \<Rightarrow> lt_t) \<Rightarrow> 'z gstate_scheme \<Rightarrow> 'z gstate_scheme option" where
  "linked_task_wake_up t clk s =
     gsn_job_arrival t (\<lambda>i. clk (Suc i)) (upd_task t (linked_wake_task (clk 0)) s)"

definition linked_task_block :: "tid \<Rightarrow> 'z gstate_scheme \<Rightarrow> 'z gstate_scheme option" where
  "linked_task_block t s = do {
     s \<leftarrow> unlink (Some t) s;
     BUG_ON (\<not> is_realtime (tasks s t));
     Some s
   }"

end
