(* ===== verification/Linked_Inv.thy ===== *)
theory Linked_Inv
  imports Linked_Edf
begin

text \<open>
  The invariant of the linking code of GSN-EDF and C-EDF and the effect of its operations: the heap of
  CPUs is ordered by the linked tasks, a task is linked to at most one CPU, in no queue, and to the CPU
  where it is scheduled, if any; and \<^verbatim>\<open>check_for_preemptions\<close> ends with the tasks of highest priority
  linked.
\<close>

section \<open>The order of the CPUs\<close>

definition cpu_order :: "(tid \<Rightarrow> task_struct) \<Rightarrow> (cpu_id \<Rightarrow> tid option) \<Rightarrow> cpu_id \<Rightarrow> cpu_id \<Rightarrow> bool" where
  "cpu_order ts lk a b = edf_higher_prio ts (lk b) (lk a)"

lemma cpu_lower_prio_eq: "cpu_lower_prio s = cpu_order (tasks s) (linked s)"
  by (intro ext) (simp add: cpu_lower_prio_def cpu_order_def)

lemma weak_order_on_key_rev:
  assumes "\<And>a b. a \<in> S \<Longrightarrow> b \<in> S \<Longrightarrow> hp a b \<longleftrightarrow> key b < (key a :: 'k :: linorder)"
  shows "weak_order_on S hp"
proof -
  have "\<not> hp b a" if "a \<in> S" "b \<in> S" "hp a b" for a b
    using that by (simp add: assms)
  moreover have "\<not> hp a c" if "a \<in> S" "b \<in> S" "c \<in> S" "\<not> hp a b" "\<not> hp b c" for a b c
    using that by (simp add: assms)
  ultimately show ?thesis unfolding weak_order_on_def by blast
qed

definition cpu_key :: "(tid \<Rightarrow> task_struct) \<Rightarrow> tid option \<Rightarrow> bool \<times> nat \<times> int \<times> bool" where
  "cpu_key ts l = (case l of None \<Rightarrow> (True, 0, 0, True) | Some t \<Rightarrow> (False, edf_key ts 0 t))"

lemma cpu_order_key:
  assumes "edf_comparable ts 0 S" "\<And>t. lk a = Some t \<Longrightarrow> t \<in> S" "\<And>t. lk b = Some t \<Longrightarrow> t \<in> S"
  shows "cpu_order ts lk a b \<longleftrightarrow> cpu_key ts (lk b) < cpu_key ts (lk a)"
  using assms edf_higher_prio_key [OF assms(1)]
  by (auto simp: cpu_order_def cpu_key_def split: option.splits)

lemma cpu_order_weak:
  assumes "edf_comparable ts 0 S" "\<And>c t. c \<in> C \<Longrightarrow> lk c = Some t \<Longrightarrow> t \<in> S"
  shows "weak_order_on C (cpu_order ts lk)"
  by (rule weak_order_on_key_rev [where key = "\<lambda>c. cpu_key ts (lk c)"])
    (rule cpu_order_key [OF assms(1)]; use assms(2) in blast)

lemma cpu_order_cong:
  assumes "\<And>x y. (x, y) \<in> S \<times> S \<Longrightarrow> edf_higher_prio ts' (Some x) (Some y) = edf_higher_prio ts (Some x) (Some y)"
    "lk' a = lk a" "lk' b = lk b" "\<And>t. lk a = Some t \<Longrightarrow> t \<in> S" "\<And>t. lk b = Some t \<Longrightarrow> t \<in> S"
  shows "cpu_order ts' lk' a b = cpu_order ts lk a b"
  using assms by (cases "lk a"; cases "lk b") (auto simp: cpu_order_def)

section \<open>Invariant\<close>

definition home :: "'z gstate_scheme \<Rightarrow> task_struct \<Rightarrow> nat" where
  "home s t = cluster s (get_partition t)"

text \<open>Every CPU of \<open>C\<close> is once in the heap of its cluster.\<close>

definition cpus_ok :: "cpu_id set \<Rightarrow> (cpu_id \<Rightarrow> cpu_id \<Rightarrow> bool) \<Rightarrow> 'z gstate_scheme \<Rightarrow> bool" where
  "cpus_ok C ord s \<longleftrightarrow>
     (\<forall>d. bheap_inv ord (cpu_heap s d)) \<and>
     (\<forall>d c. count (bheap_elems (cpu_heap s d)) c = (if c \<in> C \<and> cluster s c = d then 1 else 0)) \<and>
     (\<forall>c \<in> C. hn_in_heap s c)"

text \<open>
  The links; those of the CPUs in \<open>E\<close> are about to be changed, and need not fit to what their tasks
  say.
\<close>

definition linkage :: "cpu_id set \<Rightarrow> cpu_id set \<Rightarrow> (tid \<Rightarrow> place) \<Rightarrow> 'z gstate_scheme \<Rightarrow> bool" where
  "linkage C E pl s \<longleftrightarrow>
     (\<forall>c t. linked s c = Some t \<longrightarrow> c \<in> C \<and> edf_ok (tasks s t) \<and> home s (tasks s t) = cluster s c \<and>
        (c \<notin> E \<longrightarrow> pl t = Nowhere \<and> linked_on (rt_param (tasks s t)) = Some c)) \<and>
     (\<forall>c c' t. linked s c = Some t \<longrightarrow> linked s c' = Some t \<longrightarrow> c = c') \<and>
     (\<forall>t c. is_realtime (tasks s t) \<longrightarrow> linked_on (rt_param (tasks s t)) = Some c \<longrightarrow> linked s c = Some t)"

text \<open>A CPU has at most one task scheduled, and a scheduled task is linked to no other CPU.\<close>

definition schedule_ok :: "cpu_id set \<Rightarrow> 'z gstate_scheme \<Rightarrow> bool" where
  "schedule_ok C s \<longleftrightarrow>
     (\<forall>t c. is_realtime (tasks s t) \<longrightarrow> scheduled_on (rt_param (tasks s t)) = Some c \<longrightarrow>
        c \<in> C \<and> edf_ok (tasks s t) \<and> home s (tasks s t) = cluster s c \<and>
        (\<forall>c'. linked s c' = Some t \<longrightarrow> c' = c)) \<and>
     (\<forall>t t' c. is_realtime (tasks s t) \<longrightarrow> scheduled_on (rt_param (tasks s t)) = Some c \<longrightarrow>
        is_realtime (tasks s t') \<longrightarrow> scheduled_on (rt_param (tasks s t')) = Some c \<longrightarrow> t = t')"

definition gsn_inv :: "cpu_id set \<Rightarrow> (tid \<Rightarrow> place) \<Rightarrow> 'z gstate_scheme \<Rightarrow> bool" where
  "gsn_inv C pl s \<longleftrightarrow>
     queue_inv (home s) pl s \<and> cpus_ok C (cpu_lower_prio s) s \<and> linkage C {} pl s \<and> schedule_ok C s"

lemma gsn_invD:
  assumes "gsn_inv C pl s"
  shows "queue_inv (home s) pl s" "cpus_ok C (cpu_lower_prio s) s" "linkage C {} pl s" "schedule_ok C s"
    "placed (home s) pl s"
  using assms by (simp_all add: gsn_inv_def queue_inv_def)

lemma linkageD:
  assumes "linkage C E pl s"
  shows "linked s c = Some t \<Longrightarrow> c \<in> C" "linked s c = Some t \<Longrightarrow> edf_ok (tasks s t)"
    "linked s c = Some t \<Longrightarrow> home s (tasks s t) = cluster s c"
    "linked s c = Some t \<Longrightarrow> c \<notin> E \<Longrightarrow> pl t = Nowhere"
    "linked s c = Some t \<Longrightarrow> c \<notin> E \<Longrightarrow> linked_on (rt_param (tasks s t)) = Some c"
    "linked s c = Some t \<Longrightarrow> linked s c' = Some t \<Longrightarrow> c = c'"
    "is_realtime (tasks s t) \<Longrightarrow> linked_on (rt_param (tasks s t)) = Some c \<Longrightarrow> linked s c = Some t"
  using assms unfolding linkage_def by blast+

lemma linkageI:
  assumes "\<And>c t. linked s c = Some t \<Longrightarrow> c \<in> C \<and> edf_ok (tasks s t) \<and> home s (tasks s t) = cluster s c"
    "\<And>c t. linked s c = Some t \<Longrightarrow> c \<notin> E \<Longrightarrow> pl t = Nowhere \<and> linked_on (rt_param (tasks s t)) = Some c"
    "\<And>c c' t. linked s c = Some t \<Longrightarrow> linked s c' = Some t \<Longrightarrow> c = c'"
    "\<And>t c. is_realtime (tasks s t) \<Longrightarrow> linked_on (rt_param (tasks s t)) = Some c \<Longrightarrow> linked s c = Some t"
  shows "linkage C E pl s"
  using assms unfolding linkage_def by blast

lemma schedule_okI:
  assumes "\<And>t c. is_realtime (tasks s t) \<Longrightarrow> scheduled_on (rt_param (tasks s t)) = Some c \<Longrightarrow>
      c \<in> C \<and> edf_ok (tasks s t) \<and> home s (tasks s t) = cluster s c"
    "\<And>t c c'. is_realtime (tasks s t) \<Longrightarrow> scheduled_on (rt_param (tasks s t)) = Some c \<Longrightarrow>
      linked s c' = Some t \<Longrightarrow> c' = c"
    "\<And>t t' c. is_realtime (tasks s t) \<Longrightarrow> scheduled_on (rt_param (tasks s t)) = Some c \<Longrightarrow>
      is_realtime (tasks s t') \<Longrightarrow> scheduled_on (rt_param (tasks s t')) = Some c \<Longrightarrow> t' = t"
  shows "schedule_ok C s"
  using assms unfolding schedule_ok_def by blast

lemma schedule_okD:
  assumes "schedule_ok C s" "is_realtime (tasks s t)" "scheduled_on (rt_param (tasks s t)) = Some c"
  shows "c \<in> C" "edf_ok (tasks s t)" "home s (tasks s t) = cluster s c" "linked s c' = Some t \<Longrightarrow> c' = c"
    "is_realtime (tasks s t') \<Longrightarrow> scheduled_on (rt_param (tasks s t')) = Some c \<Longrightarrow> t' = t"
  using assms unfolding schedule_ok_def by blast+

text \<open>Fields of the state that the queues do not depend on.\<close>

lemma queue_inv_entry [simp]:
  "queue_inv hm pl (s\<lparr>linked := l\<rparr>) = queue_inv hm pl s"
  "queue_inv hm pl (s\<lparr>cpu_heap := h\<rparr>) = queue_inv hm pl s"
  "queue_inv hm pl (s\<lparr>hn_in_heap := g\<rparr>) = queue_inv hm pl s"
  "queue_inv hm pl (s\<lparr>will_schedule := w\<rparr>) = queue_inv hm pl s"
  "queue_inv hm pl (s\<lparr>scheduled := k\<rparr>) = queue_inv hm pl s"
  "queue_inv hm pl (s\<lparr>curr := f\<rparr>) = queue_inv hm pl s"
  "queue_inv hm pl (s\<lparr>this_cpu := c\<rparr>) = queue_inv hm pl s"
  by (simp_all add: queue_inv_def heaps_ok_def placed_def release_ok_def slot_of_def
      edf_ready_order_def [abs_def])

lemma edf_linked_weak:
  assumes "placed hm pl s" "\<And>c t. linked s c = Some t \<Longrightarrow> edf_ok (tasks s t)"
  shows "weak_order_on C (cpu_lower_prio s)"
  unfolding cpu_lower_prio_eq by (rule cpu_order_weak [OF placed_comparable [OF assms(1)]]) (use assms(2) in blast)

section \<open>What the linking code leaves alone\<close>

text \<open>The task without its position in the queues, its link and the flag that says why it stopped.\<close>

definition lview :: "task_struct \<Rightarrow> task_struct" where
  "lview t = (jview t)\<lparr>rt_param := (rt_param (jview t))\<lparr>flags := RT_F_RUNNING, linked_on := None\<rparr>\<rparr>"

definition same_links :: "'z kstate_scheme \<Rightarrow> 'y kstate_scheme \<Rightarrow> bool" where
  "same_links s s' \<longleftrightarrow> (\<forall>t. lview (tasks s' t) = lview (tasks s t))"

lemma lview_fields:
  "pid t = pid (lview t)" "policy t = policy (lview t)" "state t = state (lview t)"
  "preempt_active t = preempt_active (lview t)" "task_cpu t = task_cpu (lview t)"
  "task_params (rt_param t) = task_params (rt_param (lview t))"
  "job_params (rt_param t) = job_params (rt_param (lview t))"
  "inh_task (rt_param t) = inh_task (rt_param (lview t))"
  "heap_node (rt_param t) = heap_node (rt_param (lview t))"
  "scheduled_on (rt_param t) = scheduled_on (rt_param (lview t))"
  by (simp_all add: lview_def jview_def tview_def)

lemma lviewD:
  assumes "lview t = lview t'"
  shows "pid t = pid t'" "policy t = policy t'" "state t = state t'" "preempt_active t = preempt_active t'"
    "task_cpu t = task_cpu t'" "task_params (rt_param t) = task_params (rt_param t')"
    "job_params (rt_param t) = job_params (rt_param t')" "inh_task (rt_param t) = inh_task (rt_param t')"
    "heap_node (rt_param t) = heap_node (rt_param t')" "scheduled_on (rt_param t) = scheduled_on (rt_param t')"
  by (simp_all only: lview_fields [of t] lview_fields [of t'] assms)

lemma lview_view:
  assumes "lview t = lview t'"
  shows "get_partition t = get_partition t'" "edf_ok t = edf_ok t'"
    "get_deadline t = get_deadline t'" "get_release t = get_release t'" "is_realtime t = is_realtime t'"
    "is_running t = is_running t'" "home s t = home s t'" "is_released t now = is_released t' now"
  using lviewD [OF assms] by (simp_all add: rt_simps edf_ok_def is_running_def home_def is_released_def)

lemma lview_simps [simp]:
  "lview (set_linked_on c t) = lview t" "lview (set_rt_flags f t) = lview t"
  "lview (set_in_heap b t) = lview t" "lview (upd_rt (\<lambda>p. p\<lparr>domain := v\<rparr>) t) = lview t"
  "lview (request_exit_np t) = lview t" "lview (t\<lparr>need_resched := b\<rparr>) = lview t"
  by (simp_all add: lview_def jview_def tview_def set_linked_on_def rt_simps request_exit_np_def
      option.map_comp comp_def split: option.splits)

lemma link_simps [simp]:
  "linked_on (rt_param (set_linked_on c t)) = c" "scheduled_on (rt_param (set_linked_on c t)) = scheduled_on (rt_param t)"
  "qview (set_linked_on c t) = qview t" "get_partition (set_linked_on c t) = get_partition t"
  "linked_on (rt_param (set_rt_flags f t)) = linked_on (rt_param t)"
  "scheduled_on (rt_param (set_rt_flags f t)) = scheduled_on (rt_param t)"
  "qview (set_rt_flags f t) = qview t" "get_partition (set_rt_flags f t) = get_partition t"
  "linked_on (rt_param (set_in_heap b t)) = linked_on (rt_param t)"
  "scheduled_on (rt_param (set_in_heap b t)) = scheduled_on (rt_param t)"
  "scheduled_on (rt_param (set_scheduled_on c t)) = c" "linked_on (rt_param (set_scheduled_on c t)) = linked_on (rt_param t)"
  "qview (set_scheduled_on c t) = qview t" "get_partition (set_scheduled_on c t) = get_partition t"
  by (simp_all add: set_linked_on_def set_scheduled_on_def rt_simps qview_def)

lemma same_links_refl [simp]: "same_links s s"
  by (simp add: same_links_def)

lemma same_links_trans: "same_links s s' \<Longrightarrow> same_links s' s'' \<Longrightarrow> same_links s s''"
  by (simp add: same_links_def)

lemma same_linksD: "same_links s s' \<Longrightarrow> lview (tasks s' t) = lview (tasks s t)"
  by (simp add: same_links_def)

lemma same_tasks_links: "same_tasks s s' \<Longrightarrow> same_links s s'"
  by (simp add: same_tasks_def same_links_def lview_def jview_def)

lemma same_jobs_links: "same_jobs s s' \<Longrightarrow> same_links s s'"
  by (simp add: same_jobs_def same_links_def lview_def)

lemma same_links_prio:
  assumes "same_links s s'"
  shows "edf_higher_prio (tasks s') x y = edf_higher_prio (tasks s) x y"
proof -
  note v = same_linksD [OF assms]
  have "eff (tasks s') t = eff (tasks s) t" for t using lviewD(8) [OF v] by (simp add: eff_def)
  then have "edf_higher_prio (tasks s') (Some a) (Some b) = edf_higher_prio (tasks s) (Some a) (Some b)" for a b
    unfolding edf_higher_prio_Some earlier_deadline_def by (simp add: lview_view [OF v] lviewD [OF v])
  then show ?thesis by (cases x; cases y) simp_all
qed

lemma same_links_order:
  assumes "same_links s s'"
  shows "edf_ready_order s' = edf_ready_order s"
  by (intro ext) (simp add: edf_ready_order_def same_links_prio [OF assms])

lemma same_links_cpu_order: "same_links s s' \<Longrightarrow> cpu_order (tasks s') lk = cpu_order (tasks s) lk"
  by (intro ext) (simp add: cpu_order_def same_links_prio)

section \<open>The position of a CPU\<close>

lemma cpu_lower_prio_upd [simp]:
  "cpu_lower_prio (s\<lparr>cpu_heap := h\<rparr>) = cpu_lower_prio s" "cpu_lower_prio (s\<lparr>hn_in_heap := g\<rparr>) = cpu_lower_prio s"
  "cpu_lower_prio (s\<lparr>will_schedule := w\<rparr>) = cpu_lower_prio s" "cpu_lower_prio (s\<lparr>scheduled := k\<rparr>) = cpu_lower_prio s"
  "cpu_lower_prio (s\<lparr>curr := f\<rparr>) = cpu_lower_prio s" "cpu_lower_prio (s\<lparr>this_cpu := c\<rparr>) = cpu_lower_prio s"
  by (simp_all add: cpu_lower_prio_eq)

text \<open>
  Moving a CPU to its place: the heap may be out of order at this CPU only, because its linked task, or
  the deadline of that task, has changed since the heap was in the order \<open>ord\<close>.
\<close>

lemma update_cpu_position_ok:
  assumes ok: "cpus_ok C ord s" and w: "weak_order_on C ord" and w': "weak_order_on C (cpu_lower_prio s)"
    and c: "c \<in> C"
    and same: "\<And>a b. a \<in> C \<Longrightarrow> b \<in> C \<Longrightarrow> a \<noteq> c \<Longrightarrow> b \<noteq> c \<Longrightarrow> cpu_lower_prio s a b = ord a b"
  shows "ok (update_cpu_position c s) (\<lambda>s'. (\<exists>h g. s' = s\<lparr>cpu_heap := h, hn_in_heap := g\<rparr>) \<and>
    cpus_ok C (cpu_lower_prio s) s')"
proof -
  let ?d = "cluster s c" and ?o = "cpu_lower_prio s"
  let ?q = "cpu_heap s ?d"
  have cnt: "count (bheap_elems (cpu_heap s d)) x = (if x \<in> C \<and> cluster s x = d then 1 else 0)" for d x
    using ok by (simp add: cpus_ok_def)
  have el: "x \<in># bheap_elems (cpu_heap s d) \<longleftrightarrow> x \<in> C \<and> cluster s x = d" for d x
    using cnt [of d x] by (metis count_eq_zero_iff zero_neq_one)
  have sub: "set_mset (bheap_elems (cpu_heap s d)) \<subseteq> C" for d using el by auto
  have inv: "bheap_inv ord (cpu_heap s d)" for d using ok by (simp add: cpus_ok_def)
  obtain q where q: "bheap_delete ?o ?q c = Some q" "bheap_elems q = bheap_elems ?q - {#c#}" "bheap_inv ?o q"
    using bq.del_stale [OF inv weak_order_mono [OF w sub], of ?d c ?o] c cnt [of ?d c] same el by auto
  have ins: "bheap_elems (bheap_insert ?o q c) = bheap_elems ?q"
    using q(2) el [of c ?d] c by (simp add: bq.ins_elems)
  have "insert c (set_mset (bheap_elems q)) \<subseteq> C" using q(2) c sub [of ?d] by (auto dest: in_diffD)
  then have inv': "bheap_inv ?o (bheap_insert ?o q c)" by (intro bq.ins_inv [OF q(3)] weak_order_mono [OF w'])
  have other: "bheap_inv ?o (cpu_heap s d)" if "d \<noteq> ?d" for d
  proof -
    have "bheap_inv ?o (cpu_heap s d) = bheap_inv ord (cpu_heap s d)"
      by (rule bq.inv_cong, rule same) (use el that in auto)
    then show ?thesis using inv by simp
  qed
  have "hn_in_heap s c" using ok c by (simp add: cpus_ok_def)
  then have upd: "update_cpu_position c s = Some (s\<lparr>cpu_heap := (cpu_heap s)(?d := bheap_insert ?o q c),
      hn_in_heap := (hn_in_heap s)(c := True)\<rparr>)" (is "_ = Some ?s")
    using q(1) by (simp add: update_cpu_position_def)
  have "cpus_ok C ?o ?s"
    using inv' other ins cnt ok by (auto simp: cpus_ok_def)
  moreover have "\<exists>h g. ?s = s\<lparr>cpu_heap := h, hn_in_heap := g\<rparr>" by blast
  ultimately show ?thesis by (simp add: upd)
qed

lemma linkage_entry [simp]:
  "linkage C E pl (s\<lparr>cpu_heap := h\<rparr>) = linkage C E pl s" "linkage C E pl (s\<lparr>hn_in_heap := g\<rparr>) = linkage C E pl s"
  "linkage C E pl (s\<lparr>will_schedule := w\<rparr>) = linkage C E pl s" "linkage C E pl (s\<lparr>scheduled := k\<rparr>) = linkage C E pl s"
  "linkage C E pl (s\<lparr>curr := f\<rparr>) = linkage C E pl s" "linkage C E pl (s\<lparr>this_cpu := c\<rparr>) = linkage C E pl s"
  by (simp_all add: linkage_def home_def)

lemma schedule_ok_entry [simp]:
  "schedule_ok C (s\<lparr>cpu_heap := h\<rparr>) = schedule_ok C s" "schedule_ok C (s\<lparr>hn_in_heap := g\<rparr>) = schedule_ok C s"
  "schedule_ok C (s\<lparr>will_schedule := w\<rparr>) = schedule_ok C s" "schedule_ok C (s\<lparr>scheduled := k\<rparr>) = schedule_ok C s"
  "schedule_ok C (s\<lparr>curr := f\<rparr>) = schedule_ok C s" "schedule_ok C (s\<lparr>this_cpu := c\<rparr>) = schedule_ok C s"
  by (simp_all add: schedule_ok_def home_def)

lemma cpus_ok_entry [simp]:
  "cpus_ok C ord (s\<lparr>linked := l\<rparr>) = cpus_ok C ord s"
  "cpus_ok C ord (s\<lparr>will_schedule := w\<rparr>) = cpus_ok C ord s" "cpus_ok C ord (s\<lparr>scheduled := k\<rparr>) = cpus_ok C ord s"
  "cpus_ok C ord (s\<lparr>curr := f\<rparr>) = cpus_ok C ord s" "cpus_ok C ord (s\<lparr>this_cpu := c\<rparr>) = cpus_ok C ord s"
  by (simp_all add: cpus_ok_def)

lemma home_entry [simp]:
  "home (s\<lparr>cpu_heap := h\<rparr>) = home s" "home (s\<lparr>hn_in_heap := g\<rparr>) = home s" "home (s\<lparr>linked := l\<rparr>) = home s"
  "home (s\<lparr>will_schedule := w\<rparr>) = home s" "home (s\<lparr>scheduled := k\<rparr>) = home s"
  "home (s\<lparr>curr := f\<rparr>) = home s" "home (s\<lparr>this_cpu := c\<rparr>) = home s"
  by (intro ext; simp add: home_def)+

lemma gsn_inv_entry [simp]:
  "gsn_inv C pl (s\<lparr>will_schedule := w\<rparr>) = gsn_inv C pl s" "gsn_inv C pl (s\<lparr>scheduled := k\<rparr>) = gsn_inv C pl s"
  "gsn_inv C pl (s\<lparr>curr := f\<rparr>) = gsn_inv C pl s" "gsn_inv C pl (s\<lparr>this_cpu := c\<rparr>) = gsn_inv C pl s"
  by (simp_all add: gsn_inv_def)

lemma update_cpu_position_inv:
  assumes "queue_inv (home s) pl s" "linkage C {} pl s" "schedule_ok C s"
    and "cpus_ok C ord s" "weak_order_on C ord" "c \<in> C"
    and "\<And>a b. a \<in> C \<Longrightarrow> b \<in> C \<Longrightarrow> a \<noteq> c \<Longrightarrow> b \<noteq> c \<Longrightarrow> cpu_lower_prio s a b = ord a b"
  shows "ok (update_cpu_position c s) (\<lambda>s'. (\<exists>h g. s' = s\<lparr>cpu_heap := h, hn_in_heap := g\<rparr>) \<and> gsn_inv C pl s')"
proof -
  have "weak_order_on C (cpu_lower_prio s)"
    by (rule edf_linked_weak) (use assms(1) linkageD(2) [OF assms(2)] in \<open>auto simp: queue_inv_def\<close>)
  then show ?thesis
    by (rule ok_mono [OF update_cpu_position_ok [OF assms(4,5) _ assms(6,7)]])
      (use assms(1-3) in \<open>auto simp: gsn_inv_def\<close>)
qed

section \<open>Linking a task\<close>

text \<open>What the state keeps when links change.\<close>

definition link_frame :: "'z gstate_scheme \<Rightarrow> 'z gstate_scheme \<Rightarrow> bool" where
  "link_frame s s' \<longleftrightarrow>
     doms s' = doms s \<and> rel_heaps s' = rel_heaps s \<and> tick_period s' = tick_period s \<and> curr s' = curr s \<and>
     this_cpu s' = this_cpu s \<and> scheduled s' = scheduled s \<and> cluster s' = cluster s \<and>
     will_schedule s' = will_schedule s \<and> gstate.more s' = gstate.more s \<and>
     (\<forall>t. lview (tasks s' t) = lview (tasks s t) \<and> qview (tasks s' t) = qview (tasks s t))"

lemma link_frameD:
  assumes "link_frame s s'"
  shows "same_links s s'" "home s' = home s" "scheduled s' = scheduled s" "curr s' = curr s"
    "this_cpu s' = this_cpu s" "cluster s' = cluster s" "qview (tasks s' t) = qview (tasks s t)"
    "gstate.more s' = gstate.more s"
  using assms by (auto simp: link_frame_def same_links_def home_def)

lemma link_frame_refl [simp]: "link_frame s s"
  by (simp add: link_frame_def)

lemma link_frame_trans: "link_frame s s' \<Longrightarrow> link_frame s' s'' \<Longrightarrow> link_frame s s''"
  by (simp add: link_frame_def)

lemma linked_simps [simp]:
  "linked (upd_task t f s) = linked s" "cluster (upd_task t f s) = cluster s" "cpu_heap (upd_task t f s) = cpu_heap s"
  "hn_in_heap (upd_task t f s) = hn_in_heap s" "will_schedule (upd_task t f s) = will_schedule s"
  "gstate.more (upd_task t f s) = gstate.more s"
  "linked (set_linked c l s) = (linked s)(c := l)" "tasks (set_linked c l s) = tasks s"
  "cluster (set_linked c l s) = cluster s" "queue_inv hm pl (set_linked c l s) = queue_inv hm pl s"
  "home (set_linked c l s) = home s" "home (upd_task t f s) = home s"
  by (simp_all add: upd_task_def set_linked_def home_def [abs_def])

lemma link_frame_simps [simp]:
  "link_frame s (set_linked c l s') = link_frame s s'"
  "link_frame s (s'\<lparr>cpu_heap := h\<rparr>) = link_frame s s'" "link_frame s (s'\<lparr>hn_in_heap := g\<rparr>) = link_frame s s'"
  by (simp_all add: link_frame_def set_linked_def)

lemma link_frame_upd:
  assumes "link_frame s s'" "\<And>p. lview (f p) = lview p \<and> qview (f p) = qview p"
  shows "link_frame s (upd_task t f s')"
  using assms by (simp add: link_frame_def)

lemma queue_inv_link_frame:
  assumes "queue_inv (home s) pl s" "link_frame s s'"
  shows "queue_inv (home s') pl s'"
proof -
  have f: "doms s' = doms s" "rel_heaps s' = rel_heaps s" "tick_period s' = tick_period s"
    "\<And>t. lview (tasks s' t) = lview (tasks s t)" "\<And>t. qview (tasks s' t) = qview (tasks s t)"
    using assms(2) by (simp_all add: link_frame_def)
  show ?thesis
    unfolding link_frameD(2) [OF assms(2)]
    by (rule queue_inv_frame [OF assms(1) f(1-3)])
      (simp_all add: f(5) lview_view [OF f(4)] qviewD [OF f(5)])
qed

lemma cpus_ok_frame: "link_frame s s' \<Longrightarrow> cpu_heap s' = cpu_heap s \<Longrightarrow> hn_in_heap s' = hn_in_heap s \<Longrightarrow>
  cpus_ok C ord s' = cpus_ok C ord s"
  by (simp add: cpus_ok_def link_frame_def)

lemma link_None_ok:
  assumes q: "queue_inv (home s) pl s" and l: "linkage C {e} pl s" and sc: "schedule_ok C s" and e: "e \<in> C"
    and cpus: "cpus_ok C ord s" "weak_order_on C ord"
    and same: "\<And>a b. a \<in> C \<Longrightarrow> b \<in> C \<Longrightarrow> a \<noteq> e \<Longrightarrow> b \<noteq> e \<Longrightarrow> cpu_lower_prio s a b = ord a b"
  shows "ok (link_task_to_cpu None e s) (\<lambda>s'. gsn_inv C pl s' \<and> linked s' = (linked s)(e := None) \<and> link_frame s s')"
proof -
  define s1 where "s1 = (case linked s e of Some l \<Rightarrow> upd_task l (set_linked_on None) s | None \<Rightarrow> s)"
  define s2 where "s2 = set_linked e None s1"
  have f: "link_frame s s1" "linked s1 = linked s" "cpu_heap s1 = cpu_heap s" "hn_in_heap s1 = hn_in_heap s"
    by (auto simp: s1_def intro: link_frame_upd split: option.splits)
  then have f2: "link_frame s s2" by (simp add: s2_def)
  have lk: "linked s2 = (linked s)(e := None)" by (simp add: s2_def f)
  have on: "linked_on (rt_param (tasks s2 x)) = (if linked s e = Some x then None else linked_on (rt_param (tasks s x)))" for x
    by (auto simp: s2_def s1_def split: option.splits)
  note v = same_linksD [OF link_frameD(1) [OF f2]]
  have "linkage C {} pl s2"
  proof (rule linkageI, unfold lk on lview_view [OF v] link_frameD(2,6) [OF f2])
    fix c x assume x: "((linked s)(e := None)) c = Some x"
    show "c \<in> C \<and> edf_ok (tasks s x) \<and> home s (tasks s x) = cluster s c"
      using x linkageD(1-3) [OF l, of c x] by (simp split: if_splits)
    show "pl x = Nowhere \<and> (if linked s e = Some x then None else linked_on (rt_param (tasks s x))) = Some c"
      using x linkageD(4,5) [OF l, of c x] linkageD(6) [OF l, of c x e] by (auto split: if_splits)
  next
    fix c c' x assume "((linked s)(e := None)) c = Some x" "((linked s)(e := None)) c' = Some x"
    then show "c = c'" using linkageD(6) [OF l, of c x c'] by (auto split: if_splits)
  next
    fix x c
    assume x: "is_realtime (tasks s x)" "(if linked s e = Some x then None else linked_on (rt_param (tasks s x))) = Some c"
    then show "((linked s)(e := None)) c = Some x" using linkageD(7) [OF l x(1), of c] by (auto split: if_splits)
  qed
  moreover have "schedule_ok C s2"
  proof (rule schedule_okI, unfold lk lview_view [OF v] lviewD(10) [OF v] link_frameD(2,6) [OF f2])
    fix x c assume x: "is_realtime (tasks s x)" "scheduled_on (rt_param (tasks s x)) = Some c"
    note d = schedule_okD [OF sc x]
    show "c \<in> C \<and> edf_ok (tasks s x) \<and> home s (tasks s x) = cluster s c"
      using d(1-3) by blast
    show "c' = c" if "((linked s)(e := None)) c' = Some x" for c' using that d(4) [of c'] by (simp split: if_splits)
    show "t' = x" if "is_realtime (tasks s t')" "scheduled_on (rt_param (tasks s t')) = Some c" for t'
      by (rule d(5) [OF that])
  qed
  moreover have "cpus_ok C ord s2" using cpus(1) f by (simp add: s2_def set_linked_def cpus_ok_frame)
  moreover have "cpu_lower_prio s2 a b = ord a b" if "a \<in> C" "b \<in> C" "a \<noteq> e" "b \<noteq> e" for a b
  proof -
    have "cpu_lower_prio s2 a b = cpu_lower_prio s a b"
      unfolding cpu_lower_prio_def lk same_links_prio [OF link_frameD(1) [OF f2]] using that by simp
    then show ?thesis using same that by simp
  qed
  ultimately have "ok (update_cpu_position e s2) (\<lambda>s'. (\<exists>h g. s' = s2\<lparr>cpu_heap := h, hn_in_heap := g\<rparr>) \<and> gsn_inv C pl s')"
    by (rule update_cpu_position_inv [OF queue_inv_link_frame [OF q f2] _ _ _ cpus(2) e])
  then have "ok (update_cpu_position e s2) (\<lambda>s'. gsn_inv C pl s' \<and> linked s' = (linked s)(e := None) \<and> link_frame s s')"
    by (rule ok_mono) (use lk f2 in auto)
  then show ?thesis by (simp add: link_task_to_cpu_def s1_def [symmetric] s2_def)
qed

text \<open>The links after linking a task: the CPU where it is scheduled comes first.\<close>

definition relinked :: "tid \<Rightarrow> cpu_id \<Rightarrow> 'z gstate_scheme \<Rightarrow> cpu_id \<Rightarrow> tid option" where
  "relinked t e s =
     (case scheduled_on (rt_param (tasks s t)) of
        None \<Rightarrow> (linked s)(e := Some t)
      | Some b \<Rightarrow> if e = b then (linked s)(e := Some t) else (linked s)(b := Some t, e := linked s b))"

lemma link_direct_ok:
  assumes q: "queue_inv (home s) pl s" and l: "linkage C {e} pl s" and sc: "schedule_ok C s" and e: "e \<in> C"
    and cpus: "cpus_ok C (cpu_lower_prio s) s"
    and t: "edf_ok (tasks s t)" "pl t = Nowhere" "home s (tasks s t) = cluster s e" "\<And>c. linked s c \<noteq> Some t"
    and on: "scheduled_on (rt_param (tasks s t)) \<in> {None, Some e}"
  shows "ok (link_task_to_cpu (Some t) e s) (\<lambda>s'. gsn_inv C pl s' \<and> linked s' = (linked s)(e := Some t) \<and> link_frame s s')"
proof -
  define s1 where "s1 = (case linked s e of Some l \<Rightarrow> upd_task l (set_linked_on None) s | None \<Rightarrow> s)"
  define s2 where "s2 = upd_task t (set_linked_on (Some e)) (upd_task t (set_rt_flags RT_F_RUNNING) s1)"
  define s3 where "s3 = set_linked e (Some t) s2"
  have f: "link_frame s s1" "linked s1 = linked s" "cpu_heap s1 = cpu_heap s" "hn_in_heap s1 = hn_in_heap s"
    by (auto simp: s1_def intro: link_frame_upd split: option.splits)
  have f2: "link_frame s s2" unfolding s2_def by (intro link_frame_upd f(1)) simp_all
  then have f3: "link_frame s s3" by (simp add: s3_def)
  have lk: "linked s3 = (linked s)(e := Some t)" by (simp add: s3_def s2_def f)
  have on': "linked_on (rt_param (tasks s3 x)) = (if x = t then Some e else if linked s e = Some x then None
      else linked_on (rt_param (tasks s x)))" for x
    using t(4) by (auto simp: s3_def s2_def s1_def split: option.splits)
  note v = same_linksD [OF link_frameD(1) [OF f3]]
  have "linkage C {} pl s3"
  proof (rule linkageI, unfold lk on' lview_view [OF v] link_frameD(2,6) [OF f3])
    fix c x assume x: "((linked s)(e := Some t)) c = Some x"
    show "c \<in> C \<and> edf_ok (tasks s x) \<and> home s (tasks s x) = cluster s c"
      using x t e linkageD(1-3) [OF l, of c x] by (simp split: if_splits)
    show "pl x = Nowhere \<and> (if x = t then Some e else if linked s e = Some x then None
        else linked_on (rt_param (tasks s x))) = Some c"
      using x t(2,4) linkageD(4,5) [OF l, of c x] linkageD(6) [OF l, of c x e] by (auto split: if_splits)
  next
    fix c c' x assume "((linked s)(e := Some t)) c = Some x" "((linked s)(e := Some t)) c' = Some x"
    then show "c = c'" using t(4) linkageD(6) [OF l, of c x c'] by (auto split: if_splits)
  next
    fix x c
    assume x: "is_realtime (tasks s x)" "(if x = t then Some e else if linked s e = Some x then None
        else linked_on (rt_param (tasks s x))) = Some c"
    then show "((linked s)(e := Some t)) c = Some x" using linkageD(7) [OF l x(1), of c] by (auto split: if_splits)
  qed
  moreover have "schedule_ok C s3"
  proof (rule schedule_okI, unfold lk lview_view [OF v] lviewD(10) [OF v] link_frameD(2,6) [OF f3])
    fix x c assume x: "is_realtime (tasks s x)" "scheduled_on (rt_param (tasks s x)) = Some c"
    note d = schedule_okD [OF sc x]
    show "c \<in> C \<and> edf_ok (tasks s x) \<and> home s (tasks s x) = cluster s c"
      using d(1-3) by blast
    show "c' = c" if "((linked s)(e := Some t)) c' = Some x" for c'
      using that on x d(4) [of c'] by (auto split: if_splits)
    show "t' = x" if "is_realtime (tasks s t')" "scheduled_on (rt_param (tasks s t')) = Some c" for t'
      by (rule d(5) [OF that])
  qed
  moreover have "cpus_ok C (cpu_lower_prio s) s3"
    using cpus f cpus_ok_frame [OF f2] by (simp add: s3_def set_linked_def s2_def)
  moreover have "weak_order_on C (cpu_lower_prio s)"
    by (rule edf_linked_weak) (use q linkageD(2) [OF l] in \<open>auto simp: queue_inv_def\<close>)
  moreover have "cpu_lower_prio s3 a b = cpu_lower_prio s a b" if "a \<in> C" "b \<in> C" "a \<noteq> e" "b \<noteq> e" for a b
    unfolding cpu_lower_prio_def lk same_links_prio [OF link_frameD(1) [OF f3]] using that by simp
  ultimately have "ok (update_cpu_position e s3) (\<lambda>s'. (\<exists>h g. s' = s3\<lparr>cpu_heap := h, hn_in_heap := g\<rparr>) \<and> gsn_inv C pl s')"
    by (rule update_cpu_position_inv [OF queue_inv_link_frame [OF q f3] _ _ _ _ e])
  then have pos: "ok (update_cpu_position e s3) (\<lambda>s'. gsn_inv C pl s' \<and> linked s' = (linked s)(e := Some t) \<and> link_frame s s')"
    by (rule ok_mono) (use lk f3 in auto)
  have "scheduled_on (rt_param (tasks s1 t)) = scheduled_on (rt_param (tasks s t))"
    using lviewD(10) [OF same_linksD [OF link_frameD(1) [OF f(1)]]] .
  then have "relink t e (upd_task t (set_rt_flags RT_F_RUNNING) s1) = Some (Some t, upd_task t (set_rt_flags RT_F_RUNNING) s1)"
    using on t(4) f(2) by (auto simp: relink_def)
  moreover have "is_realtime (tasks s t)" using t(1) by (simp add: edf_ok_def)
  ultimately show ?thesis using pos by (simp add: link_task_to_cpu_def s1_def [symmetric] s2_def s3_def)
qed

lemma link_swap_ok:
  assumes q: "queue_inv (home s) pl s" and l: "linkage C {e} pl s" and sc: "schedule_ok C s" and e: "e \<in> C"
    and cpus: "cpus_ok C (cpu_lower_prio s) s"
    and t: "edf_ok (tasks s t)" "pl t = Nowhere" "home s (tasks s t) = cluster s e" "\<And>c. linked s c \<noteq> Some t"
    and on: "scheduled_on (rt_param (tasks s t)) = Some b" "b \<noteq> e"
  shows "ok (link_task_to_cpu (Some t) e s) (\<lambda>s'. gsn_inv C pl s' \<and>
    linked s' = (linked s)(b := Some t, e := linked s b) \<and> link_frame s s')"
proof -
  have rt: "is_realtime (tasks s t)" using t(1) by (simp add: edf_ok_def)
  note b = schedule_okD [OF sc rt on(1)]
  define s1 where "s1 = upd_task t (set_rt_flags RT_F_RUNNING)
    (case linked s e of Some l \<Rightarrow> upd_task l (set_linked_on None) s | None \<Rightarrow> s)"
  define s2 where "s2 = set_linked b (Some t) (upd_task t (set_linked_on (Some b)) s1)"
  have f1: "link_frame s s1" "linked s1 = linked s" "cpu_heap s1 = cpu_heap s" "hn_in_heap s1 = hn_in_heap s"
    by (auto simp: s1_def intro!: link_frame_upd split: option.splits)
  have "link_frame s (upd_task t (set_linked_on (Some b)) s1)" by (intro link_frame_upd f1(1)) simp
  then have f2: "link_frame s s2" by (simp add: s2_def)
  have lk2: "linked s2 = (linked s)(b := Some t)" by (simp add: s2_def f1)
  note prio2 = same_links_prio [OF link_frameD(1) [OF f2]]
  have w: "weak_order_on C (cpu_lower_prio s)"
    by (rule edf_linked_weak) (use q linkageD(2) [OF l] in \<open>auto simp: queue_inv_def\<close>)
  have w2: "weak_order_on C (cpu_lower_prio s2)"
    by (rule edf_linked_weak [OF queue_inv_heap(3) [OF queue_inv_link_frame [OF q f2]]])
      (use linkageD(2) [OF l] t(1) in \<open>auto simp: lk2 lview_view(2) [OF same_linksD [OF link_frameD(1) [OF f2]]] split: if_splits\<close>)
  have "cpus_ok C (cpu_lower_prio s) s2"
    using cpus f1(3,4) cpus_ok_frame [OF f2, of C] by (simp add: s2_def set_linked_def)
  moreover have "cpu_lower_prio s2 x y = cpu_lower_prio s x y" if "x \<noteq> b" "y \<noteq> b" for x y
    unfolding cpu_lower_prio_def lk2 prio2 using that by simp
  ultimately have "ok (update_cpu_position b s2) (\<lambda>s'. (\<exists>h g. s' = s2\<lparr>cpu_heap := h, hn_in_heap := g\<rparr>) \<and>
      cpus_ok C (cpu_lower_prio s2) s')"
    by (intro update_cpu_position_ok [OF _ w w2 b(1)]) simp_all
  then obtain s3 h g where s3: "update_cpu_position b s2 = Some s3" "s3 = s2\<lparr>cpu_heap := h, hn_in_heap := g\<rparr>"
    "cpus_ok C (cpu_lower_prio s2) s3" by (auto simp: ok_iff_ex)
  define s4 where "s4 = (case linked s b of Some l \<Rightarrow> upd_task l (set_linked_on (Some e)) s3 | None \<Rightarrow> s3)"
  define s5 where "s5 = set_linked e (linked s b) s4"
  have f3: "link_frame s s3" using f2 by (simp add: s3(2))
  have f4: "link_frame s s4" using f3 by (auto simp: s4_def intro: link_frame_upd split: option.splits)
  then have f5: "link_frame s s5" by (simp add: s5_def)
  have lk: "linked s5 = (linked s)(b := Some t, e := linked s b)"
    using lk2 by (auto simp: s5_def s4_def s3(2) split: option.splits)
  have neq: "linked s b \<noteq> linked s e \<or> linked s b = None" using linkageD(6) [OF l, of b _ e] on(2) by (cases "linked s b") auto
  have on': "linked_on (rt_param (tasks s5 x)) = (if x = t then Some b else if linked s b = Some x then Some e
      else if linked s e = Some x then None else linked_on (rt_param (tasks s x)))" for x
    using t(4) neq by (auto simp: s5_def s4_def s3(2) s2_def s1_def split: option.splits)
  note v = same_linksD [OF link_frameD(1) [OF f5]]
  have lb: "linked s b = Some x \<Longrightarrow> pl x = Nowhere \<and> linked_on (rt_param (tasks s x)) = Some b" for x
    using linkageD(4,5) [OF l, of b x] on(2) by simp
  have cl: "cluster s b = cluster s e" using b(3) t(3) by simp
  have "linkage C {} pl s5"
  proof (rule linkageI, unfold lk on' lview_view [OF v] link_frameD(2,6) [OF f5])
    fix c x assume x: "((linked s)(b := Some t, e := linked s b)) c = Some x"
    show "c \<in> C \<and> edf_ok (tasks s x) \<and> home s (tasks s x) = cluster s c"
      using x t e b(1) cl linkageD(1-3) [OF l, of c x] linkageD(1-3) [OF l, of b x] by (simp split: if_splits)
    show "pl x = Nowhere \<and> (if x = t then Some b else if linked s b = Some x then Some e
        else if linked s e = Some x then None else linked_on (rt_param (tasks s x))) = Some c"
    proof -
      consider "c = e" "linked s b = Some x" | "c = b" "c \<noteq> e" "x = t" | "c \<noteq> b" "c \<noteq> e" "linked s c = Some x"
        using x by (auto split: if_splits)
      then show ?thesis
      proof cases
        case 1
        then show ?thesis using lb [OF 1(2)] t(4) by auto
      next
        case 2
        then show ?thesis using t(2) by simp
      next
        case 3
        then have "linked s b \<noteq> Some x" "linked s e \<noteq> Some x" "x \<noteq> t"
          using linkageD(6) [OF l 3(3), of b] linkageD(6) [OF l 3(3), of e] t(4) [of c] by auto
        then show ?thesis using linkageD(4,5) [OF l 3(3)] 3(2) by simp
      qed
    qed
  next
    fix c c' x
    assume "((linked s)(b := Some t, e := linked s b)) c = Some x" "((linked s)(b := Some t, e := linked s b)) c' = Some x"
    then show "c = c'"
      using t(4) linkageD(6) [OF l, of c x c'] linkageD(6) [OF l, of b x c'] linkageD(6) [OF l, of b x c]
      by (cases "c = e"; cases "c' = e"; cases "c = b"; cases "c' = b"; simp)
  next
    fix x c
    assume x: "is_realtime (tasks s x)" "(if x = t then Some b else if linked s b = Some x then Some e
        else if linked s e = Some x then None else linked_on (rt_param (tasks s x))) = Some c"
    then show "((linked s)(b := Some t, e := linked s b)) c = Some x"
      using linkageD(7) [OF l x(1), of c] on(2) by (auto split: if_splits)
  qed
  moreover have "schedule_ok C s5"
  proof (rule schedule_okI, unfold lk lview_view [OF v] lviewD(10) [OF v] link_frameD(2,6) [OF f5])
    fix x c assume x: "is_realtime (tasks s x)" "scheduled_on (rt_param (tasks s x)) = Some c"
    note d = schedule_okD [OF sc x]
    show "c \<in> C \<and> edf_ok (tasks s x) \<and> home s (tasks s x) = cluster s c"
      using d(1-3) by blast
    show "c' = c" if lc: "((linked s)(b := Some t, e := linked s b)) c' = Some x" for c'
    proof -
      have "linked s b \<noteq> Some x"
      proof
        assume lx: "linked s b = Some x"
        have "scheduled_on (rt_param (tasks s x)) = Some b" using d(4) [OF lx] x(2) by simp
        then have "x = t" by (rule b(5) [OF x(1)])
        then show False using lx t(4) [of b] by simp
      qed
      then have "c' = b \<and> x = t \<or> linked s c' = Some x" using lc by (cases "c' = e"; cases "c' = b") simp_all
      then consider "c' = b" "x = t" | "linked s c' = Some x" by blast
      then show ?thesis
      proof cases
        case 1
        then show ?thesis using on(1) x(2) by simp
      next
        case 2
        then show ?thesis by (rule d(4))
      qed
    qed
    show "t' = x" if "is_realtime (tasks s t')" "scheduled_on (rt_param (tasks s t')) = Some c" for t'
      by (rule d(5) [OF that])
  qed
  moreover have "cpus_ok C (cpu_lower_prio s2) s5"
    using s3(3) by (auto simp: s5_def set_linked_def s4_def cpus_ok_def split: option.splits)
  moreover have "cpu_lower_prio s5 x y = cpu_lower_prio s2 x y" if "x \<noteq> e" "y \<noteq> e" for x y
    unfolding cpu_lower_prio_def lk lk2 prio2 same_links_prio [OF link_frameD(1) [OF f5]] using that by simp
  ultimately have "ok (update_cpu_position e s5) (\<lambda>s'. (\<exists>h g. s' = s5\<lparr>cpu_heap := h, hn_in_heap := g\<rparr>) \<and> gsn_inv C pl s')"
    by (intro update_cpu_position_inv [OF queue_inv_link_frame [OF q f5] _ _ _ w2 e]) simp_all
  then have pos: "ok (update_cpu_position e s5) (\<lambda>s'. gsn_inv C pl s' \<and>
      linked s' = (linked s)(b := Some t, e := linked s b) \<and> link_frame s s')"
    by (rule ok_mono) (use lk f5 in auto)
  have "scheduled_on (rt_param (tasks s1 t)) = Some b"
    using lviewD(10) [OF same_linksD [OF link_frameD(1) [OF f1(1)]], of t] on(1) by simp
  then have "relink t e s1 = Some (linked s b, s3)"
    using on(2) t(4) s3(1) by (simp add: relink_def f1(2) s2_def)
  then show ?thesis using pos rt by (simp add: link_task_to_cpu_def s1_def [symmetric] s4_def [symmetric] s5_def)
qed

lemma link_Some_ok:
  assumes "queue_inv (home s) pl s" "linkage C {e} pl s" "schedule_ok C s" "e \<in> C" "cpus_ok C (cpu_lower_prio s) s"
    "edf_ok (tasks s t)" "pl t = Nowhere" "home s (tasks s t) = cluster s e" "\<And>c. linked s c \<noteq> Some t"
  shows "ok (link_task_to_cpu (Some t) e s) (\<lambda>s'. gsn_inv C pl s' \<and> linked s' = relinked t e s \<and> link_frame s s')"
  using link_direct_ok [OF assms] link_swap_ok [OF assms]
  by (cases "scheduled_on (rt_param (tasks s t))") (auto simp: relinked_def)

section \<open>Queues and links\<close>

text \<open>What all the operations below keep.\<close>

definition gframe :: "'z gstate_scheme \<Rightarrow> 'z gstate_scheme \<Rightarrow> bool" where
  "gframe s s' \<longleftrightarrow> same_links s s' \<and> scheduled s' = scheduled s \<and> curr s' = curr s \<and> this_cpu s' = this_cpu s \<and>
     cluster s' = cluster s \<and> gstate.more s' = gstate.more s"

lemma gframeD:
  assumes "gframe s s'"
  shows "same_links s s'" "scheduled s' = scheduled s" "curr s' = curr s" "this_cpu s' = this_cpu s"
    "cluster s' = cluster s" "gstate.more s' = gstate.more s" "home s' = home s"
    "lview (tasks s' t) = lview (tasks s t)"
  using assms by (simp_all add: gframe_def home_def [abs_def] same_links_def)

lemma gframe_refl [simp]: "gframe s s"
  by (simp add: gframe_def)

lemma gframe_trans: "gframe s s' \<Longrightarrow> gframe s' s'' \<Longrightarrow> gframe s s''"
  by (auto simp: gframe_def intro: same_links_trans)

lemma link_frame_gframe: "link_frame s s' \<Longrightarrow> gframe s s'"
  by (simp add: link_frame_def gframe_def same_links_def)

lemma gstate_more:
  assumes "kstate.more s' = kstate.more s"
  shows "scheduled s' = scheduled s" "linked s' = linked s" "cpu_heap s' = cpu_heap s" "hn_in_heap s' = hn_in_heap s"
    "cluster s' = cluster s" "will_schedule s' = will_schedule s" "gstate.more s' = gstate.more s"
    "home s' = home s"
proof -
  show c: "cluster s' = cluster s" using assms by (cases s, cases s') simp
  show "scheduled s' = scheduled s" "linked s' = linked s" "cpu_heap s' = cpu_heap s" "hn_in_heap s' = hn_in_heap s"
    "will_schedule s' = will_schedule s" "gstate.more s' = gstate.more s"
    using assms by (cases s, cases s', simp)+
  show "home s' = home s" by (simp add: home_def [abs_def] c)
qed

lemma gframe_queue:
  assumes "same_links s s'" "kstate.more s' = kstate.more s" "this_cpu s' = this_cpu s" "curr s' = curr s"
  shows "gframe s s'"
  using assms gstate_more [OF assms(2)] by (simp add: gframe_def)

lemma jview_links:
  assumes "jview t = jview t'"
  shows "linked_on (rt_param t) = linked_on (rt_param t')" "scheduled_on (rt_param t) = scheduled_on (rt_param t')"
proof -
  have *: "linked_on (rt_param t) = linked_on (rt_param (jview t))" "scheduled_on (rt_param t) = scheduled_on (rt_param (jview t))" for t
    by (simp_all add: jview_def tview_def)
  show "linked_on (rt_param t) = linked_on (rt_param t')" "scheduled_on (rt_param t) = scheduled_on (rt_param t')"
    unfolding * [of t] * [of t'] assms by simp_all
qed

text \<open>A step on the queues keeps the links if it keeps linked tasks out of them.\<close>

lemma linkage_queue:
  assumes l: "linkage C E pl s" and same: "same_jobs s s'" and more: "kstate.more s' = kstate.more s"
    and pl: "\<And>c t. linked s c = Some t \<Longrightarrow> c \<notin> E' \<Longrightarrow> c \<notin> E \<and> pl' t = Nowhere"
  shows "linkage C E' pl' s'"
proof -
  have v: "jview (tasks s' t) = jview (tasks s t)" for t using same by (simp add: same_jobs_def)
  have h: "home s (tasks s' t) = home s (tasks s t)" for t using jview_view(1) [OF v] by (simp add: home_def)
  show ?thesis
    unfolding linkage_def gstate_more [OF more] jview_view(2,5) [OF v] jview_links [OF v] h
  proof (intro conjI allI impI)
    fix c t assume x: "linked s c = Some t"
    show "c \<in> C" "edf_ok (tasks s t)" "home s (tasks s t) = cluster s c" using linkageD(1-3) [OF l x] by simp_all
    show "pl' t = Nowhere" "linked_on (rt_param (tasks s t)) = Some c" if "c \<notin> E'"
      using pl [OF x that] linkageD(5) [OF l x] by simp_all
  next
    show "c = c'" if "linked s c = Some t" "linked s c' = Some t" for c c' t by (rule linkageD(6) [OF l that])
    show "linked s c = Some t" if "is_realtime (tasks s t)" "linked_on (rt_param (tasks s t)) = Some c" for c t
      by (rule linkageD(7) [OF l that])
  qed
qed

lemma schedule_ok_queue:
  assumes sc: "schedule_ok C s" and same: "same_jobs s s'" and more: "kstate.more s' = kstate.more s"
  shows "schedule_ok C s'"
proof -
  have v: "jview (tasks s' t) = jview (tasks s t)" for t using same by (simp add: same_jobs_def)
  have h: "home s (tasks s' t) = home s (tasks s t)" for t using jview_view(1) [OF v] by (simp add: home_def)
  show ?thesis
  proof (rule schedule_okI, unfold gstate_more [OF more] jview_view(2,5) [OF v] jview_links [OF v] h)
    fix x c assume x: "is_realtime (tasks s x)" "scheduled_on (rt_param (tasks s x)) = Some c"
    note d = schedule_okD [OF sc x]
    show "c \<in> C \<and> edf_ok (tasks s x) \<and> home s (tasks s x) = cluster s c"
      using d(1-3) by blast
    show "c' = c" if "linked s c' = Some x" for c' by (rule d(4) [OF that])
    show "t' = x" if "is_realtime (tasks s t')" "scheduled_on (rt_param (tasks s t')) = Some c" for t'
      by (rule d(5) [OF that])
  qed
qed

lemma same_jobs_cpu_order:
  assumes "same_jobs s s'" "kstate.more s' = kstate.more s"
  shows "cpu_lower_prio s' = cpu_lower_prio s"
  using same_links_cpu_order [OF same_jobs_links [OF assms(1)]] gstate_more(2) [OF assms(2)]
  by (simp add: cpu_lower_prio_eq)

lemma cpus_ok_queue:
  assumes "cpus_ok C ord s" "kstate.more s' = kstate.more s"
  shows "cpus_ok C ord s'"
  using assms(1) gstate_more [OF assms(2)] by (simp add: cpus_ok_def)

lemma gsn_inv_queue:
  assumes inv: "gsn_inv C pl s" and q: "queue_inv (home s) pl' s'" and same: "same_jobs s s'"
    and more: "kstate.more s' = kstate.more s"
    and pl: "\<And>c t. linked s c = Some t \<Longrightarrow> pl' t = Nowhere"
  shows "gsn_inv C pl' s'"
  unfolding gsn_inv_def gstate_more(8) [OF more] same_jobs_cpu_order [OF same more]
  using q cpus_ok_queue [OF gsn_invD(2) [OF inv] more] linkage_queue [OF gsn_invD(3) [OF inv] same more, of "{}" pl']
    schedule_ok_queue [OF gsn_invD(4) [OF inv] same more] pl by simp

lemma gsn_requeue_ok:
  assumes q: "queue_inv (home s) pl s" and t: "pl t = Nowhere" "edf_ok (tasks s t)"
  shows "ok (gsn_requeue t now s) (\<lambda>s'. \<exists>p. queue_inv (home s) (pl(t := p)) s' \<and> same_jobs s s' \<and>
    (if is_released (tasks s t) now then p = Ready (home s (tasks s t)) else \<exists>r. p = Waiting r) \<and>
    kstate.more s' = kstate.more s \<and> this_cpu s' = this_cpu s \<and> curr s' = curr s)"
proof -
  let ?d = "home s (tasks s t)"
  have d: "task_cpu_cluster t s = ?d" by (simp add: task_cpu_cluster_def home_def)
  have free: "\<not> in_heap (rt_param (tasks s t))" "heap_node (rt_param (tasks s t))"
    using placed_simps(5) [OF queue_inv_heap(3) [OF q], of t] t by (simp_all add: edf_ok_def)
  have h: "home s (set_in_heap b x) = home s x" for b x by (simp add: home_def)
  have ready: "ok (add_ready edf_ready_order dummy_resched ?d t s) (\<lambda>s'. queue_inv (home s) (pl(t := Ready ?d)) s' \<and>
      same_jobs s s' \<and> kstate.more s' = kstate.more s \<and> this_cpu s' = this_cpu s \<and> curr s' = curr s)"
    using add_ready_core [OF q t, of ?d] free
    by (simp add: add_ready_def dummy_resched_def h same_jobs_def)
  have "ok (add_release_on edf_ready_order ?d t None s) (\<lambda>s'. (\<exists>r. queue_inv (home s) (pl(t := Waiting r)) s') \<and>
      same_jobs s s' \<and> kstate.more s' = kstate.more s \<and> this_cpu s' = this_cpu s \<and> curr s' = curr s)"
    by (rule ok_mono [OF add_release_on_spec [OF q t]]) (auto simp: home_def same_jobs_def)
  then show ?thesis
    using ready free
    by (simp add: gsn_requeue_def is_queued_def d add_release_eq) (auto elim!: ok_mono)
qed

section \<open>Unlinking a task\<close>

text \<open>
  A task that is linked may get new parameters before it is unlinked; the heap of CPUs is out of order
  at its CPU until then.
\<close>

lemma edf_order_upd_other:
  assumes "x \<noteq> t" "y \<noteq> t" "inh_task (rt_param (ts x)) = None" "inh_task (rt_param (ts y)) = None"
  shows "edf_higher_prio (ts(t := p)) (Some x) (Some y) = edf_higher_prio ts (Some x) (Some y)"
  using assms unfolding edf_higher_prio_Some by (simp add: eff_def)

lemma unlink_linked_ok:
  assumes inv: "gsn_inv C pl s" and l: "linked s c = Some t"
    and p: "pid p = pid (tasks s t)" "in_heap (rt_param p) = in_heap (rt_param (tasks s t))" "edf_ok p"
      "get_partition p = get_partition (tasks s t)" "linked_on (rt_param p) = Some c"
      "scheduled_on (rt_param p) = scheduled_on (rt_param (tasks s t))"
  defines "s0 \<equiv> upd_task t (\<lambda>_. p) s"
  shows "ok (unlink (Some t) s0) (\<lambda>s'. gsn_inv C pl s' \<and> linked s' = (linked s)(c := None) \<and> link_frame s0 s')"
proof -
  define s1 where "s1 = upd_task t (set_linked_on None) s0"
  note lk = gsn_invD(3) [OF inv] and sc = gsn_invD(4) [OF inv]
  note lt = linkageD(1-5) [OF lk l, simplified]
  have rt: "is_realtime (tasks s t)" "is_realtime p" using lt p(3) by (simp_all add: edf_ok_def)
  have q0: "queue_inv (home s) pl s0"
    by (rule queue_inv_frame [OF gsn_invD(1) [OF inv]]) (use lt p in \<open>auto simp: s0_def\<close>)
  have f: "link_frame s0 s1" by (auto simp: s1_def intro: link_frame_upd)
  have q1: "queue_inv (home s1) pl s1" using queue_inv_link_frame [OF _ f] q0 by (simp add: s0_def)
  have hm: "home s p = home s (tasks s t)" using p(4) by (simp add: home_def)
  have lk1: "linkage C {c} pl s1"
  proof (rule linkageI)
    fix c' x assume x: "linked s1 c' = Some x"
    then have x': "linked s c' = Some x" by (simp add: s1_def s0_def)
    show "c' \<in> C \<and> edf_ok (tasks s1 x) \<and> home s1 (tasks s1 x) = cluster s1 c'"
      using linkageD(1-3) [OF lk x'] p(3) hm by (auto simp: s1_def s0_def edf_ok_def set_linked_on_def rt_simps home_def)
    show "pl x = Nowhere \<and> linked_on (rt_param (tasks s1 x)) = Some c'" if "c' \<notin> {c}"
    proof -
      have "x \<noteq> t" using linkageD(6) [OF lk x', of c] l that by auto
      then show ?thesis using linkageD(4,5) [OF lk x'] by (simp add: s1_def s0_def)
    qed
  next
    show "c1 = c2" if "linked s1 c1 = Some x" "linked s1 c2 = Some x" for c1 c2 x
      using linkageD(6) [OF lk, of c1 x c2] that by (simp add: s1_def s0_def)
    show "linked s1 c' = Some x" if "is_realtime (tasks s1 x)" "linked_on (rt_param (tasks s1 x)) = Some c'" for x c'
      using linkageD(7) [OF lk, of x c'] that by (simp add: s1_def s0_def split: if_splits)
  qed
  have view: "is_realtime (tasks s1 x) = is_realtime (tasks s x)" "scheduled_on (rt_param (tasks s1 x)) = scheduled_on (rt_param (tasks s x))"
    "home s (tasks s1 x) = home s (tasks s x)" for x
    using rt p(4,6) by (simp_all add: s1_def s0_def set_linked_on_def rt_simps home_def)
  have "schedule_ok C s1"
  proof (rule schedule_okI, unfold view)
    fix x c' assume x: "is_realtime (tasks s x)" "scheduled_on (rt_param (tasks s x)) = Some c'"
    note d = schedule_okD [OF sc x]
    show "c' \<in> C \<and> edf_ok (tasks s1 x) \<and> home s1 (tasks s1 x) = cluster s1 c'"
      using d(1-3) p(3) hm by (auto simp: s1_def s0_def edf_ok_def set_linked_on_def rt_simps home_def)
    show "c2 = c'" if "linked s1 c2 = Some x" for c2 using that d(4) [of c2] by (simp add: s1_def s0_def)
    show "t' = x" if "is_realtime (tasks s t')" "scheduled_on (rt_param (tasks s t')) = Some c'" for t'
      by (rule d(5) [OF that])
  qed
  moreover have "cpus_ok C (cpu_lower_prio s) s1" using gsn_invD(2) [OF inv] by (simp add: s1_def s0_def cpus_ok_def)
  moreover have "weak_order_on C (cpu_lower_prio s)"
    by (rule edf_linked_weak [OF gsn_invD(5) [OF inv]]) (rule linkageD(2) [OF lk])
  moreover have "cpu_lower_prio s1 a b = cpu_lower_prio s a b" if "a \<noteq> c" "b \<noteq> c" for a b
  proof -
    have "linked s a \<noteq> Some t" "linked s b \<noteq> Some t" using that linkageD(6) [OF lk l] by blast+
    moreover have "inh_task (rt_param (tasks s x)) = None" if "linked s y = Some x" for x y
      using linkageD(2) [OF lk that] by (simp add: edf_ok_def)
    ultimately show ?thesis
      by (cases "linked s a"; cases "linked s b") (auto simp: cpu_lower_prio_def s1_def s0_def edf_order_upd_other)
  qed
  ultimately have "ok (link_task_to_cpu None c s1) (\<lambda>s'. gsn_inv C pl s' \<and> linked s' = (linked s1)(c := None) \<and> link_frame s1 s')"
    by (intro link_None_ok [OF q1 lk1] lt(1)) simp_all
  then have "ok (link_task_to_cpu None c s1) (\<lambda>s'. gsn_inv C pl s' \<and> linked s' = (linked s)(c := None) \<and> link_frame s0 s')"
    by (rule ok_mono) (use f link_frame_trans in \<open>auto simp: s1_def s0_def\<close>)
  then show ?thesis using p(5) by (simp add: unlink_def s1_def) (simp add: s0_def)
qed

text \<open>The links without those of a task.\<close>

definition unlinked :: "tid \<Rightarrow> (cpu_id \<Rightarrow> tid option) \<Rightarrow> cpu_id \<Rightarrow> tid option" where
  "unlinked t lk c = (if lk c = Some t then None else lk c)"

lemma unlink_ok:
  assumes inv: "gsn_inv C pl s" and t: "edf_ok (tasks s t)" "\<And>r. pl t \<noteq> Waiting r"
  shows "ok (unlink (Some t) s) (\<lambda>s'. gsn_inv C (pl(t := Nowhere)) s' \<and> linked s' = unlinked t (linked s) \<and> gframe s s')"
proof (cases "linked_on (rt_param (tasks s t))")
  case (Some c)
  have rt: "is_realtime (tasks s t)" using t(1) by (simp add: edf_ok_def)
  note lk = gsn_invD(3) [OF inv]
  have l: "linked s c = Some t" by (rule linkageD(7) [OF lk rt Some])
  have s: "upd_task t (\<lambda>_. tasks s t) s = s" by (simp add: upd_task_def)
  have pl: "pl(t := Nowhere) = pl" using linkageD(4) [OF lk l] by auto
  have "linked s x \<noteq> Some t" if "x \<noteq> c" for x using linkageD(6) [OF lk l, of x] that by blast
  then have u: "unlinked t (linked s) = (linked s)(c := None)" using l by (auto simp: unlinked_def)
  show ?thesis
    unfolding pl u
    by (rule ok_mono [OF unlink_linked_ok [OF inv l, of "tasks s t", unfolded s]]) (use t Some link_frame_gframe in auto)
next
  case None
  have rt: "is_realtime (tasks s t)" using t(1) by (simp add: edf_ok_def)
  note lk = gsn_invD(3) [OF inv] and q = gsn_invD(1) [OF inv]
  have free: "linked s c \<noteq> Some t" for c using linkageD(5) [OF lk, of c t] None by auto
  then have u: "unlinked t (linked s) = linked s" by (auto simp: unlinked_def)
  note h = placed_simps(5) [OF gsn_invD(5) [OF inv], of t]
  have node: "heap_node (rt_param (tasks s t))" using t(1) by (simp add: edf_ok_def)
  show ?thesis
  proof (cases "pl t")
    case Nowhere
    then have "pl(t := Nowhere) = pl" by auto
    then show ?thesis using inv None h node Nowhere u by (simp add: unlink_def is_queued_def)
  next
    case (Ready d)
    have d: "home s (tasks s t) = d" using gsn_invD(5) [OF inv] Ready by (simp add: placed_def)
    have hm: "home s (set_in_heap False x) = home s x" for x by (simp add: home_def)
    have "ok (remove_rt edf_ready_order d t s) (\<lambda>s'. gsn_inv C (pl(t := Nowhere)) s' \<and> linked s' = linked s \<and> gframe s s')"
    proof (rule ok_mono [OF remove_rt_spec [OF q Ready hm]], elim conjE)
      fix s'
      assume q': "queue_inv (home s) (pl(t := Nowhere)) s'" and ts: "tasks s' = (tasks s)(t := set_in_heap False (tasks s t))"
        and more: "kstate.more s' = kstate.more s" and fr: "this_cpu s' = this_cpu s" "curr s' = curr s"
      have same: "same_jobs s s'" by (simp add: same_jobs_def ts)
      have "gsn_inv C (pl(t := Nowhere)) s'"
        by (rule gsn_inv_queue [OF inv q' same more])
          (use linkageD(4) [OF lk] in auto)
      then show "gsn_inv C (pl(t := Nowhere)) s' \<and> linked s' = linked s \<and> gframe s s'"
        using gframe_queue [OF same_jobs_links [OF same] more fr] gstate_more(2) [OF more] by simp
    qed
    then show ?thesis
      using None h node Ready u d by (simp add: unlink_def is_queued_def task_cpu_cluster_def home_def)
  next
    case (Waiting r)
    then show ?thesis using t(2) by blast
  qed
qed

end
