(* ===== verification/Linked_Check.thy ===== *)
theory Linked_Check
  imports Linked_Inv
begin

text \<open>
  \<^verbatim>\<open>check_for_preemptions\<close> of GSN-EDF and C-EDF: each round replaces the linked task of lowest priority
  in a cluster by a ready task of higher priority; the loop ends, and then the tasks of highest
  priority are linked.
\<close>

section \<open>The test\<close>

lemma tview_links:
  assumes "tview t = tview t'"
  shows "jview t = jview t'"
  using assms by (simp add: jview_def)

lemma gsn_inv_peek:
  assumes inv: "gsn_inv C pl s" and h: "bheap_inv (cpu_lower_prio s) h" "bheap_elems h = bheap_elems (cpu_heap s d)"
  shows "gsn_inv C pl (s\<lparr>cpu_heap := (cpu_heap s)(d := h)\<rparr>)"
  using inv h by (auto simp: gsn_inv_def cpus_ok_def)

lemma cluster_heap:
  assumes "gsn_inv C pl s"
  shows "c \<in># bheap_elems (cpu_heap s d) \<longleftrightarrow> c \<in> C \<and> cluster s c = d"
    "bheap_inv (cpu_lower_prio s) (cpu_heap s d)" "weak_order_on C (cpu_lower_prio s)"
    "weak_order_on (set_mset (bheap_elems (cpu_heap s d))) (cpu_lower_prio s)"
proof -
  have cnt: "count (bheap_elems (cpu_heap s d)) c = (if c \<in> C \<and> cluster s c = d then 1 else 0)" for d c
    using gsn_invD(2) [OF assms] by (simp add: cpus_ok_def)
  show el: "c \<in># bheap_elems (cpu_heap s d) \<longleftrightarrow> c \<in> C \<and> cluster s c = d" for c d
    using cnt [of d c] by (metis count_eq_zero_iff zero_neq_one)
  show "bheap_inv (cpu_lower_prio s) (cpu_heap s d)" using gsn_invD(2) [OF assms] by (simp add: cpus_ok_def)
  show w: "weak_order_on C (cpu_lower_prio s)"
    by (rule edf_linked_weak [OF gsn_invD(5) [OF assms]]) (rule linkageD(2) [OF gsn_invD(3) [OF assms]])
  show "weak_order_on (set_mset (bheap_elems (cpu_heap s d))) (cpu_lower_prio s)"
    by (rule weak_order_mono [OF w]) (use el in auto)
qed

text \<open>A ready task that beats the task linked to a CPU, or a CPU with no linked task and a ready task.\<close>

definition needs_preemption :: "nat \<Rightarrow> (tid \<Rightarrow> place) \<Rightarrow> cpu_id \<Rightarrow> 'z gstate_scheme \<Rightarrow> bool" where
  "needs_preemption d pl c s \<longleftrightarrow>
     (\<exists>x. pl x = Ready d \<and> (case linked s c of None \<Rightarrow> True | Some l \<Rightarrow> edf_ready_order s x l))"

lemma preemption_test_ok:
  assumes inv: "gsn_inv C pl s" and ne: "\<exists>c \<in> C. cluster s c = d"
  shows "ok (preemption_test d s) (\<lambda>(c, needed, s'). gsn_inv C pl s' \<and> c \<in> C \<and> cluster s c = d \<and>
    (\<forall>a \<in> C. cluster s a = d \<longrightarrow> \<not> cpu_lower_prio s a c) \<and> (needed \<longleftrightarrow> needs_preemption d pl c s) \<and>
    tasks s' = tasks s \<and> linked s' = linked s \<and> gframe s s')"
proof -
  obtain r h where pk: "bheap_peek (cpu_lower_prio s) (cpu_heap s d) = (r, h)" by fastforce
  note el = cluster_heap(1) [OF inv]
  note spec = bq.peek_spec [OF pk cluster_heap(2,4) [OF inv]]
  have "bheap_elems (cpu_heap s d) \<noteq> {#}" using ne el by (metis empty_iff set_mset_empty)
  then obtain c where c: "r = Some c" "c \<in># bheap_elems (cpu_heap s d)" "\<forall>x \<in># bheap_elems (cpu_heap s d). \<not> cpu_lower_prio s x c"
    using spec by (cases r) auto
  define s1 where "s1 = s\<lparr>cpu_heap := (cpu_heap s)(d := h)\<rparr>"
  have inv1: "gsn_inv C pl s1" unfolding s1_def by (rule gsn_inv_peek [OF inv]) (use spec in auto)
  have f1: "tasks s1 = tasks s" "linked s1 = linked s" "gframe s s1" by (simp_all add: s1_def gframe_def same_links_def)
  obtain b s2 where pn: "edf_preemption_needed d (linked s1 c) s1 = (b, s2)" by fastforce
  note p = edf_preemption_needed_spec [OF gsn_invD(1) [OF inv1] pn]
  have same: "same_jobs s1 s2" using p(2) by (simp add: same_jobs_def)
  have inv2: "gsn_inv C pl s2"
    by (rule gsn_inv_queue [OF inv1 p(1) same p(4)])
      (use linkageD(4) [OF gsn_invD(3) [OF inv1]] in auto)
  have ord: "edf_ready_order s1 = edf_ready_order s" using f1(1) by (simp add: edf_ready_order_def [abs_def])
  have "b \<longleftrightarrow> needs_preemption d pl c s"
  proof (cases "linked s c")
    case None
    then show ?thesis using p(8) f1(2) by (simp add: needs_preemption_def)
  next
    case (Some l)
    have "edf_ok (tasks s1 l)" using linkageD(2) [OF gsn_invD(3) [OF inv] Some] f1(1) by simp
    then show ?thesis using p(10) Some f1(2) ord by (simp add: needs_preemption_def)
  qed
  moreover have "gframe s s2"
    using gframe_trans [OF f1(3) gframe_queue [OF same_jobs_links [OF same] p(4-6)]] .
  moreover have "lowest_prio_cpu d s = Some (c, s1)" by (simp add: lowest_prio_cpu_def pk c(1) s1_def)
  ultimately show ?thesis
    using inv2 c el pn p(2) f1 gstate_more(2) [OF p(4)] by (simp add: preemption_test_def)
qed

section \<open>One round\<close>

lemma gsn_inv_same:
  assumes inv: "gsn_inv C pl s" and same: "same_tasks s s'" and f: "doms s' = doms s" "rel_heaps s' = rel_heaps s"
    "tick_period s' = tick_period s" "kstate.more s' = kstate.more s"
  shows "gsn_inv C pl s'"
proof -
  have v: "tview (tasks s' t) = tview (tasks s t)" for t using same by (simp add: same_tasks_def)
  have h: "home s (tasks s' t) = home s (tasks s t)" for t using tview_view(2) [OF v] by (simp add: home_def)
  have q: "queue_inv (home s) pl s'"
    by (rule queue_inv_frame [OF gsn_invD(1) [OF inv] f(1-3)]) (simp_all add: tview_view [OF v] tviewD [OF v] h)
  show ?thesis
    by (rule gsn_inv_queue [OF inv q same_tasks_jobs [OF same] f(4)])
      (use linkageD(4) [OF gsn_invD(3) [OF inv]] in auto)
qed

lemma gsn_preempt_ok:
  assumes "gsn_inv C pl s"
  shows "gsn_inv C pl (gsn_preempt c s)" "linked (gsn_preempt c s) = linked s" "gframe s (gsn_preempt c s)"
    "same_tasks s (gsn_preempt c s)"
proof -
  show same: "same_tasks s (gsn_preempt c s)" by (simp add: gsn_preempt_def)
  have more: "kstate.more (gsn_preempt c s) = kstate.more s" by (simp add: gsn_preempt_def)
  show "gsn_inv C pl (gsn_preempt c s)" by (rule gsn_inv_same [OF assms same _ _ _ more]) (simp_all add: gsn_preempt_def)
  show "linked (gsn_preempt c s) = linked s" by (rule gstate_more(2) [OF more])
  show "gframe s (gsn_preempt c s)"
    by (rule gframe_queue [OF same_tasks_links [OF same] more]) (simp_all add: gsn_preempt_def)
qed

text \<open>The placement after a round: the task taken is in no queue, the one it replaces is ready.\<close>

definition swapped :: "nat \<Rightarrow> tid \<Rightarrow> tid option \<Rightarrow> (tid \<Rightarrow> place) \<Rightarrow> tid \<Rightarrow> place" where
  "swapped d t l pl = (case l of None \<Rightarrow> pl(t := Nowhere) | Some l \<Rightarrow> pl(t := Nowhere, l := Ready d))"

lemma relinked_cong:
  "scheduled_on (rt_param (tasks s' t)) = scheduled_on (rt_param (tasks s t)) \<Longrightarrow> linked s' = linked s \<Longrightarrow>
     relinked t c s' = relinked t c s"
  by (cases "scheduled_on (rt_param (tasks s t))") (simp_all add: relinked_def)

lemma preempt_lowest_ok:
  assumes inv: "gsn_inv C pl s" and c: "c \<in> C" "cluster s c = d" and need: "needs_preemption d pl c s"
    and rel: "\<And>l. linked s c = Some l \<Longrightarrow> is_released (tasks s l) now"
  shows "ok (preempt_lowest d now c s) (\<lambda>s'. \<exists>t. pl t = Ready d \<and> (\<forall>x. pl x = Ready d \<longrightarrow> \<not> edf_ready_order s x t) \<and>
    gsn_inv C (swapped d t (linked s c) pl) s' \<and> linked s' = relinked t c s \<and> gframe s s')"
proof -
  note lk = gsn_invD(3) [OF inv] and sc = gsn_invD(4) [OF inv]
  have hm: "home s (set_in_heap b x) = home s x" for b x by (simp add: home_def)
  obtain r s1 where tk: "take_ready edf_ready_order d s = (r, s1)" by fastforce
  note tr = take_ready_spec [OF gsn_invD(1) [OF inv] tk hm]
  obtain t where t: "r = Some t" using tr(1) need by (auto simp: needs_preemption_def)
  note tt = tr(3-6) [OF t] and more1 = tr(8)
  let ?pl1 = "pl(t := Nowhere)"
  have same1: "same_jobs s s1" by (simp add: same_jobs_def tt(2))
  have free: "linked s x \<noteq> Some t" for x using linkageD(4) [OF lk, of x t] tt(3) by auto
  have inv1: "gsn_inv C ?pl1 s1"
    by (rule gsn_inv_queue [OF inv tt(1) same1 more1]) (use linkageD(4) [OF lk] in auto)
  have okt: "edf_ok (tasks s t)" "home s (tasks s t) = d"
    using placed_simps(6) [OF gsn_invD(5) [OF inv], of t] gsn_invD(5) [OF inv] tt(3) by (auto simp: placed_def)
  define pl2 where "pl2 = swapped d t (linked s c) pl"
  have "ok (case linked s1 c of Some l \<Rightarrow> gsn_requeue l now s1 | None \<Rightarrow> Some s1)
      (\<lambda>s2. queue_inv (home s) pl2 s2 \<and> same_jobs s s2 \<and> kstate.more s2 = kstate.more s \<and> this_cpu s2 = this_cpu s \<and> curr s2 = curr s)"
  proof (cases "linked s c")
    case None
    then show ?thesis using gstate_more(2) [OF more1] tt(1) same1 more1 tr(9,10) by (simp add: pl2_def swapped_def)
  next
    case (Some l)
    have l1: "linked s1 c = Some l" using Some gstate_more(2) [OF more1] by simp
    note ld = linkageD(1-4) [OF gsn_invD(3) [OF inv1] l1]
    have view: "jview (tasks s1 l) = jview (tasks s l)" using same1 by (simp add: same_jobs_def)
    have rl: "is_released (tasks s1 l) now" using rel [OF Some] jview_view(4) [OF view] by (simp add: is_released_def)
    have dl: "home s1 (tasks s1 l) = d" using ld(3) c(2) gstate_more(5) [OF more1] by simp
    show ?thesis
      unfolding l1 option.case
      by (rule ok_mono [OF gsn_requeue_ok [OF gsn_invD(1) [OF inv1], of l now]])
        (use ld rl dl Some gstate_more(8) [OF more1] more1 tr(9,10) same_jobs_trans [OF same1] in
          \<open>auto simp: pl2_def swapped_def\<close>)
  qed
  then obtain s2 where s2: "(case linked s1 c of Some l \<Rightarrow> gsn_requeue l now s1 | None \<Rightarrow> Some s1) = Some s2"
    "queue_inv (home s) pl2 s2" "same_jobs s s2" "kstate.more s2 = kstate.more s" "this_cpu s2 = this_cpu s" "curr s2 = curr s"
    by (auto simp: ok_iff_ex)
  note g2 = gstate_more [OF s2(4)]
  have pl2: "pl2 x = Nowhere" if x: "linked s y = Some x" "y \<noteq> c" for x y
  proof -
    have "linked s c \<noteq> Some x" using linkageD(6) [OF lk x(1), of c] x(2) by blast
    then show ?thesis using linkageD(4) [OF lk x(1)] by (auto simp: pl2_def swapped_def split: option.splits)
  qed
  have "linked s c \<noteq> Some t" by (rule free)
  then have plt: "pl2 t = Nowhere" by (auto simp: pl2_def swapped_def split: option.splits)
  have lk2: "linkage C {c} pl2 s2"
    by (rule linkage_queue [OF lk s2(3,4)]) (use pl2 in auto)
  have sc2: "schedule_ok C s2" by (rule schedule_ok_queue [OF sc s2(3,4)])
  have v: "jview (tasks s2 x) = jview (tasks s x)" for x using s2(3) by (simp add: same_jobs_def)
  have "ok (link_task_to_cpu (Some t) c s2) (\<lambda>s'. gsn_inv C pl2 s' \<and> linked s' = relinked t c s2 \<and> link_frame s2 s')"
  proof (rule link_Some_ok [OF _ lk2 sc2 c(1)])
    show "queue_inv (home s2) pl2 s2" using s2(2) g2(8) by simp
    show "cpus_ok C (cpu_lower_prio s2) s2"
      using cpus_ok_queue [OF gsn_invD(2) [OF inv] s2(4)] same_jobs_cpu_order [OF s2(3,4)] by simp
    show "edf_ok (tasks s2 t)" using okt(1) jview_view(2) [OF v] by simp
    show "home s2 (tasks s2 t) = cluster s2 c" using okt(2) c(2) g2(5,8) jview_view(1) [OF v, of t] by (simp add: home_def)
    show "linked s2 x \<noteq> Some t" for x using free g2(2) by simp
  qed (rule plt)
  then obtain s3 where s3: "link_task_to_cpu (Some t) c s2 = Some s3" "gsn_inv C pl2 s3" "linked s3 = relinked t c s2"
    "link_frame s2 s3" by (auto simp: ok_iff_ex)
  have fr: "gframe s s3"
    using gframe_trans [OF gframe_queue [OF same_jobs_links [OF s2(3)] s2(4-6)] link_frame_gframe [OF s3(4)]] .
  have lks: "linked s3 = relinked t c s" using s3(3) relinked_cong [OF jview_links(2) [OF v] g2(2)] by simp
  note pre = gsn_preempt_ok [OF s3(2), of c]
  have "preempt_lowest d now c s = Some (gsn_preempt c s3)"
    by (simp add: preempt_lowest_def tk t s2(1) s3(1))
  then show ?thesis
    using pre tt(3,4) lks gframe_trans [OF fr pre(3)] by (simp add: pl2_def) blast
qed

section \<open>The loop\<close>

text \<open>The tasks of a cluster that are ready or linked: a round only exchanges them.\<close>

definition pool :: "nat \<Rightarrow> (tid \<Rightarrow> place) \<Rightarrow> 'z gstate_scheme \<Rightarrow> tid set" where
  "pool d pl s = {x. pl x = Ready d} \<union> {x. \<exists>c. cluster s c = d \<and> linked s c = Some x}"

lemma relinked_pool:
  assumes "cluster s c = d" "\<And>b. scheduled_on (rt_param (tasks s t)) = Some b \<Longrightarrow> cluster s b = d"
    and inj: "\<And>a b x. linked s a = Some x \<Longrightarrow> linked s b = Some x \<Longrightarrow> a = b"
  shows "(\<exists>a. cluster s a = d \<and> relinked t c s a = Some x) \<longleftrightarrow>
    x = t \<or> (\<exists>a. cluster s a = d \<and> linked s a = Some x \<and> a \<noteq> c)"
proof (cases "\<exists>b. scheduled_on (rt_param (tasks s t)) = Some b \<and> c \<noteq> b")
  case False
  then have "relinked t c s = (linked s)(c := Some t)" by (auto simp: relinked_def split: option.splits)
  then show ?thesis using assms(1) by auto
next
  case True
  then obtain b where b: "scheduled_on (rt_param (tasks s t)) = Some b" "c \<noteq> b" by blast
  then have r: "relinked t c s = (linked s)(b := Some t, c := linked s b)" by (simp add: relinked_def)
  have cb: "cluster s b = d" using assms(2) b(1) .
  show ?thesis
  proof
    assume "\<exists>a. cluster s a = d \<and> relinked t c s a = Some x"
    then obtain a where a: "cluster s a = d" "((linked s)(b := Some t, c := linked s b)) a = Some x" unfolding r by blast
    consider "a = c" | "a = b" | "a \<noteq> c" "a \<noteq> b" by blast
    then show "x = t \<or> (\<exists>a. cluster s a = d \<and> linked s a = Some x \<and> a \<noteq> c)"
      using a b(2) cb by cases auto
  next
    assume "x = t \<or> (\<exists>a. cluster s a = d \<and> linked s a = Some x \<and> a \<noteq> c)"
    then consider "x = t" | a where "cluster s a = d" "linked s a = Some x" "a \<noteq> c" by blast
    then show "\<exists>a. cluster s a = d \<and> relinked t c s a = Some x"
    proof cases
      case 1
      then show ?thesis unfolding r using cb b(2) by (intro exI [of _ b]) simp
    next
      case (2 a)
      then show ?thesis
        unfolding r using assms(1) by (cases "a = b") (auto intro: exI [of _ c] exI [of _ a])
    qed
  qed
qed

lemma pool_round:
  assumes inv: "gsn_inv C pl s" and c: "cluster s c = d" and t: "pl t = Ready d" "home s (tasks s t) = d" "edf_ok (tasks s t)"
    and s': "linked s' = relinked t c s" "cluster s' = cluster s"
  shows "pool d (swapped d t (linked s c) pl) s' = pool d pl s"
    "x \<notin> pool d pl s \<Longrightarrow> swapped d t (linked s c) pl x = pl x"
proof -
  note lk = gsn_invD(3) [OF inv]
  have rt: "is_realtime (tasks s t)" using t(3) by (simp add: edf_ok_def)
  have b: "scheduled_on (rt_param (tasks s t)) = Some b \<Longrightarrow> cluster s b = d" for b
    using schedule_okD(3) [OF gsn_invD(4) [OF inv] rt] t(2) by simp
  note rp = relinked_pool [where x = x for x, OF c b linkageD(6) [OF lk]]
  have lt: "linked s a \<noteq> Some t" for a using linkageD(4) [OF lk, of a t] t(1) by auto
  have sw: "swapped d t (linked s c) pl x = Ready d \<longleftrightarrow> linked s c = Some x \<or> (x \<noteq> t \<and> pl x = Ready d)" for x
    using lt [of c] by (auto simp: swapped_def split: option.splits)
  have "x \<in> pool d (swapped d t (linked s c) pl) s' \<longleftrightarrow> x \<in> pool d pl s" for x
  proof -
    have "x \<in> pool d (swapped d t (linked s c) pl) s' \<longleftrightarrow>
        (linked s c = Some x \<or> (x \<noteq> t \<and> pl x = Ready d)) \<or>
        (x = t \<or> (\<exists>a. cluster s a = d \<and> linked s a = Some x \<and> a \<noteq> c))"
      unfolding pool_def s' by (simp add: sw rp)
    also have "\<dots> \<longleftrightarrow> x \<in> pool d pl s" unfolding pool_def using c t(1) by blast
    finally show ?thesis .
  qed
  then show "pool d (swapped d t (linked s c) pl) s' = pool d pl s" by blast
  show "swapped d t (linked s c) pl x = pl x" if "x \<notin> pool d pl s"
    using that t(1) c by (auto simp: pool_def swapped_def split: option.splits)
qed

text \<open>The measure: how many tasks of the pool beat the linked ones.\<close>

definition link_cost :: "(tid \<Rightarrow> tid \<Rightarrow> bool) \<Rightarrow> tid set \<Rightarrow> tid option \<Rightarrow> nat" where
  "link_cost ord A l = (case l of None \<Rightarrow> Suc (card A) | Some t \<Rightarrow> card {y \<in> A. ord y t})"

lemma link_cost_less:
  assumes "finite A" "t \<in> A" "weak_order_on A ord"
    "case l of None \<Rightarrow> True | Some x \<Rightarrow> x \<in> A \<and> ord t x"
  shows "link_cost ord A (Some t) < link_cost ord A l"
proof (cases l)
  case None
  have "card {y \<in> A. ord y t} \<le> card A" using assms(1) by (intro card_mono) auto
  then show ?thesis using None by (simp add: link_cost_def)
next
  case (Some x)
  then have x: "x \<in> A" "ord t x" using assms(4) by simp_all
  have "{y \<in> A. ord y t} \<subset> {y \<in> A. ord y x}"
  proof (rule psubsetI)
    show "{y \<in> A. ord y t} \<subseteq> {y \<in> A. ord y x}"
    proof (intro subsetI CollectI conjI, simp_all, elim conjE)
      fix y assume y: "y \<in> A" "ord y t"
      show "ord y x"
      proof (rule ccontr)
        assume n: "\<not> ord y x"
        have "\<not> ord x t" by (rule weak_order_asym [OF assms(3) x(2) assms(2) x(1)])
        then show False using weak_order_ntrans [OF assms(3) n _ y(1) x(1) assms(2)] y(2) by blast
      qed
    qed
    have "t \<notin> {y \<in> A. ord y t}" using weak_order_irrefl [OF assms(3,2)] by simp
    then show "{y \<in> A. ord y t} \<noteq> {y \<in> A. ord y x}" using assms(2) x(2) by blast
  qed
  then have "card {y \<in> A. ord y t} < card {y \<in> A. ord y x}" using assms(1) by (intro psubset_card_mono) auto
  then show ?thesis using Some by (simp add: link_cost_def)
qed

lemma relinked_cost:
  assumes "finite K" "c \<in> K" "\<And>b. scheduled_on (rt_param (tasks s t)) = Some b \<Longrightarrow> b \<in> K"
    "f (Some t) < (f (linked s c) :: nat)"
  shows "(\<Sum>a\<in>K. f (relinked t c s a)) < (\<Sum>a\<in>K. f (linked s a))"
proof (cases "\<exists>b. scheduled_on (rt_param (tasks s t)) = Some b \<and> c \<noteq> b")
  case False
  then have "relinked t c s = (linked s)(c := Some t)" by (auto simp: relinked_def split: option.splits)
  then show ?thesis
    using assms(1,2,4) by (intro sum_strict_mono_ex1) auto
next
  case True
  then obtain b where b: "scheduled_on (rt_param (tasks s t)) = Some b" "c \<noteq> b" by blast
  then have r: "relinked t c s = (linked s)(b := Some t, c := linked s b)" by (simp add: relinked_def)
  have bK: "b \<in> K" using assms(3) b(1) .
  have split: "(\<Sum>a\<in>K. g a) = g c + (g b + (\<Sum>a\<in>K - {c} - {b}. g a))" for g :: "nat \<Rightarrow> nat"
    using sum.remove [OF assms(1,2), of g] sum.remove [of "K - {c}" b g] assms(1) bK b(2) by simp
  have "(\<Sum>a\<in>K - {c} - {b}. f (relinked t c s a)) = (\<Sum>a\<in>K - {c} - {b}. f (linked s a))"
    by (rule sum.cong) (auto simp: r)
  then show ?thesis unfolding split using assms(4) b(2) by (simp add: r)
qed

text \<open>No CPU of the cluster has a linked task that a ready task beats: the links are those of EDF.\<close>

definition edf_linked :: "cpu_id set \<Rightarrow> nat \<Rightarrow> (tid \<Rightarrow> place) \<Rightarrow> 'z gstate_scheme \<Rightarrow> bool" where
  "edf_linked C d pl s \<longleftrightarrow> (\<forall>c \<in> C. cluster s c = d \<longrightarrow> \<not> needs_preemption d pl c s)"

lemma pool_finite:
  assumes "gsn_inv C pl s" "finite C"
  shows "finite (pool d pl s)"
proof -
  have "{x. pl x = Ready d} = set_mset (ready_of s d)"
    using placed_simps(3) [OF gsn_invD(5) [OF assms(1)]] by auto
  then have "finite {x. pl x = Ready d}" by simp
  moreover have "{x. \<exists>c. cluster s c = d \<and> linked s c = Some x} \<subseteq> the ` linked s ` C"
  proof
    fix x assume "x \<in> {x. \<exists>c. cluster s c = d \<and> linked s c = Some x}"
    then obtain c where c: "linked s c = Some x" by blast
    then have "c \<in> C" using linkageD(1) [OF gsn_invD(3) [OF assms(1)]] by blast
    then show "x \<in> the ` linked s ` C" using c by force
  qed
  ultimately show ?thesis using assms(2) unfolding pool_def by (meson finite_UnI finite_imageI finite_subset)
qed

lemma pool_edf_ok:
  assumes "gsn_inv C pl s"
  shows "pool d pl s \<subseteq> {t. edf_ok (tasks s t)}"
  using placed_simps(6) [OF gsn_invD(5) [OF assms]] linkageD(2) [OF gsn_invD(3) [OF assms]] by (auto simp: pool_def)

lemma pool_linked: "linked s c = Some l \<Longrightarrow> cluster s c = d \<Longrightarrow> l \<in> pool d pl s"
  by (auto simp: pool_def)

text \<open>If the CPU of lowest priority needs no preemption, then no CPU of the cluster does.\<close>

lemma edf_linked_lowest:
  assumes inv: "gsn_inv C pl s" and c: "c \<in> C" "cluster s c = d"
    and low: "\<And>a. a \<in> C \<Longrightarrow> cluster s a = d \<Longrightarrow> \<not> cpu_lower_prio s a c"
    and no: "\<not> needs_preemption d pl c s"
  shows "edf_linked C d pl s"
  unfolding edf_linked_def
proof (intro ballI impI notI)
  fix a assume a: "a \<in> C" "cluster s a = d" "needs_preemption d pl a s"
  then obtain x where x: "pl x = Ready d" "case linked s a of None \<Rightarrow> True | Some l \<Rightarrow> edf_ready_order s x l"
    by (auto simp: needs_preemption_def)
  obtain l where l: "linked s c = Some l" "\<not> edf_ready_order s x l"
    using no x(1) by (auto simp: needs_preemption_def split: option.splits)
  obtain l' where l': "linked s a = Some l'" "\<not> edf_ready_order s l l'"
    using low [OF a(1,2)] l(1) by (cases "linked s a") (auto simp: cpu_lower_prio_def edf_ready_order_def)
  note w = queue_inv_weak_order(1) [OF gsn_invD(1) [OF inv]] and p = pool_edf_ok [OF inv, of d]
  have "x \<in> pool d pl s" "l \<in> pool d pl s" "l' \<in> pool d pl s"
    using x(1) l(1) l'(1) a(2) c(2) by (auto simp: pool_def)
  then have "\<not> edf_ready_order s x l'" using weak_order_ntrans [OF w l(2) l'(2)] p by blast
  then show False using x(2) l'(1) by simp
qed

lemma best_ready_beats:
  assumes inv: "gsn_inv C pl s" and c: "c \<in> C" "cluster s c = d" and need: "needs_preemption d pl c s"
    and t: "pl t = Ready d" "\<forall>x. pl x = Ready d \<longrightarrow> \<not> edf_ready_order s x t"
  shows "case linked s c of None \<Rightarrow> True | Some l \<Rightarrow> l \<in> pool d pl s \<and> edf_ready_order s t l"
proof (cases "linked s c")
  case (Some l)
  obtain x where x: "pl x = Ready d" "edf_ready_order s x l" using need Some by (auto simp: needs_preemption_def)
  have in_pool: "x \<in> pool d pl s" "t \<in> pool d pl s" "l \<in> pool d pl s" using x(1) t(1) Some c(2) by (auto simp: pool_def)
  have "edf_ready_order s t l"
  proof (rule ccontr)
    assume "\<not> edf_ready_order s t l"
    then have "\<not> edf_ready_order s x l"
      using weak_order_ntrans [OF queue_inv_weak_order(1) [OF gsn_invD(1) [OF inv]], of x t l] t(2) x(1)
        pool_edf_ok [OF inv, of d] in_pool by blast
    then show False using x(2) by blast
  qed
  then show ?thesis using Some in_pool by simp
qed simp

text \<open>
  The loop ends. It keeps the invariant and the pool of ready and linked tasks, and leaves all links
  of the cluster as EDF wants them.
\<close>

lemma check_for_preemptions_ok:
  assumes "gsn_inv C pl s" "finite C" "\<exists>c \<in> C. cluster s c = d"
    and "\<And>x i. x \<in> pool d pl s \<Longrightarrow> is_released (tasks s x) (clk i)"
  shows "ok (check_for_preemptions d clk s) (\<lambda>s'. \<exists>pl'. gsn_inv C pl' s' \<and> edf_linked C d pl' s' \<and>
    pool d pl' s' = pool d pl s \<and> (\<forall>x. x \<notin> pool d pl s \<longrightarrow> pl' x = pl x) \<and>
    (\<forall>c. cluster s c \<noteq> d \<longrightarrow> linked s' c = linked s c) \<and> gframe s s')"
  using assms
proof (induction "\<Sum>a\<in>{a \<in> C. cluster s a = d}. link_cost (edf_ready_order s) (pool d pl s) (linked s a)"
    arbitrary: pl s clk rule: less_induct)
  case less
  note inv = less.prems(1)
  let ?K = "{a \<in> C. cluster s a = d}" and ?A = "pool d pl s"
  from preemption_test_ok [OF inv less.prems(3)]
  obtain c b s1 where t1: "preemption_test d s = Some (c, b, s1)" "gsn_inv C pl s1" "c \<in> C" "cluster s c = d"
    "\<And>a. a \<in> C \<Longrightarrow> cluster s a = d \<Longrightarrow> \<not> cpu_lower_prio s a c" "b \<longleftrightarrow> needs_preemption d pl c s"
    "tasks s1 = tasks s" "linked s1 = linked s" "gframe s s1"
    by (auto simp: ok_iff_ex)
  have ord1: "edf_ready_order s1 = edf_ready_order s" by (rule same_links_order [OF gframeD(1) [OF t1(9)]])
  have need1: "needs_preemption d pl a s1 = needs_preemption d pl a s" for a
    unfolding needs_preemption_def ord1 t1(8) ..
  have pool1: "pool d pl s1 = ?A" by (simp add: pool_def t1(8) gframeD(5) [OF t1(9)])
  show ?case
  proof (cases b)
    case False
    then have "edf_linked C d pl s" using edf_linked_lowest [OF inv t1(3-5)] t1(6) by blast
    then have "edf_linked C d pl s1" by (simp add: edf_linked_def need1 gframeD(5) [OF t1(9)])
    then show ?thesis
      using t1(2,8,9) pool1 False by (subst check_for_preemptions.simps) (auto simp: t1(1) intro!: exI [of _ pl])
  next
    case True
    have c1: "cluster s1 c = d" using t1(4) gframeD(5) [OF t1(9)] by simp
    have nd: "needs_preemption d pl c s1" using True t1(6) need1 by simp
    have rel: "is_released (tasks s1 l) (clk 0)" if "linked s1 c = Some l" for l
      using less.prems(4) [of l 0] that t1(4,7,8) by (simp add: pool_linked)
    from preempt_lowest_ok [OF t1(2,3) c1 nd rel]
    obtain t s2 where s2: "preempt_lowest d (clk 0) c s1 = Some s2" "pl t = Ready d"
      "\<forall>x. pl x = Ready d \<longrightarrow> \<not> edf_ready_order s1 x t" "gsn_inv C (swapped d t (linked s1 c) pl) s2"
      "linked s2 = relinked t c s1" "gframe s1 s2"
      by (auto simp: ok_iff_ex)
    let ?pl = "swapped d t (linked s1 c) pl"
    have fr: "gframe s s2" by (rule gframe_trans [OF t1(9) s2(6)])
    have tA: "t \<in> ?A" using s2(2) by (simp add: pool_def)
    have okt: "edf_ok (tasks s1 t)" using pool_edf_ok [OF t1(2)] tA pool1 by blast
    have ht: "home s1 (tasks s1 t) = d" using gsn_invD(5) [OF t1(2)] s2(2) by (simp add: placed_def)
    note pr = pool_round [OF t1(2) c1 s2(2) ht okt s2(5) gframeD(5) [OF s2(6)]]
    have pool2: "pool d ?pl s2 = ?A" using pr(1) pool1 by simp
    have ord2: "edf_ready_order s2 = edf_ready_order s" by (rule same_links_order [OF gframeD(1) [OF fr]])
    have beats: "case linked s c of None \<Rightarrow> True | Some l \<Rightarrow> l \<in> ?A \<and> edf_ready_order s t l"
      using best_ready_beats [OF t1(2,3) c1 nd s2(2,3)] unfolding pool1 ord1 t1(8) .
    have w: "weak_order_on ?A (edf_ready_order s)"
      by (rule weak_order_mono [OF queue_inv_weak_order(1) [OF gsn_invD(1) [OF inv]] pool_edf_ok [OF inv]])
    have rt: "is_realtime (tasks s1 t)" using okt by (simp add: edf_ok_def)
    have K: "x \<in> ?K" if "scheduled_on (rt_param (tasks s1 t)) = Some x" for x
      using schedule_okD(1,3) [OF gsn_invD(4) [OF t1(2)] rt that] ht gframeD(5) [OF t1(9)] by simp
    have "(\<Sum>a\<in>?K. link_cost (edf_ready_order s) ?A (relinked t c s1 a)) <
        (\<Sum>a\<in>?K. link_cost (edf_ready_order s) ?A (linked s1 a))"
      by (rule relinked_cost [OF _ _ K])
        (use link_cost_less [OF pool_finite [OF inv less.prems(2)] tA w beats] less.prems(2) t1(3,4,8) in simp_all)
    then have dec: "(\<Sum>a\<in>{a \<in> C. cluster s2 a = d}. link_cost (edf_ready_order s2) (pool d ?pl s2) (linked s2 a)) <
        (\<Sum>a\<in>?K. link_cost (edf_ready_order s) ?A (linked s a))"
      by (simp add: ord2 pool2 [unfolded t1(8)] s2(5) t1(8) gframeD(5) [OF fr])
    have ne: "\<exists>c \<in> C. cluster s2 c = d" using less.prems(3) gframeD(5) [OF fr] by simp
    have rel2: "is_released (tasks s2 x) (clk (Suc i))" if "x \<in> pool d ?pl s2" for x i
      using less.prems(4) [of x "Suc i"] that pool2 lview_view(8) [OF gframeD(8) [OF fr]] by simp
    from less.hyps [OF dec s2(4) less.prems(2) ne rel2]
    have ih: "ok (check_for_preemptions d (\<lambda>i. clk (Suc i)) s2) (\<lambda>s'. \<exists>pl'. gsn_inv C pl' s' \<and> edf_linked C d pl' s' \<and>
        pool d pl' s' = ?A \<and> (\<forall>x. x \<notin> ?A \<longrightarrow> pl' x = ?pl x) \<and>
        (\<forall>c. cluster s c \<noteq> d \<longrightarrow> linked s' c = linked s2 c) \<and> gframe s2 s')"
      by (simp add: pool2 gframeD(5) [OF fr])
    have out: "linked s2 a = linked s a" if "cluster s a \<noteq> d" for a
      using that K t1(4,8) s2(5) by (auto simp: relinked_def split: option.splits)
    have pl: "?pl x = pl x" if "x \<notin> ?A" for x using pr(2) that pool1 by simp
    have "check_for_preemptions d clk s = check_for_preemptions d (\<lambda>i. clk (Suc i)) s2"
      using True by (subst check_for_preemptions.simps) (simp add: t1(1) s2(1))
    moreover have "ok (check_for_preemptions d (\<lambda>i. clk (Suc i)) s2) (\<lambda>s'. \<exists>pl'. gsn_inv C pl' s' \<and> edf_linked C d pl' s' \<and>
        pool d pl' s' = ?A \<and> (\<forall>x. x \<notin> ?A \<longrightarrow> pl' x = pl x) \<and> (\<forall>c. cluster s c \<noteq> d \<longrightarrow> linked s' c = linked s c) \<and> gframe s s')"
    proof (rule ok_mono [OF ih], elim exE conjE)
      fix s' pl'
      assume "gsn_inv C pl' s'" "edf_linked C d pl' s'" "pool d pl' s' = ?A" "\<forall>x. x \<notin> ?A \<longrightarrow> pl' x = ?pl x"
        "\<forall>c. cluster s c \<noteq> d \<longrightarrow> linked s' c = linked s2 c" "gframe s2 s'"
      then show "\<exists>pl'. gsn_inv C pl' s' \<and> edf_linked C d pl' s' \<and> pool d pl' s' = ?A \<and>
          (\<forall>x. x \<notin> ?A \<longrightarrow> pl' x = pl x) \<and> (\<forall>c. cluster s c \<noteq> d \<longrightarrow> linked s' c = linked s c) \<and> gframe s s'"
        using out pl gframe_trans [OF fr] by (intro exI [of _ pl']) simp
    qed
    ultimately show ?thesis by simp
  qed
qed

end
