(* ===== verification/Linked_Handlers.thy ===== *)
theory Linked_Handlers
  imports Linked_Check
begin

text \<open>
  The handlers of GSN-EDF and C-EDF over the invariant of the links: arrivals, releases, the end of a
  job, the scheduler.
\<close>

section \<open>Arrivals and releases\<close>

text \<open>The effect of an operation that ends with \<^verbatim>\<open>check_for_preemptions\<close> for the cluster \<open>d\<close>.\<close>

definition checked ::
  "cpu_id set \<Rightarrow> nat \<Rightarrow> (tid \<Rightarrow> place) \<Rightarrow> tid set \<Rightarrow> 'z gstate_scheme \<Rightarrow> (tid \<Rightarrow> place) \<Rightarrow> 'z gstate_scheme \<Rightarrow> bool"
where
  "checked C d pl A s pl' s' \<longleftrightarrow>
     gsn_inv C pl' s' \<and> edf_linked C d pl' s' \<and> pool d pl' s' = A \<and> (\<forall>x. x \<notin> A \<longrightarrow> pl' x = pl x) \<and>
     (\<forall>c. cluster s c \<noteq> d \<longrightarrow> linked s' c = linked s c) \<and> gframe s s'"

lemma checkedD:
  assumes "checked C d pl A s pl' s'"
  shows "gsn_inv C pl' s'" "edf_linked C d pl' s'" "pool d pl' s' = A" "x \<notin> A \<Longrightarrow> pl' x = pl x"
    "cluster s c \<noteq> d \<Longrightarrow> linked s' c = linked s c" "gframe s s'"
  using assms unfolding checked_def by blast+

lemma checked_place:
  assumes "checked C d pl A s pl' s'" "x \<in> A"
  shows "pl' x = Nowhere \<or> pl' x = Ready d"
proof -
  have "x \<in> pool d pl' s'" using checkedD(3) [OF assms(1)] assms(2) by simp
  then show ?thesis using linkageD(4) [OF gsn_invD(3) [OF checkedD(1) [OF assms(1)]]] by (auto simp: pool_def)
qed

lemma check_checked:
  assumes "gsn_inv C pl s" "finite C" "\<exists>c \<in> C. cluster s c = d"
    "\<And>x i. x \<in> pool d pl s \<Longrightarrow> is_released (tasks s x) (clk i)"
  shows "ok (check_for_preemptions d clk s) (\<lambda>s'. \<exists>pl'. checked C d pl (pool d pl s) s pl' s')"
  using check_for_preemptions_ok [OF assms] by (simp add: checked_def)

text \<open>The same seen from the state before a step on the queues.\<close>

lemma checked_after:
  assumes "checked C d pl1 A s1 pl' s'" "gframe s s1" "linked s1 = linked s" "\<And>x. x \<notin> A \<Longrightarrow> pl1 x = pl x"
  shows "checked C d pl A s pl' s'"
  using assms(1,4) gframe_trans [OF assms(2)] gframeD(5) [OF assms(2)] unfolding checked_def assms(3) by auto

lemma gsn_job_arrival_ok:
  assumes inv: "gsn_inv C pl s" "finite C" and ne: "\<exists>c \<in> C. cluster s c = d"
    and t: "pl t = Nowhere" "edf_ok (tasks s t)" "\<And>c. linked s c \<noteq> Some t" "home s (tasks s t) = d"
    and rel: "\<And>x i. x \<in> pool d pl s \<Longrightarrow> is_released (tasks s x) (clk i)"
      "\<And>i. is_released (tasks s t) (clk 0) \<Longrightarrow> is_released (tasks s t) (clk i)"
  shows "ok (gsn_job_arrival t clk s) (\<lambda>s'. \<exists>pl'.
    if is_released (tasks s t) (clk 0) then checked C d pl (insert t (pool d pl s)) s pl' s'
    else \<exists>r. checked C d (pl(t := Waiting r)) (pool d pl s) s pl' s')"
proof -
  have d: "task_cpu_cluster t s = d" using t(4) by (simp add: task_cpu_cluster_def home_def)
  from gsn_requeue_ok [OF gsn_invD(1) [OF inv(1)] t(1,2), of "clk 0"]
  obtain s1 p where s1: "gsn_requeue t (clk 0) s = Some s1" "queue_inv (home s) (pl(t := p)) s1" "same_jobs s s1"
    "if is_released (tasks s t) (clk 0) then p = Ready d else \<exists>r. p = Waiting r"
    "kstate.more s1 = kstate.more s" "this_cpu s1 = this_cpu s" "curr s1 = curr s"
    by (auto simp: ok_iff_ex t(4))
  have inv1: "gsn_inv C (pl(t := p)) s1"
    by (rule gsn_inv_queue [OF inv(1) s1(2,3,5)]) (use linkageD(4) [OF gsn_invD(3) [OF inv(1)]] t(3) in auto)
  have fr: "gframe s s1" by (rule gframe_queue [OF same_jobs_links [OF s1(3)] s1(5-7)])
  note lk = gstate_more(2) [OF s1(5)]
  have pool1: "pool d (pl(t := p)) s1 = (if is_released (tasks s t) (clk 0) then insert t (pool d pl s) else pool d pl s)"
    using s1(4) t(1) by (auto simp: pool_def lk gframeD(5) [OF fr] split: if_splits)
  have ne1: "\<exists>c \<in> C. cluster s1 c = d" using ne gframeD(5) [OF fr] by simp
  have rel1: "is_released (tasks s1 x) (clk (Suc i))" if "x \<in> pool d (pl(t := p)) s1" for x i
    using that rel lview_view(8) [OF gframeD(8) [OF fr]] by (auto simp: pool1 split: if_splits)
  have run: "gsn_job_arrival t clk s = check_for_preemptions d (\<lambda>i. clk (Suc i)) s1"
    by (simp add: gsn_job_arrival_def d s1(1))
  show ?thesis
    unfolding run
  proof (rule ok_mono [OF check_checked [where clk = "\<lambda>i. clk (Suc i)", OF inv1 inv(2) ne1 rel1]], assumption, elim exE)
    fix s' pl' assume ch: "checked C d (pl(t := p)) (pool d (pl(t := p)) s1) s1 pl' s'"
    show "\<exists>pl'. if is_released (tasks s t) (clk 0) then checked C d pl (insert t (pool d pl s)) s pl' s'
        else \<exists>r. checked C d (pl(t := Waiting r)) (pool d pl s) s pl' s'"
    proof (cases "is_released (tasks s t) (clk 0)")
      case True
      have "checked C d pl (insert t (pool d pl s)) s pl' s'"
        by (rule checked_after [OF ch [unfolded pool1] fr lk, simplified True if_True]) auto
      then show ?thesis using True by auto
    next
      case False
      then obtain r where "p = Waiting r" using s1(4) by auto
      then show ?thesis using checked_after [OF ch [unfolded pool1] fr lk, of "pl(t := p)"] False by auto
    qed
  qed
qed

lemma gsn_release_ok:
  assumes inv: "gsn_inv C pl s" "finite C" and r: "rh_timer (rel_heaps s r) \<noteq> None" "rh_dom (rel_heaps s r) = d"
    and ne: "\<exists>c \<in> C. cluster s c = d"
    and rel: "\<And>x i. x \<in> pool d pl s \<or> pl x = Waiting r \<Longrightarrow> is_released (tasks s x) (clk i)"
  shows "ok (on_release_timer (gsn_release_jobs clk) r s)
    (\<lambda>s'. \<exists>pl'. checked C d pl (pool d pl s \<union> {x. pl x = Waiting r}) s pl' s')"
proof -
  have "release_ok pl s" using gsn_invD(1) [OF inv(1)] by (simp add: queue_inv_def)
  then have pr: "pl r = Waiting r" using release_okD(6) [of pl s r] r(1) by auto
  let ?pl = "\<lambda>x. if pl x = Waiting r then Ready d else pl x" and ?s = "merged r s"
  have q: "queue_inv (home s) ?pl ?s" using queue_inv_merged [OF gsn_invD(1) [OF inv(1)] pr] unfolding r(2) .
  have f: "tasks ?s = tasks s" "kstate.more ?s = kstate.more s" "this_cpu ?s = this_cpu s" "curr ?s = curr s"
    by (simp_all add: merged_def Let_def split: prod.splits)
  have same: "same_jobs s ?s" by (simp add: same_jobs_def f)
  have inv1: "gsn_inv C ?pl ?s"
    by (rule gsn_inv_queue [OF inv(1) q same f(2)]) (use linkageD(4) [OF gsn_invD(3) [OF inv(1)]] in auto)
  have fr: "gframe s ?s" by (rule gframe_queue [OF same_jobs_links [OF same] f(2-4)])
  note lk = gstate_more(2) [OF f(2)]
  have pool1: "pool d ?pl ?s = pool d pl s \<union> {x. pl x = Waiting r}"
    by (auto simp: pool_def lk gframeD(5) [OF fr])
  have "on_release_timer (gsn_release_jobs clk) r s = check_for_preemptions d clk ?s"
    using on_release_timer_merged [of dummy_resched r s] r(2)
    by (simp add: on_release_timer_def gsn_release_jobs_def default_release_jobs_def Let_def dummy_resched_def)
  moreover have "ok (check_for_preemptions d clk ?s) (\<lambda>s'. \<exists>pl'. checked C d ?pl (pool d ?pl ?s) ?s pl' s')"
    by (rule check_checked [OF inv1 inv(2)]) (use ne rel pool1 in \<open>auto simp: f(1) gframeD(5) [OF fr]\<close>)
  ultimately have "ok (on_release_timer (gsn_release_jobs clk) r s) (\<lambda>s'. \<exists>pl'. checked C d ?pl (pool d ?pl ?s) ?s pl' s')"
    by simp
  then show ?thesis
  proof (rule ok_mono, elim exE)
    fix s' pl' assume "checked C d ?pl (pool d ?pl ?s) ?s pl' s'"
    then have "checked C d pl (pool d pl s \<union> {x. pl x = Waiting r}) s pl' s'"
      unfolding pool1 by (rule checked_after [OF _ fr lk]) auto
    then show "\<exists>pl'. checked C d pl (pool d pl s \<union> {x. pl x = Waiting r}) s pl' s'" by blast
  qed
qed

section \<open>The end of a job\<close>

definition next_job :: "task_struct \<Rightarrow> task_struct" where
  "next_job p = prepare_for_next_period (set_rt_flags RT_F_SLEEP p)"

lemma next_job_simps [simp]:
  "pid (next_job p) = pid p" "in_heap (rt_param (next_job p)) = in_heap (rt_param p)"
  "get_partition (next_job p) = get_partition p" "linked_on (rt_param (next_job p)) = linked_on (rt_param p)"
  "scheduled_on (rt_param (next_job p)) = scheduled_on (rt_param p)" "is_running (next_job p) = is_running p"
  "is_realtime (next_job p) = is_realtime p"
  by (simp_all add: next_job_def prepare_for_next_period_def rt_simps is_running_def)

lemma gsn_job_completion_ok:
  assumes inv: "gsn_inv C pl s" "finite C" and l: "linked s c = Some t" "cluster s c = d"
    and t: "edf_ok (next_job (tasks s t))" "is_running (tasks s t)"
    and rel: "\<And>x i. x \<in> pool d pl s \<Longrightarrow> x \<noteq> t \<Longrightarrow> is_released (tasks s x) (clk i)"
      "\<And>i. is_released (next_job (tasks s t)) (clk 0) \<Longrightarrow> is_released (next_job (tasks s t)) (clk i)"
  defines "s0 \<equiv> upd_task t next_job s"
  shows "ok (gsn_job_completion t clk s) (\<lambda>s'. \<exists>pl'.
    if is_released (next_job (tasks s t)) (clk 0) then checked C d pl (pool d pl s) s0 pl' s'
    else \<exists>r. checked C d (pl(t := Waiting r)) (pool d pl s - {t}) s0 pl' s')"
proof -
  note lk = gsn_invD(3) [OF inv(1)]
  note lt = linkageD(1-5) [OF lk l(1), simplified]
  have upd: "upd_task t (\<lambda>_. next_job (tasks s t)) s = s0" by (simp add: s0_def upd_task_def)
  from unlink_linked_ok [OF inv(1) l(1), of "next_job (tasks s t)", unfolded upd] lt t(1)
  obtain s1 where s1: "unlink (Some t) s0 = Some s1" "gsn_inv C pl s1" "linked s1 = (linked s)(c := None)" "link_frame s0 s1"
    by (auto simp: ok_iff_ex)
  note fr = link_frame_gframe [OF s1(4)]
  have v: "lview (tasks s1 x) = lview (tasks s0 x)" for x by (rule gframeD(8) [OF fr])
  have cl: "cluster s1 = cluster s" using gframeD(5) [OF fr] by (simp add: s0_def)
  have other: "linked s a \<noteq> Some t" if "a \<noteq> c" for a using linkageD(6) [OF lk l(1), of a] that by blast
  have free: "linked s1 a \<noteq> Some t" for a using other [of a] s1(3) by auto
  have pool1: "pool d pl s1 = pool d pl s - {t}"
  proof (intro set_eqI iffI)
    fix x assume "x \<in> pool d pl s1"
    then show "x \<in> pool d pl s - {t}" using other lt(4) by (auto simp: pool_def cl s1(3) split: if_splits)
  next
    fix x assume x: "x \<in> pool d pl s - {t}"
    then consider "pl x = Ready d" | a where "cluster s a = d" "linked s a = Some x" by (auto simp: pool_def)
    then show "x \<in> pool d pl s1"
    proof cases
      case (2 a)
      then have "a \<noteq> c" using l(1) x by auto
      then show ?thesis using 2 by (auto simp: pool_def cl s1(3))
    qed (simp add: pool_def)
  qed
  have okt: "edf_ok (tasks s1 t)" "is_running (tasks s1 t)" "is_released (tasks s1 t) now = is_released (next_job (tasks s t)) now"
    "get_partition (tasks s1 t) = get_partition (tasks s t)" for now
    using t lview_view [OF v [of t]] by (simp_all add: s0_def)
  have home: "home s1 (tasks s1 t) = d" using lt(3) l(2) okt(4) cl by (simp add: home_def)
  have rel1: "is_released (tasks s1 x) (clk i)" if "x \<in> pool d pl s1" for x i
    using that rel(1) lview_view(8) [OF v [of x]] by (simp add: pool1 s0_def)
  have tin: "insert t (pool d pl s - {t}) = pool d pl s" using l by (auto simp: pool_def)
  have lnk: "linked s1 a = linked s0 a" if "cluster s0 a \<noteq> d" for a using that l(2) s1(3) by (auto simp: s0_def)
  have after: "checked C d pl' A s0 pl'' s'" if "checked C d pl' A s1 pl'' s'" for pl' A pl'' s'
    using that lnk gframe_trans [OF fr] unfolding checked_def by (auto simp: cl s0_def)
  have "ok (gsn_job_arrival t clk s1) (\<lambda>s'. \<exists>pl'.
      if is_released (tasks s1 t) (clk 0) then checked C d pl (insert t (pool d pl s1)) s1 pl' s'
      else \<exists>r. checked C d (pl(t := Waiting r)) (pool d pl s1) s1 pl' s')"
    by (rule gsn_job_arrival_ok [OF s1(2) inv(2) _ _ okt(1) free home rel1])
      (use lt(1,4) l(2) rel(2) in \<open>auto simp: cl okt(3)\<close>)
  then have "ok (gsn_job_arrival t clk s1) (\<lambda>s'. \<exists>pl'.
      if is_released (next_job (tasks s t)) (clk 0) then checked C d pl (pool d pl s) s0 pl' s'
      else \<exists>r. checked C d (pl(t := Waiting r)) (pool d pl s - {t}) s0 pl' s')"
  proof (rule ok_mono)
    fix s' assume "\<exists>pl'. if is_released (tasks s1 t) (clk 0) then checked C d pl (insert t (pool d pl s1)) s1 pl' s'
      else \<exists>r. checked C d (pl(t := Waiting r)) (pool d pl s1) s1 pl' s'"
    then show "\<exists>pl'. if is_released (next_job (tasks s t)) (clk 0) then checked C d pl (pool d pl s) s0 pl' s'
      else \<exists>r. checked C d (pl(t := Waiting r)) (pool d pl s - {t}) s0 pl' s'"
      unfolding okt(3) pool1 tin
      by (cases "is_released (next_job (tasks s t)) (clk 0)") (auto dest: after)
  qed
  moreover have "gsn_job_completion t clk s = gsn_job_arrival t clk s1"
    using s1(1) okt(2) by (simp add: gsn_job_completion_def s0_def next_job_def [abs_def])
  ultimately show ?thesis by simp
qed

section \<open>EDF and time\<close>

text \<open>No ready task beats a task that is linked in its cluster.\<close>

definition links_edf :: "(tid \<Rightarrow> place) \<Rightarrow> 'z gstate_scheme \<Rightarrow> bool" where
  "links_edf pl s \<longleftrightarrow>
     (\<forall>c l x. linked s c = Some l \<longrightarrow> pl x = Ready (cluster s c) \<longrightarrow> \<not> edf_ready_order s x l)"

text \<open>The release of every ready or linked task has come at time \<open>n\<close>.\<close>

definition timely :: "lt_t \<Rightarrow> (tid \<Rightarrow> place) \<Rightarrow> 'z gstate_scheme \<Rightarrow> bool" where
  "timely n pl s \<longleftrightarrow>
     (\<forall>x. (\<exists>d. pl x = Ready d) \<or> (\<exists>c. linked s c = Some x) \<longrightarrow> get_release (tasks s x) \<le> n)"

definition ginv :: "cpu_id set \<Rightarrow> lt_t \<Rightarrow> (tid \<Rightarrow> place) \<Rightarrow> 'z gstate_scheme \<Rightarrow> bool" where
  "ginv C n pl s \<longleftrightarrow> gsn_inv C pl s \<and> finite C \<and> links_edf pl s \<and> timely n pl s"

text \<open>The readings of the clock in a call between the times \<open>n\<close> and \<open>n'\<close>.\<close>

definition clk_ok :: "lt_t \<Rightarrow> (nat \<Rightarrow> lt_t) \<Rightarrow> lt_t \<Rightarrow> bool" where
  "clk_ok n clk n' \<longleftrightarrow> (\<forall>i. n \<le> clk i \<and> clk i \<le> clk (Suc i) \<and> clk i \<le> n') \<and> n' < 2 ^ 63"

text \<open>The tasks that are in a queue or linked.\<close>

definition held :: "(tid \<Rightarrow> place) \<Rightarrow> 'z gstate_scheme \<Rightarrow> tid set" where
  "held pl s = {x. pl x \<noteq> Nowhere \<or> (\<exists>c. linked s c = Some x)}"

lemma ginvD:
  assumes "ginv C n pl s"
  shows "gsn_inv C pl s" "finite C" "links_edf pl s" "timely n pl s" "linkage C {} pl s" "schedule_ok C s"
    "placed (home s) pl s"
  using assms gsn_invD by (auto simp: ginv_def)

lemma clk_ok_Suc: "clk_ok n clk n' \<Longrightarrow> clk_ok n (\<lambda>i. clk (Suc i)) n'"
  by (simp add: clk_ok_def)

lemma clk_okD:
  assumes "clk_ok n clk n'"
  shows "n \<le> clk i" "clk i \<le> n'" "clk 0 \<le> clk i" "n \<le> n'" "n' < 2 ^ 63" "clk i < 2 ^ 63"
proof -
  have c: "n \<le> clk i" "clk i \<le> clk (Suc i)" "clk i \<le> n'" "n' < 2 ^ 63" for i
    using assms by (simp_all add: clk_ok_def)
  show "n \<le> clk i" "clk i \<le> n'" "n' < 2 ^ 63" using c by simp_all
  show "clk 0 \<le> clk i"
  proof (induction i)
    case (Suc i)
    then show ?case using c(2) [of i] by (rule order_trans)
  qed simp
  show "n \<le> n'" using c(1) [of 0] c(3) [of 0] by (rule order_trans)
  show "clk i < 2 ^ 63" using c(3) [of i] c(4) by (rule le_less_trans)
qed

lemma is_released_le:
  assumes "edf_ok p" "now < 2 ^ 63"
  shows "is_released p now \<longleftrightarrow> get_release p \<le> now"
  using assms unfolding is_released_def edf_ok_def
  by (intro lt_before_eq_small) (simp_all add: word_less_nat_alt)

lemma timely_pool:
  assumes "ginv C n pl s" "clk_ok n clk n'" "x \<in> pool d pl s"
  shows "is_released (tasks s x) (clk i)"
proof -
  have "get_release (tasks s x) \<le> n" using ginvD(4) [OF assms(1)] assms(3) by (auto simp: timely_def pool_def)
  then have "get_release (tasks s x) \<le> clk i" using clk_okD(1) [OF assms(2)] by (rule order_trans)
  then show ?thesis
    using is_released_le [OF _ clk_okD(6) [OF assms(2)]] pool_edf_ok [OF ginvD(1) [OF assms(1)]] assms(3) by blast
qed

lemma released_later:
  assumes "edf_ok p" "clk_ok n clk n'" "is_released p (clk 0)"
  shows "is_released p (clk i)"
  using assms(3) order_trans [OF _ clk_okD(3) [OF assms(2)]]
  by (simp add: is_released_le [OF assms(1) clk_okD(6) [OF assms(2)]])

lemma checked_links_edf:
  assumes ch: "checked C d pl A s pl' s'"
    and old: "\<And>c l x. cluster s c \<noteq> d \<Longrightarrow> linked s c = Some l \<Longrightarrow> pl x = Ready (cluster s c) \<Longrightarrow> \<not> edf_ready_order s x l"
  shows "links_edf pl' s'"
  unfolding links_edf_def
proof (intro allI impI)
  fix c l x assume l: "linked s' c = Some l" and x: "pl' x = Ready (cluster s' c)"
  note cl = gframeD(5) [OF checkedD(6) [OF ch]]
  show "\<not> edf_ready_order s' x l"
  proof (cases "cluster s c = d")
    case True
    have "c \<in> C" by (rule linkageD(1) [OF gsn_invD(3) [OF checkedD(1) [OF ch]] l])
    then have "\<not> needs_preemption d pl' c s'" using checkedD(2) [OF ch] True cl by (simp add: edf_linked_def)
    then show ?thesis using l x True cl by (auto simp: needs_preemption_def)
  next
    case False
    have "x \<notin> A" using checked_place [OF ch, of x] x False cl by auto
    then have "pl x = Ready (cluster s c)" using checkedD(4) [OF ch] x cl by simp
    moreover have "linked s c = Some l" using checkedD(5) [OF ch False] l by simp
    ultimately show ?thesis
      using old [OF False] same_links_order [OF gframeD(1) [OF checkedD(6) [OF ch]]] by simp
  qed
qed

lemma checked_linked:
  assumes ch: "checked C d pl A s pl' s'"
  shows "(\<exists>c. linked s' c = Some x) \<or> (\<exists>e. pl' x = Ready e) \<Longrightarrow>
      x \<in> A \<or> (\<exists>c. cluster s c \<noteq> d \<and> linked s c = Some x) \<or> (\<exists>e. pl x = Ready e)"
proof -
  note cl = gframeD(5) [OF checkedD(6) [OF ch]]
  assume "(\<exists>c. linked s' c = Some x) \<or> (\<exists>e. pl' x = Ready e)"
  then consider c where "linked s' c = Some x" "cluster s c = d" | c where "linked s' c = Some x" "cluster s c \<noteq> d"
    | e where "pl' x = Ready e" by blast
  then show "x \<in> A \<or> (\<exists>c. cluster s c \<noteq> d \<and> linked s c = Some x) \<or> (\<exists>e. pl x = Ready e)"
  proof cases
    case (1 c)
    then have "x \<in> pool d pl' s'" by (auto simp: pool_def cl)
    then show ?thesis using checkedD(3) [OF ch] by simp
  next
    case (2 c)
    then show ?thesis using checkedD(5) [OF ch] by auto
  next
    case (3 e)
    then show ?thesis using checkedD(4) [OF ch, of x] by (cases "x \<in> A") auto
  qed
qed

lemma checked_held:
  assumes ch: "checked C d pl A s pl' s'"
  shows "held pl' s' = A \<union> {x. x \<notin> A \<and> pl x \<noteq> Nowhere} \<union> {x. \<exists>c. cluster s c \<noteq> d \<and> linked s c = Some x}"
    (is "_ = ?R")
proof (intro set_eqI iffI)
  note cl = gframeD(5) [OF checkedD(6) [OF ch]]
  fix x
  show "x \<in> ?R" if "x \<in> held pl' s'"
  proof (cases "x \<in> A")
    case False
    then have n: "x \<notin> pool d pl' s'" and p: "pl' x = pl x" using checkedD(3,4) [OF ch] by simp_all
    from that consider "pl' x \<noteq> Nowhere" | c where "linked s' c = Some x" by (auto simp: held_def)
    then show ?thesis
    proof cases
      case (2 c)
      then have "cluster s c \<noteq> d" using n by (auto simp: pool_def cl)
      then show ?thesis using checkedD(5) [OF ch] 2 by auto
    qed (use p False in auto)
  qed simp
  assume "x \<in> ?R"
  then consider "x \<in> A" | "x \<notin> A" "pl x \<noteq> Nowhere" | c where "cluster s c \<noteq> d" "linked s c = Some x" by blast
  then show "x \<in> held pl' s'"
  proof cases
    case 1
    then have "x \<in> pool d pl' s'" using checkedD(3) [OF ch] by simp
    then show ?thesis by (auto simp: pool_def held_def)
  next
    case 2
    then show ?thesis using checkedD(4) [OF ch] by (auto simp: held_def)
  next
    case (3 c)
    then have "linked s' c = Some x" using checkedD(5) [OF ch] by simp
    then show ?thesis by (auto simp: held_def)
  qed
qed

text \<open>
  What an operation on cluster \<open>d\<close> does when it starts in a state \<open>s0\<close> that differs from the state
  \<open>s\<close> with the invariant at most in the task \<open>t\<close>, which was in no queue.
\<close>

lemma checked_ginv:
  assumes inv: "ginv C n pl s" and clk: "clk_ok n clk n'" and s0: "s0 = upd_task t (\<lambda>_. p) s"
    and ch: "checked C d pl0 A s0 pl' s'"
    and A: "\<And>x. x \<in> A \<Longrightarrow> get_release (tasks s0 x) \<le> n'"
    and pl0: "\<And>x e. pl0 x = Ready e \<Longrightarrow> pl x = Ready e"
    and t: "pl t = Nowhere" "\<And>c. cluster s c \<noteq> d \<Longrightarrow> linked s c \<noteq> Some t"
  shows "ginv C n' pl' s'"
proof -
  have s0': "tasks s0 x = (if x = t then p else tasks s x)" "linked s0 = linked s" "cluster s0 = cluster s" for x
    by (simp_all add: s0)
  have "links_edf pl' s'"
  proof (rule checked_links_edf [OF ch])
    fix c l x assume c: "cluster s0 c \<noteq> d" and l: "linked s0 c = Some l" and x: "pl0 x = Ready (cluster s0 c)"
    have l': "linked s c = Some l" "l \<noteq> t" and x': "pl x = Ready (cluster s c)" "x \<noteq> t"
      using c l x pl0 t by (auto simp: s0')
    have "inh_task (rt_param (tasks s l)) = None" using linkageD(2) [OF ginvD(5) [OF inv] l'(1)] by (simp add: edf_ok_def)
    moreover have "inh_task (rt_param (tasks s x)) = None"
      using placed_simps(6) [OF ginvD(7) [OF inv], of x] x'(1) by (simp add: edf_ok_def)
    ultimately have "edf_ready_order s0 x l = edf_ready_order s x l"
      using l'(2) x'(2) by (simp add: edf_ready_order_def s0 edf_order_upd_other)
    then show "\<not> edf_ready_order s0 x l" using ginvD(3) [OF inv] l'(1) x'(1) by (simp add: links_edf_def)
  qed
  moreover have "timely n' pl' s'"
    unfolding timely_def
  proof (intro allI impI)
    fix x assume "(\<exists>e. pl' x = Ready e) \<or> (\<exists>c. linked s' c = Some x)"
    then consider "x \<in> A" | "x \<noteq> t" "(\<exists>e. pl x = Ready e) \<or> (\<exists>c. linked s c = Some x)"
      using checked_linked [OF ch, of x] pl0 t by (force simp: s0')
    then have "get_release (tasks s0 x) \<le> n'"
    proof cases
      case 2
      then have "get_release (tasks s x) \<le> n" using ginvD(4) [OF inv] by (auto simp: timely_def)
      then have "get_release (tasks s x) \<le> n'" using clk_okD(4) [OF clk] by (rule order_trans)
      then show ?thesis using 2(1) by (simp add: s0')
    qed (rule A)
    then show "get_release (tasks s' x) \<le> n'" using lview_view(4) [OF gframeD(8) [OF checkedD(6) [OF ch]]] by simp
  qed
  ultimately show ?thesis using checkedD(1) [OF ch] ginvD(2) [OF inv] by (simp add: ginv_def)
qed

lemma checked_waiting:
  assumes "checked C d pl A s pl' s'" "pl' x = Waiting r"
  shows "pl x = Waiting r"
  using checked_place [OF assms(1), of x] checkedD(4) [OF assms(1), of x] assms(2) by fastforce

lemma upd_task_same [simp]: "upd_task t (\<lambda>_. tasks s t) s = s"
  by (simp add: upd_task_def)

lemma held_pool: "held pl s = pool d pl s \<union> {x. x \<notin> pool d pl s \<and> pl x \<noteq> Nowhere} \<union> {x. \<exists>c. cluster s c \<noteq> d \<and> linked s c = Some x}"
  by (auto simp: held_def pool_def)

lemma arrival_ginv:
  assumes inv: "ginv C n pl s" and clk: "clk_ok n clk n'" and ne: "\<exists>c \<in> C. cluster s c = d"
    and t: "pl t = Nowhere" "edf_ok (tasks s t)" "\<And>c. linked s c \<noteq> Some t" "home s (tasks s t) = d"
  shows "ok (gsn_job_arrival t clk s) (\<lambda>s'. \<exists>pl'. ginv C n' pl' s' \<and> edf_linked C d pl' s' \<and> gframe s s' \<and>
    held pl' s' = insert t (held pl s) \<and>
    (\<forall>x r. pl' x = Waiting r \<longrightarrow> pl x = Waiting r \<or> x = t \<and> \<not> is_released (tasks s t) (clk 0)))"
proof -
  note arr = gsn_job_arrival_ok [OF ginvD(1,2) [OF inv] ne t timely_pool [OF inv clk] released_later [OF t(2) clk]]
  have rel: "get_release (tasks s x) \<le> n'" if "x \<in> pool d pl s" for x
  proof -
    have "get_release (tasks s x) \<le> n" using that ginvD(4) [OF inv] by (auto simp: timely_def pool_def)
    then show ?thesis using clk_okD(4) [OF clk] by (rule order_trans)
  qed
  note g = checked_ginv [where t = t and p = "tasks s t" and s = s and s0 = s, OF inv clk upd_task_same [symmetric]]
  show ?thesis
  proof (rule ok_mono [OF arr], assumption, assumption, elim exE)
    fix s' pl'
    assume a: "if is_released (tasks s t) (clk 0) then checked C d pl (insert t (pool d pl s)) s pl' s'
      else \<exists>r. checked C d (pl(t := Waiting r)) (pool d pl s) s pl' s'"
    have "ginv C n' pl' s' \<and> edf_linked C d pl' s' \<and> gframe s s' \<and> held pl' s' = insert t (held pl s) \<and>
        (\<forall>x r. pl' x = Waiting r \<longrightarrow> pl x = Waiting r \<or> x = t \<and> \<not> is_released (tasks s t) (clk 0))"
    proof (cases "is_released (tasks s t) (clk 0)")
      case True
      then have ch: "checked C d pl (insert t (pool d pl s)) s pl' s'" using a by simp
      have "get_release (tasks s t) \<le> n'"
        using True is_released_le [OF t(2) clk_okD(6) [OF clk]] clk_okD(2) [OF clk] by (metis order_trans)
      then have "ginv C n' pl' s'" by (intro g [OF ch]) (use rel t in auto)
      moreover have "held pl' s' = insert t (held pl s)"
        unfolding checked_held [OF ch] held_pool [of pl s d] by auto
      ultimately show ?thesis using checkedD(2,6) [OF ch] checked_waiting [OF ch] by blast
    next
      case False
      then obtain r where ch: "checked C d (pl(t := Waiting r)) (pool d pl s) s pl' s'" using a by auto
      have "ginv C n' pl' s'" by (intro g [OF ch]) (use rel t in \<open>auto split: if_splits\<close>)
      moreover have "t \<notin> pool d pl s" using t(1,3) by (auto simp: pool_def)
      then have "held pl' s' = insert t (held pl s)"
        unfolding checked_held [OF ch] held_pool [of pl s d] by auto
      moreover have "pl x = Waiting e \<or> x = t" if "pl' x = Waiting e" for x e
        using checked_waiting [OF ch that] by (simp split: if_splits)
      ultimately show ?thesis using checkedD(2,6) [OF ch] False by blast
    qed
    then show "\<exists>pl'. ginv C n' pl' s' \<and> edf_linked C d pl' s' \<and> gframe s s' \<and> held pl' s' = insert t (held pl s) \<and>
        (\<forall>x r. pl' x = Waiting r \<longrightarrow> pl x = Waiting r \<or> x = t \<and> \<not> is_released (tasks s t) (clk 0))" by blast
  qed
qed

lemma release_ginv:
  assumes inv: "ginv C n pl s" and clk: "clk_ok n clk n'" and r: "rh_timer (rel_heaps s r) \<noteq> None" "rh_dom (rel_heaps s r) = d"
    and ne: "\<exists>c \<in> C. cluster s c = d" and time: "rh_time (rel_heaps s r) \<le> n"
  shows "ok (on_release_timer (gsn_release_jobs clk) r s) (\<lambda>s'. \<exists>pl'. ginv C n' pl' s' \<and> edf_linked C d pl' s' \<and> gframe s s' \<and>
    held pl' s' = held pl s \<and> (\<forall>x e. pl' x = Waiting e \<longrightarrow> pl x = Waiting e))"
proof -
  have ro: "release_ok pl s" using gsn_invD(1) [OF ginvD(1) [OF inv]] by (simp add: queue_inv_def)
  have w: "get_release (tasks s x) \<le> n" "edf_ok (tasks s x)" if "pl x = Waiting r" for x
    using release_okD(9) [OF ro that] time placed_simps(6) [OF ginvD(7) [OF inv], of x] that by simp_all
  have p: "get_release (tasks s x) \<le> n" if "x \<in> pool d pl s" for x
    using that ginvD(4) [OF inv] by (auto simp: timely_def pool_def)
  have rel: "is_released (tasks s x) (clk i)" if "x \<in> pool d pl s \<or> pl x = Waiting r" for x i
    using that
  proof
    assume x: "pl x = Waiting r"
    show ?thesis
      unfolding is_released_le [OF w(2) [OF x] clk_okD(6) [OF clk]] using w(1) [OF x] clk_okD(1) [OF clk] by (rule order_trans)
  qed (rule timely_pool [OF inv clk])
  show ?thesis
  proof (rule ok_mono [OF gsn_release_ok [OF ginvD(1,2) [OF inv] r ne rel]], assumption, elim exE)
    fix s' pl' assume ch: "checked C d pl (pool d pl s \<union> {x. pl x = Waiting r}) s pl' s'"
    have pr: "pl r = Waiting r" using release_okD(6) [OF ro, of r] r(1) by auto
    have links: "links_edf pl' s'"
      by (rule checked_links_edf [OF ch]) (use ginvD(3) [OF inv] in \<open>simp add: links_edf_def\<close>)
    have "timely n' pl' s'"
      unfolding timely_def
    proof (intro allI impI)
      fix x assume "(\<exists>e. pl' x = Ready e) \<or> (\<exists>c. linked s' c = Some x)"
      then have "x \<in> pool d pl s \<or> pl x = Waiting r \<or> (\<exists>c. linked s c = Some x) \<or> (\<exists>e. pl x = Ready e)"
        using checked_linked [OF ch, of x] by blast
      then have "get_release (tasks s x) \<le> n"
        using w(1) p ginvD(4) [OF inv, unfolded timely_def, rule_format, of x] by blast
      then have "get_release (tasks s x) \<le> n'" using clk_okD(4) [OF clk] by (rule order_trans)
      then show "get_release (tasks s' x) \<le> n'" using lview_view(4) [OF gframeD(8) [OF checkedD(6) [OF ch]]] by simp
    qed
    moreover have "held pl' s' = held pl s"
      unfolding checked_held [OF ch] held_pool [of pl s d] by auto
    ultimately show "\<exists>pl'. ginv C n' pl' s' \<and> edf_linked C d pl' s' \<and> gframe s s' \<and> held pl' s' = held pl s \<and>
        (\<forall>x e. pl' x = Waiting e \<longrightarrow> pl x = Waiting e)"
      using checkedD(1,2,6) [OF ch] links ginvD(2) [OF inv] checked_waiting [OF ch] unfolding ginv_def by blast
  qed
qed

end
