(* ===== verification/Linked_Schedule.thy ===== *)
theory Linked_Schedule
  imports Linked_Handlers
begin

text \<open>The scheduler of GSN-EDF and C-EDF: updating the links of a CPU and the decision.\<close>

section \<open>Parts\<close>

lemma completion_ginv:
  assumes inv: "ginv C n pl s" and clk: "clk_ok n clk n'" and l: "linked s c = Some t" "cluster s c = d"
    and t: "edf_ok (next_job (tasks s t))" "is_running (tasks s t)"
  shows "ok (gsn_job_completion t clk s) (\<lambda>s'. \<exists>pl'. ginv C n' pl' s' \<and> gframe (upd_task t next_job s) s' \<and>
    held pl' s' = held pl s \<and>
    (\<forall>x r. pl' x = Waiting r \<longrightarrow> pl x = Waiting r \<or> x = t \<and> \<not> is_released (next_job (tasks s t)) (clk 0)))"
proof -
  let ?p = "next_job (tasks s t)" and ?s = "upd_task t next_job s"
  note lk = ginvD(5) [OF inv]
  have s0: "?s = upd_task t (\<lambda>_. ?p) s" by (simp add: upd_task_def)
  have s0': "tasks ?s x = (if x = t then ?p else tasks s x)" for x by simp
  have pt: "pl t = Nowhere" using linkageD(4) [OF lk l(1)] by simp
  have only: "linked s a \<noteq> Some t" if "cluster s a \<noteq> d" for a
    using linkageD(6) [OF lk l(1), of a] that l(2) by blast
  have tin: "t \<in> pool d pl s" using l by (auto simp: pool_def)
  have rel: "get_release (tasks s x) \<le> n'" if "x \<in> pool d pl s" for x
  proof -
    have "get_release (tasks s x) \<le> n" using that ginvD(4) [OF inv] by (auto simp: timely_def pool_def)
    then show ?thesis using clk_okD(4) [OF clk] by (rule order_trans)
  qed
  note g = checked_ginv [OF inv clk s0]
  note comp = gsn_job_completion_ok [OF ginvD(1,2) [OF inv] l t timely_pool [OF inv clk] released_later [OF t(1) clk]]
  show ?thesis
  proof (rule ok_mono [OF comp], assumption, assumption, elim exE)
    fix s' pl'
    assume a: "if is_released ?p (clk 0) then checked C d pl (pool d pl s) ?s pl' s'
      else \<exists>r. checked C d (pl(t := Waiting r)) (pool d pl s - {t}) ?s pl' s'"
    have "ginv C n' pl' s' \<and> gframe ?s s' \<and> held pl' s' = held pl s \<and>
        (\<forall>x r. pl' x = Waiting r \<longrightarrow> pl x = Waiting r \<or> x = t \<and> \<not> is_released ?p (clk 0))"
    proof (cases "is_released ?p (clk 0)")
      case True
      then have ch: "checked C d pl (pool d pl s) ?s pl' s'" using a by simp
      have "get_release ?p \<le> n'"
        using True is_released_le [OF t(1) clk_okD(6) [OF clk]] clk_okD(2) [OF clk] by (metis order_trans)
      then have "ginv C n' pl' s'" by (intro g [OF ch]) (use rel pt only in \<open>auto simp: s0'\<close>)
      moreover have "held pl' s' = held pl s"
        unfolding checked_held [OF ch] held_pool [of pl s d] by simp
      ultimately show ?thesis using checkedD(6) [OF ch] checked_waiting [OF ch] by blast
    next
      case False
      then obtain r where ch: "checked C d (pl(t := Waiting r)) (pool d pl s - {t}) ?s pl' s'" using a by auto
      have "ginv C n' pl' s'" by (intro g [OF ch]) (use rel pt only in \<open>auto simp: s0' split: if_splits\<close>)
      moreover have "held pl' s' = held pl s"
        unfolding checked_held [OF ch] held_pool [of pl s d] using tin by auto
      moreover have "pl x = Waiting e \<or> x = t" if "pl' x = Waiting e" for x e
        using checked_waiting [OF ch that] by (simp split: if_splits)
      ultimately show ?thesis using checkedD(6) [OF ch] False by blast
    qed
    then show "\<exists>pl'. ginv C n' pl' s' \<and> gframe ?s s' \<and> held pl' s' = held pl s \<and>
        (\<forall>x r. pl' x = Waiting r \<longrightarrow> pl x = Waiting r \<or> x = t \<and> \<not> is_released ?p (clk 0))" by blast
  qed
qed

lemma ginv_shrink:
  assumes inv: "ginv C n pl s" and inv': "gsn_inv C pl' s'" and fr: "gframe s s'"
    and lk: "\<And>c l. linked s' c = Some l \<Longrightarrow> linked s c = Some l"
    and pl: "\<And>x d. pl' x = Ready d \<Longrightarrow> pl x = Ready d"
  shows "ginv C n pl' s'"
proof -
  note ord = same_links_order [OF gframeD(1) [OF fr]] and v = lview_view(4) [OF gframeD(8) [OF fr]]
  have "links_edf pl' s'"
    using ginvD(3) [OF inv] lk pl unfolding links_edf_def ord gframeD(5) [OF fr] by blast
  moreover have "timely n pl' s'"
    using ginvD(4) [OF inv] lk pl unfolding timely_def v by blast
  ultimately show ?thesis using inv' ginvD(2) [OF inv] by (simp add: ginv_def)
qed

lemma unlink_ginv:
  assumes inv: "ginv C n pl s" and t: "edf_ok (tasks s t)" "\<And>r. pl t \<noteq> Waiting r"
  shows "ok (unlink (Some t) s) (\<lambda>s'. ginv C n (pl(t := Nowhere)) s' \<and> linked s' = unlinked t (linked s) \<and> gframe s s' \<and>
    held (pl(t := Nowhere)) s' = held pl s - {t})"
proof (rule ok_mono [OF unlink_ok [OF ginvD(1) [OF inv] t]], elim conjE)
  fix s' assume a: "gsn_inv C (pl(t := Nowhere)) s'" "linked s' = unlinked t (linked s)" "gframe s s'"
  have "ginv C n (pl(t := Nowhere)) s'"
    by (rule ginv_shrink [OF inv a(1,3)]) (auto simp: a(2) unlinked_def split: if_splits)
  moreover have "unlinked t (linked s) c = Some x \<longleftrightarrow> x \<noteq> t \<and> linked s c = Some x" for c x
    by (auto simp: unlinked_def)
  then have "held (pl(t := Nowhere)) s' = held pl s - {t}"
    by (auto simp: held_def a(2) split: if_splits)
  ultimately show "ginv C n (pl(t := Nowhere)) s' \<and> linked s' = unlinked t (linked s) \<and> gframe s s' \<and>
      held (pl(t := Nowhere)) s' = held pl s - {t}" using a by blast
qed

text \<open>
  Linking the best ready task to a CPU without a linked one. The CPU stays without only if no task is
  ready or if the task was scheduled on another CPU that had no linked task either.
\<close>

lemma link_next_ginv:
  assumes inv: "ginv C n pl s" and c: "c \<in> C" "linked s c = None"
  shows "ok (case take_ready edf_ready_order (cluster s c) s of (t, s) \<Rightarrow> link_task_to_cpu t c s) (\<lambda>s'. \<exists>pl'.
    ginv C n pl' s' \<and> gframe s s' \<and> held pl' s' = held pl s \<and> (\<forall>x r. pl' x = Waiting r \<longrightarrow> pl x = Waiting r) \<and>
    (linked s' c = None \<longrightarrow> (\<forall>x. pl' x \<noteq> Ready (cluster s c)) \<or>
       (\<exists>b \<in> C. b \<noteq> c \<and> cluster s b = cluster s c \<and> linked s b = None)))"
proof -
  let ?d = "cluster s c"
  have hm: "home s (set_in_heap b x) = home s x" for b x by (simp add: home_def)
  obtain r s1 where tk: "take_ready edf_ready_order ?d s = (r, s1)" by fastforce
  note q = gsn_invD(1) [OF ginvD(1) [OF inv]]
  note tr = take_ready_spec [OF q tk hm]
  note g1 = gstate_more [OF tr(8)]
  show ?thesis
  proof (cases r)
    case None
    have same: "same_jobs s s1" using tr(2) [OF None] by (simp add: same_jobs_def)
    have inv1: "gsn_inv C pl s1"
      by (rule gsn_inv_queue [OF ginvD(1) [OF inv] _ same tr(8)]) (use tr(2) [OF None] linkageD(4) [OF ginvD(5) [OF inv]] in auto)
    have fr: "gframe s s1" by (rule gframe_queue [OF same_jobs_links [OF same] tr(8-10)])
    have lk1: "linkage C {c} pl s1" by (rule linkage_queue [OF ginvD(5) [OF inv] same tr(8)]) (use linkageD(4) [OF ginvD(5) [OF inv]] in auto)
    have "ok (link_task_to_cpu None c s1) (\<lambda>s'. gsn_inv C pl s' \<and> linked s' = (linked s1)(c := None) \<and> link_frame s1 s')"
      by (rule link_None_ok [OF gsn_invD(1) [OF inv1] lk1 gsn_invD(4) [OF inv1] c(1) gsn_invD(2) [OF inv1] cluster_heap(3) [OF inv1]]) simp
    then have "ok (link_task_to_cpu None c s1) (\<lambda>s'. \<exists>pl'. ginv C n pl' s' \<and> gframe s s' \<and> held pl' s' = held pl s \<and>
        (\<forall>x r. pl' x = Waiting r \<longrightarrow> pl x = Waiting r) \<and> (\<forall>x. pl' x \<noteq> Ready ?d))"
    proof (rule ok_mono, elim conjE)
      fix s' assume a: "gsn_inv C pl s'" "linked s' = (linked s1)(c := None)" "link_frame s1 s'"
      have l: "linked s' = linked s" using a(2) g1(2) c(2) by auto
      have fr': "gframe s s'" using gframe_trans [OF fr link_frame_gframe [OF a(3)]] .
      have "ginv C n pl s'" by (rule ginv_shrink [OF inv a(1) fr']) (simp_all add: l)
      then show "\<exists>pl'. ginv C n pl' s' \<and> gframe s s' \<and> held pl' s' = held pl s \<and>
          (\<forall>x r. pl' x = Waiting r \<longrightarrow> pl x = Waiting r) \<and> (\<forall>x. pl' x \<noteq> Ready ?d)"
        using fr' tr(1) None by (intro exI [of _ pl]) (simp add: held_def l)
    qed
    then show ?thesis unfolding tk None by simp (erule ok_mono, blast)
  next
    case (Some t)
    note tt = tr(3-6) [OF Some]
    let ?pl = "pl(t := Nowhere)"
    have same: "same_jobs s s1" by (simp add: same_jobs_def tt(2))
    have free: "linked s a \<noteq> Some t" for a using linkageD(4) [OF ginvD(5) [OF inv], of a t] tt(3) by auto
    have inv1: "gsn_inv C ?pl s1"
      by (rule gsn_inv_queue [OF ginvD(1) [OF inv] tt(1) same tr(8)]) (use linkageD(4) [OF ginvD(5) [OF inv]] in auto)
    have fr: "gframe s s1" by (rule gframe_queue [OF same_jobs_links [OF same] tr(8-10)])
    have okt: "edf_ok (tasks s t)" "home s (tasks s t) = ?d"
      using placed_simps(6) [OF ginvD(7) [OF inv], of t] ginvD(7) [OF inv] tt(3) by (auto simp: placed_def)
    have v: "jview (tasks s1 x) = jview (tasks s x)" for x using same by (simp add: same_jobs_def)
    have okt1: "edf_ok (tasks s1 t)" "home s1 (tasks s1 t) = cluster s1 c"
      using okt jview_view(1,2) [OF v, of t] g1(5) by (simp_all add: home_def)
    have lk1: "linkage C {c} ?pl s1"
      by (rule linkage_queue [OF ginvD(5) [OF inv] same tr(8)]) (use linkageD(4) [OF ginvD(5) [OF inv]] in auto)
    have "ok (link_task_to_cpu (Some t) c s1) (\<lambda>s'. gsn_inv C ?pl s' \<and> linked s' = relinked t c s1 \<and> link_frame s1 s')"
      by (rule link_Some_ok [OF gsn_invD(1) [OF inv1] lk1 gsn_invD(4) [OF inv1] c(1) gsn_invD(2) [OF inv1] okt1(1) _ okt1(2)])
        (use free g1(2) in simp_all)
    then have "ok (link_task_to_cpu (Some t) c s1) (\<lambda>s'. \<exists>pl'. ginv C n pl' s' \<and> gframe s s' \<and> held pl' s' = held pl s \<and>
        (\<forall>x r. pl' x = Waiting r \<longrightarrow> pl x = Waiting r) \<and>
        (linked s' c = None \<longrightarrow> (\<forall>x. pl' x \<noteq> Ready ?d) \<or>
           (\<exists>b \<in> C. b \<noteq> c \<and> cluster s b = ?d \<and> linked s b = None)))"
    proof (rule ok_mono, elim conjE)
      fix s' assume a: "gsn_inv C ?pl s'" "linked s' = relinked t c s1" "link_frame s1 s'"
      have fr': "gframe s s'" using gframe_trans [OF fr link_frame_gframe [OF a(3)]] .
      have l: "linked s' = relinked t c s" using a(2) relinked_cong [OF jview_links(2) [OF v] g1(2)] by simp
      have rt: "is_realtime (tasks s t)" using okt(1) by (simp add: edf_ok_def)
      have b: "b \<in> C \<and> cluster s b = ?d" if "scheduled_on (rt_param (tasks s t)) = Some b" for b
        using schedule_okD(1,3) [OF ginvD(6) [OF inv] rt that] okt(2) by simp
      have cases: "l = t \<or> (\<exists>b. linked s b = Some l \<and> cluster s b = cluster s a)" if "relinked t c s a = Some l" for a l
        using that b by (auto simp: relinked_def split: option.splits if_splits)
      note ord = same_links_order [OF gframeD(1) [OF fr']]
      have "links_edf ?pl s'"
        unfolding links_edf_def l ord gframeD(5) [OF fr']
      proof (intro allI impI)
        fix a l x assume al: "relinked t c s a = Some l" and x: "?pl x = Ready (cluster s a)"
        then have x': "pl x = Ready (cluster s a)" by (simp split: if_splits)
        consider "l = t" | b where "linked s b = Some l" "cluster s b = cluster s a" using cases [OF al] by blast
        then show "\<not> edf_ready_order s x l"
        proof cases
          case 1
          have "home s (tasks s t) = cluster s a"
            using linkageD(3) [OF gsn_invD(3) [OF a(1)], of a t] l al 1 lview_view(1) [OF gframeD(8) [OF fr', of t]]
              gframeD(5,7) [OF fr'] by (simp add: home_def)
          then show ?thesis using tt(4) x' okt(2) 1 by simp
        next
          case (2 b)
          then show ?thesis using ginvD(3) [OF inv] x' by (simp add: links_edf_def)
        qed
      qed
      moreover have "timely n ?pl s'"
        unfolding timely_def
      proof (intro allI impI)
        fix x assume x: "(\<exists>d. ?pl x = Ready d) \<or> (\<exists>a. linked s' a = Some x)"
        have "(\<exists>d. pl x = Ready d) \<or> (\<exists>a. linked s a = Some x)"
          using x tt(3) cases [where l = x] by (auto simp: l split: if_splits)
        then show "get_release (tasks s' x) \<le> n"
          using ginvD(4) [OF inv] unfolding timely_def lview_view(4) [OF gframeD(8) [OF fr']] by blast
      qed
      moreover have "held ?pl s' = held pl s"
      proof (intro set_eqI)
        fix x
        have rp: "(\<exists>a. cluster s a = ?d \<and> relinked t c s a = Some x) \<longleftrightarrow>
            x = t \<or> (\<exists>a. cluster s a = ?d \<and> linked s a = Some x \<and> a \<noteq> c)"
          by (rule relinked_pool [OF refl _ linkageD(6) [OF ginvD(5) [OF inv]]]) (use b in auto)
        have out: "relinked t c s a = linked s a" if "cluster s a \<noteq> ?d" for a
          using that b by (auto simp: relinked_def split: option.splits)
        have "(\<exists>a. relinked t c s a = Some x) \<longleftrightarrow> x = t \<or> (\<exists>a. linked s a = Some x)"
          using rp out c(2) by (metis option.distinct(1))
        then show "x \<in> held ?pl s' \<longleftrightarrow> x \<in> held pl s" using tt(3) by (auto simp: held_def l)
      qed
      moreover have "\<exists>b \<in> C. b \<noteq> c \<and> cluster s b = ?d \<and> linked s b = None" if "linked s' c = None"
        using that b by (auto simp: l relinked_def split: option.splits if_splits)
      ultimately show "\<exists>pl'. ginv C n pl' s' \<and> gframe s s' \<and> held pl' s' = held pl s \<and>
          (\<forall>x r. pl' x = Waiting r \<longrightarrow> pl x = Waiting r) \<and>
          (linked s' c = None \<longrightarrow> (\<forall>x. pl' x \<noteq> Ready ?d) \<or>
             (\<exists>b \<in> C. b \<noteq> c \<and> cluster s b = ?d \<and> linked s b = None))"
        using a(1) fr' ginvD(2) [OF inv] by (intro exI [of _ ?pl]) (auto simp: ginv_def split: if_splits)
    qed
    then show ?thesis unfolding tk Some by simp
  qed
qed

section \<open>The links of a CPU\<close>

lemma ginv_mono: "ginv C n pl s \<Longrightarrow> n \<le> n' \<Longrightarrow> ginv C n' pl s"
  by (auto simp: ginv_def timely_def intro: order_trans)

lemma ginv_same:
  assumes inv: "ginv C n pl s" and same: "same_tasks s s'" and f: "doms s' = doms s" "rel_heaps s' = rel_heaps s"
    "tick_period s' = tick_period s" "kstate.more s' = kstate.more s" "this_cpu s' = this_cpu s" "curr s' = curr s"
  shows "ginv C n pl s'" "gframe s s'" "held pl s' = held pl s"
proof -
  show fr: "gframe s s'" by (rule gframe_queue [OF same_tasks_links [OF same] f(4-6)])
  note l = gstate_more(2) [OF f(4)]
  show "ginv C n pl s'" by (rule ginv_shrink [OF inv gsn_inv_same [OF ginvD(1) [OF inv] same f(1-4)] fr]) (simp_all add: l)
  show "held pl s' = held pl s" by (simp add: held_def l)
qed

lemma ginv_request:
  assumes "ginv C n pl s" "tview (f (tasks s t)) = tview (tasks s t)"
  shows "ginv C n pl (upd_task t f s)" "gframe s (upd_task t f s)" "held pl (upd_task t f s) = held pl s"
proof -
  have "same_tasks s (upd_task t f s)" using assms(2) by (simp add: same_tasks_def)
  note * = ginv_same [OF assms(1) this, simplified]
  show "ginv C n pl (upd_task t f s)" "gframe s (upd_task t f s)" "held pl (upd_task t f s) = held pl s"
    by (rule *)+
qed

text \<open>The running task leaves the links because it blocks or cannot be preempted.\<close>

lemma schedule_drop_ok:
  assumes inv: "ginv C n pl s" and t: "scheduled s c = Some t" "edf_ok (tasks s t)" "\<And>r. pl t \<noteq> Waiting r"
  shows "ok (do {
      s \<leftarrow> (if blocks then unlink (scheduled s c) s else Some s);
      if b then do {
        s \<leftarrow> unlink (scheduled s c) s;
        Some (case scheduled s c of Some t \<Rightarrow> upd_task t request_exit_np s | None \<Rightarrow> s)
      } else Some s }) (\<lambda>s'. if blocks \<or> b
        then ginv C n (pl(t := Nowhere)) s' \<and> gframe s s' \<and> held (pl(t := Nowhere)) s' = held pl s - {t}
        else s' = s)"
proof -
  note u1 = unlink_ginv [OF inv t(2,3)]
  have u2: "ok (do { s \<leftarrow> unlink (scheduled s1 c) s1;
        Some (case scheduled s c of Some t \<Rightarrow> upd_task t request_exit_np s | None \<Rightarrow> s) })
      (\<lambda>s'. ginv C n (pl1(t := Nowhere)) s' \<and> gframe s s' \<and> held (pl1(t := Nowhere)) s' = held pl1 s1 - {t})"
    if a: "ginv C n pl1 s1" "gframe s s1" "\<And>r. pl1 t \<noteq> Waiting r" for s1 pl1
  proof -
    have sc: "scheduled s1 c = Some t" using gframeD(2) [OF a(2)] t(1) by simp
    have ok: "edf_ok (tasks s1 t)" using lview_view(2) [OF gframeD(8) [OF a(2)]] t(2) by simp
    have "ok (unlink (Some t) s1) (\<lambda>s2. ok (Some (case scheduled s2 c of Some t \<Rightarrow> upd_task t request_exit_np s2 | None \<Rightarrow> s2))
        (\<lambda>s'. ginv C n (pl1(t := Nowhere)) s' \<and> gframe s s' \<and> held (pl1(t := Nowhere)) s' = held pl1 s1 - {t}))"
    proof (rule ok_mono [OF unlink_ginv [OF a(1) ok a(3)]], elim conjE)
      fix s2 assume s2: "ginv C n (pl1(t := Nowhere)) s2" "gframe s1 s2" "held (pl1(t := Nowhere)) s2 = held pl1 s1 - {t}"
      have sc2: "scheduled s2 c = Some t" using gframeD(2) [OF s2(2)] sc by simp
      note r = ginv_request [OF s2(1), where t = t and f = request_exit_np, OF tview_np(1)]
      have "gframe s (upd_task t request_exit_np s2)"
        by (rule gframe_trans [OF a(2) gframe_trans [OF s2(2) r(2)]])
      then show "ok (Some (case scheduled s2 c of Some t \<Rightarrow> upd_task t request_exit_np s2 | None \<Rightarrow> s2))
        (\<lambda>s'. ginv C n (pl1(t := Nowhere)) s' \<and> gframe s s' \<and> held (pl1(t := Nowhere)) s' = held pl1 s1 - {t})"
        using r(1,3) s2(3) sc2 by simp
    qed
    then show ?thesis by (simp add: ok_bind sc)
  qed
  show ?thesis
  proof (cases blocks)
    case False
    then show ?thesis using u2 [OF inv _ t(3)] by (simp add: t(1))
  next
    case True
    from u1 obtain s1 where s1: "unlink (Some t) s = Some s1" "ginv C n (pl(t := Nowhere)) s1" "gframe s s1"
      "held (pl(t := Nowhere)) s1 = held pl s - {t}" by (auto simp: ok_iff_ex)
    have sc1: "scheduled s1 c = Some t" using gframeD(2) [OF s1(3)] t(1) by simp
    show ?thesis
    proof (cases b)
      case True
      then show ?thesis using u2 [OF s1(2,3)] s1 \<open>blocks\<close> by (simp add: t(1) sc1)
    next
      case False
      then show ?thesis using s1 \<open>blocks\<close> by (simp add: t(1))
    qed
  qed
qed

text \<open>
  \<open>base\<close> is the state with the parameters of the next job of a task that completes; everything else
  about tasks, apart from links and queues, is as before.
\<close>

definition completes :: "bool \<Rightarrow> bool \<Rightarrow> bool \<Rightarrow> bool \<Rightarrow> bool \<Rightarrow> bool" where
  "completes blocks out_of_time np sleep preempt \<longleftrightarrow> \<not> np \<and> (out_of_time \<or> sleep) \<and> \<not> blocks \<and> \<not> preempt"

definition drops :: "bool \<Rightarrow> bool \<Rightarrow> bool \<Rightarrow> bool \<Rightarrow> bool \<Rightarrow> bool" where
  "drops blocks out_of_time np sleep preempt \<longleftrightarrow> blocks \<or> np \<and> (out_of_time \<or> preempt \<or> sleep)"

definition sched_base :: "bool \<Rightarrow> tid option \<Rightarrow> 'z gstate_scheme \<Rightarrow> 'z gstate_scheme" where
  "sched_base b t s = (if b then (case t of Some t \<Rightarrow> upd_task t next_job s | None \<Rightarrow> s) else s)"

lemma schedule_links_ok:
  fixes s :: "'z gstate_scheme" and blocks out_of_time np sleep preempt :: bool
  assumes inv: "ginv C n pl s" and clk: "clk_ok n clk n'" and c: "this_cpu s = c" "c \<in> C"
    and t: "\<And>t. scheduled s c = Some t \<Longrightarrow> edf_ok (tasks s t) \<and> (\<forall>r. pl t \<noteq> Waiting r) \<and> edf_ok (next_job (tasks s t))"
    and run: "\<And>t. scheduled s c = Some t \<Longrightarrow> \<not> blocks \<Longrightarrow> is_running (tasks s t)"
    and none: "scheduled s c = None \<Longrightarrow> \<not> blocks \<and> \<not> np \<and> \<not> out_of_time \<and> \<not> sleep"
    and pre: "preempt \<longleftrightarrow> scheduled s c \<noteq> linked s c"
  defines "dropped \<equiv> drops blocks out_of_time np sleep preempt" and "done_now \<equiv> completes blocks out_of_time np sleep preempt"
  shows "ok (schedule_links blocks out_of_time np sleep preempt clk s) (\<lambda>s'. \<exists>pl'. ginv C n' pl' s' \<and>
    gframe (sched_base done_now (scheduled s c) s) s' \<and>
    held pl' s' = held pl s - (if dropped then set_option (scheduled s c) else {}) \<and>
    (\<forall>x r. pl' x = Waiting r \<longrightarrow> pl x = Waiting r \<or> done_now \<and> scheduled s c = Some x))"
proof -
  let ?b = "np \<and> (out_of_time \<or> preempt \<or> sleep)" and ?base = "sched_base done_now (scheduled s c) s"
  let ?m1 = "do {
      s \<leftarrow> (if blocks then unlink (scheduled s c) s else Some s);
      if ?b then do {
        s \<leftarrow> unlink (scheduled s c) s;
        Some (case scheduled s c of Some t \<Rightarrow> upd_task t request_exit_np s | None \<Rightarrow> s)
      } else Some s }"
  have nn: "n \<le> n'" by (rule clk_okD(4) [OF clk])
  have excl: "\<not> (dropped \<and> done_now)" by (auto simp: dropped_def done_now_def drops_def completes_def)
  have mid: "ok (do { s \<leftarrow> ?m1; if done_now then (case scheduled s c of Some t \<Rightarrow> gsn_job_completion t clk s | None \<Rightarrow> None) else Some s })
    (\<lambda>s2. \<exists>pl2. ginv C n' pl2 s2 \<and> gframe ?base s2 \<and>
      held pl2 s2 = held pl s - (if dropped then set_option (scheduled s c) else {}) \<and>
      (\<forall>x r. pl2 x = Waiting r \<longrightarrow> pl x = Waiting r \<or> done_now \<and> scheduled s c = Some x))"
  proof (cases "scheduled s c")
    case None
    then have "\<not> blocks" "\<not> ?b" "\<not> done_now" "\<not> dropped" using none by (auto simp: dropped_def done_now_def drops_def completes_def)
    then show ?thesis using ginv_mono [OF inv nn] by (auto simp: None sched_base_def intro!: exI [of _ pl])
  next
    case (Some t0)
    note tt = t [OF Some]
    have d: "ok ?m1 (\<lambda>s'. if blocks \<or> ?b then ginv C n (pl(t0 := Nowhere)) s' \<and> gframe s s' \<and> held (pl(t0 := Nowhere)) s' = held pl s - {t0}
        else s' = s)"
      by (rule schedule_drop_ok [OF inv Some]) (use tt in auto)
    show ?thesis
    proof (cases dropped)
      case True
      then have "blocks \<or> ?b" "\<not> done_now" using excl by (auto simp: dropped_def drops_def)
      with d obtain s2 where s2: "?m1 = Some s2" "ginv C n (pl(t0 := Nowhere)) s2" "gframe s s2"
        "held (pl(t0 := Nowhere)) s2 = held pl s - {t0}" by (auto simp: ok_iff_ex)
      then show ?thesis
        using True \<open>\<not> done_now\<close> ginv_mono [OF s2(2) nn]
        by (simp add: Some sched_base_def) (intro exI [of _ "pl(t0 := Nowhere)"], auto split: if_splits)
    next
      case False
      then have nb: "\<not> blocks" "\<not> ?b" by (auto simp: dropped_def drops_def)
      show ?thesis
      proof (cases done_now)
        case True
        then have l: "linked s c = Some t0" using pre Some by (auto simp: done_now_def completes_def)
        have "edf_ok (next_job (tasks s t0))" using tt by blast
        then have "ok (gsn_job_completion t0 clk s) (\<lambda>s2. \<exists>pl2. ginv C n' pl2 s2 \<and> gframe (upd_task t0 next_job s) s2 \<and>
            held pl2 s2 = held pl s \<and> (\<forall>x r. pl2 x = Waiting r \<longrightarrow> pl x = Waiting r \<or> x = t0))"
          by (rule ok_mono [OF completion_ginv [OF inv clk l refl _ run [OF Some nb(1)]]]) blast
        then show ?thesis using nb True False by (auto simp: Some sched_base_def elim!: ok_mono)
      next
        case nc: False
        then show ?thesis
          using nb False ginv_mono [OF inv nn] by (auto simp: Some sched_base_def intro!: exI [of _ pl])
      qed
    qed
  qed
  have links: "ok (if linked s2 c = None then (case take_ready edf_ready_order (cluster s2 c) s2 of (t, s) \<Rightarrow> link_task_to_cpu t c s) else Some s2)
      (\<lambda>s'. \<exists>pl'. ginv C n' pl' s' \<and> gframe ?base s' \<and>
        held pl' s' = held pl s - (if dropped then set_option (scheduled s c) else {}) \<and>
        (\<forall>x r. pl' x = Waiting r \<longrightarrow> pl x = Waiting r \<or> done_now \<and> scheduled s c = Some x))"
    if a: "ginv C n' pl2 s2" "gframe ?base s2" "held pl2 s2 = held pl s - (if dropped then set_option (scheduled s c) else {})"
      "\<forall>x r. pl2 x = Waiting r \<longrightarrow> pl x = Waiting r \<or> done_now \<and> scheduled s c = Some x" for s2 pl2
  proof (cases "linked s2 c = None")
    case True
    have "ok (case take_ready edf_ready_order (cluster s2 c) s2 of (t, s) \<Rightarrow> link_task_to_cpu t c s)
      (\<lambda>s'. \<exists>pl'. ginv C n' pl' s' \<and> gframe ?base s' \<and>
        held pl' s' = held pl s - (if dropped then set_option (scheduled s c) else {}) \<and>
        (\<forall>x r. pl' x = Waiting r \<longrightarrow> pl x = Waiting r \<or> done_now \<and> scheduled s c = Some x))"
    proof (rule ok_mono [OF link_next_ginv [OF a(1) c(2) True]], elim exE conjE)
      fix s' pl' assume b: "ginv C n' pl' s'" "gframe s2 s'" "held pl' s' = held pl2 s2" "\<forall>x r. pl' x = Waiting r \<longrightarrow> pl2 x = Waiting r"
      show "\<exists>pl'. ginv C n' pl' s' \<and> gframe ?base s' \<and>
        held pl' s' = held pl s - (if dropped then set_option (scheduled s c) else {}) \<and>
        (\<forall>x r. pl' x = Waiting r \<longrightarrow> pl x = Waiting r \<or> done_now \<and> scheduled s c = Some x)"
        using b(1,3) gframe_trans [OF a(2) b(2)] a(3,4) b(4) by (intro exI [of _ pl']) blast
    qed
    then show ?thesis using True by simp
  next
    case False
    show ?thesis unfolding if_not_P [OF False] ok_Some using a by blast
  qed
  define m where "m = do { s \<leftarrow> ?m1; if done_now then (case scheduled s c of Some t \<Rightarrow> gsn_job_completion t clk s | None \<Rightarrow> None) else Some s }"
  define f where "f s2 = (if linked s2 c = None then (case take_ready edf_ready_order (cluster s2 c) s2 of (t, s) \<Rightarrow> link_task_to_cpu t c s)
    else Some s2)" for s2 :: "'z gstate_scheme"
  have eq: "schedule_links blocks out_of_time np sleep preempt clk s = Option.bind m f"
    unfolding schedule_links_def m_def f_def done_now_def completes_def by (simp add: c(1) Let_def bind_assoc)
  show ?thesis
    unfolding eq ok_bind
    by (rule ok_mono [OF mid [folded m_def]], elim exE conjE) (rule links [folded f_def])
qed

section \<open>The decision\<close>

text \<open>What the queues and links do not depend on: the place where a task is scheduled.\<close>

lemma ginv_scheduled_on:
  assumes inv: "ginv C n pl s"
    and ts: "\<And>x. \<exists>v. tasks s' x = set_scheduled_on v (tasks s x)"
    and f: "doms s' = doms s" "rel_heaps s' = rel_heaps s" "tick_period s' = tick_period s" "kstate.more s' = kstate.more s"
    and sc: "schedule_ok C s'"
  shows "ginv C n pl s'" "held pl s' = held pl s" "linked s' = linked s"
proof -
  note g = gstate_more [OF f(4)]
  have v: "qview (tasks s' x) = qview (tasks s x)" "linked_on (rt_param (tasks s' x)) = linked_on (rt_param (tasks s x))"
    "get_partition (tasks s' x) = get_partition (tasks s x)" for x
    using ts [of x] by auto
  note q = qviewD [OF v(1)]
  have h: "home s (tasks s' x) = home s (tasks s x)" for x by (simp add: home_def v(3))
  have qi: "queue_inv (home s) pl s'"
    by (rule queue_inv_frame [OF gsn_invD(1) [OF ginvD(1) [OF inv]] f(1-3)]) (simp_all add: v(1) h q)
  have lk: "linkage C {} pl s'"
    using ginvD(5) [OF inv] unfolding linkage_def g(2,5,8) h q(2,8) v(2) .
  have prio: "edf_higher_prio (tasks s') (Some a) (Some b) = edf_higher_prio (tasks s) (Some a) (Some b)" for a b
  proof -
    have "eff (tasks s') x = eff (tasks s) x" for x using q(3) by (simp add: eff_def)
    then show ?thesis unfolding edf_higher_prio_Some earlier_deadline_def by (simp add: q)
  qed
  then have prio': "edf_higher_prio (tasks s') a b = edf_higher_prio (tasks s) a b" for a b by (cases a; cases b) simp_all
  have ord: "edf_ready_order s' = edf_ready_order s" by (simp add: edf_ready_order_def [abs_def] prio')
  have "cpu_lower_prio s' = cpu_lower_prio s" by (simp add: cpu_lower_prio_def [abs_def] prio' g(2))
  then have "gsn_inv C pl s'"
    using qi lk sc cpus_ok_queue [OF gsn_invD(2) [OF ginvD(1) [OF inv]] f(4)] by (simp add: gsn_inv_def g(8))
  moreover have "links_edf pl s'" using ginvD(3) [OF inv] unfolding links_edf_def ord g(2,5) .
  moreover have "timely n pl s'" using ginvD(4) [OF inv] unfolding timely_def g(2) q(5) .
  ultimately show "ginv C n pl s'" using ginvD(2) [OF inv] by (simp add: ginv_def)
  show "held pl s' = held pl s" "linked s' = linked s" by (simp_all add: held_def g(2))
qed

lemma scheduled_on_same: "set_scheduled_on (scheduled_on (rt_param t)) t = t"
  by (cases t, cases "rt_param t") (simp add: set_scheduled_on_def upd_rt_def)

lemma schedule_decide_ok:
  assumes inv: "ginv C n pl s" and c: "this_cpu s = c" "c \<in> C"
    and on: "\<And>t. is_realtime (tasks s t) \<Longrightarrow> scheduled_on (rt_param (tasks s t)) = Some c \<longleftrightarrow> scheduled s c = Some t"
    and rt: "\<And>t. scheduled s c = Some t \<Longrightarrow> is_realtime (tasks s t) \<and> prev = t"
    and dec: "schedule_decide blocks np prev s = (nxt, s')"
  shows "ginv C n pl s'" "held pl s' = held pl s" "linked s' = linked s"
    "nxt = (if \<not> np \<or> blocks then linked s c else scheduled s c)"
    "is_realtime (tasks s x) \<Longrightarrow> scheduled_on (rt_param (tasks s' x)) =
       (if nxt = Some x then Some c else if scheduled s c = Some x then None else scheduled_on (rt_param (tasks s x)))"
    "\<exists>v. tasks s' x = set_scheduled_on v (tasks s x)"
    "kstate.more s' = kstate.more s" "this_cpu s' = this_cpu s" "curr s' = curr s"
proof -
  define sw where "sw \<longleftrightarrow> (\<not> np \<or> blocks) \<and> linked s c \<noteq> scheduled s c"
  define l where "l = (if sw then linked s c else scheduled s c)"
  have nxt: "nxt = l" using dec rt by (auto simp: schedule_decide_def Let_def c(1) sw_def l_def split: if_splits)
  show nx: "nxt = (if \<not> np \<or> blocks then linked s c else scheduled s c)" by (auto simp: nxt l_def sw_def)
  have on_t: "scheduled_on (rt_param (tasks s t)) = Some c" if "scheduled s c = Some t" for t using on rt that by blast
  have s': "tasks s' x = (if sw then if scheduled s c = Some x then set_scheduled_on None (tasks s x)
      else if linked s c = Some x then set_scheduled_on (Some c) (tasks s x) else tasks s x else tasks s x)" for x
    using dec by (auto simp: schedule_decide_def Let_def c(1) sw_def split: if_splits option.splits)
  show ts: "\<exists>v. tasks s' x = set_scheduled_on v (tasks s x)" for x
    unfolding s' using scheduled_on_same by metis
  have f: "doms s' = doms s" "rel_heaps s' = rel_heaps s" "tick_period s' = tick_period s"
    "kstate.more s' = kstate.more s" "this_cpu s' = this_cpu s" "curr s' = curr s"
    using dec by (auto simp: schedule_decide_def Let_def split: if_splits option.splits)
  show "kstate.more s' = kstate.more s" "this_cpu s' = this_cpu s" "curr s' = curr s" by (rule f)+
  have so: "scheduled_on (rt_param (tasks s' x)) =
       (if nxt = Some x then Some c else if scheduled s c = Some x then None else scheduled_on (rt_param (tasks s x)))"
    if "is_realtime (tasks s x)" for x
    using on [OF that] by (auto simp: s' nxt l_def sw_def)
  show "is_realtime (tasks s x) \<Longrightarrow> scheduled_on (rt_param (tasks s' x)) =
       (if nxt = Some x then Some c else if scheduled s c = Some x then None else scheduled_on (rt_param (tasks s x)))"
    by (rule so)
  have v: "qview (tasks s' x) = qview (tasks s x)" "get_partition (tasks s' x) = get_partition (tasks s x)" for x
    using ts [of x] by auto
  note q = qviewD [OF v(1)] and g = gstate_more [OF f(4)]
  have h: "home s (tasks s' x) = home s (tasks s x)" for x by (simp add: home_def v(2))
  note sc = ginvD(6) [OF inv] and lk = ginvD(5) [OF inv]
  have nl: "linked s c = Some x \<or> scheduled s c = Some x" if "nxt = Some x" for x using that by (auto simp: nx split: if_splits)
  have nxt_ok: "edf_ok (tasks s x) \<and> home s (tasks s x) = cluster s c \<and> (\<forall>a. linked s a = Some x \<longrightarrow> a = c)"
    if "nxt = Some x" for x
  proof (cases "linked s c = Some x")
    case True
    then show ?thesis using linkageD(2,3,6) [OF lk True] by blast
  next
    case False
    then have "scheduled s c = Some x" using nl [OF that] by blast
    then show ?thesis using schedule_okD(2-4) [OF sc, of x c] on_t rt by blast
  qed
  have other: "scheduled_on (rt_param (tasks s x)) = Some a" "a \<noteq> c"
    if "scheduled_on (rt_param (tasks s' x)) = Some a" "nxt \<noteq> Some x" "is_realtime (tasks s x)" for x a
    using that so [OF that(3)] on [OF that(3)] by (auto split: if_splits)
  have "schedule_ok C s'"
  proof (rule schedule_okI, unfold g(2,5,8) h q(2,8))
    fix x a assume x: "is_realtime (tasks s x)" "scheduled_on (rt_param (tasks s' x)) = Some a"
    have a: "a = c" if "nxt = Some x" using so [OF x(1)] x(2) that by simp
    show "a \<in> C \<and> edf_ok (tasks s x) \<and> home s (tasks s x) = cluster s a"
      using a nxt_ok c(2) schedule_okD(1-3) [OF sc x(1)] other [OF x(2) _ x(1)] by (cases "nxt = Some x") auto
    show "a' = a" if "linked s a' = Some x" for a'
    proof (cases "nxt = Some x")
      case True
      then show ?thesis using a nxt_ok that by blast
    next
      case False
      show ?thesis by (rule schedule_okD(4) [OF sc x(1) other(1) [OF x(2) False x(1)] that])
    qed
    show "t' = x" if t': "is_realtime (tasks s t')" "scheduled_on (rt_param (tasks s' t')) = Some a" for t'
    proof (cases "nxt = Some x \<or> nxt = Some t'")
      case True
      then have "a = c" using a so [OF t'(1)] t'(2) by auto
      then have "nxt = Some x" "nxt = Some t'" using other(2) [OF x(2) _ x(1)] other(2) [OF t'(2) _ t'(1)] by blast+
      then show ?thesis by simp
    next
      case False
      then show ?thesis
        using schedule_okD(5) [OF sc x(1) other(1) [OF x(2) _ x(1)] t'(1) other(1) [OF t'(2) _ t'(1)]] by blast
    qed
  qed
  from ginv_scheduled_on [OF inv ts f(1-4) this]
  show "ginv C n pl s'" "held pl s' = held pl s" "linked s' = linked s" .
qed

section \<open>The scheduler\<close>

lemma ginv_entry [simp]:
  "ginv C n pl (s\<lparr>will_schedule := w\<rparr>) = ginv C n pl s" "ginv C n pl (s\<lparr>scheduled := k\<rparr>) = ginv C n pl s"
  "ginv C n pl (s\<lparr>curr := f\<rparr>) = ginv C n pl s" "ginv C n pl (s\<lparr>this_cpu := c\<rparr>) = ginv C n pl s"
  by (simp_all add: ginv_def links_edf_def timely_def edf_ready_order_def)

lemma held_entry [simp]:
  "held pl (s\<lparr>will_schedule := w\<rparr>) = held pl s" "held pl (s\<lparr>scheduled := k\<rparr>) = held pl s"
  "held pl (s\<lparr>curr := f\<rparr>) = held pl s" "held pl (s\<lparr>this_cpu := c\<rparr>) = held pl s"
  by (simp_all add: held_def)

text \<open>The conditions that the scheduler computes first, and when the running task loses its link.\<close>

definition sched_np :: "cpu_id \<Rightarrow> 'z gstate_scheme \<Rightarrow> bool" where
  "sched_np c s \<longleftrightarrow> on_sched c is_np s \<and> on_sched c is_running s"

definition sched_drops :: "cpu_id \<Rightarrow> 'z gstate_scheme \<Rightarrow> bool" where
  "sched_drops c s \<longleftrightarrow>
     on_sched c (\<lambda>t. \<not> is_running t \<or>
       is_np t \<and> (budget_enforced t \<and> budget_exhausted t \<or> scheduled s c \<noteq> linked s c \<or> get_rt_flags t = RT_F_SLEEP)) s"

definition not_waiting :: "(tid \<Rightarrow> place) \<Rightarrow> 'z gstate_scheme \<Rightarrow> bool" where
  "not_waiting pl s \<longleftrightarrow>
     (\<forall>t c r. is_realtime (tasks s t) \<longrightarrow> scheduled_on (rt_param (tasks s t)) = Some c \<longrightarrow> pl t \<noteq> Waiting r)"

text \<open>What a call of the scheduler leaves alone.\<close>

definition sframe :: "'z gstate_scheme \<Rightarrow> 'z gstate_scheme \<Rightarrow> bool" where
  "sframe s s' \<longleftrightarrow>
     (\<forall>x. is_realtime (tasks s' x) = is_realtime (tasks s x) \<and> get_partition (tasks s' x) = get_partition (tasks s x) \<and>
        is_running (tasks s' x) = is_running (tasks s x)) \<and>
     scheduled s' = scheduled s \<and> curr s' = curr s \<and> this_cpu s' = this_cpu s \<and> cluster s' = cluster s \<and>
     gstate.more s' = gstate.more s"

lemma linked_schedule_ok:
  assumes inv: "ginv C n pl s" and clk: "clk_ok n clk n'" and c: "this_cpu s = c" "c \<in> C"
    and cur: "scheduled s c = (if is_realtime (tasks s prev) then Some prev else None)"
    and on: "\<And>t. is_realtime (tasks s t) \<Longrightarrow> scheduled_on (rt_param (tasks s t)) = Some c \<longleftrightarrow> scheduled s c = Some t"
    and w: "not_waiting pl s" and nj: "\<And>t. scheduled s c = Some t \<Longrightarrow> edf_ok (next_job (tasks s t))"
  shows "ok (linked_schedule prev clk s) (\<lambda>(nxt, s'). \<exists>pl'. ginv C n' pl' s' \<and> not_waiting pl' s' \<and> sframe s s' \<and>
    nxt = (if sched_np c s then scheduled s c else linked s' c) \<and>
    (\<forall>x. is_realtime (tasks s x) \<longrightarrow> scheduled_on (rt_param (tasks s' x)) =
       (if nxt = Some x then Some c else if scheduled s c = Some x then None else scheduled_on (rt_param (tasks s x)))) \<and>
    (\<forall>x a. is_realtime (tasks s x) \<longrightarrow> scheduled_on (rt_param (tasks s x)) = Some a \<longrightarrow> nxt = Some x \<longrightarrow> a = c) \<and>
    held pl' s' = held pl s - (if sched_drops c s then set_option (scheduled s c) else {}))"
proof -
  define s1 where "s1 = s\<lparr>will_schedule := (will_schedule s)(c := False)\<rparr>"
  let ?bl = "on_sched c (\<lambda>t. \<not> is_running t) s1" and ?oot = "on_sched c (\<lambda>t. budget_enforced t \<and> budget_exhausted t) s1"
  let ?np = "on_sched c is_np s1" and ?sl = "on_sched c (\<lambda>t. get_rt_flags t = RT_F_SLEEP) s1"
  let ?pre = "scheduled s1 c \<noteq> linked s1 c"
  have s1: "tasks s1 = tasks s" "scheduled s1 = scheduled s" "linked s1 = linked s" "cluster s1 = cluster s"
    "curr s1 = curr s" "this_cpu s1 = c" "gstate.more s1 = gstate.more s" "held pl s1 = held pl s"
    using c(1) by (simp_all add: s1_def)
  have inv1: "ginv C n pl s1" using inv by (simp add: s1_def)
  have os: "on_sched c P s1 = on_sched c P s" for P unfolding on_sched_def s1 ..
  have rt: "is_realtime (tasks s t) \<and> prev = t" if "scheduled s c = Some t" for t using cur that by (simp split: if_splits)
  have tt: "edf_ok (tasks s t) \<and> (\<forall>r. pl t \<noteq> Waiting r) \<and> edf_ok (next_job (tasks s t))" if "scheduled s c = Some t" for t
  proof -
    have on_t: "scheduled_on (rt_param (tasks s t)) = Some c" "is_realtime (tasks s t)" using on [of t] rt [OF that] that by simp_all
    then show ?thesis
      using schedule_okD(2) [OF ginvD(6) [OF inv] on_t(2,1)] nj [OF that] w by (auto simp: not_waiting_def)
  qed
  define drp where "drp = drops ?bl ?oot ?np ?sl ?pre"
  define cmp where "cmp = completes ?bl ?oot ?np ?sl ?pre"
  have drp: "drp = sched_drops c s"
    by (auto simp: drp_def drops_def sched_drops_def s1 on_sched_def split: option.splits)
  let ?base = "sched_base cmp (scheduled s c) s1"
  have "ok (schedule_links ?bl ?oot ?np ?sl ?pre clk s1) (\<lambda>s2. \<exists>pl2. ginv C n' pl2 s2 \<and>
      gframe (sched_base cmp (scheduled s1 c) s1) s2 \<and>
      held pl2 s2 = held pl s1 - (if drp then set_option (scheduled s1 c) else {}) \<and>
      (\<forall>x r. pl2 x = Waiting r \<longrightarrow> pl x = Waiting r \<or> cmp \<and> scheduled s1 c = Some x))"
    unfolding drp_def cmp_def
    by (rule schedule_links_ok [OF inv1 clk s1(6) c(2)]) (use tt in \<open>auto simp: s1 on_sched_def split: option.splits\<close>)
  then obtain s2 pl2 where s2: "schedule_links ?bl ?oot ?np ?sl ?pre clk s1 = Some s2" "ginv C n' pl2 s2" "gframe ?base s2"
    "held pl2 s2 = held pl s - (if drp then set_option (scheduled s c) else {})"
    "\<And>x r. pl2 x = Waiting r \<Longrightarrow> pl x = Waiting r \<or> cmp \<and> scheduled s c = Some x"
    unfolding s1(2,8) ok_iff_ex by blast
  have b: "scheduled ?base = scheduled s" "curr ?base = curr s" "this_cpu ?base = c" "cluster ?base = cluster s"
    "gstate.more ?base = gstate.more s" "is_realtime (tasks ?base x) = is_realtime (tasks s x)"
    "get_partition (tasks ?base x) = get_partition (tasks s x)"
    "scheduled_on (rt_param (tasks ?base x)) = scheduled_on (rt_param (tasks s x))"
    "is_running (tasks ?base x) = is_running (tasks s x)" for x
    by (auto simp: sched_base_def s1 split: option.splits)
  have v: "is_realtime (tasks s2 x) = is_realtime (tasks s x)" "get_partition (tasks s2 x) = get_partition (tasks s x)"
    "scheduled_on (rt_param (tasks s2 x)) = scheduled_on (rt_param (tasks s x))"
    "is_running (tasks s2 x) = is_running (tasks s x)" for x
    using lview_view(1,5,6) [OF gframeD(8) [OF s2(3), of x]] lviewD(10) [OF gframeD(8) [OF s2(3), of x]] by (simp_all add: b)
  note f2 = gframeD(2-6) [OF s2(3), unfolded b]
  obtain nxt s3 where dec: "schedule_decide ?bl ?np prev s2 = (nxt, s3)" by fastforce
  have on2: "scheduled_on (rt_param (tasks s2 t)) = Some c \<longleftrightarrow> scheduled s2 c = Some t" if "is_realtime (tasks s2 t)" for t
    using on [of t] that by (simp add: v f2)
  have rt2: "is_realtime (tasks s2 t) \<and> prev = t" if "scheduled s2 c = Some t" for t using rt that by (simp add: v f2)
  note d = schedule_decide_ok [OF s2(2) f2(3) c(2) on2 rt2 dec]
  have d6: "is_realtime (tasks s3 x) = is_realtime (tasks s2 x)" "get_partition (tasks s3 x) = get_partition (tasks s2 x)"
    "is_running (tasks s3 x) = is_running (tasks s2 x)" for x
    using d(6) [of x] by (auto simp: is_running_def set_scheduled_on_def rt_simps)
  have np: "(\<not> ?np \<or> ?bl) \<longleftrightarrow> \<not> sched_np c s" by (auto simp: sched_np_def on_sched_def s1 split: option.splits)
  have nx: "nxt = (if sched_np c s then scheduled s c else linked s3 c)"
    using d(3,4) unfolding np by (simp add: f2)
  have so: "scheduled_on (rt_param (tasks s3 x)) =
       (if nxt = Some x then Some c else if scheduled s c = Some x then None else scheduled_on (rt_param (tasks s x)))"
    if "is_realtime (tasks s x)" for x using d(5) [of x] that by (simp add: v f2)
  have mig: "a = c" if "is_realtime (tasks s x)" "scheduled_on (rt_param (tasks s x)) = Some a" "nxt = Some x" for x a
  proof (cases "sched_np c s")
    case True
    then show ?thesis using nx on [OF that(1)] that(2,3) by simp
  next
    case False
    then have "linked s2 c = Some x" using nx that(3) d(3) by simp
    then show ?thesis using schedule_okD(4) [OF ginvD(6) [OF s2(2)], of x a c] that(1,2) v by simp
  qed
  have "not_waiting pl2 s3"
    unfolding not_waiting_def
  proof (intro allI impI notI)
    fix x a r assume x: "is_realtime (tasks s3 x)" "scheduled_on (rt_param (tasks s3 x)) = Some a" "pl2 x = Waiting r"
    have xr: "is_realtime (tasks s x)" using x(1) d6 v by simp
    have nl: "linked s3 a' \<noteq> Some x" for a' using linkageD(4) [OF ginvD(5) [OF d(1)], of a' x] x(3) by auto
    consider "pl x = Waiting r" | "cmp" "scheduled s c = Some x" using s2(5) [OF x(3)] by blast
    then show False
    proof cases
      case 1
      then have "scheduled_on (rt_param (tasks s x)) = None" using w xr by (cases "scheduled_on (rt_param (tasks s x))") (auto simp: not_waiting_def)
      then have "nxt = Some x" using so [OF xr] x(2) by (auto split: if_splits)
      then have "scheduled s c = Some x" using nx nl by (auto split: if_splits)
      then show False using tt 1 by blast
    next
      case 2
      then have "\<not> sched_np c s" by (simp add: cmp_def completes_def sched_np_def os)
      then have "nxt \<noteq> Some x" using nx nl by simp
      then show False using so [OF xr] x(2) 2(2) by simp
    qed
  qed
  moreover have "sframe s s3"
    using d(7-9) gstate_more [OF d(7)] by (simp add: sframe_def d6 v f2 c(1))
  moreover have "linked_schedule prev clk s = Some (nxt, s3)"
    using cur s2(1) dec unfolding linked_schedule_def Let_def c(1) s1_def [symmetric]
    by (simp add: s1) 
  ultimately show ?thesis using d(1,2) nx so mig s2(4) drp by (auto intro!: exI [of _ pl2])
qed

end
