(* ===== verification/Gsn_Edf.thy ===== *)
theory Gsn_Edf
  imports Linked_Schedule
begin

text \<open>
  The plugin GSN-EDF (\<^verbatim>\<open>litmus/sched_gsn_edf.c\<close>): global EDF over all CPUs, except the release
  master, if there is one. All CPUs form the cluster \<open>0\<close>, whose domain is \<^verbatim>\<open>gsnedf\<close>. The handlers
  that do not differ from those of C-EDF are instances of the shared ones. The callbacks for priority
  inheritance are compiled for \<^verbatim>\<open>CONFIG_FMLP\<close> only; they are not part of this theory.
\<close>

section \<open>Handlers\<close>

definition gsnedf_tick :: "tid \<Rightarrow> 'z gstate_scheme \<Rightarrow> 'z gstate_scheme" where
  "gsnedf_tick = linked_tick"

definition gsnedf_schedule ::
  "tid \<Rightarrow> (nat \<Rightarrow> lt_t) \<Rightarrow> 'z gstate_scheme \<Rightarrow> (tid option \<times> 'z gstate_scheme) option"
where
  "gsnedf_schedule prev clk s =
     (if release_master (doms s 0) = Some (this_cpu s) then Some (None, s)
      else linked_schedule prev clk s)"

definition gsnedf_finish_switch :: "'z gstate_scheme \<Rightarrow> 'z gstate_scheme" where
  "gsnedf_finish_switch = linked_finish_switch"

definition gsnedf_task_new ::
  "tid \<Rightarrow> bool \<Rightarrow> (nat \<Rightarrow> lt_t) \<Rightarrow> 'z gstate_scheme \<Rightarrow> 'z gstate_scheme option"
where
  "gsnedf_task_new t running clk s = do {
     let s = upd_task t (release_at (clk 0)) s;
     let c = task_cpu (tasks s t);
     s \<leftarrow> (if running then do {
             BUG_ON (scheduled s c \<noteq> None);
             Some (if release_master (doms s 0) \<noteq> Some c
                   then upd_task t (set_scheduled_on (Some c)) (s\<lparr>scheduled := (scheduled s)(c := Some t)\<rparr>)
                   else upd_task t (set_scheduled_on None) (gsn_preempt c s))
           } else Some (upd_task t (set_scheduled_on None) s));
     gsn_job_arrival t (\<lambda>i. clk (Suc i)) (upd_task t (set_linked_on None) s)
   }"

definition gsnedf_task_wake_up :: "tid \<Rightarrow> (nat \<Rightarrow> lt_t) \<Rightarrow> 'z gstate_scheme \<Rightarrow> 'z gstate_scheme option" where
  "gsnedf_task_wake_up = linked_task_wake_up"

definition gsnedf_task_block :: "tid \<Rightarrow> 'z gstate_scheme \<Rightarrow> 'z gstate_scheme option" where
  "gsnedf_task_block = linked_task_block"

definition gsnedf_task_exit :: "tid \<Rightarrow> 'z gstate_scheme \<Rightarrow> 'z gstate_scheme option" where
  "gsnedf_task_exit t s = do {
     s \<leftarrow> unlink (Some t) s;
     let s = (case scheduled_on (rt_param (tasks s t)) of
                Some c \<Rightarrow> upd_task t (set_scheduled_on None) (s\<lparr>scheduled := (scheduled s)(c := None)\<rparr>)
              | None \<Rightarrow> s);
     BUG_ON (\<not> is_realtime (tasks s t));
     Some s
   }"

definition gsnedf_admit_task :: "task_struct \<Rightarrow> int" where
  "gsnedf_admit_task t = 0"

section \<open>Activation\<close>

text \<open>
  The loop over the online CPUs. \<^verbatim>\<open>bheap_node_init\<close> marks the node of an entry as in no heap.
\<close>

fun activate_cpus :: "cpu_id list \<Rightarrow> 'z gstate_scheme \<Rightarrow> 'z gstate_scheme option" where
  "activate_cpus [] s = Some s"
| "activate_cpus (c # cs) s =
     Option.bind
       (let s = s\<lparr>hn_in_heap := (hn_in_heap s)(c := False), will_schedule := (will_schedule s)(c := False),
                  linked := (linked s)(c := None), scheduled := (scheduled s)(c := None)\<rparr>
        in if Some c \<noteq> release_master (doms s 0) then update_cpu_position c s else Some s)
       (activate_cpus cs)"

definition gsnedf_activate_plugin ::
  "cpu_id option \<Rightarrow> cpu_id list \<Rightarrow> 'z gstate_scheme \<Rightarrow> 'z gstate_scheme option"
where
  "gsnedf_activate_plugin release_master_cpu online s =
     activate_cpus online
       (upd_dom 0 (\<lambda>D. D\<lparr>release_master := release_master_cpu\<rparr>) (s\<lparr>cpu_heap := (cpu_heap s)(0 := bheap_init)\<rparr>))"

text \<open>The initialisation of the \<open>n\<close> possible CPUs; here they become the single cluster.\<close>

definition init_gsn_edf :: "nat \<Rightarrow> 'z gstate_scheme \<Rightarrow> 'z gstate_scheme" where
  "init_gsn_edf n s =
     edf_domain_init 0
       (s\<lparr>cpu_heap := (cpu_heap s)(0 := bheap_init),
          will_schedule := (\<lambda>c. if c < n then False else will_schedule s c),
          hn_in_heap := (\<lambda>c. if c < n then False else hn_in_heap s c),
          cluster := (\<lambda>_. 0)\<rparr>)"

section \<open>The release master stays\<close>

definition masters :: "'z kstate_scheme \<Rightarrow> nat \<Rightarrow> cpu_id option" where
  "masters s d = release_master (doms s d)"

lemma masters_upd [simp]:
  "masters (upd_task t f s) = masters s" "masters (upd_rh r g s) = masters s"
  "masters (upd_dom d (\<lambda>D. D\<lparr>ready_queue := q\<rparr>) s) = masters s"
  "masters (upd_dom d (\<lambda>D. D\<lparr>tobe_released := l\<rparr>) s) = masters s"
  "masters (upd_dom d (\<lambda>D. D\<lparr>tobe_released := t # tobe_released D\<rparr>) s) = masters s"
  "masters (upd_dom d (\<lambda>D. D\<lparr>slot := (slot D)(k := rs)\<rparr>) s) = masters s"
  "masters (upd_dom d (\<lambda>D. D\<lparr>slot := (slot D)(k := remove1 r (slot D k))\<rparr>) s) = masters s"
  by (auto simp: masters_def)

lemma masters_doms: "doms s' = doms s \<Longrightarrow> masters s' = masters s"
  by (simp add: masters_def [abs_def])

lemma masters_link_frame: "link_frame s s' \<Longrightarrow> masters s' = masters s"
  by (rule masters_doms) (simp add: link_frame_def)

lemma masters_take_ready: "take_ready ord d s = (r, s') \<Longrightarrow> masters s' = masters s"
  by (auto simp: take_ready_def Let_def split: prod.splits option.splits)

lemma masters_remove: "remove_rt ord d t s = Some s' \<Longrightarrow> masters s' = masters s"
  by (auto simp: remove_rt_def bind_eq_Some_iff)

lemma masters_add_ready: "add_ready ord dummy_resched d t s = Some s' \<Longrightarrow> masters s' = masters s"
  by (auto simp: add_ready_def bind_eq_Some_iff dummy_resched_def)

lemma masters_get_release_heap: "get_release_heap d t b s = (r, s') \<Longrightarrow> masters s' = masters s"
  by (auto simp: get_release_heap_def Let_def split: prod.splits if_splits)

lemma masters_reinit: "reinit_release_heap t s = Some s' \<Longrightarrow> masters s' = masters s"
  by (auto simp: reinit_release_heap_def bind_eq_Some_iff)

lemma masters_arm_one:
  assumes arm: "arm_release_one ord d tc t s = Some s'"
  shows "masters s' = masters s"
proof -
  obtain r1 s1 where g: "get_release_heap d t False s = (r1, s1)" by fastforce
  have "\<exists>r s2. masters s2 = masters s \<and> s' = (let s3 = upd_task t (set_in_heap True)
      (upd_rh r (\<lambda>R. R\<lparr>rh_heap := bheap_insert (ord s2) (rh_heap (rel_heaps s2 r)) t\<rparr>) s2) in
      if r = t then upd_rh t (\<lambda>R. R\<lparr>rh_timer := Some (rh_time R, case tc of Some c \<Rightarrow> c
        | None \<Rightarrow> (case release_master (doms s3 d) of Some c \<Rightarrow> c | None \<Rightarrow> this_cpu s3))\<rparr>) s3 else s3)"
  proof (cases r1)
    case None
    obtain s2 where re: "reinit_release_heap t s1 = Some s2"
      using arm by (auto simp: arm_release_one_def g None bind_eq_Some_iff)
    obtain r2 s3 where g2: "get_release_heap d t True s2 = (r2, s3)" by fastforce
    then obtain r where "r2 = Some r"
      using arm re by (cases r2) (simp_all add: arm_release_one_def g None)
    then show ?thesis
      using arm g2 re masters_get_release_heap [OF g] masters_get_release_heap [OF g2] masters_reinit [OF re]
      by (intro exI [of _ r] exI [of _ s3]) (simp add: arm_release_one_def g None Let_def)
  next
    case (Some r)
    then show ?thesis
      using arm masters_get_release_heap [OF g]
      by (intro exI [of _ r] exI [of _ s1]) (simp add: arm_release_one_def g Let_def)
  qed
  then show ?thesis by (auto simp: Let_def)
qed

lemma masters_arm_loop: "arm_release_loop ord d tc ts s = Some s' \<Longrightarrow> masters s' = masters s"
  by (induction ts arbitrary: s) (auto simp: bind_eq_Some_iff dest!: masters_arm_one)

lemma masters_add_release: "add_release ord d t s = Some s' \<Longrightarrow> masters s' = masters s"
  unfolding add_release_def arm_release_timer_on_def Let_def by (drule masters_arm_loop) simp

lemma masters_requeue: "gsn_requeue t now s = Some s' \<Longrightarrow> masters s' = masters s"
  by (auto simp: gsn_requeue_def bind_eq_Some_iff dest!: masters_add_ready masters_add_release split: if_splits)

lemma masters_update_cpu_position: "update_cpu_position c s = Some s' \<Longrightarrow> masters s' = masters s"
  by (auto simp: update_cpu_position_def bind_eq_Some_iff Let_def intro!: masters_doms)

lemma masters_set_linked [simp]: "masters (set_linked c t s) = masters s"
  by (simp add: set_linked_def masters_def [abs_def])

lemma masters_relink: "relink t e s = Some (r, s') \<Longrightarrow> masters s' = masters s"
  by (auto simp: relink_def bind_eq_Some_iff Let_def dest!: masters_update_cpu_position split: option.splits if_splits)

lemma masters_link:
  assumes "link_task_to_cpu t e s = Some s'"
  shows "masters s' = masters s"
proof -
  have l: "masters (case linked s e of Some l \<Rightarrow> upd_task l (set_linked_on None) s | None \<Rightarrow> s) = masters s"
    by (simp split: option.split)
  show ?thesis
    using assms l
    by (auto simp: link_task_to_cpu_def bind_eq_Some_iff Let_def dest!: masters_update_cpu_position masters_relink
        split: option.splits prod.splits)
qed

lemma masters_unlink: "unlink t s = Some s' \<Longrightarrow> masters s' = masters s"
  by (auto simp: unlink_def bind_eq_Some_iff dest!: masters_link masters_remove split: option.splits if_splits)

lemma masters_preempt [simp]: "masters (gsn_preempt c s) = masters s"
  by (rule masters_doms) (simp add: gsn_preempt_def)

lemma masters_preempt_lowest: "preempt_lowest d now c s = Some s' \<Longrightarrow> masters s' = masters s"
  by (auto simp: preempt_lowest_def bind_eq_Some_iff dest!: masters_take_ready masters_requeue masters_link
      split: prod.splits option.splits)

lemma masters_next_ready: "next_ready ord d s = (r, s') \<Longrightarrow> masters s' = masters s"
  by (auto simp: next_ready_def Let_def split: prod.splits)

lemma masters_entry [simp]:
  "masters (s\<lparr>cpu_heap := h\<rparr>) = masters s" "masters (s\<lparr>will_schedule := w\<rparr>) = masters s"
  "masters (s\<lparr>hn_in_heap := g\<rparr>) = masters s" "masters (s\<lparr>linked := l\<rparr>) = masters s"
  "masters (s\<lparr>scheduled := k\<rparr>) = masters s" "masters (s\<lparr>curr := f\<rparr>) = masters s"
  "masters (s\<lparr>this_cpu := c\<rparr>) = masters s"
  by (simp_all add: masters_def [abs_def])

lemma masters_preemption_test: "preemption_test d s = Some (c, b, s') \<Longrightarrow> masters s' = masters s"
  by (auto simp: preemption_test_def lowest_prio_cpu_def edf_preemption_needed_def bind_eq_Some_iff Let_def
      dest!: masters_next_ready split: prod.splits if_splits option.splits)

lemma masters_check:
  assumes "check_for_preemptions d clk s = Some s'"
  shows "masters s' = masters s"
proof (rule check_for_preemptions.raw_induct [where P = "\<lambda>d clk s y. masters y = masters s", OF _ assms])
  fix f d clk and s s' :: "'z gstate_scheme"
  assume IH: "\<And>d clk s y. f d clk s = Some y \<Longrightarrow> masters y = masters s"
    and b: "(do { (c, needed, s) \<leftarrow> preemption_test d s;
      if needed then do { s \<leftarrow> preempt_lowest d (clk 0) c s; f d (\<lambda>i. clk (Suc i)) s } else Some s }) = Some s'"
  show "masters s' = masters s"
    using b by (auto simp: bind_eq_Some_iff dest!: IH masters_preemption_test masters_preempt_lowest split: if_splits)
qed

lemma masters_arrival: "gsn_job_arrival t clk s = Some s' \<Longrightarrow> masters s' = masters s"
  by (auto simp: gsn_job_arrival_def bind_eq_Some_iff Let_def dest!: masters_requeue masters_check)

lemma masters_completion: "gsn_job_completion t clk s = Some s' \<Longrightarrow> masters s' = masters s"
  by (auto simp: gsn_job_completion_def bind_eq_Some_iff dest!: masters_unlink masters_arrival split: if_splits)

lemma masters_schedule_links:
  assumes "schedule_links bl oot np sl pr clk s = Some s'"
  shows "masters s' = masters s"
proof -
  let ?c = "this_cpu s"
  obtain s1 s2 s3 where
    1: "(if bl then unlink (scheduled s ?c) s else Some s) = Some s1" and
    2: "(if np \<and> (oot \<or> pr \<or> sl) then do {
           s \<leftarrow> unlink (scheduled s1 ?c) s1;
           Some (case scheduled s ?c of Some t \<Rightarrow> upd_task t request_exit_np s | None \<Rightarrow> s) } else Some s1) = Some s2" and
    3: "(if \<not> np \<and> (oot \<or> sl) \<and> \<not> bl \<and> \<not> pr
         then (case scheduled s2 ?c of Some t \<Rightarrow> gsn_job_completion t clk s2 | None \<Rightarrow> None) else Some s2) = Some s3" and
    4: "(if linked s3 ?c = None
         then (case take_ready edf_ready_order (cluster s3 ?c) s3 of (t, s) \<Rightarrow> link_task_to_cpu t ?c s) else Some s3) = Some s'"
    using assms unfolding schedule_links_def Let_def bind_eq_Some_iff by blast
  have "masters s1 = masters s" using 1 by (auto dest: masters_unlink split: if_splits)
  moreover have "masters s2 = masters s1"
    using 2 by (auto simp: bind_eq_Some_iff dest!: masters_unlink split: if_splits option.splits)
  moreover have "masters s3 = masters s2" using 3 by (auto dest: masters_completion split: if_splits option.splits)
  moreover have "masters s' = masters s3"
    using 4 by (auto dest!: masters_link masters_take_ready split: if_splits prod.splits)
  ultimately show ?thesis by simp
qed

lemma masters_schedule: "linked_schedule prev clk s = Some (nxt, s') \<Longrightarrow> masters s' = masters s"
  by (auto simp: linked_schedule_def schedule_decide_def bind_eq_Some_iff Let_def
      dest!: masters_schedule_links split: if_splits option.splits)

lemma masters_merge [simp]: "masters (merge_ready ord dummy_resched d r s) = masters s"
  by (simp add: merge_ready_def dummy_resched_def split: prod.split)

lemma masters_release: "on_release_timer (gsn_release_jobs clk) r s = Some s' \<Longrightarrow> masters s' = masters s"
  by (auto simp: on_release_timer_def gsn_release_jobs_def Let_def dest!: masters_check)

section \<open>Activation sets up the invariant\<close>

lemma no_link_order: "linked s a = None \<Longrightarrow> linked s b = None \<Longrightarrow> \<not> cpu_lower_prio s a b"
  by (simp add: cpu_lower_prio_def)

lemma weak_order_none: "weak_order_on K (\<lambda>_ _. False)"
  by (simp add: weak_order_on_def)

lemma cpus_ok_elems:
  assumes "cpus_ok K ord s"
  shows "c \<in># bheap_elems (cpu_heap s d) \<longleftrightarrow> c \<in> K \<and> cluster s c = d"
  using assms unfolding cpus_ok_def by (metis count_eq_zero_iff zero_neq_one)

lemma cpus_ok_cong:
  assumes "cpus_ok K ord s" "\<And>a b. a \<in> K \<Longrightarrow> b \<in> K \<Longrightarrow> ord' a b = ord a b"
  shows "cpus_ok K ord' s"
proof -
  have "bheap_inv ord' (cpu_heap s d) = bheap_inv ord (cpu_heap s d)" for d
    by (rule bq.inv_cong, rule assms(2)) (simp_all add: cpus_ok_elems [OF assms(1)])
  then show ?thesis using assms(1) by (simp add: cpus_ok_def)
qed

text \<open>An entry without a linked task goes into the heap of entries without linked tasks.\<close>

lemma update_cpu_position_none:
  assumes ok: "cpus_ok K (\<lambda>_ _. False) s" and lk: "\<And>a. a \<in> insert c K \<Longrightarrow> linked s a = None"
    and c: "c \<notin> K" "\<not> hn_in_heap s c" "cluster s = (\<lambda>_. 0)"
  shows "ok (update_cpu_position c s) (\<lambda>s'. cpus_ok (insert c K) (\<lambda>_ _. False) s' \<and>
    (\<exists>h g. s' = s\<lparr>cpu_heap := h, hn_in_heap := g\<rparr>))"
proof -
  let ?o = "cpu_lower_prio s" and ?q = "cpu_heap s 0"
  have o: "?o a b = False" if "a \<in> insert c K" "b \<in> insert c K" for a b
    using no_link_order [OF lk [OF that(1)] lk [OF that(2)]] by simp
  have el: "a \<in># bheap_elems (cpu_heap s d) \<longleftrightarrow> a \<in> K \<and> d = 0" for a d
    using cpus_ok_elems [OF ok] c(3) by auto
  have "cpus_ok K ?o s" by (rule cpus_ok_cong [OF ok]) (use o in auto)
  then have "bheap_inv ?o ?q" by (simp add: cpus_ok_def)
  moreover have "weak_order_on (insert c (set_mset (bheap_elems ?q))) ?o"
    unfolding weak_order_on_def using o el by blast
  ultimately have "bheap_inv ?o (bheap_insert ?o ?q c)" by (rule bq.ins_inv)
  moreover have "bheap_inv (\<lambda>_ _. False) (bheap_insert ?o ?q c) = bheap_inv ?o (bheap_insert ?o ?q c)"
    by (rule bq.inv_cong, rule o [symmetric]) (auto simp: bq.ins_elems el)
  ultimately have inv: "bheap_inv (\<lambda>_ _. False) (bheap_insert ?o ?q c)" by simp
  let ?s = "s\<lparr>cpu_heap := (cpu_heap s)(0 := bheap_insert ?o ?q c), hn_in_heap := (hn_in_heap s)(c := True)\<rparr>"
  have upd: "update_cpu_position c s = Some ?s" using c by (simp add: update_cpu_position_def)
  have "cpus_ok (insert c K) (\<lambda>_ _. False) ?s"
    using ok inv c by (auto simp: cpus_ok_def bq.ins_elems)
  then show ?thesis unfolding upd by auto
qed

definition idle_entries :: "cpu_id set \<Rightarrow> 'z gstate_scheme \<Rightarrow> 'z gstate_scheme \<Rightarrow> bool" where
  "idle_entries K s s' \<longleftrightarrow>
     (\<forall>c. linked s' c = (if c \<in> K then None else linked s c)) \<and>
     (\<forall>c. scheduled s' c = (if c \<in> K then None else scheduled s c)) \<and>
     tasks s' = tasks s \<and> doms s' = doms s \<and> rel_heaps s' = rel_heaps s \<and> tick_period s' = tick_period s \<and>
     cluster s' = cluster s \<and> curr s' = curr s \<and> gstate.more s' = gstate.more s"

lemma activate_cpus_ok:
  assumes "cpus_ok K (\<lambda>_ _. False) s" "\<And>c. c \<in> K \<Longrightarrow> linked s c = None" "cluster s = (\<lambda>_. 0)"
    "distinct cs" "set cs \<inter> K = {}" "release_master (doms s 0) = rm"
  shows "ok (activate_cpus cs s) (\<lambda>s'. cpus_ok (K \<union> (set cs - set_option rm)) (\<lambda>_ _. False) s' \<and> idle_entries (set cs) s s')"
  using assms
proof (induction cs arbitrary: K s)
  case Nil
  then show ?case by (simp add: idle_entries_def)
next
  case (Cons c cs)
  define s0 where "s0 = s\<lparr>hn_in_heap := (hn_in_heap s)(c := False), will_schedule := (will_schedule s)(c := False),
              linked := (linked s)(c := None), scheduled := (scheduled s)(c := None)\<rparr>"
  have c: "c \<notin> K" "c \<notin> set cs" using Cons.prems by auto
  have ok0: "cpus_ok K (\<lambda>_ _. False) s0" using Cons.prems(1) c(1) by (auto simp: s0_def cpus_ok_def)
  let ?K = "if Some c \<noteq> rm then insert c K else K"
  have "ok (if Some c \<noteq> rm then update_cpu_position c s0 else Some s0)
      (\<lambda>s'. cpus_ok ?K (\<lambda>_ _. False) s' \<and> (\<exists>h g. s' = s0\<lparr>cpu_heap := h, hn_in_heap := g\<rparr>))"
  proof (cases "Some c = rm")
    case True
    have "\<exists>h g. s0 = s0\<lparr>cpu_heap := h, hn_in_heap := g\<rparr>"
      by (rule exI [of _ "cpu_heap s0"], rule exI [of _ "hn_in_heap s0"]) simp
    then show ?thesis using True ok0 by simp
  next
    case False
    have "ok (update_cpu_position c s0) (\<lambda>s'. cpus_ok (insert c K) (\<lambda>_ _. False) s' \<and>
        (\<exists>h g. s' = s0\<lparr>cpu_heap := h, hn_in_heap := g\<rparr>))"
      by (rule update_cpu_position_none [OF ok0]) (use Cons.prems(2,3) c(1) in \<open>auto simp: s0_def\<close>)
    then show ?thesis using False by simp
  qed
  then obtain s1 h g where s1: "(if Some c \<noteq> rm then update_cpu_position c s0 else Some s0) = Some s1"
    "cpus_ok ?K (\<lambda>_ _. False) s1" "s1 = s0\<lparr>cpu_heap := h, hn_in_heap := g\<rparr>"
    by (auto simp: ok_iff_ex)
  have step: "activate_cpus (c # cs) s = activate_cpus cs s1"
    using s1(1) Cons.prems(6) by (simp add: Let_def s0_def split: if_splits)
  have "ok (activate_cpus cs s1) (\<lambda>s'. cpus_ok (?K \<union> (set cs - set_option rm)) (\<lambda>_ _. False) s' \<and> idle_entries (set cs) s1 s')"
    by (rule Cons.IH [OF s1(2)]) (use Cons.prems s1(3) in \<open>auto simp: s0_def split: if_splits\<close>)
  moreover have "?K \<union> (set cs - set_option rm) = K \<union> (set (c # cs) - set_option rm)"
    by auto
  moreover have "idle_entries (set (c # cs)) s s'" if "idle_entries (set cs) s1 s'" for s'
    using that s1(3) by (auto simp: s0_def idle_entries_def)
  ultimately show ?case unfolding step by (auto elim: ok_mono)
qed

text \<open>
  The state in which the plugin is initialised and activated: there are no real-time tasks, and what
  is used for no domain and no online CPU is unused memory.
\<close>

definition gsn_boot :: "cpu_id list \<Rightarrow> 'z gstate_scheme \<Rightarrow> bool" where
  "gsn_boot online s \<longleftrightarrow>
     (\<forall>t. \<not> is_realtime (tasks s t) \<and> \<not> in_heap (rt_param (tasks s t))) \<and> inj (\<lambda>t. pid (tasks s t)) \<and>
     (\<forall>d. d \<noteq> 0 \<longrightarrow> ready_queue (doms s d) = bheap_init \<and> tobe_released (doms s d) = [] \<and> (\<forall>k. slot (doms s d) k = [])) \<and>
     (\<forall>r. rh_heap (rel_heaps s r) = bheap_init \<and> rh_timer (rel_heaps s r) = None) \<and>
     (\<forall>d. d \<noteq> 0 \<longrightarrow> cpu_heap s d = bheap_init) \<and>
     (\<forall>c. c \<notin> set online \<longrightarrow> linked s c = None \<and> scheduled s c = None) \<and> distinct online"

lemma gsn_activate_ok:
  assumes boot: "gsn_boot online s" and C: "C = set online - set_option rm"
  shows "ok (gsnedf_activate_plugin rm online (init_gsn_edf n s)) (\<lambda>s'.
    ginv C now (\<lambda>_. Nowhere) s' \<and> linked s' = (\<lambda>_. None) \<and> scheduled s' = (\<lambda>_. None) \<and> cluster s' = (\<lambda>_. 0) \<and>
    masters s' 0 = rm \<and> tasks s' = tasks s \<and> curr s' = curr s \<and> gstate.more s' = gstate.more s)"
proof -
  define s1 where "s1 = upd_dom 0 (\<lambda>D. D\<lparr>release_master := rm\<rparr>)
    ((init_gsn_edf n s)\<lparr>cpu_heap := (cpu_heap (init_gsn_edf n s))(0 := bheap_init)\<rparr>)"
  note boot_defs = boot [unfolded gsn_boot_def]
  have f: "tasks s1 = tasks s" "cluster s1 = (\<lambda>_. 0)" "rel_heaps s1 = rel_heaps s" "curr s1 = curr s" "linked s1 = linked s"
    "scheduled s1 = scheduled s" "gstate.more s1 = gstate.more s" "release_master (doms s1 0) = rm" "cpu_heap s1 = (\<lambda>_. bheap_init)"
    "ready_queue (doms s1 d) = bheap_init" "tobe_released (doms s1 d) = []" "slot (doms s1 d) k = []" for d k
    using boot_defs
    by (auto simp: s1_def init_gsn_edf_def edf_domain_init_def rt_domain_init_def upd_dom_def)
  have c0: "cpus_ok {} (\<lambda>_ _. False) s1" by (simp add: cpus_ok_def f bq.empty_inv bq.empty_elems)
  have q: "queue_inv hm (\<lambda>_. Nowhere) s'" if "tasks s' = tasks s1" "doms s' = doms s1" "rel_heaps s' = rel_heaps s1"
    for hm and s' :: "'a gstate_scheme"
    using boot_defs f(10-12) unfolding queue_inv_def heaps_ok_def placed_def release_ok_def slot_of_def inj_def that
    by (simp add: bq.empty_inv bq.empty_elems f)
  have g: "ginv C now (\<lambda>_. Nowhere) s'" "linked s' = (\<lambda>_. None)" "scheduled s' = (\<lambda>_. None)"
    if ok: "cpus_ok C (\<lambda>_ _. False) s'" and id: "idle_entries (set online) s1 s'" for s'
  proof -
    show l: "linked s' = (\<lambda>_. None)" "scheduled s' = (\<lambda>_. None)"
      using id boot_defs f(5,6) by (auto simp: idle_entries_def)
    have "cpus_ok C (cpu_lower_prio s') s'"
      by (rule cpus_ok_cong [OF ok]) (simp add: cpu_lower_prio_def l)
    then show "ginv C now (\<lambda>_. Nowhere) s'"
      using id boot_defs q [of s'] l(1) f(1) C
      by (simp add: ginv_def gsn_inv_def linkage_def schedule_ok_def links_edf_def timely_def idle_entries_def)
  qed
  have "distinct online" using boot_defs by blast
  from activate_cpus_ok [OF c0 _ f(2) this _ f(8)]
  have "ok (activate_cpus online s1) (\<lambda>s'. cpus_ok C (\<lambda>_ _. False) s' \<and> idle_entries (set online) s1 s')"
    unfolding C by simp
  then have "ok (activate_cpus online s1) (\<lambda>s'.
    ginv C now (\<lambda>_. Nowhere) s' \<and> linked s' = (\<lambda>_. None) \<and> scheduled s' = (\<lambda>_. None) \<and> cluster s' = (\<lambda>_. 0) \<and>
    masters s' 0 = rm \<and> tasks s' = tasks s \<and> curr s' = curr s \<and> gstate.more s' = gstate.more s)"
  proof (rule ok_mono)
    fix s' assume a: "cpus_ok C (\<lambda>_ _. False) s' \<and> idle_entries (set online) s1 s'"
    have "cluster s' = (\<lambda>_. 0)" "masters s' 0 = rm" "tasks s' = tasks s" "curr s' = curr s" "gstate.more s' = gstate.more s"
      using conjunct2 [OF a] f by (simp_all add: idle_entries_def masters_def)
    then show "ginv C now (\<lambda>_. Nowhere) s' \<and> linked s' = (\<lambda>_. None) \<and> scheduled s' = (\<lambda>_. None) \<and> cluster s' = (\<lambda>_. 0) \<and>
      masters s' 0 = rm \<and> tasks s' = tasks s \<and> curr s' = curr s \<and> gstate.more s' = gstate.more s"
      using g [OF conjunct1 [OF a] conjunct2 [OF a]] by blast
  qed
  then show ?thesis unfolding gsnedf_activate_plugin_def s1_def .
qed

end
