(* ===== verification/Gsn_Machine.thy ===== *)
theory Gsn_Machine
  imports Gsn_Edf
begin

text \<open>
  GSN-EDF under every sequence of calls that Linux makes. A CPU that has called the scheduler switches
  to the chosen task some time later, and only once that task is no longer the current one of
  another CPU; in between, other CPUs call the plugin. The state lists the switches that are under way,
  in the order of the calls of the scheduler, and the time.
\<close>

section \<open>Calls\<close>

record gsys = gstate +
  switches :: "(cpu_id \<times> tid option) list"
  clock :: lt_t

text \<open>
  The first argument is the CPU of the call. A call that reads the clock carries the readings and the
  time when it returns.
\<close>

datatype gsn_call =
    GSchedule cpu_id "nat \<Rightarrow> lt_t" lt_t
  | GSwitch cpu_id tid
  | GRelease cpu_id tid "nat \<Rightarrow> lt_t" lt_t
  | GNew cpu_id tid bool "nat \<Rightarrow> lt_t" lt_t
  | GWake cpu_id tid "nat \<Rightarrow> lt_t" lt_t
  | GBlock cpu_id tid
  | GExit cpu_id tid nat
  | GTick cpu_id
  | GLinux tid "task_struct \<Rightarrow> task_struct"

fun gsn_exec :: "gsn_call \<Rightarrow> gsys \<Rightarrow> gsys option" where
  "gsn_exec (GSchedule c clk fin) s =
     map_option (\<lambda>(nxt, s). s\<lparr>switches := switches s @ [(c, nxt)], clock := fin\<rparr>)
       (gsnedf_schedule (curr s c) clk (s\<lparr>this_cpu := c\<rparr>))"
| "gsn_exec (GSwitch c idle) s =
     (let t = (case map_of (switches s) c of Some (Some t) \<Rightarrow> t | _ \<Rightarrow> idle)
      in Some (gsnedf_finish_switch (s\<lparr>this_cpu := c, curr := (curr s)(c := t),
                 switches := filter (\<lambda>x. fst x \<noteq> c) (switches s)\<rparr>)))"
| "gsn_exec (GRelease c r clk fin) s =
     map_option (\<lambda>s. s\<lparr>clock := fin\<rparr>) (on_release_timer (gsn_release_jobs clk) r (s\<lparr>this_cpu := c\<rparr>))"
| "gsn_exec (GNew c t running clk fin) s =
     map_option (\<lambda>s. s\<lparr>clock := fin\<rparr>)
       (gsnedf_task_new t running clk (upd_task t (\<lambda>p. p\<lparr>policy := SCHED_LITMUS\<rparr>) (s\<lparr>this_cpu := c\<rparr>)))"
| "gsn_exec (GWake c t clk fin) s =
     map_option (\<lambda>s. s\<lparr>clock := fin\<rparr>) (gsnedf_task_wake_up t clk (s\<lparr>this_cpu := c\<rparr>))"
| "gsn_exec (GBlock c t) s = gsnedf_task_block t (s\<lparr>this_cpu := c\<rparr>)"
| "gsn_exec (GExit c t pol) s =
     map_option (upd_task t (\<lambda>p. p\<lparr>policy := pol\<rparr>)) (gsnedf_task_exit t (s\<lparr>this_cpu := c\<rparr>))"
| "gsn_exec (GTick c) s = Some (gsnedf_tick (curr s c) (s\<lparr>this_cpu := c\<rparr>))"
| "gsn_exec (GLinux t f) s = Some (upd_task t f s)"

text \<open>
  When Linux makes a call, for the CPUs \<open>C\<close> and the release master \<open>rm\<close>. A new task is either the
  current one of its CPU or of none. A task that wakes up has been descheduled. A task that exits
  waits for no release and is not about to be switched to. A switch waits until its task has left
  its former CPU. The time stamps of all jobs stay below \<open>2 ^ 63\<close>.
\<close>

fun gsn_enabled :: "cpu_id set \<Rightarrow> cpu_id option \<Rightarrow> gsn_call \<Rightarrow> gsys \<Rightarrow> bool" where
  "gsn_enabled C rm (GSchedule c clk fin) s =
     (c \<in> C \<union> set_option rm \<and> map_of (switches s) c = None \<and> clk_ok (clock s) clk fin \<and>
      (is_realtime (tasks s (curr s c)) \<longrightarrow> edf_ok (next_job (tasks s (curr s c)))))"
| "gsn_enabled C rm (GSwitch c idle) s =
     (case map_of (switches s) c of
        None \<Rightarrow> False
      | Some None \<Rightarrow> \<not> is_realtime (tasks s idle)
      | Some (Some t) \<Rightarrow> (\<forall>c'. c' \<noteq> c \<longrightarrow> curr s c' \<noteq> t))"
| "gsn_enabled C rm (GRelease c r clk fin) s =
     (rh_timer (rel_heaps s r) \<noteq> None \<and> rh_time (rel_heaps s r) \<le> clock s \<and> clk_ok (clock s) clk fin)"
| "gsn_enabled C rm (GNew c t running clk fin) s =
     (\<not> is_realtime (tasks s t) \<and> \<not> in_heap (rt_param (tasks s t)) \<and> clk_ok (clock s) clk fin \<and>
      edf_ok (release_at (clk 0) ((tasks s t)\<lparr>policy := SCHED_LITMUS\<rparr>)) \<and>
      (if running
       then task_cpu (tasks s t) \<in> C \<union> set_option rm \<and> curr s (task_cpu (tasks s t)) = t \<and>
            map_of (switches s) (task_cpu (tasks s t)) = None \<and>
            (\<forall>c'. curr s c' = t \<longrightarrow> c' = task_cpu (tasks s t))
       else \<forall>c'. curr s c' \<noteq> t))"
| "gsn_enabled C rm (GWake c t clk fin) s =
     (edf_ok (tasks s t) \<and> \<not> in_heap (rt_param (tasks s t)) \<and> linked_on (rt_param (tasks s t)) = None \<and>
      scheduled_on (rt_param (tasks s t)) = None \<and> clk_ok (clock s) clk fin \<and>
      edf_ok (linked_wake_task (clk 0) (tasks s t)))"
| "gsn_enabled C rm (GBlock c t) s = (edf_ok (tasks s t) \<and> (\<forall>r. t \<notin># waiting_of s r))"
| "gsn_enabled C rm (GExit c t pol) s =
     (edf_ok (tasks s t) \<and> (\<forall>r. t \<notin># waiting_of s r) \<and> (\<forall>x \<in> set (switches s). snd x \<noteq> Some t) \<and>
      pol \<noteq> SCHED_LITMUS)"
| "gsn_enabled C rm (GTick c) s = True"
| "gsn_enabled C rm (GLinux t f) s =
     (qview (f (tasks s t)) = qview (tasks s t) \<and> get_partition (f (tasks s t)) = get_partition (tasks s t) \<and>
      linked_on (rt_param (f (tasks s t))) = linked_on (rt_param (tasks s t)) \<and>
      scheduled_on (rt_param (f (tasks s t))) = scheduled_on (rt_param (tasks s t)))"

text \<open>The states in which the plugin has just been activated.\<close>

definition gsn_init :: "cpu_id set \<Rightarrow> cpu_id option \<Rightarrow> gsys \<Rightarrow> bool" where
  "gsn_init C rm s \<longleftrightarrow>
     (\<exists>n online s0. gsn_boot online s0 \<and> C = set online - set_option rm \<and> C \<noteq> {} \<and> switches s0 = [] \<and>
        gsnedf_activate_plugin rm online (init_gsn_edf n s0) = Some s)"

section \<open>Invariant\<close>

text \<open>The task that a CPU runs or is about to switch to.\<close>

definition occupant :: "gsys \<Rightarrow> cpu_id \<Rightarrow> tid option" where
  "occupant s c = (case map_of (switches s) c of Some nxt \<Rightarrow> nxt | None \<Rightarrow> scheduled s c)"

definition sys_ok :: "cpu_id set \<Rightarrow> cpu_id option \<Rightarrow> gsys \<Rightarrow> bool" where
  "sys_ok C rm s \<longleftrightarrow>
     cluster s = (\<lambda>_. 0) \<and> masters s 0 = rm \<and> C \<noteq> {} \<and> set_option rm \<inter> C = {} \<and>
     (\<forall>t c. is_realtime (tasks s t) \<longrightarrow> (scheduled_on (rt_param (tasks s t)) = Some c \<longleftrightarrow> occupant s c = Some t)) \<and>
     (\<forall>c \<in> C. map_of (switches s) c = None \<longrightarrow>
        scheduled s c = (if is_realtime (tasks s (curr s c)) then Some (curr s c) else None)) \<and>
     (\<forall>c. c \<notin> C \<longrightarrow> scheduled s c = None) \<and>
     (\<forall>c t. map_of (switches s) c = Some (Some t) \<longrightarrow> is_realtime (tasks s t) \<and> c \<in> C) \<and>
     (\<forall>c c'. is_realtime (tasks s (curr s c)) \<longrightarrow> curr s c' = curr s c \<longrightarrow> c' = c)"

text \<open>
  A switch to a task that still is the current one of another CPU waits for that CPU, which has called
  the scheduler earlier.
\<close>

fun switch_order :: "cpu_id set \<Rightarrow> (cpu_id \<Rightarrow> tid) \<Rightarrow> cpu_id set \<Rightarrow> (cpu_id \<times> tid option) list \<Rightarrow> bool" where
  "switch_order C cur K [] = True"
| "switch_order C cur K ((c, nxt) # sw) =
     (c \<notin> K \<and> (\<forall>c' \<in> C. c' \<noteq> c \<longrightarrow> nxt = Some (cur c') \<longrightarrow> c' \<in> K) \<and> switch_order C cur (insert c K) sw)"

definition gsn_safe :: "cpu_id set \<Rightarrow> cpu_id option \<Rightarrow> gsys \<Rightarrow> bool" where
  "gsn_safe C rm s \<longleftrightarrow>
     (\<exists>pl. ginv C (clock s) pl s \<and> not_waiting pl s) \<and> sys_ok C rm s \<and>
     switch_order C (curr s) {} (switches s)"

lemma ginv_fields:
  assumes "tasks s' = tasks s" "doms s' = doms s" "rel_heaps s' = rel_heaps s" "tick_period s' = tick_period s"
    "linked s' = linked s" "cpu_heap s' = cpu_heap s" "hn_in_heap s' = hn_in_heap s" "cluster s' = cluster s"
  shows "ginv C n pl s' = ginv C n pl s" "not_waiting pl s' = not_waiting pl s" "held pl s' = held pl s"
proof -
  have o: "cpu_lower_prio s' = cpu_lower_prio s" "edf_ready_order s' = edf_ready_order s"
    by (intro ext, simp add: cpu_lower_prio_def edf_ready_order_def assms)+
  show "ginv C n pl s' = ginv C n pl s" "not_waiting pl s' = not_waiting pl s" "held pl s' = held pl s"
    unfolding ginv_def gsn_inv_def queue_inv_def heaps_ok_def placed_def release_ok_def slot_of_def
      cpus_ok_def linkage_def schedule_ok_def links_edf_def timely_def home_def not_waiting_def held_def o
    by (simp_all only: assms)
qed

lemma gsys_entry [simp]:
  "ginv C n pl (s\<lparr>clock := v\<rparr>) = ginv C n pl s" "ginv C n pl (s\<lparr>switches := w\<rparr>) = ginv C n pl s"
  "not_waiting pl (s\<lparr>clock := v\<rparr>) = not_waiting pl s" "not_waiting pl (s\<lparr>switches := w\<rparr>) = not_waiting pl s"
  "masters (s\<lparr>clock := v\<rparr>) = masters s" "masters (s\<lparr>switches := w\<rparr>) = masters s"
  by (simp_all add: masters_def [abs_def]) (rule ginv_fields; simp)+

lemma not_waiting_entry [simp]:
  "not_waiting pl (s\<lparr>this_cpu := c\<rparr>) = not_waiting pl s" "not_waiting pl (s\<lparr>curr := f\<rparr>) = not_waiting pl s"
  "not_waiting pl (s\<lparr>scheduled := k\<rparr>) = not_waiting pl s"
  by (simp_all add: not_waiting_def)

lemma gsys_more:
  assumes "gstate.more s' = gstate.more (s :: gsys)"
  shows "switches s' = switches s" "clock s' = clock s"
  using assms by (cases s, cases s', simp)+

lemma gsys_upd_task [simp]: "switches (upd_task t f s) = switches s" "clock (upd_task t f s) = clock s"
  by (simp_all add: upd_task_def)

text \<open>A task that is in no queue and not linked may change.\<close>

lemma prio_untouched:
  assumes "inh_task (rt_param (ts x)) = None" "inh_task (rt_param (ts y)) = None"
    "qview (ts' x) = qview (ts x)" "qview (ts' y) = qview (ts y)"
  shows "edf_higher_prio ts' (Some x) (Some y) = edf_higher_prio ts (Some x) (Some y)"
  using assms qviewD [OF assms(3)] qviewD [OF assms(4)]
  by (simp add: edf_higher_prio_def earlier_deadline_def)

lemma ginv_views:
  assumes inv: "ginv C n pl s" and T: "\<And>x. x \<in> T \<Longrightarrow> pl x = Nowhere \<and> (\<forall>c. linked s c \<noteq> Some x)"
    and q: "\<And>x. x \<notin> T \<Longrightarrow> qview (tasks s' x) = qview (tasks s x) \<and> get_partition (tasks s' x) = get_partition (tasks s x) \<and>
        linked_on (rt_param (tasks s' x)) = linked_on (rt_param (tasks s x))"
    and p: "\<And>x. x \<in> T \<Longrightarrow> pid (tasks s' x) = pid (tasks s x) \<and> \<not> in_heap (rt_param (tasks s' x))"
    and f: "doms s' = doms s" "rel_heaps s' = rel_heaps s" "tick_period s' = tick_period s" "linked s' = linked s"
      "cpu_heap s' = cpu_heap s" "hn_in_heap s' = hn_in_heap s" "cluster s' = cluster s"
    and rt: "\<And>x. x \<in> T \<Longrightarrow> is_realtime (tasks s' x) \<Longrightarrow> linked_on (rt_param (tasks s' x)) = None"
    and sc: "schedule_ok C s'"
  shows "ginv C n pl s'"
proof -
  note lk = ginvD(5) [OF inv] and gi = ginvD(1) [OF inv]
  have ok: "edf_ok (tasks s x)" "x \<notin> T" if "pl x \<noteq> Nowhere \<or> (\<exists>c. linked s c = Some x)" for x
    using that T [of x] placed_simps(6) [OF ginvD(7) [OF inv], of x] linkageD(2) [OF lk, of _ x] by auto
  have v: "qview (tasks s' x) = qview (tasks s x)" "edf_ok (tasks s' x) = edf_ok (tasks s x)"
    "is_realtime (tasks s' x) = is_realtime (tasks s x)" "get_release (tasks s' x) = get_release (tasks s x)"
    "home s (tasks s' x) = home s (tasks s x)" "linked_on (rt_param (tasks s' x)) = linked_on (rt_param (tasks s x))"
    "pid (tasks s' x) = pid (tasks s x)" "in_heap (rt_param (tasks s' x)) = in_heap (rt_param (tasks s x))" if "x \<notin> T" for x
    using q [OF that] qviewD [of "tasks s' x" "tasks s x"] by (simp_all add: home_def)
  have hp: "edf_higher_prio (tasks s') (Some x) (Some y) = edf_higher_prio (tasks s) (Some x) (Some y)"
    if "pl x \<noteq> Nowhere \<or> (\<exists>c. linked s c = Some x)" "pl y \<noteq> Nowhere \<or> (\<exists>c. linked s c = Some y)" for x y
    by (rule prio_untouched)
      (use ok(1) [OF that(1)] ok(1) [OF that(2)] v(1) [OF ok(2) [OF that(1)]] v(1) [OF ok(2) [OF that(2)]] in \<open>auto simp: edf_ok_def\<close>)
  have hm: "home s' = home s" by (simp add: home_def [abs_def] f)
  have "queue_inv (home s) pl s'"
  proof (rule queue_inv_frame [OF gsn_invD(1) [OF gi] f(1-3)])
    show "qview (tasks s' x) = qview (tasks s x) \<and> home s (tasks s' x) = home s (tasks s x)" if "pl x \<noteq> Nowhere" for x
      using v(1,5) [of x] ok(2) [of x] that by blast
    show "pid (tasks s' x) = pid (tasks s x) \<and> in_heap (rt_param (tasks s' x)) = in_heap (rt_param (tasks s x))" for x
      using p [of x] v(7,8) [of x] placed_simps(5) [OF ginvD(7) [OF inv], of x] T [of x] by (cases "x \<in> T") auto
  qed
  moreover have "cpus_ok C (cpu_lower_prio s') s'"
  proof -
    have "cpus_ok C (cpu_lower_prio s) s'" using gsn_invD(2) [OF gi] by (simp add: cpus_ok_def f)
    moreover have "cpu_lower_prio s' a b = cpu_lower_prio s a b" for a b
      unfolding cpu_lower_prio_eq f(4)
      by (rule cpu_order_cong [where S = "{x. \<exists>c. linked s c = Some x}"]) (use hp in auto)
    ultimately show ?thesis by (rule cpus_ok_cong)
  qed
  moreover have "linkage C {} pl s'"
  proof (rule linkageI; unfold f hm)
    fix c x assume a: "linked s c = Some x"
    note d = linkageD(1-5) [OF lk a] and nT = ok(2) [of x]
    have "x \<notin> T" using a nT by blast
    then show "c \<in> C \<and> edf_ok (tasks s' x) \<and> home s (tasks s' x) = cluster s c"
      "pl x = Nowhere \<and> linked_on (rt_param (tasks s' x)) = Some c"
      using d v(2,5,6) by simp_all
  next
    fix c c' x assume "linked s c = Some x" "linked s c' = Some x"
    then show "c = c'" by (rule linkageD(6) [OF lk])
  next
    fix x c assume a: "is_realtime (tasks s' x)" "linked_on (rt_param (tasks s' x)) = Some c"
    then have "x \<notin> T" using rt [of x] by auto
    then show "linked s c = Some x" using a v(3,6) by (intro linkageD(7) [OF lk]) simp_all
  qed
  moreover have "links_edf pl s'"
    unfolding links_edf_def f edf_ready_order_def
  proof (intro allI impI)
    fix c l x assume a: "linked s c = Some l" "pl x = Ready (cluster s c)"
    then have "edf_higher_prio (tasks s') (Some x) (Some l) = edf_higher_prio (tasks s) (Some x) (Some l)"
      by (intro hp) auto
    then show "\<not> edf_higher_prio (tasks s') (Some x) (Some l)"
      using a ginvD(3) [OF inv] by (simp add: links_edf_def edf_ready_order_def)
  qed
  moreover have "timely n pl s'"
    unfolding timely_def f
  proof (intro allI impI)
    fix x assume a: "(\<exists>d. pl x = Ready d) \<or> (\<exists>c. linked s c = Some x)"
    then have "x \<notin> T" using ok(2) [of x] by auto
    moreover have "get_release (tasks s x) \<le> n" using a ginvD(4) [OF inv] unfolding timely_def by blast
    ultimately show "get_release (tasks s' x) \<le> n" using v(4) [of x] by simp
  qed
  ultimately show ?thesis using ginvD(2) [OF inv] sc unfolding ginv_def gsn_inv_def hm by blast
qed

lemma schedule_ok_change:
  assumes sc: "schedule_ok C s" and f: "linked s' = linked s" "cluster s' = cluster s"
    and v: "\<And>x. x \<noteq> t \<Longrightarrow> edf_ok (tasks s' x) = edf_ok (tasks s x) \<and> get_partition (tasks s' x) = get_partition (tasks s x) \<and>
        is_realtime (tasks s' x) = is_realtime (tasks s x) \<and>
        scheduled_on (rt_param (tasks s' x)) = scheduled_on (rt_param (tasks s x))"
    and t: "\<And>c. is_realtime (tasks s' t) \<Longrightarrow> scheduled_on (rt_param (tasks s' t)) = Some c \<Longrightarrow>
        c \<in> C \<and> edf_ok (tasks s' t) \<and> home s (tasks s' t) = cluster s c \<and> (\<forall>a. linked s a = Some t \<longrightarrow> a = c) \<and>
        (\<forall>x. x \<noteq> t \<longrightarrow> is_realtime (tasks s x) \<longrightarrow> scheduled_on (rt_param (tasks s x)) \<noteq> Some c)"
  shows "schedule_ok C s'"
proof (rule schedule_okI)
  have hm: "home s' = home s" by (simp add: home_def [abs_def] f)
  fix x c assume x: "is_realtime (tasks s' x)" "scheduled_on (rt_param (tasks s' x)) = Some c"
  have vx: "is_realtime (tasks s y)" "scheduled_on (rt_param (tasks s y)) = Some a" "edf_ok (tasks s' y) = edf_ok (tasks s y)"
    "home s (tasks s' y) = home s (tasks s y)"
    if "y \<noteq> t" "is_realtime (tasks s' y)" "scheduled_on (rt_param (tasks s' y)) = Some a" for y a
    using v [OF that(1)] that(2,3) by (simp_all add: home_def)
  show "c \<in> C \<and> edf_ok (tasks s' x) \<and> home s' (tasks s' x) = cluster s' c"
  proof (cases "x = t")
    case True
    then show ?thesis using t [of c] x unfolding hm f by blast
  next
    case False
    note y = vx [OF False x]
    show ?thesis unfolding hm f y(3,4) using schedule_okD(1-3) [OF sc y(1,2)] by blast
  qed
  show "c' = c" if "linked s' c' = Some x" for c'
  proof (cases "x = t")
    case True
    then show ?thesis using t [of c] x that unfolding f by blast
  next
    case False
    show ?thesis by (rule schedule_okD(4) [OF sc vx(1,2) [OF False x]]) (use that f in simp)
  qed
  show "y = x" if y: "is_realtime (tasks s' y)" "scheduled_on (rt_param (tasks s' y)) = Some c" for y
  proof (cases "x = t \<or> y = t")
    case True
    have other: False if z: "z \<noteq> t" "is_realtime (tasks s' z)" "scheduled_on (rt_param (tasks s' z)) = Some c"
        "is_realtime (tasks s' t)" "scheduled_on (rt_param (tasks s' t)) = Some c" for z
      using t [OF z(4,5)] vx(1,2) [OF z(1-3)] z(1) by blast
    show ?thesis
    proof (rule ccontr)
      assume "y \<noteq> x"
      then show False using True other [of x] other [of y] x y by metis
    qed
  next
    case False
    then have ne: "x \<noteq> t" "y \<noteq> t" by simp_all
    show ?thesis by (rule schedule_okD(5) [OF sc vx(1,2) [OF ne(1) x] vx(1,2) [OF ne(2) y]])
  qed
qed

lemma ginv_change:
  assumes inv: "ginv C n pl s" and t: "pl t = Nowhere" "\<And>c. linked s c \<noteq> Some t"
    and ts: "\<And>x. x \<noteq> t \<Longrightarrow> tview (tasks s' x) = tview (tasks s x)"
    and p: "pid (tasks s' t) = pid (tasks s t)" "\<not> in_heap (rt_param (tasks s' t))"
    and f: "doms s' = doms s" "rel_heaps s' = rel_heaps s" "tick_period s' = tick_period s" "linked s' = linked s"
      "cpu_heap s' = cpu_heap s" "hn_in_heap s' = hn_in_heap s" "cluster s' = cluster s"
    and rt: "is_realtime (tasks s' t) \<Longrightarrow> linked_on (rt_param (tasks s' t)) = None"
      "\<And>c. is_realtime (tasks s' t) \<Longrightarrow> scheduled_on (rt_param (tasks s' t)) = Some c \<Longrightarrow>
        c \<in> C \<and> edf_ok (tasks s' t) \<and> home s (tasks s' t) = cluster s c \<and>
        (\<forall>x. x \<noteq> t \<longrightarrow> is_realtime (tasks s x) \<longrightarrow> scheduled_on (rt_param (tasks s x)) \<noteq> Some c)"
  shows "ginv C n pl s'"
proof (rule ginv_views [OF inv, of "{t}"])
  show "qview (tasks s' x) = qview (tasks s x) \<and> get_partition (tasks s' x) = get_partition (tasks s x) \<and>
        linked_on (rt_param (tasks s' x)) = linked_on (rt_param (tasks s x))" if "x \<notin> {t}" for x
    using that tview_view [OF ts, of x] jview_links [OF tview_links [OF ts], of x] by simp
  show "schedule_ok C s'"
  proof (rule schedule_ok_change [OF ginvD(6) [OF inv] f(4,7), of t])
    show "edf_ok (tasks s' x) = edf_ok (tasks s x) \<and> get_partition (tasks s' x) = get_partition (tasks s x) \<and>
        is_realtime (tasks s' x) = is_realtime (tasks s x) \<and>
        scheduled_on (rt_param (tasks s' x)) = scheduled_on (rt_param (tasks s x))" if "x \<noteq> t" for x
      using that tview_view [OF ts, of x] jview_links [OF tview_links [OF ts], of x] by simp
  qed (use rt(2) t(2) in blast)
qed (use t p rt(1) f in simp_all)

section \<open>The calls keep the invariant\<close>

lemma sys_okD:
  assumes "sys_ok C rm s"
  shows "cluster s = (\<lambda>_. 0)" "masters s 0 = rm" "C \<noteq> {}" "set_option rm \<inter> C = {}"
    "is_realtime (tasks s t) \<Longrightarrow> scheduled_on (rt_param (tasks s t)) = Some c \<longleftrightarrow> occupant s c = Some t"
    "c \<in> C \<Longrightarrow> map_of (switches s) c = None \<Longrightarrow>
      scheduled s c = (if is_realtime (tasks s (curr s c)) then Some (curr s c) else None)"
    "c \<notin> C \<Longrightarrow> scheduled s c = None"
    "map_of (switches s) c = Some (Some t) \<Longrightarrow> is_realtime (tasks s t)"
    "map_of (switches s) c = Some (Some t) \<Longrightarrow> c \<in> C"
    "is_realtime (tasks s (curr s c)) \<Longrightarrow> curr s c' = curr s c \<Longrightarrow> c' = c"
  using assms unfolding sys_ok_def by blast+

lemma occupant_cong: "switches s' = switches s \<Longrightarrow> scheduled s' = scheduled s \<Longrightarrow> occupant s' = occupant s"
  by (intro ext) (simp add: occupant_def split: option.split)

lemma sys_ok_frame:
  assumes "sys_ok C rm s" "cluster s' = cluster s" "masters s' 0 = masters s 0" "scheduled s' = scheduled s"
    "curr s' = curr s" "switches s' = switches s"
    "\<And>x. is_realtime (tasks s' x) = is_realtime (tasks s x)"
    "\<And>x. is_realtime (tasks s x) \<Longrightarrow> scheduled_on (rt_param (tasks s' x)) = scheduled_on (rt_param (tasks s x))"
  shows "sys_ok C rm s'"
  using assms(1) unfolding sys_ok_def occupant_cong [OF assms(6,4)] assms(2-7) using assms(8) by simp

lemma gsn_safe_step:
  assumes "sys_ok C rm s" "switch_order C (curr s) {} (switches s)" "gframe s s'" "masters s' = masters s"
    "ginv C n' pl' s'" "not_waiting pl' s'"
  shows "gsn_safe C rm (s'\<lparr>clock := n'\<rparr>)"
proof -
  note f = gframeD [OF assms(3)] and more = gsys_more [OF gframeD(6) [OF assms(3)]]
  have "sys_ok C rm (s'\<lparr>clock := n'\<rparr>)"
    by (rule sys_ok_frame [OF assms(1)])
      (use f(2-5) more assms(4) lview_view(5) [OF f(8)] lviewD(10) [OF f(8)] in simp_all)
  then show ?thesis using assms(2,5,6) f(3) more(1) by (auto simp: gsn_safe_def)
qed

lemma sys_ok_this_cpu [simp]: "sys_ok C rm (s\<lparr>this_cpu := c\<rparr>) = sys_ok C rm s"
proof -
  have "occupant (s\<lparr>this_cpu := c\<rparr>) = occupant s" by (rule occupant_cong) simp_all
  then show ?thesis by (simp add: sys_ok_def)
qed

lemma gsn_safe_this_cpu [simp]: "gsn_safe C rm (s\<lparr>this_cpu := c\<rparr>) = gsn_safe C rm s"
  by (simp add: gsn_safe_def)

lemma not_waiting_frame:
  assumes "not_waiting pl s" "gframe s s'"
    "\<And>x r. pl' x = Waiting r \<Longrightarrow> pl x = Waiting r \<or> scheduled_on (rt_param (tasks s x)) = None"
  shows "not_waiting pl' s'"
proof -
  note v = gframeD(8) [OF assms(2)]
  show ?thesis
    unfolding not_waiting_def
  proof (intro allI impI notI)
    fix t c r assume a: "is_realtime (tasks s' t)" "scheduled_on (rt_param (tasks s' t)) = Some c" "pl' t = Waiting r"
    then have b: "is_realtime (tasks s t)" "scheduled_on (rt_param (tasks s t)) = Some c"
      using lview_view(5) [OF v, of t] lviewD(10) [OF v, of t] by simp_all
    then have "pl t = Waiting r" using assms(3) [OF a(3)] by simp
    then show False using b assms(1) by (simp add: not_waiting_def)
  qed
qed

lemma home_zero: "sys_ok C rm s \<Longrightarrow> home s t = 0"
  by (simp add: home_def sys_okD(1))

lemma release_call_ok:
  assumes safe: "gsn_safe C rm s" and en: "gsn_enabled C rm (GRelease c r clk fin) s"
  shows "ok (gsn_exec (GRelease c r clk fin) s) (gsn_safe C rm)"
proof -
  let ?s = "s\<lparr>this_cpu := c\<rparr>"
  obtain pl where inv: "ginv C (clock s) pl ?s" "not_waiting pl ?s" and sys: "sys_ok C rm ?s"
    and sw: "switch_order C (curr ?s) {} (switches ?s)"
    using safe by (auto simp: gsn_safe_def)
  have r: "rh_timer (rel_heaps ?s r) \<noteq> None" "rh_time (rel_heaps ?s r) \<le> clock s" "clk_ok (clock s) clk fin" using en by simp_all
  have "pl r = Waiting r" using r(1) gsn_invD(1) [OF ginvD(1) [OF inv(1)]] by (simp add: queue_inv_def release_ok_def)
  then have "rh_dom (rel_heaps ?s r) = home ?s (tasks ?s r)" using ginvD(7) [OF inv(1)] unfolding placed_def by metis
  then have d: "rh_dom (rel_heaps ?s r) = 0" by (simp only: home_zero [OF sys])
  have ne: "\<exists>c' \<in> C. cluster ?s c' = 0" using sys_okD(1,3) [OF sys] by auto
  obtain s' pl' where s': "on_release_timer (gsn_release_jobs clk) r ?s = Some s'" "ginv C fin pl' s'" "gframe ?s s'"
    "\<And>x e. pl' x = Waiting e \<Longrightarrow> pl x = Waiting e"
    using release_ginv [OF inv(1) r(3,1) d ne r(2)] unfolding ok_iff_ex by blast
  have "gsn_safe C rm (s'\<lparr>clock := fin\<rparr>)"
    by (rule gsn_safe_step [OF sys sw s'(3) masters_release [OF s'(1)] s'(2) not_waiting_frame [OF inv(2) s'(3)]])
      (use s'(4) in blast)
  then show ?thesis using s'(1) by simp
qed

lemma safe_at:
  assumes "gsn_safe C rm s"
  obtains pl where "ginv C (clock s) pl (s\<lparr>this_cpu := c\<rparr>)" "not_waiting pl (s\<lparr>this_cpu := c\<rparr>)"
    "sys_ok C rm (s\<lparr>this_cpu := c\<rparr>)" "switch_order C (curr (s\<lparr>this_cpu := c\<rparr>)) {} (switches (s\<lparr>this_cpu := c\<rparr>))"
  using assms by (auto simp: gsn_safe_def)

lemma scheduled_none_iff:
  assumes "sys_ok C rm s" "is_realtime (tasks s t)"
  shows "scheduled_on (rt_param (tasks s t)) = None \<longleftrightarrow> (\<forall>c. occupant s c \<noteq> Some t)"
  using sys_okD(5) [OF assms] by (cases "scheduled_on (rt_param (tasks s t))") auto

lemma unheld:
  assumes "ginv C n pl s" "\<not> in_heap (rt_param (tasks s t))" "is_realtime (tasks s t) \<longrightarrow> linked_on (rt_param (tasks s t)) = None"
  shows "pl t = Nowhere" "linked s c \<noteq> Some t"
proof -
  show "pl t = Nowhere" using placed_simps(5) [OF ginvD(7) [OF assms(1)]] assms(2) by blast
  show "linked s c \<noteq> Some t"
  proof
    assume a: "linked s c = Some t"
    show False using linkageD(2,5) [OF ginvD(5) [OF assms(1)] a] assms(3) by (simp add: edf_ok_def)
  qed
qed

text \<open>Arrival of the first job or the next job of a task after a change of the task.\<close>

lemma arrival_call_ok:
  fixes s s0 :: gsys
  assumes inv: "ginv C n pl s0" "not_waiting pl s0" and sys: "sys_ok C rm s0"
    and sw: "switch_order C (curr s0) {} (switches s0)"
    and t: "pl t = Nowhere" "edf_ok (tasks s0 t)" "\<And>c. linked s0 c \<noteq> Some t"
    and clk: "clk_ok n clk fin"
    and rel: "scheduled_on (rt_param (tasks s0 t)) = None \<or> is_released (tasks s0 t) (clk 0)"
  shows "ok (gsn_job_arrival t clk s0) (\<lambda>s'. gsn_safe C rm (s'\<lparr>clock := fin\<rparr>))"
proof -
  have ne: "\<exists>c' \<in> C. cluster s0 c' = 0" using sys_okD(1,3) [OF sys] by auto
  obtain s' pl' where s': "gsn_job_arrival t clk s0 = Some s'" "ginv C fin pl' s'" "gframe s0 s'"
    "\<And>x r. pl' x = Waiting r \<Longrightarrow> pl x = Waiting r \<or> x = t \<and> \<not> is_released (tasks s0 t) (clk 0)"
    using arrival_ginv [OF inv(1) clk ne t home_zero [OF sys]] unfolding ok_iff_ex by blast
  have w: "pl x = Waiting r \<or> scheduled_on (rt_param (tasks s0 x)) = None" if "pl' x = Waiting r" for x r
    using s'(4) [OF that] rel by auto
  have "gsn_safe C rm (s'\<lparr>clock := fin\<rparr>)"
    by (rule gsn_safe_step [OF sys sw s'(3) masters_arrival [OF s'(1)] s'(2) not_waiting_frame [OF inv(2) s'(3) w]])
  then show ?thesis using s'(1) by simp
qed

lemma wake_simps [simp]:
  "pid (linked_wake_task now p) = pid p" "in_heap (rt_param (linked_wake_task now p)) = in_heap (rt_param p)"
  "linked_on (rt_param (linked_wake_task now p)) = linked_on (rt_param p)"
  "scheduled_on (rt_param (linked_wake_task now p)) = scheduled_on (rt_param p)"
  "is_realtime (linked_wake_task now p) = is_realtime p"
  by (simp_all add: linked_wake_task_def release_at_def prepare_for_next_period_def rt_simps)

lemma wake_call_ok:
  assumes safe: "gsn_safe C rm s" and en: "gsn_enabled C rm (GWake c t clk fin) s"
  shows "ok (gsn_exec (GWake c t clk fin) s) (gsn_safe C rm)"
proof -
  let ?s = "s\<lparr>this_cpu := c\<rparr>"
  obtain pl where inv: "ginv C (clock s) pl ?s" "not_waiting pl ?s" and sys: "sys_ok C rm ?s"
    and sw: "switch_order C (curr ?s) {} (switches ?s)"
    using safe_at [OF safe] .
  define s1 where "s1 = upd_task t (linked_wake_task (clk 0)) ?s"
  have clk: "clk_ok (clock s) clk fin" and so: "scheduled_on (rt_param (tasks s t)) = None"
    and lo: "linked_on (rt_param (tasks s t)) = None" and nh: "\<not> in_heap (rt_param (tasks s t))"
    and ok1: "edf_ok (tasks s1 t)" using en by (simp_all add: s1_def)
  have u: "pl t = Nowhere" "\<And>c. linked ?s c \<noteq> Some t" using unheld [OF inv(1), of t] nh lo by simp_all
  have so1: "scheduled_on (rt_param (tasks s1 x)) = scheduled_on (rt_param (tasks s x))"
    "is_realtime (tasks s1 x) = is_realtime (tasks s x)" for x by (simp_all add: s1_def)
  have inv1: "ginv C (clock s) pl s1"
    by (rule ginv_change [OF inv(1) u]) (use nh lo so in \<open>auto simp: s1_def\<close>)
  have w1: "not_waiting pl s1" using inv(2) so1 by (simp add: not_waiting_def)
  have sys1: "sys_ok C rm s1" by (rule sys_ok_frame [OF sys]) (simp_all add: so1, simp_all add: s1_def)
  have "ok (gsn_job_arrival t (\<lambda>i. clk (Suc i)) s1) (\<lambda>s'. gsn_safe C rm (s'\<lparr>clock := fin\<rparr>))"
    by (rule arrival_call_ok [OF inv1 w1 sys1 _ u(1) ok1 _ clk_ok_Suc [OF clk]])
      (use sw u(2) so in \<open>auto simp: s1_def\<close>)
  then show ?thesis
    by (simp add: gsnedf_task_wake_up_def linked_task_wake_up_def s1_def ok_iff_ex) blast
qed

lemma gsn_safe_step0:
  assumes "sys_ok C rm s" "switch_order C (curr s) {} (switches s)" "gframe s s'" "masters s' = masters s"
    "ginv C (clock s) pl' s'" "not_waiting pl' s'"
  shows "gsn_safe C rm s'"
proof -
  have "s'\<lparr>clock := clock s\<rparr> = s'" using gsys_more(2) [OF gframeD(6) [OF assms(3)]] by simp
  then show ?thesis using gsn_safe_step [OF assms] by simp
qed

lemma block_call_ok:
  assumes safe: "gsn_safe C rm s" and en: "gsn_enabled C rm (GBlock c t) s"
  shows "ok (gsn_exec (GBlock c t) s) (gsn_safe C rm)"
proof -
  let ?s = "s\<lparr>this_cpu := c\<rparr>"
  obtain pl where inv: "ginv C (clock s) pl ?s" "not_waiting pl ?s" and sys: "sys_ok C rm ?s"
    and sw: "switch_order C (curr ?s) {} (switches ?s)"
    using safe_at [OF safe] .
  have t: "edf_ok (tasks ?s t)" "pl t \<noteq> Waiting r" for r
    using en placed_simps(4) [OF ginvD(7) [OF inv(1)], of t r] by simp_all
  obtain s' where s': "unlink (Some t) ?s = Some s'" "ginv C (clock s) (pl(t := Nowhere)) s'" "gframe ?s s'"
    using unlink_ginv [OF inv(1) t] unfolding ok_iff_ex by blast
  have "gsn_safe C rm s'"
    by (rule gsn_safe_step0 [OF sys sw s'(3) masters_unlink [OF s'(1)] _ not_waiting_frame [OF inv(2) s'(3)]])
      (use s'(2) in \<open>auto split: if_splits\<close>)
  moreover have "is_realtime (tasks s' t)"
    using t(1) lview_view(5) [OF gframeD(8) [OF s'(3)], of t] by (simp add: edf_ok_def)
  ultimately show ?thesis using s'(1) by (simp add: gsnedf_task_block_def linked_task_block_def)
qed

lemma tick_call_ok:
  assumes safe: "gsn_safe C rm s"
  shows "ok (gsn_exec (GTick c) s) (gsn_safe C rm)"
proof -
  let ?s = "s\<lparr>this_cpu := c\<rparr>" and ?t = "curr s c"
  obtain pl where inv: "ginv C (clock s) pl ?s" "not_waiting pl ?s" and sys: "sys_ok C rm ?s"
    and sw: "switch_order C (curr ?s) {} (switches ?s)"
    using safe_at [OF safe] .
  have up: "gsn_safe C rm (upd_task ?t f ?s)" if f: "\<And>p. tview (f p) = tview p" for f
  proof -
    note u = ginv_request [OF inv(1), of f ?t, OF f]
    have "ginv C (clock ?s) pl (upd_task ?t f ?s)" using u(1) by simp
    moreover have "not_waiting pl (upd_task ?t f ?s)" by (rule not_waiting_frame [OF inv(2) u(2)]) blast
    ultimately show ?thesis by (intro gsn_safe_step0 [OF sys sw u(2)]) simp_all
  qed
  have w: "gsn_safe C rm (s'\<lparr>will_schedule := g\<rparr>) = gsn_safe C rm s'" for s' :: gsys and g
  proof -
    have "occupant (s'\<lparr>will_schedule := g\<rparr>) = occupant s'" by (rule occupant_cong) simp_all
    then have "sys_ok C rm (s'\<lparr>will_schedule := g\<rparr>) = sys_ok C rm s'" by (simp add: sys_ok_def)
    then show ?thesis by (simp add: gsn_safe_def not_waiting_def)
  qed
  have "gsn_safe C rm ?s" using safe by simp
  then show ?thesis
    using up by (simp add: gsnedf_tick_def linked_tick_def w Let_def set_tsk_need_resched_def)
qed

lemma linux_call_ok:
  assumes safe: "gsn_safe C rm s" and en: "gsn_enabled C rm (GLinux t f) s"
  shows "ok (gsn_exec (GLinux t f) s) (gsn_safe C rm)"
proof -
  obtain pl where inv: "ginv C (clock s) pl s" "not_waiting pl s" and sys: "sys_ok C rm s"
    and sw: "switch_order C (curr s) {} (switches s)"
    using safe by (auto simp: gsn_safe_def)
  let ?s = "upd_task t f s"
  have q: "qview (tasks ?s x) = qview (tasks s x)" "get_partition (tasks ?s x) = get_partition (tasks s x)"
    "linked_on (rt_param (tasks ?s x)) = linked_on (rt_param (tasks s x))"
    "scheduled_on (rt_param (tasks ?s x)) = scheduled_on (rt_param (tasks s x))" for x
    using en by simp_all
  note v = qviewD(2,8) [OF q(1)]
  have f: "linked ?s = linked s" "cluster ?s = cluster s" by simp_all
  have "schedule_ok C ?s = schedule_ok C s" unfolding schedule_ok_def home_def v q f ..
  then have "schedule_ok C ?s" using ginvD(6) [OF inv(1)] by simp
  then have "ginv C (clock s) pl ?s" by (intro ginv_views [OF inv(1), of "{}"]) (use q in auto)
  moreover have "not_waiting pl ?s" using inv(2) unfolding not_waiting_def v q .
  moreover have "sys_ok C rm ?s" by (rule sys_ok_frame [OF sys]; (rule v | rule q | simp))
  ultimately show ?thesis using sw by (auto simp: gsn_safe_def)
qed

lemma occupant_realtime:
  assumes "sys_ok C rm s" "occupant s c = Some t"
  shows "is_realtime (tasks s t)"
proof (cases "map_of (switches s) c")
  case None
  then have sc: "scheduled s c = Some t" using assms(2) by (simp add: occupant_def)
  then have "c \<in> C" using sys_okD(7) [OF assms(1), of c] by (cases "c \<in> C") auto
  then show ?thesis using sys_okD(6) [OF assms(1) _ None] sc by (simp split: if_splits)
next
  case (Some nxt)
  then show ?thesis using sys_okD(8) [OF assms(1), of c t] assms(2) by (simp add: occupant_def)
qed

lemma sys_okI:
  assumes "cluster s = (\<lambda>_. 0)" "masters s 0 = rm" "C \<noteq> {}" "set_option rm \<inter> C = {}"
    and "\<And>t c. is_realtime (tasks s t) \<Longrightarrow> scheduled_on (rt_param (tasks s t)) = Some c \<longleftrightarrow> occupant s c = Some t"
    and "\<And>c. c \<in> C \<Longrightarrow> map_of (switches s) c = None \<Longrightarrow>
      scheduled s c = (if is_realtime (tasks s (curr s c)) then Some (curr s c) else None)"
    and "\<And>c. c \<notin> C \<Longrightarrow> scheduled s c = None"
    and "\<And>c t. map_of (switches s) c = Some (Some t) \<Longrightarrow> is_realtime (tasks s t) \<and> c \<in> C"
    and "\<And>c c'. is_realtime (tasks s (curr s c)) \<Longrightarrow> curr s c' = curr s c \<Longrightarrow> c' = c"
  shows "sys_ok C rm s"
  unfolding sys_ok_def
  by (intro conjI allI impI ballI; (rule assms | rule conjunct1 [OF assms(8)] | rule conjunct2 [OF assms(8)]); assumption)

text \<open>The entry of a task that exits is cleared.\<close>

definition gsn_clear :: "tid \<Rightarrow> 'z gstate_scheme \<Rightarrow> 'z gstate_scheme" where
  "gsn_clear t s =
     (case scheduled_on (rt_param (tasks s t)) of
        Some c \<Rightarrow> upd_task t (set_scheduled_on None) (s\<lparr>scheduled := (scheduled s)(c := None)\<rparr>)
      | None \<Rightarrow> s)"

lemma clear_sys_ok:
  fixes s :: gsys
  assumes sys: "sys_ok C rm s" and t: "is_realtime (tasks s t)" "\<forall>x \<in> set (switches s). snd x \<noteq> Some t"
    and pol: "pol \<noteq> SCHED_LITMUS"
  shows "sys_ok C rm (upd_task t (\<lambda>p. p\<lparr>policy := pol\<rparr>) (gsn_clear t s))" (is "sys_ok C rm ?s")
proof -
  note d = sys_okD [OF sys]
  have pend: "map_of (switches s) c \<noteq> Some (Some t)" for c using t(2) map_of_SomeD [of "switches s" c "Some t"] by fastforce
  have occ: "scheduled s c = Some t \<and> map_of (switches s) c = None" if "scheduled_on (rt_param (tasks s t)) = Some c" for c
    using d(5) [OF t(1), of c] that pend [of c] by (auto simp: occupant_def split: option.splits)
  have f: "switches ?s = switches s" "curr ?s = curr s" "cluster ?s = cluster s" "masters ?s = masters s"
    "scheduled ?s = (\<lambda>c. if scheduled_on (rt_param (tasks s t)) = Some c then None else scheduled s c)"
    by (auto simp: gsn_clear_def split: option.splits)
  have tx: "tasks ?s x = tasks s x" if "x \<noteq> t" for x using that by (simp add: gsn_clear_def split: option.splits)
  have rt: "is_realtime (tasks ?s x) \<longleftrightarrow> x \<noteq> t \<and> is_realtime (tasks s x)" for x
    using tx [of x] pol by (cases "x = t") (simp_all add: is_realtime_def)
  have cur: "curr s c \<noteq> t" if "c \<in> C" "map_of (switches s) c = None" "scheduled_on (rt_param (tasks s t)) \<noteq> Some c" for c
    using d(5) [OF t(1), of c] d(6) [OF that(1,2)] t(1) that(2,3) by (auto simp: occupant_def)
  show ?thesis
  proof (rule sys_okI; (unfold f)?)
    fix x c assume x: "is_realtime (tasks ?s x)"
    then have x': "x \<noteq> t" "is_realtime (tasks s x)" using rt by auto
    have "occupant ?s c = Some x \<longleftrightarrow> occupant s c = Some x"
      using occ [of c] x'(1) unfolding occupant_def f by (auto split: option.splits)
    then show "scheduled_on (rt_param (tasks ?s x)) = Some c \<longleftrightarrow> occupant ?s c = Some x"
      using d(5) [OF x'(2)] tx [OF x'(1)] by simp
  next
    fix c assume c: "c \<in> C" "map_of (switches s) c = None"
    show "(if scheduled_on (rt_param (tasks s t)) = Some c then None else scheduled s c) =
        (if is_realtime (tasks ?s (curr s c)) then Some (curr s c) else None)"
    proof (cases "scheduled_on (rt_param (tasks s t)) = Some c")
      case True
      then have "curr s c = t" using occ [OF True] d(6) [OF c] by (auto split: if_splits)
      then show ?thesis using True rt [of t] by simp
    next
      case False
      then show ?thesis using d(6) [OF c] cur [OF c False] unfolding rt by simp
    qed
  next
    fix c x assume a: "map_of (switches s) c = Some (Some x)"
    then have "x \<noteq> t" using pend by auto
    then show "is_realtime (tasks ?s x) \<and> c \<in> C" using d(8,9) [OF a] unfolding rt by simp
  next
    fix c c' assume a: "is_realtime (tasks ?s (curr s c))" "curr s c' = curr s c"
    have "is_realtime (tasks s (curr s c))" using a(1) unfolding rt by simp
    then show "c' = c" using a(2) by (rule d(10))
  qed (use d(1-4,7) in auto)
qed

lemma exit_call_ok:
  assumes safe: "gsn_safe C rm s" and en: "gsn_enabled C rm (GExit c t pol) s"
  shows "ok (gsn_exec (GExit c t pol) s) (gsn_safe C rm)"
proof -
  let ?s = "s\<lparr>this_cpu := c\<rparr>"
  obtain pl where inv: "ginv C (clock s) pl ?s" "not_waiting pl ?s" and sys: "sys_ok C rm ?s"
    and sw: "switch_order C (curr ?s) {} (switches ?s)"
    using safe_at [OF safe] .
  have t: "edf_ok (tasks ?s t)" "pl t \<noteq> Waiting r" and pol: "pol \<noteq> SCHED_LITMUS" for r
    using en placed_simps(4) [OF ginvD(7) [OF inv(1)], of t r] by simp_all
  let ?pl = "pl(t := Nowhere)"
  obtain s1 where s1: "unlink (Some t) ?s = Some s1" "ginv C (clock s) ?pl s1" "gframe ?s s1" "held ?pl s1 = held pl ?s - {t}"
    using unlink_ginv [OF inv(1) t] unfolding ok_iff_ex by blast
  have safe1: "gsn_safe C rm s1" and w1: "not_waiting ?pl s1"
  proof -
    show w1: "not_waiting ?pl s1" by (rule not_waiting_frame [OF inv(2) s1(3)]) (auto split: if_splits)
    show "gsn_safe C rm s1"
      by (rule gsn_safe_step0 [OF sys sw s1(3) masters_unlink [OF s1(1)] _ w1]) (use s1(2) in simp)
  qed
  have rt1: "is_realtime (tasks s1 t)" using t(1) lview_view(5) [OF gframeD(8) [OF s1(3)], of t] by (simp add: edf_ok_def)
  have nl: "linked s1 a \<noteq> Some t" for a using s1(4) by (auto simp: held_def)
  have m1: "switches s1 = switches s" "clock s1 = clock s" using gsys_more [OF gframeD(6) [OF s1(3)]] by simp_all
  let ?s3 = "upd_task t (\<lambda>p. p\<lparr>policy := pol\<rparr>) (gsn_clear t s1)"
  have tx: "tasks ?s3 x = tasks s1 x" if "x \<noteq> t" for x using that by (simp add: gsn_clear_def split: option.splits)
  have nr: "\<not> is_realtime (tasks ?s3 t)" using pol by (simp add: is_realtime_def)
  have nh: "\<not> in_heap (rt_param (tasks s1 t))" using placed_simps(5) [OF ginvD(7) [OF s1(2)], of t] by simp
  have "ginv C (clock s) ?pl ?s3"
    by (rule ginv_change [OF s1(2) _ nl])
      (use nr tx nh in \<open>auto simp: gsn_clear_def set_scheduled_on_def rt_simps split: option.splits\<close>)
  moreover have "not_waiting ?pl ?s3"
    unfolding not_waiting_def
  proof (intro allI impI)
    fix x a r assume a: "is_realtime (tasks ?s3 x)" "scheduled_on (rt_param (tasks ?s3 x)) = Some a"
    then have "x \<noteq> t" using nr by auto
    then show "?pl x \<noteq> Waiting r" using w1 a tx [of x] unfolding not_waiting_def by metis
  qed
  moreover have "sys_ok C rm ?s3"
    by (rule clear_sys_ok [OF _ rt1 _ pol]) (use safe1 en m1(1) in \<open>simp_all add: gsn_safe_def\<close>)
  moreover have "clock ?s3 = clock s" "curr ?s3 = curr s" "switches ?s3 = switches s"
    using m1 gframeD(3) [OF s1(3)] by (simp_all add: gsn_clear_def split: option.splits)
  ultimately have "gsn_safe C rm ?s3" using sw unfolding gsn_safe_def by auto
  moreover have "gsnedf_task_exit t ?s = Some (gsn_clear t s1)"
    using s1(1) rt1 by (auto simp: gsnedf_task_exit_def gsn_clear_def set_scheduled_on_def rt_simps split: option.splits)
  ultimately show ?thesis by simp
qed

lemma map_of_without: "map_of (filter (\<lambda>x. fst x \<noteq> c) sw) a = (if a = c then None else map_of sw a)"
  by (induction sw) auto

lemma map_of_at_end: "map_of (sw @ [(c, v)]) a = (case map_of sw a of Some w \<Rightarrow> Some w | None \<Rightarrow> if a = c then Some v else None)"
  by (simp add: map_add_def split: option.split)

lemma switch_order_distinct:
  "switch_order C cur K sw \<Longrightarrow> distinct (map fst sw) \<and> fst ` set sw \<inter> K = {}"
proof (induction sw arbitrary: K)
  case (Cons x sw)
  obtain a nxt where x: "x = (a, nxt)" by fastforce
  have "distinct (map fst sw) \<and> fst ` set sw \<inter> insert a K = {}" using Cons.IH [of "insert a K"] Cons.prems x by simp
  then show ?case using Cons.prems x by auto
qed simp

lemma switch_order_without:
  assumes "switch_order C cur K sw" "\<forall>x \<in> set sw. fst x \<noteq> c \<longrightarrow> snd x \<noteq> Some t"
  shows "switch_order C (cur(c := t)) (K - {c}) (filter (\<lambda>x. fst x \<noteq> c) sw)"
  using assms
proof (induction sw arbitrary: K)
  case (Cons x sw)
  obtain a nxt where x: "x = (a, nxt)" by fastforce
  have IH: "switch_order C (cur(c := t)) (insert a K - {c}) (filter (\<lambda>x. fst x \<noteq> c) sw)"
    by (rule Cons.IH) (use Cons.prems x in simp_all)
  show ?case
  proof (cases "a = c")
    case True
    then show ?thesis using IH x by (simp add: fun_upd_def)
  next
    case False
    then have "insert a K - {c} = insert a (K - {c})" by auto
    then show ?thesis using False IH Cons.prems x by (auto simp: fun_upd_def)
  qed
qed simp

lemma switch_order_at_end:
  "switch_order C cur K (sw @ [(c, nxt)]) \<longleftrightarrow>
     switch_order C cur K sw \<and> c \<notin> K \<union> fst ` set sw \<and>
     (\<forall>c' \<in> C. c' \<noteq> c \<longrightarrow> nxt = Some (cur c') \<longrightarrow> c' \<in> K \<union> fst ` set sw)"
proof (induction sw arbitrary: K)
  case (Cons x sw)
  then show ?case by (cases x) auto
qed simp

lemma finish_sys_ok:
  fixes s :: gsys
  assumes sys: "sys_ok C rm s" and pend: "map_of (switches s) c = Some nxt"
    and t: "nxt = Some t \<and> (\<forall>c'. c' \<noteq> c \<longrightarrow> curr s c' \<noteq> t) \<or> nxt = None \<and> \<not> is_realtime (tasks s t)"
    and f: "tasks s' = tasks s" "cluster s' = cluster s" "masters s' = masters s" "curr s' = (curr s)(c := t)"
      "switches s' = filter (\<lambda>x. fst x \<noteq> c) (switches s)"
      "scheduled s' = (scheduled s)(c := if is_realtime (tasks s t) then Some t else None)"
  shows "sys_ok C rm s'"
proof -
  note d = sys_okD [OF sys]
  have sc: "(if is_realtime (tasks s t) then Some t else None) = nxt" using t d(8) [of c t] pend by auto
  have occ: "occupant s' = occupant s"
    using pend sc by (intro ext) (auto simp: occupant_def f map_of_without split: option.splits)
  show ?thesis
  proof (rule sys_okI; (unfold occ f)?)
    fix a assume a: "a \<in> C" "map_of (filter (\<lambda>x. fst x \<noteq> c) (switches s)) a = None"
    then show "((scheduled s)(c := if is_realtime (tasks s t) then Some t else None)) a =
        (if is_realtime (tasks s (((curr s)(c := t)) a)) then Some (((curr s)(c := t)) a) else None)"
      using d(6) [OF a(1)] by (cases "a = c") (simp_all add: map_of_without)
  next
    fix a assume a: "a \<notin> C"
    show "((scheduled s)(c := if is_realtime (tasks s t) then Some t else None)) a = None"
      using d(7) [OF a] d(9) [of c t] pend sc a by (cases "a = c"; cases nxt) (auto split: if_splits)
  next
    fix a x assume a: "map_of (filter (\<lambda>x. fst x \<noteq> c) (switches s)) a = Some (Some x)"
    then have "map_of (switches s) a = Some (Some x)" by (simp add: map_of_without split: if_splits)
    then show "is_realtime (tasks s x) \<and> a \<in> C" using d(8,9) by blast
  next
    fix a a' assume a: "is_realtime (tasks s (((curr s)(c := t)) a))" "((curr s)(c := t)) a' = ((curr s)(c := t)) a"
    have free: "curr s b \<noteq> t" if "b \<noteq> c" "is_realtime (tasks s t)" for b using t that by auto
    consider "a = c" | "a' = c" | "a \<noteq> c" "a' \<noteq> c" by blast
    then show "a' = a"
    proof cases
      case 1
      then show ?thesis using a free [of a'] by (auto split: if_splits)
    next
      case 2
      then show ?thesis using a free [of a] by (auto split: if_splits)
    next
      case 3
      show ?thesis by (rule d(10)) (use a 3 in simp_all)
    qed
  qed (use d(1-5) in auto)
qed

lemma switch_call_ok:
  assumes safe: "gsn_safe C rm s" and en: "gsn_enabled C rm (GSwitch c idle) s"
  shows "ok (gsn_exec (GSwitch c idle) s) (gsn_safe C rm)"
proof -
  obtain pl where inv: "ginv C (clock s) pl s" "not_waiting pl s" and sys: "sys_ok C rm s"
    and sw: "switch_order C (curr s) {} (switches s)"
    using safe by (auto simp: gsn_safe_def)
  obtain nxt where pend: "map_of (switches s) c = Some nxt" using en by (auto split: option.splits)
  define t where "t = (case nxt of Some t \<Rightarrow> t | None \<Rightarrow> idle)"
  have t: "nxt = Some t \<and> (\<forall>c'. c' \<noteq> c \<longrightarrow> curr s c' \<noteq> t) \<or> nxt = None \<and> \<not> is_realtime (tasks s t)"
    using en pend by (cases nxt) (simp_all add: t_def)
  define s' where "s' = gsnedf_finish_switch (s\<lparr>this_cpu := c, curr := (curr s)(c := t),
      switches := filter (\<lambda>x. fst x \<noteq> c) (switches s)\<rparr>)"
  have f: "tasks s' = tasks s" "cluster s' = cluster s" "masters s' = masters s" "curr s' = (curr s)(c := t)"
      "switches s' = filter (\<lambda>x. fst x \<noteq> c) (switches s)"
      "scheduled s' = (scheduled s)(c := if is_realtime (tasks s t) then Some t else None)" "clock s' = clock s"
      "doms s' = doms s" "rel_heaps s' = rel_heaps s" "tick_period s' = tick_period s" "linked s' = linked s"
      "cpu_heap s' = cpu_heap s" "hn_in_heap s' = hn_in_heap s"
    by (simp_all add: s'_def gsnedf_finish_switch_def linked_finish_switch_def Let_def)
  note g = ginv_fields [OF f(1,8-13,2)]
  have "snd x \<noteq> Some t" if x: "x \<in> set (switches s)" "fst x \<noteq> c" for x
  proof
    assume a: "snd x = Some t"
    have dist: "distinct (map fst (switches s))"
      using switch_order_distinct [OF sw] by blast
    have m: "map_of (switches s) (fst x) = Some (Some t)" using map_of_is_SomeI [OF dist, of "fst x" "Some t"] x(1) a by (cases x) simp
    have rt: "is_realtime (tasks s t)" by (rule sys_okD(8) [OF sys m])
    then have "occupant s c = Some t" "occupant s (fst x) = Some t" using m t pend by (auto simp: occupant_def)
    then show False using sys_okD(5) [OF sys rt, of c] sys_okD(5) [OF sys rt, of "fst x"] x(2) by simp
  qed
  then have "switch_order C (curr s') {} (switches s')"
    using switch_order_without [OF sw, of c t] by (simp add: f)
  moreover have "sys_ok C rm s'" by (rule finish_sys_ok [OF sys pend t f(1-6)])
  ultimately have "gsn_safe C rm s'" using inv unfolding gsn_safe_def f(7) g by blast
  moreover have "gsn_exec (GSwitch c idle) s = Some s'"
    using pend by (cases nxt) (simp_all add: s'_def t_def)
  ultimately show ?thesis by simp
qed

text \<open>A CPU that has called the scheduler: it is about to switch to the chosen task.\<close>

lemma choose_sys_ok:
  fixes s s' :: gsys
  assumes sys: "sys_ok C rm s" and pend: "map_of (switches s) c = None" and c: "nxt \<noteq> None \<Longrightarrow> c \<in> C"
    and rt: "\<And>x. is_realtime (tasks s' x) = is_realtime (tasks s x)"
    and on: "\<And>x. is_realtime (tasks s x) \<Longrightarrow> scheduled_on (rt_param (tasks s' x)) =
       (if nxt = Some x then Some c else if scheduled s c = Some x then None else scheduled_on (rt_param (tasks s x)))"
    and nxt: "\<And>x. nxt = Some x \<Longrightarrow> is_realtime (tasks s x)"
      "\<And>x a. nxt = Some x \<Longrightarrow> scheduled_on (rt_param (tasks s x)) = Some a \<Longrightarrow> a = c"
    and f: "cluster s' = cluster s" "masters s' = masters s" "curr s' = curr s" "scheduled s' = scheduled s"
      "switches s' = switches s @ [(c, nxt)]"
  shows "sys_ok C rm s'"
proof -
  note d = sys_okD [OF sys]
  have occ: "occupant s' a = (if a = c then nxt else occupant s a)" for a
    using pend by (auto simp: occupant_def f map_of_at_end split: option.splits)
  have occ_c: "occupant s c = scheduled s c" using pend by (simp add: occupant_def)
  show ?thesis
  proof (rule sys_okI; (unfold f rt occ)?)
    fix x a assume x: "is_realtime (tasks s x)"
    note on_x = on [OF x] d(5) [OF x]
    show "scheduled_on (rt_param (tasks s' x)) = Some a \<longleftrightarrow> (if a = c then nxt else occupant s a) = Some x"
    proof (cases "a = c")
      case True
      then show ?thesis using on_x(1) on_x(2) [of c] occ_c by auto
    next
      case False
      have "scheduled s c \<noteq> Some x" if "occupant s a = Some x" using on_x(2) [of a] on_x(2) [of c] that occ_c False by auto
      moreover have "nxt \<noteq> Some x" if "occupant s a = Some x" using nxt(2) [of x a] on_x(2) [of a] that False by auto
      ultimately show ?thesis using False on_x(1) on_x(2) [of a] by auto
    qed
  next
    fix a assume "a \<in> C" "map_of (switches s @ [(c, nxt)]) a = None"
    then show "scheduled s a = (if is_realtime (tasks s (curr s a)) then Some (curr s a) else None)"
      by (intro d(6)) (auto simp: map_of_at_end split: option.splits)
  next
    fix a x assume "map_of (switches s @ [(c, nxt)]) a = Some (Some x)"
    then consider "map_of (switches s) a = Some (Some x)" | "a = c" "nxt = Some x"
      by (auto simp: map_of_at_end split: option.splits if_splits)
    then show "is_realtime (tasks s x) \<and> a \<in> C" using d(8,9) nxt(1) c by cases auto
  next
    fix a a' assume "is_realtime (tasks s (curr s a))" "curr s a' = curr s a"
    then show "a' = a" by (rule d(10))
  qed (use d(1-4,7) in auto)
qed

lemma choose_safe:
  fixes s s' :: gsys
  assumes sys: "sys_ok C rm s" and sw: "switch_order C (curr s) {} (switches s)" and pend: "map_of (switches s) c = None"
    and "\<And>x. is_realtime (tasks s' x) = is_realtime (tasks s x)"
    and "\<And>x. is_realtime (tasks s x) \<Longrightarrow> scheduled_on (rt_param (tasks s' x)) =
       (if nxt = Some x then Some c else if scheduled s c = Some x then None else scheduled_on (rt_param (tasks s x)))"
    and nxt: "\<And>x. nxt = Some x \<Longrightarrow> c \<in> C \<and> is_realtime (tasks s x)"
      "\<And>x a. nxt = Some x \<Longrightarrow> scheduled_on (rt_param (tasks s x)) = Some a \<Longrightarrow> a = c"
    and f: "cluster s' = cluster s" "masters s' = masters s" "curr s' = curr s" "scheduled s' = scheduled s"
      "switches s' = switches s"
    and inv: "ginv C fin pl' s'" "not_waiting pl' s'"
  shows "gsn_safe C rm (s'\<lparr>switches := switches s' @ [(c, nxt)], clock := fin\<rparr>)" (is "gsn_safe C rm ?s")
proof -
  have "sys_ok C rm ?s"
    by (rule choose_sys_ok [OF sys pend, of nxt]) (use assms(4,5) nxt f in auto)
  moreover have "switch_order C (curr s) {} (switches s @ [(c, nxt)])"
    unfolding switch_order_at_end
  proof (intro conjI sw ballI impI)
    show "c \<notin> {} \<union> fst ` set (switches s)" using pend by (auto simp: map_of_eq_None_iff)
    fix c' assume a: "c' \<in> C" "c' \<noteq> c" "nxt = Some (curr s c')"
    have "map_of (switches s) c' \<noteq> None"
    proof
      assume n: "map_of (switches s) c' = None"
      have rt: "is_realtime (tasks s (curr s c'))" using nxt(1) [OF a(3)] by blast
      then have "occupant s c' = Some (curr s c')" using sys_okD(6) [OF sys a(1) n] n by (simp add: occupant_def)
      then show False using sys_okD(5) [OF sys rt] nxt(2) [OF a(3)] a(2) by blast
    qed
    then show "c' \<in> {} \<union> fst ` set (switches s)" by (simp add: map_of_eq_None_iff)
  qed
  moreover have "curr ?s = curr s" "switches ?s = switches s @ [(c, nxt)]" using f by simp_all
  moreover have "ginv C (clock ?s) pl' ?s" "not_waiting pl' ?s" using inv by simp_all
  ultimately show ?thesis unfolding gsn_safe_def by metis
qed

lemma schedule_on_cpu:
  assumes safe: "gsn_safe C rm s" and c: "c \<in> C" and en: "gsn_enabled C rm (GSchedule c clk fin) s"
  shows "\<exists>pl nxt s' pl'. ginv C (clock s) pl s \<and> not_waiting pl s \<and>
    gsnedf_schedule (curr s c) clk (s\<lparr>this_cpu := c\<rparr>) = Some (nxt, s') \<and> masters s' = masters s \<and>
    ginv C fin pl' s' \<and> not_waiting pl' s' \<and> sframe (s\<lparr>this_cpu := c\<rparr>) s' \<and> cluster s' = (\<lambda>_. 0) \<and>
    nxt = (if sched_np c s then scheduled s c else linked s' c) \<and>
    (\<forall>x. is_realtime (tasks s x) \<longrightarrow> scheduled_on (rt_param (tasks s' x)) =
       (if nxt = Some x then Some c else if scheduled s c = Some x then None else scheduled_on (rt_param (tasks s x)))) \<and>
    (\<forall>x a. is_realtime (tasks s x) \<longrightarrow> scheduled_on (rt_param (tasks s x)) = Some a \<longrightarrow> nxt = Some x \<longrightarrow> a = c) \<and>
    (\<forall>x. scheduled s c = Some x \<longrightarrow> is_realtime (tasks s x)) \<and>
    held pl' s' = held pl s - (if sched_drops c s then set_option (scheduled s c) else {})"
proof -
  let ?s = "s\<lparr>this_cpu := c\<rparr>"
  obtain pl where inv: "ginv C (clock s) pl ?s" "not_waiting pl ?s" and sys: "sys_ok C rm ?s"
    using safe_at [OF safe] .
  have pend: "map_of (switches ?s) c = None" and clk: "clk_ok (clock s) clk fin" using en by simp_all
  note d = sys_okD [OF sys]
  have cur: "scheduled ?s c = (if is_realtime (tasks ?s (curr s c)) then Some (curr s c) else None)"
    using d(6) [OF c pend] by simp
  have on: "scheduled_on (rt_param (tasks ?s t)) = Some c \<longleftrightarrow> scheduled ?s c = Some t" if "is_realtime (tasks ?s t)" for t
    using d(5) [OF that, of c] pend by (simp add: occupant_def)
  have nj: "edf_ok (next_job (tasks ?s t))" if "scheduled ?s c = Some t" for t
    using that cur en by (simp split: if_splits)
  obtain nxt s' pl' where s': "linked_schedule (curr s c) clk ?s = Some (nxt, s')" "ginv C fin pl' s'" "not_waiting pl' s'"
    "sframe ?s s'" "nxt = (if sched_np c ?s then scheduled ?s c else linked s' c)"
    "\<forall>x. is_realtime (tasks ?s x) \<longrightarrow> scheduled_on (rt_param (tasks s' x)) =
     (if nxt = Some x then Some c else if scheduled ?s c = Some x then None else scheduled_on (rt_param (tasks ?s x)))"
    "\<forall>x a. is_realtime (tasks ?s x) \<longrightarrow> scheduled_on (rt_param (tasks ?s x)) = Some a \<longrightarrow> nxt = Some x \<longrightarrow> a = c"
    "held pl' s' = held pl ?s - (if sched_drops c ?s then set_option (scheduled ?s c) else {})"
    using linked_schedule_ok [OF inv(1) clk _ c cur on inv(2) nj] unfolding ok_iff_ex by fastforce
  have e: "tasks ?s = tasks s" "scheduled ?s = scheduled s" "held pl ?s = held pl s" "masters ?s = masters s"
    "sched_np c ?s = sched_np c s" "sched_drops c ?s = sched_drops c s"
    by (simp_all add: sched_np_def sched_drops_def on_sched_def split: option.split)
  have "rm \<noteq> Some c" using d(4) c by auto
  then have g: "gsnedf_schedule (curr s c) clk ?s = Some (nxt, s')"
    using s'(1) d(2) by (simp add: gsnedf_schedule_def masters_def)
  have cl: "cluster s' = (\<lambda>_. 0)" using s'(4) d(1) by (simp add: sframe_def)
  have rt: "\<forall>x. scheduled s c = Some x \<longrightarrow> is_realtime (tasks s x)" using cur by (simp split: if_splits)
  have pl: "ginv C (clock s) pl s" "not_waiting pl s" using inv by simp_all
  from pl g masters_schedule [OF s'(1)] s'(2-4) cl s'(5-7) rt s'(8) show ?thesis unfolding e by blast
qed

lemma schedule_call_ok:
  assumes safe: "gsn_safe C rm s" and en: "gsn_enabled C rm (GSchedule c clk fin) s"
  shows "ok (gsn_exec (GSchedule c clk fin) s) (gsn_safe C rm)"
proof (cases "c \<in> C")
  case True
  let ?s = "s\<lparr>this_cpu := c\<rparr>"
  have sys: "sys_ok C rm s" and sw: "switch_order C (curr s) {} (switches s)" using safe by (simp_all add: gsn_safe_def)
  have pend: "map_of (switches s) c = None" using en by simp
  obtain nxt s' pl' where s': "gsnedf_schedule (curr s c) clk ?s = Some (nxt, s')" "masters s' = masters s" "ginv C fin pl' s'"
    "not_waiting pl' s'" "sframe ?s s'" "nxt = (if sched_np c s then scheduled s c else linked s' c)"
    "\<And>x. is_realtime (tasks s x) \<Longrightarrow> scheduled_on (rt_param (tasks s' x)) =
     (if nxt = Some x then Some c else if scheduled s c = Some x then None else scheduled_on (rt_param (tasks s x)))"
    "\<And>x a. is_realtime (tasks s x) \<Longrightarrow> scheduled_on (rt_param (tasks s x)) = Some a \<Longrightarrow> nxt = Some x \<Longrightarrow> a = c"
    "\<And>x. scheduled s c = Some x \<Longrightarrow> is_realtime (tasks s x)"
    using schedule_on_cpu [OF safe True en] by blast
  have fr: "is_realtime (tasks s' x) = is_realtime (tasks s x)" "scheduled s' = scheduled s" "curr s' = curr s"
    "cluster s' = cluster s" for x using s'(5) by (simp_all add: sframe_def)
  have nr: "is_realtime (tasks s x)" if "nxt = Some x" for x
  proof (cases "sched_np c s")
    case True
    then show ?thesis using s'(6,9) that by simp
  next
    case False
    then have "edf_ok (tasks s' x)" using s'(6) that linkageD(2) [OF ginvD(5) [OF s'(3)], of c x] by simp
    then show ?thesis using fr(1) by (simp add: edf_ok_def)
  qed
  have more: "switches s' = switches s" using gsys_more(1) [of s' ?s] s'(5) by (simp add: sframe_def)
  have "gsn_safe C rm (s'\<lparr>switches := switches s' @ [(c, nxt)], clock := fin\<rparr>)"
  proof (rule choose_safe [OF sys sw pend fr(1) s'(7) _ _ fr(4) s'(2) fr(3,2) more s'(3,4)])
    show "a = c" if "nxt = Some x" "scheduled_on (rt_param (tasks s x)) = Some a" for x a
      by (rule s'(8) [OF nr [OF that(1)] that(2,1)])
  qed (use True nr in auto)
  then show ?thesis using s'(1) by simp
next
  case False
  let ?s = "s\<lparr>this_cpu := c\<rparr>"
  obtain pl where inv: "ginv C (clock s) pl ?s" "not_waiting pl ?s" and sys: "sys_ok C rm ?s"
    and sw: "switch_order C (curr ?s) {} (switches ?s)"
    using safe_at [OF safe] .
  have pend: "map_of (switches ?s) c = None" and clk: "clk_ok (clock s) clk fin" and rm: "rm = Some c"
    using en False by auto
  have sc: "scheduled ?s c = None" by (rule sys_okD(7) [OF sys False])
  have "gsn_safe C rm (?s\<lparr>switches := switches ?s @ [(c, None)], clock := fin\<rparr>)"
    by (rule choose_safe [OF sys sw pend, where pl' = pl])
      (use inv sc clk_okD(4) [OF clk] in \<open>auto intro: ginv_mono\<close>)
  then show ?thesis using rm sys_okD(2) [OF sys] by (simp add: gsnedf_schedule_def masters_def)
qed

text \<open>A new task, before its first job arrives; if it is running on a CPU of \<open>C\<close>, it is scheduled there.\<close>

lemma new_sys_ok:
  fixes s s' :: gsys
  assumes sys: "sys_ok C rm s" and new: "\<not> is_realtime (tasks s t)" "is_realtime (tasks s' t)"
    and rt: "\<And>x. x \<noteq> t \<Longrightarrow> is_realtime (tasks s' x) = is_realtime (tasks s x) \<and>
      scheduled_on (rt_param (tasks s' x)) = scheduled_on (rt_param (tasks s x))"
    and cur: "\<And>c. curr s c = t \<Longrightarrow> c \<in> C \<Longrightarrow> on = Some c" "\<And>c c'. curr s c = t \<Longrightarrow> curr s c' = t \<Longrightarrow> c' = c"
    and on: "\<And>c. on = Some c \<Longrightarrow> c \<in> C \<and> curr s c = t \<and> map_of (switches s) c = None"
    and f: "scheduled_on (rt_param (tasks s' t)) = on"
      "scheduled s' = (\<lambda>c. if on = Some c then Some t else scheduled s c)"
      "cluster s' = cluster s" "masters s' = masters s" "curr s' = curr s" "switches s' = switches s"
  shows "sys_ok C rm s'"
proof -
  note d = sys_okD [OF sys]
  have free: "scheduled s c = None" if "on = Some c" for c
    using on [OF that] d(6) [of c] new(1) by simp
  have occ: "occupant s' c = (if on = Some c then Some t else occupant s c)" for c
    using on [of c] by (auto simp: occupant_def f split: option.splits)
  have none: "occupant s c = None" if "on = Some c" for c using free [OF that] on [OF that] by (simp add: occupant_def)
  have other: "occupant s c \<noteq> Some t" for c using occupant_realtime [OF sys, of c t] new(1) by auto
  show ?thesis
  proof (rule sys_okI; (unfold f(2-6) occ)?)
    fix x c assume x: "is_realtime (tasks s' x)"
    show "scheduled_on (rt_param (tasks s' x)) = Some c \<longleftrightarrow> (if on = Some c then Some t else occupant s c) = Some x"
    proof (cases "x = t")
      case True
      then show ?thesis using other [of c] f(1) by auto
    next
      case False
      then have "is_realtime (tasks s x)" "scheduled_on (rt_param (tasks s' x)) = scheduled_on (rt_param (tasks s x))"
        using rt x by auto
      then show ?thesis using d(5) [of x c] none [of c] False by auto
    qed
  next
    fix c assume c: "c \<in> C" "map_of (switches s) c = None"
    show "(if on = Some c then Some t else scheduled s c) = (if is_realtime (tasks s' (curr s c)) then Some (curr s c) else None)"
    proof (cases "curr s c = t")
      case True
      then show ?thesis using cur(1) [OF True c(1)] new(2) by simp
    next
      case False
      then show ?thesis using d(6) [OF c] on [of c] rt [OF False] by auto
    qed
  next
    fix c assume "c \<notin> C"
    then show "(if on = Some c then Some t else scheduled s c) = None" using d(7) on [of c] by auto
  next
    fix c x assume a: "map_of (switches s) c = Some (Some x)"
    then have "x \<noteq> t" using d(8) new(1) by auto
    then show "is_realtime (tasks s' x) \<and> c \<in> C" using d(8,9) [OF a] rt by simp
  next
    fix c c' assume a: "is_realtime (tasks s' (curr s c))" "curr s c' = curr s c"
    show "c' = c"
    proof (cases "curr s c = t")
      case True
      then show ?thesis using cur(2) [of c c'] a(2) by simp
    next
      case False
      then have "is_realtime (tasks s (curr s c))" using rt a(1) by simp
      then show ?thesis using a(2) by (rule d(10))
    qed
  qed (use d(1-4) in auto)
qed

lemma new_arrives:
  fixes s :: gsys
  assumes sys: "sys_ok C rm s" and en: "gsn_enabled C rm (GNew c t running clk fin) s"
  defines "on \<equiv> if running \<and> task_cpu (tasks s t) \<in> C then Some (task_cpu (tasks s t)) else None"
  obtains s' where
    "gsnedf_task_new t running clk (upd_task t (\<lambda>p. p\<lparr>policy := SCHED_LITMUS\<rparr>) s) = gsn_job_arrival t (\<lambda>i. clk (Suc i)) s'"
    "\<forall>x. x \<noteq> t \<longrightarrow> tview (tasks s' x) = tview (tasks s x)"
    "qview (tasks s' t) = qview (release_at (clk 0) ((tasks s t)\<lparr>policy := SCHED_LITMUS\<rparr>))"
    "linked_on (rt_param (tasks s' t)) = None" "scheduled_on (rt_param (tasks s' t)) = on"
    "scheduled s' = (\<lambda>c. if on = Some c then Some t else scheduled s c)"
    "doms s' = doms s" "rel_heaps s' = rel_heaps s" "tick_period s' = tick_period s" "curr s' = curr s"
    "linked s' = linked s" "cpu_heap s' = cpu_heap s" "hn_in_heap s' = hn_in_heap s" "cluster s' = cluster s"
    "gstate.more s' = gstate.more s"
proof -
  define s1 where "s1 = upd_task t (release_at (clk 0)) (upd_task t (\<lambda>p. p\<lparr>policy := SCHED_LITMUS\<rparr>) s)"
  note d = sys_okD [OF sys]
  let ?c = "task_cpu (tasks s t)" and ?rel = "release_at (clk 0) ((tasks s t)\<lparr>policy := SCHED_LITMUS\<rparr>)"
  have tc: "task_cpu (tasks s1 t) = ?c" "release_master (doms s1 0) = rm" "scheduled s1 = scheduled s"
    using d(2) by (simp_all add: s1_def masters_def release_at_def prepare_for_next_period_def rt_simps)
  have sc: "scheduled s ?c = None" if running
    using that en d(6) [of ?c] d(7) [of ?c] by (cases "?c \<in> C") (auto split: if_splits)
  have rmc: "rm \<noteq> Some ?c \<longleftrightarrow> ?c \<in> C" if running using that en d(4) by auto
  define s2 where "s2 = (if on \<noteq> None then upd_task t (set_scheduled_on on) (s1\<lparr>scheduled := (scheduled s1)(?c := Some t)\<rparr>)
    else upd_task t (set_scheduled_on None) (if running then gsn_preempt ?c s1 else s1))"
  have "gsnedf_task_new t running clk (upd_task t (\<lambda>p. p\<lparr>policy := SCHED_LITMUS\<rparr>) s) =
      gsn_job_arrival t (\<lambda>i. clk (Suc i)) (upd_task t (set_linked_on None) s2)"
    unfolding gsnedf_task_new_def s1_def [symmetric] Let_def tc using sc rmc
    by (auto simp: s2_def on_def tc)
  moreover have "tview (tasks s2 x) = tview (tasks s x)" if "x \<noteq> t" for x
  proof -
    have "same_tasks s1 (gsn_preempt ?c s1)" by (simp add: gsn_preempt_def)
    then show ?thesis using that by (simp add: s2_def same_tasks_def) (simp add: s1_def)
  qed
  moreover have "qview (tasks s2 t) = qview ?rel"
  proof -
    have "tview (tasks (gsn_preempt ?c s1) t) = tview (tasks s1 t)" by (simp add: gsn_preempt_def preempt_frame [unfolded same_tasks_def])
    then have "qview (tasks (gsn_preempt ?c s1) t) = qview (tasks s1 t)" by (rule tview_view)
    moreover have "tasks s1 t = ?rel" by (simp add: s1_def)
    ultimately show ?thesis by (simp add: s2_def)
  qed
  moreover have "scheduled_on (rt_param (tasks s2 t)) = on" by (simp add: s2_def)
  moreover have "kstate.more (gsn_preempt ?c s1) = kstate.more s1" by (simp add: gsn_preempt_def)
  note pre = gstate_more [OF this]
  have "scheduled s2 = (\<lambda>c. if on = Some c then Some t else scheduled s c)"
    using pre(1) by (auto simp: s2_def tc on_def fun_upd_def)
  moreover have "doms s2 = doms s" "rel_heaps s2 = rel_heaps s" "tick_period s2 = tick_period s" "curr s2 = curr s"
    "linked s2 = linked s" "cpu_heap s2 = cpu_heap s" "hn_in_heap s2 = hn_in_heap s" "cluster s2 = cluster s"
    "gstate.more s2 = gstate.more s"
    using pre by (simp_all add: s2_def gsn_preempt_def s1_def)
  ultimately show ?thesis by (intro that [of "upd_task t (set_linked_on None) s2"]) simp_all
qed

lemma first_release:
  "get_release (release_at now p) = now" "pid (release_at now p) = pid p" "is_realtime (release_at now p) = is_realtime p"
  "in_heap (rt_param (release_at now p)) = in_heap (rt_param p)"
  by (simp_all add: release_at_def prepare_for_next_period_def rt_simps)

lemma new_call_ok:
  assumes safe: "gsn_safe C rm s" and en: "gsn_enabled C rm (GNew c t running clk fin) s"
  shows "ok (gsn_exec (GNew c t running clk fin) s) (gsn_safe C rm)"
proof -
  let ?s = "s\<lparr>this_cpu := c\<rparr>" and ?on = "if running \<and> task_cpu (tasks s t) \<in> C then Some (task_cpu (tasks s t)) else None"
  let ?rel = "release_at (clk 0) ((tasks s t)\<lparr>policy := SCHED_LITMUS\<rparr>)"
  obtain pl where inv: "ginv C (clock s) pl ?s" "not_waiting pl ?s" and sys: "sys_ok C rm ?s"
    and sw: "switch_order C (curr ?s) {} (switches ?s)"
    using safe_at [OF safe] .
  have en': "gsn_enabled C rm (GNew c t running clk fin) ?s" using en by (cases running) simp_all
  have ts: "tasks ?s = tasks s" by simp
  obtain s1 where s1:
    "gsnedf_task_new t running clk (upd_task t (\<lambda>p. p\<lparr>policy := SCHED_LITMUS\<rparr>) ?s) = gsn_job_arrival t (\<lambda>i. clk (Suc i)) s1"
    "\<forall>x. x \<noteq> t \<longrightarrow> tview (tasks s1 x) = tview (tasks s x)" "qview (tasks s1 t) = qview ?rel"
    "linked_on (rt_param (tasks s1 t)) = None" "scheduled_on (rt_param (tasks s1 t)) = ?on"
    "scheduled s1 = (\<lambda>c. if ?on = Some c then Some t else scheduled ?s c)"
    "doms s1 = doms ?s" "rel_heaps s1 = rel_heaps ?s" "tick_period s1 = tick_period ?s" "curr s1 = curr ?s"
    "linked s1 = linked ?s" "cpu_heap s1 = cpu_heap ?s" "hn_in_heap s1 = hn_in_heap ?s" "cluster s1 = cluster ?s"
    "gstate.more s1 = gstate.more ?s"
    by (rule new_arrives [OF sys en', unfolded ts]) (rule that)
  have nr: "\<not> is_realtime (tasks s t)" and nh: "\<not> in_heap (rt_param (tasks s t))" and clk: "clk_ok (clock s) clk fin"
    and okr: "edf_ok ?rel" using en by simp_all
  note q = qviewD [OF s1(3)]
  have rt1: "is_realtime (tasks s1 t)" and ok1: "edf_ok (tasks s1 t)" using q(8) okr by (simp_all add: edf_ok_def)
  have u: "pl t = Nowhere" "linked ?s a \<noteq> Some t" for a using unheld [OF inv(1), of t] nh nr by simp_all
  have v: "is_realtime (tasks s1 x) = is_realtime (tasks ?s x)" "scheduled_on (rt_param (tasks s1 x)) = scheduled_on (rt_param (tasks ?s x))"
    if "x \<noteq> t" for x
    using tview_view(6) [OF s1(2) [rule_format, OF that]] jview_links(2) [OF tview_links [OF s1(2) [rule_format, OF that]]] by simp_all
  have on: "a \<in> C \<and> curr ?s a = t \<and> map_of (switches ?s) a = None" if "?on = Some a" for a
    using that en by (auto split: if_splits)
  have only: "running \<and> a = task_cpu (tasks s t)" if "curr ?s a = t" for a
    using en that by (cases running) simp_all
  have m: "masters s1 = masters ?s" by (rule masters_doms) (rule s1)
  have more: "switches s1 = switches ?s" "clock s1 = clock ?s" using gsys_more [OF s1(15)] .
  have sys1: "sys_ok C rm s1"
  proof (rule new_sys_ok [OF sys _ rt1 _ _ _ on s1(5,6,14) m s1(10) more(1)])
    show "?on = Some a" if "curr ?s a = t" "a \<in> C" for a using only [OF that(1)] that(2) by simp
    show "a' = a" if "curr ?s a = t" "curr ?s a' = t" for a a' using only [OF that(1)] only [OF that(2)] by simp
  qed (use nr v in auto)
  have free: "scheduled_on (rt_param (tasks ?s x)) \<noteq> Some a" if "?on = Some a" "is_realtime (tasks ?s x)" for x a
  proof -
    have "occupant ?s a = None" using sys_okD(6) [OF sys, of a] on [OF that(1)] nr by (simp add: occupant_def)
    then show ?thesis using sys_okD(5) [OF sys that(2), of a] by simp
  qed
  have inv1: "ginv C (clock s) pl s1"
  proof (rule ginv_change [OF inv(1) u s1(2) [folded ts, rule_format] _ _ s1(7-9,11-14)])
    show "pid (tasks s1 t) = pid (tasks ?s t)" "\<not> in_heap (rt_param (tasks s1 t))"
      using q(1,7) nh by (simp_all add: first_release)
    show "linked_on (rt_param (tasks s1 t)) = None" by (rule s1)
    fix a assume "scheduled_on (rt_param (tasks s1 t)) = Some a"
    then have a: "?on = Some a" using s1(5) by simp
    have "home ?s (tasks s1 t) = cluster ?s a" unfolding home_zero [OF sys] sys_okD(1) [OF sys] ..
    then show "a \<in> C \<and> edf_ok (tasks s1 t) \<and> home ?s (tasks s1 t) = cluster ?s a \<and>
        (\<forall>x. x \<noteq> t \<longrightarrow> is_realtime (tasks ?s x) \<longrightarrow> scheduled_on (rt_param (tasks ?s x)) \<noteq> Some a)"
      using on [OF a] ok1 free [OF a] by blast
  qed
  have w1: "not_waiting pl s1"
    unfolding not_waiting_def
  proof (intro allI impI)
    fix x a r assume a: "is_realtime (tasks s1 x)" "scheduled_on (rt_param (tasks s1 x)) = Some a"
    show "pl x \<noteq> Waiting r"
    proof (cases "x = t")
      case False
      then show ?thesis using inv(2) a v [OF False] unfolding not_waiting_def by metis
    qed (simp add: u(1))
  qed
  have "get_release (tasks s1 t) = clk 0" using q(5) by (simp add: first_release)
  then have rel: "is_released (tasks s1 t) (clk (Suc 0))"
    using is_released_le [OF ok1 clk_okD(6) [OF clk]] clk_okD(3) [OF clk] by simp
  have sw1: "switch_order C (curr s1) {} (switches s1)" using sw unfolding s1(10) more(1) .
  have "ok (gsn_job_arrival t (\<lambda>i. clk (Suc i)) s1) (\<lambda>s'. gsn_safe C rm (s'\<lparr>clock := fin\<rparr>))"
    by (rule arrival_call_ok [OF inv1 w1 sys1 sw1 u(1) ok1 _ clk_ok_Suc [OF clk]]) (use u(2) s1(11) rel in auto)
  then show ?thesis using s1(1) by (simp add: ok_iff_ex) blast
qed

lemma gsn_call_ok:
  assumes "gsn_safe C rm s" "gsn_enabled C rm call s"
  shows "ok (gsn_exec call s) (gsn_safe C rm)"
  using assms
  by (cases call) (fastforce intro: schedule_call_ok switch_call_ok release_call_ok new_call_ok wake_call_ok block_call_ok
      exit_call_ok tick_call_ok linux_call_ok simp del: gsn_exec.simps gsn_enabled.simps)+

lemma gsn_init_safe:
  assumes "gsn_init C rm s"
  shows "gsn_safe C rm s"
proof -
  obtain n online s0 where i: "gsn_boot online s0" "C = set online - set_option rm" "C \<noteq> {}" "switches s0 = []"
    "gsnedf_activate_plugin rm online (init_gsn_edf n s0) = Some s"
    using assms by (auto simp: gsn_init_def)
  have a: "ginv C (clock s) (\<lambda>_. Nowhere) s \<and> linked s = (\<lambda>_. None) \<and> scheduled s = (\<lambda>_. None) \<and> cluster s = (\<lambda>_. 0) \<and>
    masters s 0 = rm \<and> tasks s = tasks s0 \<and> curr s = curr s0 \<and> gstate.more s = gstate.more s0"
    using gsn_activate_ok [OF i(1,2), of n "clock s"] i(5) by simp
  then have "switches s = []" using gsys_more(1) [of s s0] i(4) by simp
  moreover have "\<not> is_realtime (tasks s t)" for t using a i(1) by (simp add: gsn_boot_def)
  moreover have "not_waiting (\<lambda>_. Nowhere) s" by (simp add: not_waiting_def)
  ultimately show ?thesis using a i(2,3) by (auto simp: gsn_safe_def sys_ok_def)
qed

interpretation gsn_machine: kernel_machine "gsn_init C rm" "gsn_enabled C rm" gsn_exec "gsn_safe C rm"
  by unfold_locales (simp_all add: gsn_init_safe gsn_call_ok)

end
