(* ===== verification/Gsn_Correct.thy ===== *)
theory Gsn_Correct
  imports Gsn_Machine Sample_State
begin

text \<open>What GSN-EDF guarantees, and a run of it on two CPUs.\<close>

section \<open>A run\<close>

text \<open>
  No task is a real-time task at first. Task 1 has the later deadlines, task 3 is not scheduled by the
  plugin.
\<close>

definition gsn_sample0 :: gsys where
  "gsn_sample0 =
     \<lparr>tasks = (\<lambda>t. (sample_task (sample_rt_task 0 100 (if t = 1 then 900 else 500)) t)\<lparr>policy := 0\<rparr>),
      rel_heaps = (\<lambda>_. \<lparr>rh_time = 0, rh_heap = bheap_init, rh_timer = None, rh_dom = 0\<rparr>),
      doms = (\<lambda>_. \<lparr>ready_queue = bheap_init, slot = (\<lambda>_. []), release_master = None, tobe_released = []\<rparr>),
      curr = (\<lambda>c. if c = 0 then 1 else 3), this_cpu = 0, ipis = [], tick_period = 1000000,
      budget_timer = (\<lambda>_. \<lparr>et_timer = None, et_running = False, et_armed = False\<rparr>),
      scheduled = (\<lambda>_. None), linked = (\<lambda>_. None), cpu_heap = (\<lambda>_. bheap_init), hn_in_heap = (\<lambda>_. False),
      will_schedule = (\<lambda>_. False), cluster = (\<lambda>_. 0), switches = [], clock = 0\<rparr>"

definition gsn_start :: gsys where
  "gsn_start = the (gsnedf_activate_plugin None [0, 1] (init_gsn_edf 4 gsn_sample0))"

definition gsn_run :: "gsn_call list \<Rightarrow> gsys" where
  "gsn_run = foldl (\<lambda>s call. the (gsn_exec call s)) gsn_start"

abbreviation sample_reachable :: "gsys \<Rightarrow> bool" where
  "sample_reachable \<equiv> reachable (gsn_init {0, 1} None) (gsn_enabled {0, 1} None) gsn_exec"

definition gsn_enter_np :: "task_struct \<Rightarrow> task_struct" where
  "gsn_enter_np t = t\<lparr>rt_param := (rt_param t)\<lparr>kernel_np := 1,
     job_params := (job_params (rt_param t))\<lparr>exec_time := 100\<rparr>\<rparr>\<rparr>"

definition gsn_exit_np :: "task_struct \<Rightarrow> task_struct" where
  "gsn_exit_np t = t\<lparr>rt_param := (rt_param t)\<lparr>kernel_np := 0\<rparr>\<rparr>"

text \<open>
  Task 1 becomes a real-time task while it runs on CPU 0, enters a non-preemptive section and uses up
  its budget there; CPU 0 calls the scheduler, and then the section ends.
\<close>

definition gsn_calls :: "gsn_call list" where
  "gsn_calls =
     [GNew 0 1 True (\<lambda>_. 10) 10, GSchedule 0 (\<lambda>_. 20) 20, GSwitch 0 3, GLinux 1 gsn_enter_np,
      GSchedule 0 (\<lambda>_. 30) 30, GSwitch 0 3, GLinux 1 gsn_exit_np]"

lemma gsn_start_init: "gsn_init {0, 1} None gsn_start"
proof -
  have boot: "gsn_boot [0, 1] gsn_sample0"
    by (simp add: gsn_boot_def gsn_sample0_def sample_task_def is_realtime_def SCHED_LITMUS_def inj_def)
  have "ok (gsnedf_activate_plugin None [0, 1] (init_gsn_edf 4 gsn_sample0)) (\<lambda>_. True)"
    by (rule ok_mono [OF gsn_activate_ok [OF boot refl]]) simp
  then have "gsnedf_activate_plugin None [0, 1] (init_gsn_edf 4 gsn_sample0) = Some gsn_start"
    by (auto simp: ok_iff_ex gsn_start_def)
  moreover have "switches gsn_sample0 = []" by (simp add: gsn_sample0_def)
  ultimately show ?thesis using boot unfolding gsn_init_def by fastforce
qed

lemma gsn_run_step:
  assumes "sample_reachable (gsn_run calls)" "gsn_enabled {0, 1} None call (gsn_run calls)"
  shows "sample_reachable (gsn_run (calls @ [call]))"
  using gsn_machine.reachable_step [OF assms] by (simp add: gsn_run_def)

lemma clk_ok_const [simp]: "clk_ok n (\<lambda>_. k) k' \<longleftrightarrow> n \<le> k \<and> k \<le> k' \<and> k' < 2 ^ 63"
  by (auto simp: clk_ok_def)

lemma gsn_run0: "sample_reachable (gsn_run [])"
  using gsn_machine.reachable_start [OF gsn_start_init] by (simp add: gsn_run_def)

lemma gsn_run1: "sample_reachable (gsn_run (take 1 gsn_calls))"
proof -
  have "curr (gsn_run []) c = (if c = 0 then 1 else 3)" for c by code_simp
  moreover have "\<not> is_realtime (tasks (gsn_run []) 1) \<and> \<not> in_heap (rt_param (tasks (gsn_run []) 1)) \<and>
      clock (gsn_run []) = 0 \<and> edf_ok (release_at 10 ((tasks (gsn_run []) 1)\<lparr>policy := SCHED_LITMUS\<rparr>)) \<and>
      task_cpu (tasks (gsn_run []) 1) = 0 \<and> map_of (switches (gsn_run [])) 0 = None" by code_simp
  ultimately have "gsn_enabled {0, 1} None (GNew 0 1 True (\<lambda>_. 10) 10) (gsn_run [])" by simp
  from gsn_run_step [OF gsn_run0 this] show ?thesis by (simp add: gsn_calls_def)
qed

lemma gsn_run2: "sample_reachable (gsn_run (take 2 gsn_calls))"
proof -
  let ?s = "gsn_run (take 1 gsn_calls)"
  have "map_of (switches ?s) 0 = None \<and> clock ?s = 10 \<and> edf_ok (next_job (tasks ?s (curr ?s 0)))" by code_simp
  then have "gsn_enabled {0, 1} None (GSchedule 0 (\<lambda>_. 20) 20) ?s" by simp
  from gsn_run_step [OF gsn_run1 this] show ?thesis by (simp add: gsn_calls_def numeral_2_eq_2)
qed

lemma gsn_run3: "sample_reachable (gsn_run (take 3 gsn_calls))"
proof -
  let ?s = "gsn_run (take 2 gsn_calls)"
  have "curr ?s c = (if c = 0 then 1 else 3)" for c by code_simp
  moreover have "map_of (switches ?s) 0 = Some (Some 1)" by code_simp
  ultimately have "gsn_enabled {0, 1} None (GSwitch 0 3) ?s" by simp
  from gsn_run_step [OF gsn_run2 this] show ?thesis by (simp add: gsn_calls_def numeral_2_eq_2 numeral_3_eq_3)
qed

lemma gsn_run4: "sample_reachable (gsn_run (take 4 gsn_calls))"
proof -
  let ?s = "gsn_run (take 3 gsn_calls)"
  have "gsn_enabled {0, 1} None (GLinux 1 gsn_enter_np) ?s" by (simp add: gsn_enter_np_def qview_def rt_simps)
  from gsn_run_step [OF gsn_run3 this] show ?thesis by (simp add: gsn_calls_def eval_nat_numeral)
qed

lemma gsn_run5: "sample_reachable (gsn_run (take 5 gsn_calls))"
proof -
  let ?s = "gsn_run (take 4 gsn_calls)"
  have "map_of (switches ?s) 0 = None \<and> clock ?s = 20 \<and> edf_ok (next_job (tasks ?s (curr ?s 0)))" by code_simp
  then have "gsn_enabled {0, 1} None (GSchedule 0 (\<lambda>_. 30) 30) ?s" by simp
  from gsn_run_step [OF gsn_run4 this] show ?thesis by (simp add: gsn_calls_def eval_nat_numeral)
qed

lemma gsn_run6: "sample_reachable (gsn_run (take 6 gsn_calls))"
proof -
  let ?s = "gsn_run (take 5 gsn_calls)"
  have "curr ?s c = (if c = 0 then 1 else 3)" for c by code_simp simp
  moreover have "map_of (switches ?s) 0 = Some (Some 1)" by code_simp
  ultimately have "gsn_enabled {0, 1} None (GSwitch 0 3) ?s" by simp
  from gsn_run_step [OF gsn_run5 this] show ?thesis by (simp add: gsn_calls_def eval_nat_numeral)
qed

lemma gsn_run7: "sample_reachable (gsn_run gsn_calls)"
proof -
  let ?s = "gsn_run (take 6 gsn_calls)"
  have "gsn_enabled {0, 1} None (GLinux 1 gsn_exit_np) ?s" by (simp add: gsn_exit_np_def qview_def rt_simps)
  from gsn_run_step [OF gsn_run6 this] show ?thesis by (simp add: gsn_calls_def eval_nat_numeral)
qed

section \<open>Properties\<close>

text \<open>
  C4: safety of GSN-EDF over every interleaving of calls on all CPUs, from the activation of the
  plugin on. The state stays well-formed: each task is in at most one queue or linked to one CPU, and
  the heap of CPUs, the ready queue and the release queue are in order. No ready job has a higher
  priority than a linked one. No task is running, or about to be switched to, on two CPUs. No call that
  Linux makes in such a state runs into a \<^verbatim>\<open>BUG_ON\<close>, reads a heap node that does not exist, or loops
  for ever.
\<close>

theorem gsn_reachable_safe:
  assumes "reachable (gsn_init C rm) (gsn_enabled C rm) gsn_exec s"
  shows "(\<exists>pl. ginv C (clock s) pl s) \<and>
    (\<forall>c l x. linked s c = Some l \<longrightarrow> x \<in># ready_of s 0 \<longrightarrow> \<not> edf_ready_order s x l) \<and>
    (\<forall>c c' t. occupant s c = Some t \<longrightarrow> occupant s c' = Some t \<longrightarrow> c = c') \<and>
    (\<forall>call. gsn_enabled C rm call s \<longrightarrow> gsn_exec call s \<noteq> None)"
proof -
  obtain pl where inv: "ginv C (clock s) pl s" and sys: "sys_ok C rm s"
    using gsn_machine.reachable_inv [OF assms] by (auto simp: gsn_safe_def)
  have "\<not> edf_ready_order s x l" if "linked s c = Some l" "x \<in># ready_of s 0" for c l x
    using ginvD(3) [OF inv] that sys_okD(1) [OF sys] placed_simps(3) [OF ginvD(7) [OF inv], of x 0]
    by (simp add: links_edf_def)
  moreover have "c = c'" if "occupant s c = Some t" "occupant s c' = Some t" for c c' t
    using sys_okD(5) [OF sys occupant_realtime [OF sys that(1)]] that by (metis option.inject)
  ultimately show ?thesis using inv gsn_machine.reachable_no_bug [OF assms] by blast
qed

theorem gsn_reachable_safe_witness:
  "(\<exists>pl. ginv {0, 1} (clock (gsn_run gsn_calls)) pl (gsn_run gsn_calls)) \<and>
   gsn_enabled {0, 1} None (GTick 0) (gsn_run gsn_calls) \<and> gsn_exec (GTick 0) (gsn_run gsn_calls) \<noteq> None"
  using gsn_reachable_safe [OF gsn_run7] by simp

text \<open>
  C6: the scheduler of GSN-EDF. It returns; the CPU is to run the linked job, unless a non-preemptive
  job is running there, which goes on. No ready job has a higher priority than the linked one. Every
  task that was queued or linked still is, except for a running task that has blocked or that is in a
  non-preemptive section and out of budget, to be preempted or sleeping.
\<close>

theorem gsnedf_schedule_correct:
  assumes "reachable (gsn_init C rm) (gsn_enabled C rm) gsn_exec s" "c \<in> C" "gsn_enabled C rm (GSchedule c clk fin) s"
  shows "\<exists>nxt s' pl pl'. gsnedf_schedule (curr s c) clk (s\<lparr>this_cpu := c\<rparr>) = Some (nxt, s') \<and>
    ginv C (clock s) pl s \<and> ginv C fin pl' s' \<and>
    nxt = (if sched_np c s then scheduled s c else linked s' c) \<and>
    (\<forall>l x. linked s' c = Some l \<longrightarrow> x \<in># ready_of s' 0 \<longrightarrow> \<not> edf_ready_order s' x l) \<and>
    held pl' s' = held pl s - (if sched_drops c s then set_option (scheduled s c) else {})"
proof -
  obtain pl nxt s' pl' where s': "ginv C (clock s) pl s" "gsnedf_schedule (curr s c) clk (s\<lparr>this_cpu := c\<rparr>) = Some (nxt, s')"
    "ginv C fin pl' s'" "nxt = (if sched_np c s then scheduled s c else linked s' c)" "cluster s' = (\<lambda>_. 0)"
    "held pl' s' = held pl s - (if sched_drops c s then set_option (scheduled s c) else {})"
    using schedule_on_cpu [OF gsn_machine.reachable_inv [OF assms(1)] assms(2,3)] by blast
  have "\<not> edf_ready_order s' x l" if "linked s' c = Some l" "x \<in># ready_of s' 0" for l x
    using ginvD(3) [OF s'(3)] that s'(5) placed_simps(3) [OF ginvD(7) [OF s'(3)], of x 0] by (simp add: links_edf_def)
  then show ?thesis using s' by blast
qed

theorem gsnedf_schedule_correct_witness:
  "\<exists>nxt s' pl'. gsnedf_schedule 1 (\<lambda>_. 20) ((gsn_run (take 1 gsn_calls))\<lparr>this_cpu := 0\<rparr>) = Some (nxt, s') \<and>
     ginv {0, 1} 20 pl' s' \<and> nxt = linked s' 0"
proof -
  let ?s = "gsn_run (take 1 gsn_calls)"
  have ev: "map_of (switches ?s) 0 = None \<and> clock ?s = 10 \<and> edf_ok (next_job (tasks ?s 1)) \<and> curr ?s 0 = 1 \<and>
      \<not> sched_np 0 ?s" by code_simp
  then have "gsn_enabled {0, 1} None (GSchedule 0 (\<lambda>_. 20) 20) ?s" by simp
  from gsnedf_schedule_correct [OF gsn_run1 _ this] ev show ?thesis by auto
qed

text \<open>
  C7: context switches of GSN-EDF do not wait for each other in a circle. A task may be chosen for a
  CPU while it still is the current one of another CPU, which then must switch first. The switch that
  was decided first waits for no CPU of the plugin, and can be made unless its task still runs on a
  CPU outside of it.
\<close>

theorem gsn_no_switch_deadlock:
  assumes "reachable (gsn_init C rm) (gsn_enabled C rm) gsn_exec s" "switches s = (c, Some t) # sw"
    and "\<And>c'. c' \<notin> C \<Longrightarrow> curr s c' \<noteq> t"
  shows "gsn_enabled C rm (GSwitch c idle) s"
proof -
  have "switch_order C (curr s) {} (switches s)"
    using gsn_machine.reachable_inv [OF assms(1)] by (simp add: gsn_safe_def)
  then show ?thesis using assms(2,3) by auto
qed

theorem gsn_no_switch_deadlock_witness:
  "switches (gsn_run (take 5 gsn_calls)) = [(0, Some 1)] \<and>
   gsn_enabled {0, 1} None (GSwitch 0 3) (gsn_run (take 5 gsn_calls))"
proof -
  let ?s = "gsn_run (take 5 gsn_calls)"
  have sw: "switches ?s = [(0, Some 1)]" by code_simp
  have "curr ?s c = (if c = 0 then 1 else 3)" for c by code_simp simp
  then show ?thesis using gsn_no_switch_deadlock [OF gsn_run5 sw, of 3] sw by simp
qed

text \<open>
  C8: a runnable real-time task is lost by GSN-EDF. A task that runs on a CPU without being linked or
  queued, as after a call of the scheduler in a non-preemptive section with an exhausted budget, is
  taken off the CPU by the next call when the section has ended, and is then in no queue, linked to no
  CPU and scheduled on none, although it is still runnable.
\<close>

theorem gsn_np_task_lost:
  assumes "reachable (gsn_init C rm) (gsn_enabled C rm) gsn_exec s" "c \<in> C" "gsn_enabled C rm (GSchedule c clk fin) s"
    and t: "scheduled s c = Some t" "is_running (tasks s t)" "\<not> is_np (tasks s t)"
      "linked_on (rt_param (tasks s t)) = None" "\<not> in_heap (rt_param (tasks s t))"
  shows "ok (gsn_exec (GSchedule c clk fin) s) (\<lambda>s'. is_realtime (tasks s' t) \<and> is_running (tasks s' t) \<and>
    \<not> in_heap (rt_param (tasks s' t)) \<and> linked_on (rt_param (tasks s' t)) = None \<and>
    scheduled_on (rt_param (tasks s' t)) = None)"
proof -
  obtain pl nxt s' pl' where s': "ginv C (clock s) pl s" "gsnedf_schedule (curr s c) clk (s\<lparr>this_cpu := c\<rparr>) = Some (nxt, s')"
    "ginv C fin pl' s'" "nxt = (if sched_np c s then scheduled s c else linked s' c)" "sframe (s\<lparr>this_cpu := c\<rparr>) s'"
    "held pl' s' = held pl s - (if sched_drops c s then set_option (scheduled s c) else {})"
    "\<forall>x. is_realtime (tasks s x) \<longrightarrow> scheduled_on (rt_param (tasks s' x)) =
       (if nxt = Some x then Some c else if scheduled s c = Some x then None else scheduled_on (rt_param (tasks s x)))"
    "\<forall>x. scheduled s c = Some x \<longrightarrow> is_realtime (tasks s x)"
    using schedule_on_cpu [OF gsn_machine.reachable_inv [OF assms(1)] assms(2,3)] by blast
  have "t \<notin> held pl s" using unheld [OF s'(1) t(5)] t(4) by (simp add: held_def)
  then have nh: "pl' t = Nowhere" "linked s' a \<noteq> Some t" for a using s'(6) by (auto simp: held_def)
  have rt: "is_realtime (tasks s' t)" "is_running (tasks s' t)" using s'(5,8) t(1,2) by (simp_all add: sframe_def)
  have "linked_on (rt_param (tasks s' t)) = None"
    using linkageD(7) [OF ginvD(5) [OF s'(3)] rt(1)] nh(2) by (cases "linked_on (rt_param (tasks s' t))") auto
  moreover have "\<not> sched_np c s" using t(1,3) by (simp add: sched_np_def on_sched_def)
  then have "scheduled_on (rt_param (tasks s' t)) = None" using s'(4,7,8) nh(2) t(1) by simp
  moreover have "\<not> in_heap (rt_param (tasks s' t))" using placed_simps(5) [OF ginvD(7) [OF s'(3)], of t] nh(1) by simp
  ultimately show ?thesis using rt s'(2) by simp
qed

theorem gsn_np_task_lost_witness:
  "ok (gsn_exec (GSchedule 0 (\<lambda>_. 40) 40) (gsn_run gsn_calls)) (\<lambda>s'. is_realtime (tasks s' 1) \<and> is_running (tasks s' 1) \<and>
     \<not> in_heap (rt_param (tasks s' 1)) \<and> linked_on (rt_param (tasks s' 1)) = None \<and>
     scheduled_on (rt_param (tasks s' 1)) = None)"
proof -
  let ?s = "gsn_run gsn_calls"
  have ev: "map_of (switches ?s) 0 = None \<and> clock ?s = 30 \<and> edf_ok (next_job (tasks ?s (curr ?s 0))) \<and>
      scheduled ?s 0 = Some 1 \<and> is_running (tasks ?s 1) \<and> \<not> is_np (tasks ?s 1) \<and>
      linked_on (rt_param (tasks ?s 1)) = None \<and> \<not> in_heap (rt_param (tasks ?s 1))" by code_simp
  then have "gsn_enabled {0, 1} None (GSchedule 0 (\<lambda>_. 40) 40) ?s" by simp
  from gsn_np_task_lost [OF gsn_run7 _ this] ev show ?thesis by simp
qed

text \<open>
  C5: the loop that links ready jobs, shared by GSN-EDF and C-EDF, ends. If the jobs that are ready or
  linked in cluster \<open>d\<close> have been released, then it returns with the same jobs ready or linked, and no
  ready job is left that could be linked: every CPU of the cluster has a linked job of at least the
  priority of any ready one. Nothing changes in the other clusters.
\<close>

theorem check_for_preemptions_edf:
  assumes "gsn_inv C pl s" "finite C" "\<exists>c \<in> C. cluster s c = d"
    and "\<And>x i. x \<in> pool d pl s \<Longrightarrow> is_released (tasks s x) (clk i)"
  shows "\<exists>s' pl'. check_for_preemptions d clk s = Some s' \<and> gsn_inv C pl' s' \<and> pool d pl' s' = pool d pl s \<and>
    (\<forall>c \<in> C. cluster s' c = d \<longrightarrow> (\<forall>x. pl' x = Ready d \<longrightarrow> (\<exists>l. linked s' c = Some l \<and> \<not> edf_ready_order s' x l))) \<and>
    (\<forall>x. x \<notin> pool d pl s \<longrightarrow> pl' x = pl x) \<and> (\<forall>c. cluster s c \<noteq> d \<longrightarrow> linked s' c = linked s c)"
proof -
  obtain s' pl' where s': "check_for_preemptions d clk s = Some s'" "gsn_inv C pl' s'" "edf_linked C d pl' s'"
    "pool d pl' s' = pool d pl s" "\<forall>x. x \<notin> pool d pl s \<longrightarrow> pl' x = pl x" "\<forall>c. cluster s c \<noteq> d \<longrightarrow> linked s' c = linked s c"
    using check_for_preemptions_ok [where clk = clk, OF assms] unfolding ok_iff_ex by blast
  have "\<exists>l. linked s' c = Some l \<and> \<not> edf_ready_order s' x l" if "c \<in> C" "cluster s' c = d" "pl' x = Ready d" for c x
    using s'(3) that by (cases "linked s' c") (auto simp: edf_linked_def needs_preemption_def)
  then show ?thesis using s' by blast
qed

theorem check_for_preemptions_edf_witness:
  "\<exists>s'. check_for_preemptions 0 (\<lambda>_. 20) (gsn_run (take 1 gsn_calls)) = Some s' \<and> linked s' 0 = Some 1"
proof -
  let ?s = "gsn_run (take 1 gsn_calls)"
  obtain pl where inv: "ginv {0, 1} (clock ?s) pl ?s" and sys: "sys_ok {0, 1} None ?s"
    using gsn_machine.reachable_inv [OF gsn_run1] by (auto simp: gsn_safe_def)
  have "clock ?s = 10" by code_simp
  then have clk: "clk_ok (clock ?s) (\<lambda>_. 20) 20" by simp
  have "\<exists>s' pl'. check_for_preemptions 0 (\<lambda>_. 20) ?s = Some s' \<and> gsn_inv {0, 1} pl' s'"
    using check_for_preemptions_edf [OF ginvD(1,2) [OF inv], where d = 0 and clk = "\<lambda>_. 20"] timely_pool [OF inv clk] sys_okD(1) [OF sys]
    by auto
  moreover have "linked (the (check_for_preemptions 0 (\<lambda>_. 20) ?s)) 0 = Some 1" by code_simp
  ultimately show ?thesis by auto
qed

end
