(* ===== verification/Semi_Partitioned.thy ===== *)
theory Semi_Partitioned
  imports Sample_State
begin

text \<open>
  The handlers that EDF-WM, C=D and HIME share. The three plugins are copies of one another
  (\<^verbatim>\<open>sched_edf_wm.c\<close>, \<^verbatim>\<open>sched_cd.c\<close>, \<^verbatim>\<open>sched_hime.c\<close>) that differ only in how a job is cut into slices;
  the handlers below are written once over the slice operations of a plugin, and each plugin's
  handlers are their instances. A migrating task is first taken off its CPU under the lock of that
  CPU and is added to the queue of the next CPU after the lock has been dropped: the two parts of
  \<open>semi_schedule\<close>.
\<close>

section \<open>Slice operations\<close>

text \<open>
  What a plugin provides for its sliced tasks: whether a task is sliced, the budget of its current
  slice and the execution time used in it, whether the current slice is the last one, the
  advancement to the next slice (with the flag for a completed job), the initialisation in
  \<^verbatim>\<open>task_new\<close>, the preparation for a release at a given time and the cached deadline of the job.
\<close>

record slice_ops =
  is_sliced :: "task_struct \<Rightarrow> bool"
  slice_budget :: "task_struct \<Rightarrow> lt_t"
  slice_exec_time :: "task_struct \<Rightarrow> lt_t"
  on_last_slice :: "task_struct \<Rightarrow> bool"
  advance :: "bool \<Rightarrow> task_struct \<Rightarrow> task_struct option"
  start_job :: "task_struct \<Rightarrow> task_struct"
  rewind :: "lt_t \<Rightarrow> task_struct \<Rightarrow> task_struct"
  job_dl :: "task_struct \<Rightarrow> lt_t"

definition slice_budget_exhausted :: "slice_ops \<Rightarrow> task_struct \<Rightarrow> bool" where
  "slice_budget_exhausted ops t \<longleftrightarrow> slice_budget ops t \<le> slice_exec_time ops t"

definition slice_budget_remaining :: "slice_ops \<Rightarrow> task_struct \<Rightarrow> lt_t" where
  "slice_budget_remaining ops t = slice_budget ops t - slice_exec_time ops t"

definition semi_budget_exhausted :: "slice_ops \<Rightarrow> task_struct \<Rightarrow> bool" where
  "semi_budget_exhausted ops t =
     (if is_sliced ops t then slice_budget_exhausted ops t else budget_exhausted t)"

definition add_exec_time :: "lt_t \<Rightarrow> task_struct \<Rightarrow> task_struct" where
  "add_exec_time x = upd_job (\<lambda>j. j\<lparr>exec_time := exec_time j + x\<rparr>)"

text \<open>
  The loop that takes the time a job was suspended through its slices. It need not end for every
  slice table (a table of empty slices), so not ending is the value \<open>None\<close>, as is a \<^verbatim>\<open>BUG_ON\<close>.
\<close>

partial_function (option) fast_forward_loop ::
  "slice_ops \<Rightarrow> lt_t \<Rightarrow> task_struct \<Rightarrow> (lt_t \<times> task_struct) option"
where
  "fast_forward_loop ops time_passed t =
     (if time_passed \<noteq> 0 \<and> slice_budget_remaining ops t \<le> time_passed
      then do {
        let remaining = slice_budget_remaining ops t;
        let t = add_exec_time remaining t;
        BUG_ON (\<not> slice_budget_exhausted ops t);
        BUG_ON (slice_budget_remaining ops t \<noteq> 0);
        BUG_ON (on_last_slice ops t);
        t \<leftarrow> advance ops False t;
        fast_forward_loop ops (time_passed - remaining) t
      }
      else Some (time_passed, t))"

declare fast_forward_loop.simps [code]

definition fast_forward_slices :: "slice_ops \<Rightarrow> lt_t \<Rightarrow> task_struct \<Rightarrow> task_struct option" where
  "fast_forward_slices ops time_passed t = do {
     BUG_ON (budget_remaining t \<le> time_passed);
     t \<leftarrow> (if semi_budget_exhausted ops t then advance ops False t else Some t);
     (time_passed, t) \<leftarrow> fast_forward_loop ops time_passed t;
     Some (add_exec_time time_passed t)
   }"

section \<open>Handlers\<close>

definition regular_job_completion :: "task_struct \<Rightarrow> task_struct" where
  "regular_job_completion t = prepare_for_next_period (set_rt_flags RT_F_SLEEP t)"

definition semi_completion :: "slice_ops \<Rightarrow> bool \<Rightarrow> task_struct \<Rightarrow> task_struct option" where
  "semi_completion ops signaled t =
     (if is_sliced ops t then advance ops signaled t else Some (regular_job_completion t))"

definition semi_preempt :: "cpu_id \<Rightarrow> 'z pstate_scheme \<Rightarrow> 'z pstate_scheme" where
  "semi_preempt c s = preempt_if_preemptable None c s"

definition semi_check_resched :: "nat \<Rightarrow> 'z pstate_scheme \<Rightarrow> 'z pstate_scheme" where
  "semi_check_resched = part_check_resched semi_preempt"

definition semi_tick :: "slice_ops \<Rightarrow> tid \<Rightarrow> 'z pstate_scheme \<Rightarrow> 'z pstate_scheme option" where
  "semi_tick ops t s = do {
     BUG_ON (is_realtime (tasks s t) \<and> scheduled s (this_cpu s) \<noteq> Some t);
     Some (if is_realtime (tasks s t) \<and> budget_enforced (tasks s t) \<and> semi_budget_exhausted ops (tasks s t)
           then set_tsk_need_resched t s else s)
   }"

definition upd_sched_opt ::
  "cpu_id \<Rightarrow> (task_struct \<Rightarrow> task_struct option) \<Rightarrow> 'z pstate_scheme \<Rightarrow> 'z pstate_scheme option"
where
  "upd_sched_opt c f s =
     (case scheduled s c of
        None \<Rightarrow> Some s
      | Some t \<Rightarrow> map_option (\<lambda>p. upd_task t (\<lambda>_. p) s) (f (tasks s t)))"

text \<open>The part under the lock: the next task, and the task that has to migrate.\<close>

definition semi_schedule_locked ::
  "slice_ops \<Rightarrow> tid \<Rightarrow> lt_t \<Rightarrow> 'z pstate_scheme \<Rightarrow> (tid option \<times> tid option \<times> 'z pstate_scheme) option"
where
  "semi_schedule_locked ops prev now s = do {
     let c = this_cpu s;
     BUG_ON (scheduled s c \<noteq> None \<and> scheduled s c \<noteq> Some prev);
     BUG_ON (scheduled s c \<noteq> None \<and> \<not> is_realtime (tasks s prev));
     let exsts = (scheduled s c \<noteq> None);
     let wrong_cpu = on_sched c (\<lambda>t. get_partition t \<noteq> c) s;
     let blocks = on_sched c (\<lambda>t. \<not> is_running t) s;
     let out_of_time = on_sched c (\<lambda>t. budget_enforced t \<and> semi_budget_exhausted ops t) s;
     let sleep = on_sched c (\<lambda>t. get_rt_flags t = RT_F_SLEEP) s;
     let (preempt, s) = edf_preemption_needed c (Some prev) s;
     let completes = ((out_of_time \<or> sleep) \<and> \<not> blocks);
     s \<leftarrow> (if completes then upd_sched_opt c (semi_completion ops sleep) s else Some s);
     let resched = (preempt \<or> blocks \<or> wrong_cpu \<or> completes);
     (nxt, migrate, s) \<leftarrow>
       (if resched \<or> \<not> exsts then do {
          (migrate, s) \<leftarrow>
            (case scheduled s c of
               Some t \<Rightarrow>
                 if \<not> blocks
                 then if get_partition (tasks s t) = c
                      then map_option (Pair None) (part_requeue semi_check_resched c t now s)
                      else Some (Some t, s)
                 else Some (None, s)
             | None \<Rightarrow> Some (None, s));
          let (nxt, s) = take_ready edf_ready_order c s;
          Some (nxt, migrate, s)
        } else Some (if exsts then Some prev else None, None, s));
     Some (nxt, migrate, set_scheduled c nxt s)
   }"

definition semi_schedule ::
  "slice_ops \<Rightarrow> tid \<Rightarrow> lt_t \<Rightarrow> 'z pstate_scheme \<Rightarrow> (tid option \<times> 'z pstate_scheme) option"
where
  "semi_schedule ops prev now s = do {
     (nxt, migrate, s) \<leftarrow> semi_schedule_locked ops prev now s;
     s \<leftarrow> (case migrate of
             Some t \<Rightarrow> part_requeue_remote semi_check_resched t now s
           | None \<Rightarrow> Some s);
     Some (nxt, s)
   }"

definition semi_task_new ::
  "slice_ops \<Rightarrow> tid \<Rightarrow> bool \<Rightarrow> lt_t \<Rightarrow> lt_t \<Rightarrow> 'z pstate_scheme \<Rightarrow> 'z pstate_scheme option"
where
  "semi_task_new ops t running now now' s = do {
     let c = get_partition (tasks s t);
     let s = upd_task t (release_at now) s;
     let s = (if is_sliced ops (tasks s t) then upd_task t (start_job ops) s else s);
     (if running then do {
        BUG_ON (scheduled s c \<noteq> None);
        Some (s\<lparr>scheduled := (scheduled s)(c := Some t)\<rparr>)
      } else do {
        s \<leftarrow> part_requeue semi_check_resched c t now' s;
        Some (semi_preempt c s)
      })
   }"

definition semi_release_at :: "slice_ops \<Rightarrow> lt_t \<Rightarrow> task_struct \<Rightarrow> task_struct option" where
  "semi_release_at ops start t =
     (if is_sliced ops t
      then map_option (set_rt_flags RT_F_RUNNING) (advance ops False (rewind ops start t))
      else Some (release_at start t))"

definition semi_earliest_release :: "slice_ops \<Rightarrow> lt_t \<Rightarrow> task_struct \<Rightarrow> lt_t" where
  "semi_earliest_release ops now t =
     (let dl = (if is_sliced ops t then job_dl ops t else get_deadline t)
      in if lt_before dl now then now else dl)"

text \<open>The suspension time is the second word of the run-time union in all three plugins.\<close>

abbreviation suspend_time :: "task_struct \<Rightarrow> lt_t" where
  "suspend_time t \<equiv> sp1 (semi_part (rt_param t))"

text \<open>The part of the wake-up that updates the task.\<close>

definition semi_wake_task :: "slice_ops \<Rightarrow> lt_t \<Rightarrow> task_struct \<Rightarrow> task_struct option" where
  "semi_wake_task ops now t =
     (let sleep_time = now - suspend_time t
      in if get_exec_cost t \<le> get_exec_time t + sleep_time
         then if job_no (job_params (rt_param t)) \<noteq> 2 \<and> get_exec_time t = 0
              then semi_release_at ops (semi_earliest_release ops now t) t
              else Some t
         else if is_sliced ops t
         then do {
           t \<leftarrow> fast_forward_slices ops sleep_time t;
           BUG_ON (semi_budget_exhausted ops t);
           Some t
         }
         else Some (add_exec_time sleep_time t))"

definition semi_task_wake_up ::
  "slice_ops \<Rightarrow> tid \<Rightarrow> lt_t \<Rightarrow> lt_t \<Rightarrow> 'z pstate_scheme \<Rightarrow> 'z pstate_scheme option"
where
  "semi_task_wake_up ops t now now' s = do {
     let c = get_partition (tasks s t);
     q \<leftarrow> is_queued t s;
     BUG_ON q;
     p \<leftarrow> semi_wake_task ops now (tasks s t);
     let s = upd_task t (\<lambda>_. p) s;
     (if scheduled s c \<noteq> Some t
      then if get_partition (tasks s t) = c
           then part_requeue semi_check_resched c t now' s
           else part_requeue_remote semi_check_resched t now' s
      else Some s)
   }"

definition semi_task_block :: "tid \<Rightarrow> lt_t \<Rightarrow> 'z pstate_scheme \<Rightarrow> 'z pstate_scheme option" where
  "semi_task_block t now s = do {
     let s = upd_task t (upd_semi (\<lambda>u. u\<lparr>sp1 := now\<rparr>)) s;
     q \<leftarrow> is_queued t s;
     s \<leftarrow> (if q then remove_rt edf_ready_order (get_partition (tasks s t)) t s else Some s);
     BUG_ON (\<not> is_realtime (tasks s t));
     Some s
   }"

definition semi_task_exit :: "tid \<Rightarrow> 'z pstate_scheme \<Rightarrow> 'z pstate_scheme option" where
  "semi_task_exit t s = do {
     let c = get_partition (tasks s t);
     q \<leftarrow> is_queued t s;
     s \<leftarrow> (if q then remove_rt edf_ready_order c t s else Some s);
     let s = (if scheduled s c = Some t then s\<lparr>scheduled := (scheduled s)(c := None)\<rparr> else s);
     Some (semi_preempt c s)
   }"

definition semi_domain_init :: "cpu_id \<Rightarrow> 'z pstate_scheme \<Rightarrow> 'z pstate_scheme" where
  "semi_domain_init c s = (let s = edf_domain_init c s in s\<lparr>scheduled := (scheduled s)(c := None)\<rparr>)"

fun init_semi :: "nat \<Rightarrow> 'z pstate_scheme \<Rightarrow> 'z pstate_scheme" where
  "init_semi 0 s = s"
| "init_semi (Suc n) s = semi_domain_init n (init_semi n s)"

interpretation semi: resched_callback semi_check_resched
  unfolding semi_check_resched_def
  by (rule part_check_resched_contract) (auto simp: semi_preempt_def)

section \<open>The contract of the slice operations\<close>

text \<open>What of a task no slice operation touches.\<close>

definition task_frame :: "task_struct \<Rightarrow> task_struct \<Rightarrow> bool" where
  "task_frame t t' \<longleftrightarrow>
     pid t' = pid t \<and> policy t' = policy t \<and> state t' = state t \<and> preempt_active t' = preempt_active t \<and>
     task_cpu t' = task_cpu t \<and> inh_task (rt_param t') = inh_task (rt_param t) \<and>
     heap_node (rt_param t') = heap_node (rt_param t) \<and> in_heap (rt_param t') = in_heap (rt_param t)"

lemma task_frame_refl [simp]: "task_frame t t"
  by (simp add: task_frame_def)

lemma task_frame_trans: "task_frame t t' \<Longrightarrow> task_frame t' t'' \<Longrightarrow> task_frame t t''"
  by (simp add: task_frame_def)

lemma task_frame_add_exec_time [simp]: "task_frame t (add_exec_time x t') = task_frame t t'"
  by (simp add: task_frame_def add_exec_time_def rt_simps)

lemma task_frame_job [simp]:
  "task_frame t (release_at start t)" "task_frame t (set_rt_flags f t)" "task_frame t (upd_job g t)"
  "task_frame t (regular_job_completion t)" "task_frame t (upd_semi h t)" "task_frame t (upd_params k t)"
  "task_frame t (prepare_for_next_period t)" "task_frame t (add_exec_time x t)"
  by (simp_all add: task_frame_def release_at_def regular_job_completion_def prepare_for_next_period_def
      add_exec_time_def rt_simps)

locale slice_plugin =
  fixes ops :: slice_ops
  assumes advance_frame: "advance ops b t = Some t' \<Longrightarrow> task_frame t t'"
    and advance_ok: "is_sliced ops t \<Longrightarrow> heap_node (rt_param t) \<Longrightarrow> \<not> in_heap (rt_param t) \<Longrightarrow> advance ops b t \<noteq> None"
    and start_frame: "task_frame t (start_job ops t)"
    and rewind_frame: "task_frame t (rewind ops x t)"
    and rewind_sliced: "is_sliced ops (rewind ops x t) = is_sliced ops t"
begin

lemma forward_loop_frame:
  assumes "fast_forward_loop ops x t = Some r"
  shows "task_frame t (snd r)"
proof -
  have "o' = ops \<longrightarrow> task_frame t (snd r)" if "fast_forward_loop o' x t = Some r" for o' x t r
    by (rule fast_forward_loop.raw_induct [OF _ that, of "\<lambda>o' x t r. o' = ops \<longrightarrow> task_frame t (snd r)"])
      (auto simp: Let_def bind_eq_Some_iff split: if_splits
        intro: task_frame_trans [OF task_frame_trans [OF task_frame_job(8) advance_frame]])
  then show ?thesis using assms by blast
qed

lemma forward_frame:
  assumes "fast_forward_slices ops x t = Some t'"
  shows "task_frame t t'"
  using assms advance_frame [of False t]
  by (auto simp: fast_forward_slices_def bind_eq_Some_iff split: if_splits
      dest!: forward_loop_frame intro: task_frame_trans)


lemma completion_frame: "semi_completion ops b t = Some t' \<Longrightarrow> task_frame t t'"
  using advance_frame by (auto simp: semi_completion_def split: if_splits)

lemma completion_ok:
  "heap_node (rt_param t) \<Longrightarrow> \<not> in_heap (rt_param t) \<Longrightarrow> \<exists>t'. semi_completion ops b t = Some t'"
  using advance_ok by (auto simp: semi_completion_def)

lemma release_at_ok:
  assumes "heap_node (rt_param t)" "\<not> in_heap (rt_param t)"
  shows "ok (semi_release_at ops start t) (task_frame t)"
proof (cases "is_sliced ops t")
  case True
  obtain t' where t': "advance ops False (rewind ops start t) = Some t'"
    using advance_ok [of "rewind ops start t" False] True rewind_sliced rewind_frame [of t start] assms
    by (auto simp: task_frame_def)
  have "task_frame t (set_rt_flags RT_F_RUNNING t')"
    using advance_frame [OF t'] rewind_frame task_frame_trans task_frame_job(2) by blast
  then show ?thesis using True t' by (simp add: semi_release_at_def)
qed (simp add: semi_release_at_def)

lemma wake_task_frame:
  assumes "semi_wake_task ops now t = Some t'" "heap_node (rt_param t)" "\<not> in_heap (rt_param t)"
  shows "task_frame t t'"
  using assms release_at_ok [OF assms(2,3), of "semi_earliest_release ops now t"] forward_frame
  by (auto simp: semi_wake_task_def Let_def bind_eq_Some_iff split: if_splits)

end

section \<open>Correctness of the handlers\<close>

text \<open>Requeueing a task that is nowhere, on its own CPU or on a remote one.\<close>

lemma part_inv_requeued:
  assumes "part_inv pl s" "\<And>c'. scheduled s c' \<noteq> Some t" "queue_inv get_partition (pl(t := p)) s'"
    "same_jobs (upd_task t (set_rt_flags RT_F_RUNNING) s) s'" "kstate.more s' = kstate.more s"
  shows "part_inv (pl(t := p)) s'" "scheduled s' = scheduled s"
    "edf_ready_order s' = edf_ready_order s" "get_partition (tasks s' x) = get_partition (tasks s x)"
    "edf_ok (tasks s' x) = edf_ok (tasks s x)"
proof -
  have *: "jview (tasks s' x) = jview (tasks (upd_task t (set_rt_flags RT_F_RUNNING) s) x)" for x
    using assms(4) by (simp add: same_jobs_def)
  have view: "edf_ok (tasks s' x) = edf_ok (tasks s x)" for x
    using jview_view(2) [OF * [of x]] by (auto split: if_splits)
  then show "edf_ok (tasks s' x) = edf_ok (tasks s x)" .
  show sched: "scheduled s' = scheduled s" by (rule scheduled_more [OF assms(5)])
  show "edf_ready_order s' = edf_ready_order s"
    using same_jobs_order [OF assms(4)] by simp
  show "get_partition (tasks s' x) = get_partition (tasks s x)"
    using jview_view(1) [OF * [of x]] by (simp add: rt_simps split: if_splits)
  show "part_inv (pl(t := p)) s'"
    using assms(2,3) part_invD(4,5) [OF assms(1)] sched
    unfolding part_inv_def sched_ok_def view by auto
qed

lemma semi_requeue_ok:
  fixes s :: "'z pstate_scheme"
  assumes "part_inv pl s" "pl t = Nowhere" "edf_ok (tasks s t)" "get_partition (tasks s t) = d"
    "\<And>c'. scheduled s c' \<noteq> Some t"
  shows "ok (part_requeue semi_check_resched d t now s) (\<lambda>s'. \<exists>p. part_inv (pl(t := p)) s' \<and> p \<noteq> Nowhere \<and> (\<forall>d'. d' \<noteq> d \<longrightarrow> p \<noteq> Ready d') \<and>
      scheduled s' = scheduled s \<and> edf_ready_order s' = edf_ready_order s \<and> this_cpu s' = this_cpu s \<and> curr s' = curr s \<and>
      (\<forall>x. get_partition (tasks s' x) = get_partition (tasks s x) \<and> edf_ok (tasks s' x) = edf_ok (tasks s x)))"
    and "ok (part_requeue_remote semi_check_resched t now s) (\<lambda>s'. \<exists>p. part_inv (pl(t := p)) s' \<and> p \<noteq> Nowhere \<and> (\<forall>d'. d' \<noteq> d \<longrightarrow> p \<noteq> Ready d') \<and>
      scheduled s' = scheduled s \<and> edf_ready_order s' = edf_ready_order s \<and> this_cpu s' = this_cpu s \<and> curr s' = curr s \<and>
      (\<forall>x. get_partition (tasks s' x) = get_partition (tasks s x) \<and> edf_ok (tasks s' x) = edf_ok (tasks s x)))"
proof -
  note req = semi.requeue_ok [OF part_invD(1) [OF assms(1)] assms(2-4), of now]
  let ?Q = "\<lambda>s'. \<exists>p. part_inv (pl(t := p)) s' \<and> p \<noteq> Nowhere \<and> (\<forall>d'. d' \<noteq> d \<longrightarrow> p \<noteq> Ready d') \<and>
      scheduled s' = scheduled s \<and> edf_ready_order s' = edf_ready_order s \<and> this_cpu s' = this_cpu s \<and> curr s' = curr s \<and>
      (\<forall>x. get_partition (tasks s' x) = get_partition (tasks s x) \<and> edf_ok (tasks s' x) = edf_ok (tasks s x))"
  have Q: "?Q s'" if "queue_inv get_partition (pl(t := p)) s'" "p \<noteq> Nowhere \<and> (\<forall>d'. d' \<noteq> d \<longrightarrow> p \<noteq> Ready d')"
    "same_jobs (upd_task t (set_rt_flags RT_F_RUNNING) s) s'" "kstate.more s' = kstate.more s"
    "this_cpu s' = this_cpu s" "curr s' = curr s" for s' p
    using part_inv_requeued [OF assms(1,5) that(1,3,4)] that(2,5,6) by blast
  show "ok (part_requeue semi_check_resched d t now s) ?Q"
    by (rule ok_mono [OF req(1)]) (use Q in blast)
  show "ok (part_requeue_remote semi_check_resched t now s) ?Q"
    by (rule ok_mono [OF req(2)]) (use Q in blast)
qed

lemma edf_choice_keep_sched:
  assumes "queue_inv get_partition pl s" "edf_preemption_needed c (Some t) s = (False, s1)"
    "edf_ok (tasks s t)" "edf_ready_order s' = edf_ready_order s"
  shows "edf_choice c (Some t) pl s'"
  using edf_preemption_needed_spec(10) [OF assms(1,2) refl assms(3)] assms(4) by (auto simp: edf_choice_def)

lemma set_scheduled_views [simp]:
  "get_partition (tasks (set_scheduled c nxt s) t) = get_partition (tasks s t)"
  "edf_ok (tasks (set_scheduled c nxt s) t) = edf_ok (tasks s t)"
  by (auto simp: set_scheduled_def Let_def rt_simps edf_ok_def split: option.splits)

text \<open>
  What the part of the scheduler under the lock guarantees. Tasks in no queue are left alone, but
  for the one that was scheduled on the CPU.
\<close>

definition locked_post ::
  "(tid \<Rightarrow> place) \<Rightarrow> 'z pstate_scheme \<Rightarrow> tid option \<times> tid option \<times> 'z pstate_scheme \<Rightarrow> bool"
where
  "locked_post pl s r =
     (case r of (nxt, migrate, s') \<Rightarrow>
       scheduled s' = (scheduled s)(this_cpu s := nxt) \<and> curr s' = curr s \<and> this_cpu s' = this_cpu s \<and>
       (\<exists>pl'. part_inv pl' s' \<and> edf_choice (this_cpu s) nxt pl' s' \<and>
         resched_places (this_cpu s) (scheduled s (this_cpu s)) (on_sched (this_cpu s) is_running s \<and> migrate = None) nxt pl pl' \<and>
         (\<forall>n. nxt = Some n \<longrightarrow> get_partition (tasks s' n) = this_cpu s) \<and>
         (\<forall>x. pl x = Nowhere \<longrightarrow> scheduled s (this_cpu s) \<noteq> Some x \<longrightarrow> edf_ok (tasks s' x) = edf_ok (tasks s x)) \<and>
         (\<forall>t. migrate = Some t \<longrightarrow> scheduled s (this_cpu s) = Some t \<and> on_sched (this_cpu s) is_running s \<and> pl' t = Nowhere \<and>
            edf_ok (tasks s' t) \<and> get_partition (tasks s' t) \<noteq> this_cpu s \<and> (\<forall>c'. scheduled s' c' \<noteq> Some t))))"

lemma switched_locked_post:
  assumes "switched c pl1 s1 ns"
    "\<And>x. pl x = Nowhere \<Longrightarrow> scheduled s c \<noteq> Some x \<Longrightarrow> edf_ok (tasks s1 x) = edf_ok (tasks s x)"
    "c = this_cpu s" "scheduled s1 = scheduled s" "curr s1 = curr s" "this_cpu s1 = this_cpu s"
    "resched_places c (scheduled s c) (on_sched c is_running s \<and> migrate = None) (fst ns) pl (removed (fst ns) pl1)"
    "\<And>t. migrate = Some t \<Longrightarrow> scheduled s c = Some t \<and> on_sched c is_running s \<and> pl1 t = Nowhere \<and> edf_ok (tasks s1 t) \<and>
      get_partition (tasks s1 t) \<noteq> c \<and> (\<forall>c' \<noteq> c. scheduled s c' \<noteq> Some t)"
  shows "locked_post pl s (fst ns, migrate, set_scheduled c (fst ns) (snd ns))"
proof -
  have sw: "part_inv (removed (fst ns) pl1) (set_scheduled c (fst ns) (snd ns))"
    "edf_choice c (fst ns) (removed (fst ns) pl1) (set_scheduled c (fst ns) (snd ns))"
    "\<forall>n. fst ns = Some n \<longrightarrow> get_partition (tasks (snd ns) n) = c \<and> pl1 n = Ready c" "same_jobs s1 (snd ns)"
    "scheduled (snd ns) = scheduled s1" "this_cpu (snd ns) = this_cpu s1" "curr (snd ns) = curr s1"
    using assms(1) unfolding switched_def by blast+
  have view: "get_partition (tasks (snd ns) x) = get_partition (tasks s1 x)" "edf_ok (tasks (snd ns) x) = edf_ok (tasks s1 x)" for x
    using sw(4) jview_view(1,2) unfolding same_jobs_def by blast+
  have "scheduled s c = Some t \<and> on_sched c is_running s \<and> removed (fst ns) pl1 t = Nowhere \<and> edf_ok (tasks (snd ns) t) \<and>
    get_partition (tasks (snd ns) t) \<noteq> c \<and> (\<forall>c'. ((scheduled s)(c := fst ns)) c' \<noteq> Some t)" if "migrate = Some t" for t
    using assms(8) [OF that] sw(3) view by (auto simp: removed_def split: option.splits)
  then show ?thesis
    using sw assms(2-7) view unfolding locked_post_def prod.case
    by (intro conjI exI [of _ "removed (fst ns) pl1"]) auto
qed

context slice_plugin
begin

lemma semi_schedule_locked_ok:
  assumes inv: "part_inv pl s"
    and sched: "\<And>t. scheduled s (this_cpu s) = Some t \<Longrightarrow>
      prev = t \<and> (\<forall>b p. semi_completion ops b (tasks s t) = Some p \<longrightarrow> edf_ok p)"
  shows "ok (semi_schedule_locked ops prev now s) (locked_post pl s)"
proof -
  define c where "c = this_cpu s"
  obtain preempt s1 where pn: "edf_preemption_needed c (Some prev) s = (preempt, s1)" by fastforce
  note spec = edf_preemption_needed_spec(1-7) [OF part_invD(1) [OF inv] pn]
  have sched1: "scheduled s1 = scheduled s" by (rule scheduled_more [OF spec(4)])
  have p1: "part_inv pl s1" using spec(1,2) part_invD(2) [OF inv] sched1 by (simp add: part_inv_def sched_ok_def)
  show ?thesis
  proof (cases "scheduled s c")
    case None
    let ?t = "take_ready edf_ready_order c s1"
    have sw: "switched c pl s1 ?t"
      by (rule take_switched [OF spec(1) sched_ok_but_sched [OF part_invD(2) [OF p1]]])
    then have "resched_places c None b (fst ?t) pl (removed (fst ?t) pl)" for b
      by (intro resched_places_take) (simp_all add: switched_def)
    then have "locked_post pl s (fst ?t, None, set_scheduled c (fst ?t) (snd ?t))"
      using None by (intro switched_locked_post [OF sw]) (use sched1 spec(2,5,6) c_def in simp_all)
    then show ?thesis
      using None pn sched1 unfolding semi_schedule_locked_def c_def [symmetric]
      by (simp add: Let_def on_sched_def split_beta)
  next
    case (Some t)
    then have prev: "prev = t" and compl: "\<And>b p. semi_completion ops b (tasks s t) = Some p \<Longrightarrow> edf_ok p"
      using sched by (auto simp: c_def)
    note t = part_invD(4) [OF inv Some]
    have flag: "heap_node (rt_param (tasks s t))" "\<not> in_heap (rt_param (tasks s t))"
      using t part_invD(6) [OF inv] by (auto simp: edf_ok_def)
    define blocks where "blocks = (\<not> is_running (tasks s t))"
    define sleep where "sleep = (get_rt_flags (tasks s t) = RT_F_SLEEP)"
    define completes where "completes = (((budget_enforced (tasks s t) \<and> semi_budget_exhausted ops (tasks s t)) \<or> sleep) \<and> \<not> blocks)"
    obtain p0 where p0: "semi_completion ops sleep (tasks s t) = Some p0" using completion_ok [OF flag] by blast
    define p where "p = (if completes then p0 else tasks s t)"
    have p: "task_frame (tasks s t) p" "edf_ok p"
      using completion_frame [OF p0] compl [OF p0] t by (auto simp: p_def)
    define s3 where "s3 = upd_task t (\<lambda>_. p) s1"
    have s3: "scheduled s3 = scheduled s" "this_cpu s3 = this_cpu s" "curr s3 = curr s" "tasks s3 t = p"
      "\<And>x. x \<noteq> t \<Longrightarrow> tasks s3 x = tasks s x"
      using sched1 spec(2,5,6) by (auto simp: s3_def)
    have "queue_inv get_partition pl s3 \<and> sched_ok_but c pl s3 \<and> (\<forall>c' \<noteq> c. scheduled s c' \<noteq> Some t)"
      using part_inv_sched_upd [OF p1, of c t s3] Some sched1 spec(2) p(1) by (auto simp: s3_def task_frame_def)
    then have upd: "queue_inv get_partition pl s3" "sched_ok_but c pl s3" "\<And>c'. c' \<noteq> c \<Longrightarrow> scheduled s3 c' \<noteq> Some t"
      using s3(1) by auto
    have eq: "semi_schedule_locked ops prev now s = Option.bind
        (if preempt \<or> blocks \<or> get_partition (tasks s t) \<noteq> c \<or> completes
         then Option.bind (if \<not> blocks then if get_partition p = c
             then map_option (Pair None) (part_requeue semi_check_resched c t now s3)
             else Some (Some t, s3) else Some (None, s3))
           (\<lambda>(migrate, s). Some (fst (take_ready edf_ready_order c s), migrate, snd (take_ready edf_ready_order c s)))
         else Some (Some t, None, s3)) (\<lambda>(nxt, migrate, s). Some (nxt, migrate, set_scheduled c nxt s))"
    proof -
      have st: "on_sched c (\<lambda>t. get_partition t \<noteq> c) s = (get_partition (tasks s t) \<noteq> c)"
        "on_sched c (\<lambda>t. \<not> is_running t) s = blocks"
        "on_sched c (\<lambda>t. budget_enforced t \<and> semi_budget_exhausted ops t) s =
          (budget_enforced (tasks s t) \<and> semi_budget_exhausted ops (tasks s t))"
        "on_sched c (\<lambda>t. get_rt_flags t = RT_F_SLEEP) s = sleep"
        using Some by (simp_all add: on_sched_def blocks_def sleep_def)
      have "upd_task t (\<lambda>_. tasks s t) s1 = s1" using spec(2) by (simp add: upd_task_def)
      then have up: "(if completes then upd_sched_opt c (semi_completion ops sleep) s1 else Some s1) = Some s3"
        using Some sched1 p0 spec(2) by (simp add: upd_sched_opt_def s3_def p_def)
      show ?thesis
        unfolding semi_schedule_locked_def c_def [symmetric] Let_def st pn prod.case completes_def [symmetric] up
        using Some prev t s3(1,4) by (simp add: edf_ok_def split_beta)
    qed
    show ?thesis
    proof (cases "preempt \<or> blocks \<or> get_partition (tasks s t) \<noteq> c \<or> completes")
      case True
      have run: "on_sched c is_running s = (\<not> blocks)" using Some by (simp add: on_sched_def blocks_def)
      have take: "locked_post pl s (fst (take_ready edf_ready_order c s3), m,
          set_scheduled c (fst (take_ready edf_ready_order c s3)) (snd (take_ready edf_ready_order c s3)))"
        if "m = None \<and> blocks \<or> m = Some t \<and> \<not> blocks \<and> get_partition p \<noteq> c" for m
      proof (rule switched_locked_post [OF take_switched [OF upd(1,2)]])
        have "pl n = Ready c" if "fst (take_ready edf_ready_order c s3) = Some n" for n
          using take_switched [OF upd(1,2)] that by (simp add: switched_def)
        then show "resched_places c (scheduled s c) (on_sched c is_running s \<and> m = None) (fst (take_ready edf_ready_order c s3)) pl
            (removed (fst (take_ready edf_ready_order c s3)) pl)"
          using that run t Some by (intro resched_places_take) auto
      qed (use that t p s3 upd(3) c_def Some run in auto)
      have "ok (part_requeue semi_check_resched c t now s3) (\<lambda>s'. locked_post pl s (fst (take_ready edf_ready_order c s'), None,
          set_scheduled c (fst (take_ready edf_ready_order c s')) (snd (take_ready edf_ready_order c s'))))"
        if "get_partition p = c" "\<not> blocks"
      proof (rule ok_mono [OF semi.requeue_switched [OF upd(1,2)]], goal_cases)
        case (5 s')
        then obtain q where q: "q \<noteq> Nowhere"
          "switched c (pl(t := q)) (upd_task t (set_rt_flags RT_F_RUNNING) s3) (take_ready edf_ready_order c s')" by blast
        have "resched_places c (scheduled s c) (on_sched c is_running s \<and> None = None) (fst (take_ready edf_ready_order c s')) pl
            (removed (fst (take_ready edf_ready_order c s')) (pl(t := q)))"
          unfolding Some by (rule resched_places_requeue) (use q that(2) run in \<open>auto simp: switched_def\<close>)
        then show ?case by (intro switched_locked_post [OF q(2)]) (use s3 upd(3) c_def Some in auto)
      qed (use that t p s3 upd(3) in auto)
      then show ?thesis
        unfolding eq if_P [OF True] using take
        by (cases "part_requeue semi_check_resched c t now s3") auto
    next
      case False
      have "s3 = s1" using False spec(2) by (simp add: s3_def p_def upd_task_def)
      moreover have ord: "edf_ready_order s1 = edf_ready_order s"
        using same_tasks_order [of s s1] spec(2) by (simp add: same_tasks_def)
      moreover have "edf_choice c (Some t) pl (set_scheduled c (Some t) s1)"
        using pn prev False t spec(2) ord by (intro edf_choice_keep_sched [OF part_invD(1) [OF inv], of c t s1]) simp_all
      moreover have "part_inv pl (set_scheduled c (Some t) s3)"
        using part_inv_set_scheduled [OF upd(1,2), of "Some t"] upd(3) t p s3(4) by auto
      ultimately show ?thesis
        unfolding eq if_not_P [OF False] locked_post_def c_def [symmetric]
        using False s3 c_def spec(2) Some resched_places_keep by auto
    qed
  qed
qed

end

text \<open>After the lock has been dropped, the task that migrates joins the queue of its new CPU.\<close>

lemma migrate_ok:
  assumes "part_inv pl s" "pl t = Nowhere" "edf_ok (tasks s t)" "get_partition (tasks s t) \<noteq> c"
    "\<And>c'. scheduled s c' \<noteq> Some t" "edf_choice c nxt pl s"
  shows "ok (part_requeue_remote semi_check_resched t now s) (\<lambda>s'. \<exists>p. part_inv (pl(t := p)) s' \<and> p \<noteq> Nowhere \<and>
    edf_choice c nxt (pl(t := p)) s' \<and> scheduled s' = scheduled s \<and> curr s' = curr s \<and>
    (\<forall>x. get_partition (tasks s' x) = get_partition (tasks s x) \<and> edf_ok (tasks s' x) = edf_ok (tasks s x)))"
proof (rule ok_mono [OF semi_requeue_ok(2) [OF assms(1-3) refl assms(5)]], elim exE conjE)
  fix s' p
  assume s': "part_inv (pl(t := p)) s'" "\<forall>d'. d' \<noteq> get_partition (tasks s t) \<longrightarrow> p \<noteq> Ready d'"
    "scheduled s' = scheduled s" "edf_ready_order s' = edf_ready_order s" "curr s' = curr s" "p \<noteq> Nowhere"
    "\<forall>x. get_partition (tasks s' x) = get_partition (tasks s x) \<and> edf_ok (tasks s' x) = edf_ok (tasks s x)"
  have "edf_choice c nxt (pl(t := p)) s'"
    using assms(4,6) s'(2,4) unfolding edf_choice_def by (auto split: option.splits)
  then show "\<exists>p. part_inv (pl(t := p)) s' \<and> p \<noteq> Nowhere \<and> edf_choice c nxt (pl(t := p)) s' \<and> scheduled s' = scheduled s \<and>
      curr s' = curr s \<and> (\<forall>x. get_partition (tasks s' x) = get_partition (tasks s x) \<and> edf_ok (tasks s' x) = edf_ok (tasks s x))"
    using s' by blast
qed

text \<open>Preemption requests and updates of a task that is in no queue.\<close>

lemma semi_preempt_inv:
  "part_inv pl s \<Longrightarrow> part_inv pl (semi_preempt c s)" "scheduled (semi_preempt c s) = scheduled s"
  "curr (semi_preempt c s) = curr s" "edf_ok (tasks (semi_preempt c s) x) = edf_ok (tasks s x)"
proof -
  show "part_inv pl s \<Longrightarrow> part_inv pl (semi_preempt c s)"
    unfolding semi_preempt_def by (erule part_inv_same) simp_all
  show "scheduled (semi_preempt c s) = scheduled s" "curr (semi_preempt c s) = curr s"
    by (simp_all add: semi_preempt_def)
  have "tview (tasks (semi_preempt c s) x) = tview (tasks s x)"
    using preempt_frame(1) [of s None c] by (simp add: semi_preempt_def same_tasks_def)
  then show "edf_ok (tasks (semi_preempt c s) x) = edf_ok (tasks s x)" by (rule tview_view(3))
qed

text \<open>Tasks in no queue other than \<open>t\<close> stay there and stay as they are.\<close>

definition others :: "tid \<Rightarrow> (tid \<Rightarrow> place) \<Rightarrow> 'z kstate_scheme \<Rightarrow> (tid \<Rightarrow> place) \<Rightarrow> 'z kstate_scheme \<Rightarrow> bool" where
  "others t pl s pl' s' \<longleftrightarrow>
     (\<forall>x. x \<noteq> t \<longrightarrow> pl x = Nowhere \<longrightarrow> pl' x = Nowhere \<and> edf_ok (tasks s' x) = edf_ok (tasks s x))"

lemma requeued_others:
  assumes "part_inv (pl(t := p)) s'" "\<And>x. edf_ok (tasks s' x) = edf_ok (tasks s1 x)"
    "\<And>x. x \<noteq> t \<Longrightarrow> tasks s1 x = tasks s x"
  shows "\<exists>pl'. part_inv pl' s' \<and> others t pl s pl' s'"
  using assms by (intro exI [of _ "pl(t := p)"]) (auto simp: others_def)

lemma semi_task_exit_ok:
  assumes "part_inv pl s" "heap_node (rt_param (tasks s t))" "pl t = Nowhere \<or> pl t = Ready (get_partition (tasks s t))"
  shows "ok (semi_task_exit t s) (\<lambda>s'. (\<exists>pl'. part_inv pl' s' \<and> pl' t = Nowhere \<and> others t pl s pl' s') \<and> curr s' = curr s \<and>
    scheduled s' = (scheduled s)(get_partition (tasks s t) :=
      if scheduled s (get_partition (tasks s t)) = Some t then None else scheduled s (get_partition (tasks s t))))"
proof -
  let ?c = "get_partition (tasks s t)"
  have "ok (if in_heap (rt_param (tasks s t)) then remove_rt edf_ready_order ?c t s else Some s)
    (\<lambda>s'. part_inv (pl(t := Nowhere)) s' \<and> others t pl s (pl(t := Nowhere)) s' \<and> curr s' = curr s \<and> scheduled s' = scheduled s)"
    by (rule ok_mono [OF part_dequeue_ok [OF assms(1,3)]]) (auto simp: others_def dest: jview_view(2))
  moreover have "part_inv (pl(t := Nowhere)) (s'\<lparr>scheduled := (scheduled s)(?c := None)\<rparr>)"
    if "part_inv (pl(t := Nowhere)) s'" "scheduled s' = scheduled s" for s' :: "'a pstate_scheme"
    using part_inv_clear [OF that(1), of ?c] that(2) by simp
  ultimately show ?thesis
    using assms(2)
    by (simp add: semi_task_exit_def is_queued_def Let_def ok_bind)
      (auto elim!: ok_mono intro!: exI [of _ "pl(t := Nowhere)"] semi_preempt_inv(1)
        simp: fun_upd_idem semi_preempt_inv others_def)
qed

lemma semi_task_block_ok:
  assumes "part_inv pl s" "edf_ok (tasks s t)" "pl t = Nowhere"
  shows "ok (semi_task_block t now s) (\<lambda>s'. part_inv pl s' \<and> others t pl s pl s' \<and> curr s' = curr s \<and> scheduled s' = scheduled s \<and>
    edf_ok (tasks s' t))"
proof -
  let ?p = "upd_semi (\<lambda>u. u\<lparr>sp1 := now\<rparr>) (tasks s t)"
  have "\<not> in_heap (rt_param (tasks s t))" "heap_node (rt_param (tasks s t))" "is_realtime (tasks s t)"
    using part_invD(6) [OF assms(1), of t] assms(2,3) by (auto simp: edf_ok_def)
  moreover have "edf_ok ?p" using assms(2) by (simp add: edf_ok_def rt_simps)
  moreover from this have "part_inv pl (upd_task t (\<lambda>_. ?p) s)"
    by (intro part_inv_upd_free [OF assms(1,3)]) (simp_all add: rt_simps)
  ultimately show ?thesis
    by (simp add: semi_task_block_def is_queued_def upd_task_def others_def rt_simps)
qed

context slice_plugin
begin

lemma semi_schedule_ok:
  assumes "part_inv pl s"
    and "\<And>t. scheduled s (this_cpu s) = Some t \<Longrightarrow>
      prev = t \<and> (\<forall>b p. semi_completion ops b (tasks s t) = Some p \<longrightarrow> edf_ok p)"
  shows "ok (semi_schedule ops prev now s) (\<lambda>(nxt, s'). scheduled s' = (scheduled s)(this_cpu s := nxt) \<and> curr s' = curr s \<and>
    (\<exists>pl'. part_inv pl' s' \<and> edf_choice (this_cpu s) nxt pl' s' \<and>
      resched_places (this_cpu s) (scheduled s (this_cpu s)) (on_sched (this_cpu s) is_running s) nxt pl pl' \<and>
      (\<forall>n. nxt = Some n \<longrightarrow> get_partition (tasks s' n) = this_cpu s)))"
  unfolding semi_schedule_def ok_bind
proof (rule ok_mono [OF semi_schedule_locked_ok [OF assms(1)]], fact assms(2), goal_cases)
  case (1 r)
  obtain nxt m s1 where r: "r = (nxt, m, s1)" by (cases r) auto
  let ?c = "this_cpu s"
  obtain pl' where pl': "part_inv pl' s1" "edf_choice ?c nxt pl' s1"
    "resched_places ?c (scheduled s ?c) (on_sched ?c is_running s \<and> m = None) nxt pl pl'"
    "\<forall>n. nxt = Some n \<longrightarrow> get_partition (tasks s1 n) = ?c"
    "\<forall>t. m = Some t \<longrightarrow> scheduled s ?c = Some t \<and> on_sched ?c is_running s \<and> pl' t = Nowhere \<and> edf_ok (tasks s1 t) \<and>
      get_partition (tasks s1 t) \<noteq> ?c \<and> (\<forall>c'. scheduled s1 c' \<noteq> Some t)"
    and s1: "scheduled s1 = (scheduled s)(?c := nxt)" "curr s1 = curr s"
    using 1 unfolding locked_post_def r by auto
  show ?case
  proof (cases m)
    case None
    then show ?thesis using r pl' s1 by auto
  next
    case (Some t)
    have mig: "scheduled s ?c = Some t" "on_sched ?c is_running s" "pl' t = Nowhere" "edf_ok (tasks s1 t)"
      "get_partition (tasks s1 t) \<noteq> ?c" "\<And>c'. scheduled s1 c' \<noteq> Some t"
      using pl'(5) Some by blast+
    have places: "resched_places ?c (scheduled s ?c) (on_sched ?c is_running s) nxt pl (pl'(t := p))" if "p \<noteq> Nowhere" for p
      using pl'(3) mig(1,2) that unfolding resched_places_def by auto
    show ?thesis
      using migrate_ok [OF pl'(1) mig(3-6) pl'(2), of now] r Some pl'(4) s1
      by (auto simp: ok_bind elim!: ok_mono intro!: exI dest: places)
  qed
qed

lemma semi_task_new_ok:
  assumes "part_inv pl s" "pl t = Nowhere" "\<And>c. scheduled s c \<noteq> Some t"
    "edf_ok (release_at now (tasks s t))" "edf_ok (start_job ops (release_at now (tasks s t)))"
    "get_partition (start_job ops (release_at now (tasks s t))) = get_partition (tasks s t)"
    "running \<Longrightarrow> scheduled s (get_partition (tasks s t)) = None"
  shows "ok (semi_task_new ops t running now now' s) (\<lambda>s'. (\<exists>pl'. part_inv pl' s' \<and> others t pl s pl' s') \<and>
    curr s' = curr s \<and> scheduled s' = (if running then (scheduled s)(get_partition (tasks s t) := Some t) else scheduled s))"
proof -
  let ?c = "get_partition (tasks s t)"
  define p where "p = (if is_sliced ops (release_at now (tasks s t)) then start_job ops (release_at now (tasks s t))
    else release_at now (tasks s t))"
  define s1 where "s1 = upd_task t (\<lambda>_. p) s"
  have "task_frame (tasks s t) (start_job ops (release_at now (tasks s t)))"
    using task_frame_trans [OF task_frame_job(1) start_frame] .
  then have p: "task_frame (tasks s t) p" "edf_ok p" "get_partition p = ?c"
    using assms(4-6) by (auto simp: p_def) (simp add: release_at_def prepare_for_next_period_def rt_simps)
  have inv: "part_inv pl s1"
    unfolding s1_def using p(1) assms(3) by (intro part_inv_upd_free [OF assms(1,2)]) (auto simp: task_frame_def)
  have eq: "semi_task_new ops t running now now' s = (if running then do {
        BUG_ON (scheduled s1 ?c \<noteq> None);
        Some (s1\<lparr>scheduled := (scheduled s1)(?c := Some t)\<rparr>)
      } else do {
        s \<leftarrow> part_requeue semi_check_resched ?c t now' s1;
        Some (semi_preempt ?c s)
      })"
    by (simp add: semi_task_new_def Let_def s1_def p_def upd_task_def)
  have s1: "scheduled s1 = scheduled s" "curr s1 = curr s" "tasks s1 t = p" "\<And>x. x \<noteq> t \<Longrightarrow> tasks s1 x = tasks s x"
    by (simp_all add: s1_def)
  show ?thesis
  proof (cases running)
    case True
    have "part_inv pl (s1\<lparr>scheduled := (scheduled s1)(?c := Some t)\<rparr>)"
      using inv assms(2,3) p(2) s1 unfolding part_inv_def sched_ok_def by auto
    then show ?thesis using True assms(7) s1 unfolding eq by (auto simp: others_def)
  next
    case False
    have "ok (part_requeue semi_check_resched ?c t now' s1) (\<lambda>s'. (\<exists>pl'. part_inv pl' s' \<and> others t pl s pl' s') \<and>
        curr s' = curr s \<and> scheduled s' = scheduled s)"
      by (rule ok_mono [OF semi_requeue_ok(1) [OF inv assms(2)]])
        (use assms(3) p s1 in \<open>auto intro: requeued_others\<close>)
    then show ?thesis
      unfolding eq using False
      by (auto simp: ok_bind semi_preempt_inv others_def elim!: ok_mono intro: semi_preempt_inv(1))
  qed
qed

lemma semi_task_wake_up_ok:
  assumes "part_inv pl s" "pl t = Nowhere" "edf_ok (tasks s t)" "semi_wake_task ops now (tasks s t) = Some p" "edf_ok p"
    "\<And>c. scheduled s c = Some t \<Longrightarrow> c = get_partition (tasks s t)"
  shows "ok (semi_task_wake_up ops t now now' s) (\<lambda>s'. (\<exists>pl'. part_inv pl' s' \<and> others t pl s pl' s') \<and>
    curr s' = curr s \<and> scheduled s' = scheduled s)"
proof -
  let ?c = "get_partition (tasks s t)"
  define s1 where "s1 = upd_task t (\<lambda>_. p) s"
  have flag: "\<not> in_heap (rt_param (tasks s t))" "heap_node (rt_param (tasks s t))"
    using part_invD(6) [OF assms(1), of t] assms(2,3) by (auto simp: edf_ok_def)
  have frame: "task_frame (tasks s t) p" by (rule wake_task_frame [OF assms(4) flag(2,1)])
  have inv: "part_inv pl s1"
    unfolding s1_def using frame assms(5) by (intro part_inv_upd_free [OF assms(1,2)]) (auto simp: task_frame_def)
  have s1: "scheduled s1 = scheduled s" "curr s1 = curr s" "tasks s1 t = p" "\<And>x. x \<noteq> t \<Longrightarrow> tasks s1 x = tasks s x"
    by (simp_all add: s1_def)
  have eq: "semi_task_wake_up ops t now now' s = (if scheduled s ?c \<noteq> Some t
      then if get_partition p = ?c then part_requeue semi_check_resched ?c t now' s1
           else part_requeue_remote semi_check_resched t now' s1
      else Some s1)"
    using flag assms(4) by (simp add: semi_task_wake_up_def is_queued_def Let_def s1_def)
  show ?thesis
  proof (cases "scheduled s ?c = Some t")
    case True
    then show ?thesis using inv s1 unfolding eq by (auto simp: others_def)
  next
    case False
    then have free: "\<And>c'. scheduled s1 c' \<noteq> Some t" using assms(6) s1(1) by metis
    have "ok (part_requeue semi_check_resched ?c t now' s1) (\<lambda>s'. (\<exists>pl'. part_inv pl' s' \<and> others t pl s pl' s') \<and>
        curr s' = curr s \<and> scheduled s' = scheduled s)" if "get_partition p = ?c"
      by (rule ok_mono [OF semi_requeue_ok(1) [OF inv assms(2) _ _ free]])
        (use assms(5) that s1 in \<open>auto intro: requeued_others\<close>)
    moreover have "ok (part_requeue_remote semi_check_resched t now' s1) (\<lambda>s'. (\<exists>pl'. part_inv pl' s' \<and> others t pl s pl' s') \<and>
        curr s' = curr s \<and> scheduled s' = scheduled s)"
      by (rule ok_mono [OF semi_requeue_ok(2) [OF inv assms(2) _ refl free]])
        (use assms(5) s1 in \<open>auto intro: requeued_others\<close>)
    ultimately show ?thesis unfolding eq using False by simp
  qed
qed

end

end
