(* ===== verification/Semi_Machine.thy ===== *)
theory Semi_Machine
  imports Semi_Partitioned
begin

text \<open>
  EDF-WM, C=D and HIME as state machines, over their slice operations. A scheduling decision is two
  steps: the part under the lock of the CPU, and the migration of the task that the CPU gives up,
  which happens after the lock has been dropped. Calls on other CPUs may come in between. The state
  has, beside the kernel state, the task that each CPU is about to migrate. The context switch is
  done with the first step; the rest of the handler does not read the current task of its CPU.
\<close>

type_synonym semi_state = "pstate \<times> (cpu_id \<Rightarrow> tid option)"

datatype semi_call =
    ScheduleLocked cpu_id lt_t tid
  | Migrate cpu_id lt_t
  | ReleaseTimerOn cpu_id tid
  | NewTask cpu_id tid bool lt_t lt_t
  | Wake cpu_id tid lt_t lt_t
  | Suspend cpu_id tid lt_t
  | Die cpu_id tid
  | TickOn cpu_id
  | LinuxTask tid "task_struct \<Rightarrow> task_struct"

fun semi_exec :: "slice_ops \<Rightarrow> semi_call \<Rightarrow> semi_state \<Rightarrow> semi_state option" where
  "semi_exec ops (ScheduleLocked c now idle) (s, m) =
     map_option (\<lambda>(nxt, migrate, s'). (switch_to c idle (nxt, s'), m(c := migrate)))
       (semi_schedule_locked ops (curr s c) now (s\<lparr>this_cpu := c\<rparr>))"
| "semi_exec ops (Migrate c now) (s, m) =
     (case m c of
        None \<Rightarrow> Some (s, m)
      | Some t \<Rightarrow> map_option (\<lambda>s'. (s', m(c := None)))
          (part_requeue_remote semi_check_resched t now (s\<lparr>this_cpu := c\<rparr>)))"
| "semi_exec ops (ReleaseTimerOn c r) (s, m) =
     Some (on_release_timer (default_release_jobs edf_ready_order semi_check_resched) r (s\<lparr>this_cpu := c\<rparr>), m)"
| "semi_exec ops (NewTask c t running now now') (s, m) =
     map_option (\<lambda>s'. (s', m)) (semi_task_new ops t running now now' (s\<lparr>this_cpu := c\<rparr>))"
| "semi_exec ops (Wake c t now now') (s, m) =
     map_option (\<lambda>s'. (s', m)) (semi_task_wake_up ops t now now' (s\<lparr>this_cpu := c\<rparr>))"
| "semi_exec ops (Suspend c t now) (s, m) = map_option (\<lambda>s'. (s', m)) (semi_task_block t now (s\<lparr>this_cpu := c\<rparr>))"
| "semi_exec ops (Die c t) (s, m) = map_option (\<lambda>s'. (s', m)) (semi_task_exit t (s\<lparr>this_cpu := c\<rparr>))"
| "semi_exec ops (TickOn c) (s, m) = map_option (\<lambda>s'. (s', m)) (semi_tick ops (curr s c) (s\<lparr>this_cpu := c\<rparr>))"
| "semi_exec ops (LinuxTask t f) (s, m) = Some (upd_task t f s, m)"

text \<open>
  When Linux makes a call: a CPU finishes a migration before it schedules again; tasks in no queue
  that do not migrate are created or woken up; a task that is still scheduled when it is woken up
  is on its own CPU; the tick finds the task that the plugin has scheduled; and the time stamps of
  the next job stay below \<open>2 ^ 63\<close> nanoseconds. A wake-up supposes that the accounting of the slices
  goes through, which the theories of the plugins settle.
\<close>

fun semi_enabled :: "slice_ops \<Rightarrow> semi_call \<Rightarrow> semi_state \<Rightarrow> bool" where
  "semi_enabled ops (ScheduleLocked c now idle) (s, m) =
     (m c = None \<and>
      (case scheduled s c of
         None \<Rightarrow> True
       | Some t \<Rightarrow> \<forall>b. case semi_completion ops b (tasks s t) of None \<Rightarrow> True | Some p \<Rightarrow> edf_ok p))"
| "semi_enabled ops (Migrate c now) (s, m) = True"
| "semi_enabled ops (ReleaseTimerOn c r) (s, m) = (rh_timer (rel_heaps s r) \<noteq> None)"
| "semi_enabled ops (NewTask c t running now now') (s, m) =
     (\<not> in_heap (rt_param (tasks s t)) \<and> (\<forall>c'. scheduled s c' \<noteq> Some t \<and> m c' \<noteq> Some t) \<and>
      edf_ok (release_at now (tasks s t)) \<and> edf_ok (start_job ops (release_at now (tasks s t))) \<and>
      get_partition (start_job ops (release_at now (tasks s t))) = get_partition (tasks s t) \<and>
      (running \<longrightarrow> scheduled s (get_partition (tasks s t)) = None \<and> curr s (get_partition (tasks s t)) = t))"
| "semi_enabled ops (Wake c t now now') (s, m) =
     (\<not> in_heap (rt_param (tasks s t)) \<and> (\<forall>c'. m c' \<noteq> Some t) \<and> edf_ok (tasks s t) \<and>
      (\<forall>c'. scheduled s c' = Some t \<longrightarrow> c' = get_partition (tasks s t)) \<and>
      (case semi_wake_task ops now (tasks s t) of None \<Rightarrow> False | Some p \<Rightarrow> edf_ok p))"
| "semi_enabled ops (Suspend c t now) (s, m) = (edf_ok (tasks s t) \<and> \<not> in_heap (rt_param (tasks s t)))"
| "semi_enabled ops (Die c t) (s, m) =
     (heap_node (rt_param (tasks s t)) \<and> (\<forall>r. t \<notin># waiting_of s r) \<and> (\<forall>c'. m c' \<noteq> Some t))"
| "semi_enabled ops (TickOn c) (s, m) = (is_realtime (tasks s (curr s c)) \<longrightarrow> scheduled s c = Some (curr s c))"
| "semi_enabled ops (LinuxTask t f) (s, m) =
     (qview (f (tasks s t)) = qview (tasks s t) \<and> get_partition (f (tasks s t)) = get_partition (tasks s t))"

definition semi_init :: "semi_state \<Rightarrow> bool" where
  "semi_init sm \<longleftrightarrow> part_init (fst sm) \<and> snd sm = (\<lambda>_. None)"

text \<open>
  The invariant: that of the queues, and every task that is about to migrate is in no queue, on no
  CPU and migrated by one CPU only.
\<close>

definition migrating_ok :: "(tid \<Rightarrow> place) \<Rightarrow> semi_state \<Rightarrow> bool" where
  "migrating_ok pl sm \<longleftrightarrow>
     (\<forall>c t. snd sm c = Some t \<longrightarrow> pl t = Nowhere \<and> edf_ok (tasks (fst sm) t) \<and>
        (\<forall>c'. scheduled (fst sm) c' \<noteq> Some t) \<and> (\<forall>c'. snd sm c' = Some t \<longrightarrow> c' = c))"

definition semi_safe :: "semi_state \<Rightarrow> bool" where
  "semi_safe sm \<longleftrightarrow>
     (\<exists>pl. part_inv pl (fst sm) \<and> migrating_ok pl sm) \<and>
     (\<forall>c t. scheduled (fst sm) c = Some t \<longrightarrow> curr (fst sm) c = t)"

lemma semi_init_safe: "semi_init sm \<Longrightarrow> semi_safe sm"
  using part_init_inv [of "fst sm"] by (auto simp: semi_init_def semi_safe_def migrating_ok_def part_init_def)

lemma semi_safeI:
  assumes "migrating_ok pl (s, m)" "part_inv pl' s'" "others t pl s pl' s'"
    "\<And>c. m c = Some t \<Longrightarrow> pl' t = Nowhere \<and> edf_ok (tasks s' t)"
    "\<And>c x. scheduled s' c = Some x \<Longrightarrow> curr s' c = x \<and> (\<forall>c'. m c' \<noteq> Some x)"
  shows "semi_safe (s', m)"
proof -
  have "pl' x = Nowhere \<and> edf_ok (tasks s' x)" if "m c = Some x" for c x
    using that assms(1,3,4) unfolding migrating_ok_def others_def by (cases "x = t") auto
  moreover have "scheduled s' c' \<noteq> Some x" if "m c = Some x" for c c' x
    using that assms(5) by blast
  ultimately have "migrating_ok pl' (s', m)"
    using assms(1) unfolding migrating_ok_def by simp
  then show ?thesis using assms(2,5) unfolding semi_safe_def by auto
qed

lemma semi_safeE:
  assumes "semi_safe (s, m)"
  obtains pl where "part_inv pl s" "migrating_ok pl (s, m)" "\<And>c t. scheduled s c = Some t \<Longrightarrow> curr s c = t \<and> (\<forall>c'. m c' \<noteq> Some t)"
    "\<And>t. \<not> in_heap (rt_param (tasks s t)) \<Longrightarrow> pl t = Nowhere"
proof -
  obtain pl where inv: "part_inv pl s" "migrating_ok pl (s, m)" and cur: "\<And>c t. scheduled s c = Some t \<Longrightarrow> curr s c = t"
    using assms by (auto simp: semi_safe_def)
  show thesis
  proof (rule that [OF inv])
    show "curr s c = t \<and> (\<forall>c'. m c' \<noteq> Some t)" if "scheduled s c = Some t" for c t
      using that inv(2) cur unfolding migrating_ok_def by auto
    show "pl t = Nowhere" if "\<not> in_heap (rt_param (tasks s t))" for t
      using that part_invD(6) [OF inv(1)] by blast
  qed
qed

lemma migrating_okD:
  assumes "migrating_ok pl (s, m)" "m c = Some t"
  shows "pl t = Nowhere" "edf_ok (tasks s t)" "scheduled s c' \<noteq> Some t" "m c' = Some t \<Longrightarrow> c' = c"
  using assms unfolding migrating_ok_def by auto

text \<open>Updates that the queues do not depend on.\<close>

lemma semi_safe_frame:
  assumes "semi_safe (s, m)" "\<And>pl. part_inv pl s \<Longrightarrow> part_inv pl s'" "\<And>x. edf_ok (tasks s' x) = edf_ok (tasks s x)"
    "scheduled s' = scheduled s" "curr s' = curr s"
  shows "semi_safe (s', m)"
  using assms(1)
proof (rule semi_safeE)
  fix pl
  assume pl: "part_inv pl s" "migrating_ok pl (s, m)"
    "\<And>c t. scheduled s c = Some t \<Longrightarrow> curr s c = t \<and> (\<forall>c'. m c' \<noteq> Some t)"
  show ?thesis
    by (rule semi_safeI [OF pl(2) assms(2) [OF pl(1)], of undefined])
      (use assms(3-5) pl migrating_okD(1,2) [OF pl(2)] in \<open>auto simp: others_def\<close>)
qed

lemma release_timer_safe:
  assumes "semi_safe (s, m)" "rh_timer (rel_heaps s r) \<noteq> None"
  shows "semi_safe (on_release_timer (default_release_jobs edf_ready_order semi_check_resched) r (s\<lparr>this_cpu := c\<rparr>), m)"
  using assms(1)
proof (rule semi_safeE)
  fix pl
  assume pl: "part_inv pl s" "migrating_ok pl (s, m)"
    "\<And>c t. scheduled s c = Some t \<Longrightarrow> curr s c = t \<and> (\<forall>c'. m c' \<noteq> Some t)"
  let ?pl = "\<lambda>x. if pl x = Waiting r then Ready (rh_dom (rel_heaps (s\<lparr>this_cpu := c\<rparr>) r)) else pl x"
  let ?s' = "on_release_timer (default_release_jobs edf_ready_order semi_check_resched) r (s\<lparr>this_cpu := c\<rparr>)"
  have inv': "part_inv pl (s\<lparr>this_cpu := c\<rparr>)" "rh_timer (rel_heaps (s\<lparr>this_cpu := c\<rparr>) r) \<noteq> None"
    using pl(1) assms(2) by simp_all
  note t = semi.release_timer_part_inv [OF inv']
  have view: "tview (tasks ?s' x) = tview (tasks s x)" for x using t(3) by (simp add: same_tasks_def)
  show ?thesis
    by (rule semi_safeI [OF pl(2) t(1), of r])
      (use pl t(2,4,5) migrating_okD(1) [OF pl(2)] in \<open>auto simp: others_def tview_view [OF view]\<close>)
qed

lemma tick_safe:
  assumes "semi_safe (s, m)" "is_realtime (tasks s (curr s c)) \<Longrightarrow> scheduled s c = Some (curr s c)"
  shows "ok (semi_tick ops (curr s c) (s\<lparr>this_cpu := c\<rparr>)) (\<lambda>s'. semi_safe (s', m))"
proof -
  let ?s = "s\<lparr>this_cpu := c\<rparr>"
  have "semi_safe (set_tsk_need_resched t ?s, m)" for t
  proof (rule semi_safe_frame [OF assms(1)])
    have "tview (tasks (set_tsk_need_resched t ?s) x) = tview (tasks s x)" for x
      by (simp add: set_tsk_need_resched_def)
    then show "edf_ok (tasks (set_tsk_need_resched t ?s) x) = edf_ok (tasks s x)" for x by (rule tview_view(3))
    show "part_inv pl (set_tsk_need_resched t ?s)" if "part_inv pl s" for pl
      unfolding set_tsk_need_resched_def by (rule part_inv_request(1)) (use that in simp_all)
  qed (simp_all add: set_tsk_need_resched_def)
  moreover have "semi_safe (?s, m)"
    by (rule semi_safe_frame [OF assms(1)]) simp_all
  ultimately show ?thesis using assms(2) by (auto simp: semi_tick_def ok_bind)
qed

context slice_plugin
begin

lemma schedule_locked_safe:
  assumes "semi_safe (s, m)" "semi_enabled ops (ScheduleLocked c now idle) (s, m)"
  shows "ok (semi_exec ops (ScheduleLocked c now idle) (s, m)) semi_safe"
  using assms(1)
proof (rule semi_safeE)
  fix pl
  assume pl: "part_inv pl s" "migrating_ok pl (s, m)"
    "\<And>c t. scheduled s c = Some t \<Longrightarrow> curr s c = t \<and> (\<forall>c'. m c' \<noteq> Some t)"
  let ?s = "s\<lparr>this_cpu := c\<rparr>"
  have "ok (semi_schedule_locked ops (curr s c) now ?s) (locked_post pl ?s)"
    by (rule semi_schedule_locked_ok) (use pl assms(2) in \<open>fastforce split: option.splits\<close>)+
  then obtain nxt mg s' where ex: "semi_schedule_locked ops (curr s c) now ?s = Some (nxt, mg, s')"
    and post: "locked_post pl ?s (nxt, mg, s')" by (rule okE) (metis prod_cases3)
  then obtain pl' where pl': "part_inv pl' s'"
    "resched_places c (scheduled s c) (on_sched c is_running ?s \<and> mg = None) nxt pl pl'"
    "\<forall>x. pl x = Nowhere \<longrightarrow> scheduled s c \<noteq> Some x \<longrightarrow> edf_ok (tasks s' x) = edf_ok (tasks s x)"
    "\<forall>t. mg = Some t \<longrightarrow> scheduled s c = Some t \<and> pl' t = Nowhere \<and> edf_ok (tasks s' t) \<and> (\<forall>c'. scheduled s' c' \<noteq> Some t)"
    and s': "scheduled s' = (scheduled s)(c := nxt)" "curr s' = curr s"
    unfolding locked_post_def by auto
  let ?t = "switch_to c idle (nxt, s')"
  have t: "scheduled ?t = scheduled s'" "tasks ?t = tasks s'" "part_inv pl' ?t" "curr ?t = (curr s)(c := case nxt of Some n \<Rightarrow> n | None \<Rightarrow> idle)"
    using pl'(1) s'(2) by (simp_all add: switch_to_def)
  have old: "pl' x = Nowhere \<and> edf_ok (tasks s' x) \<and> (\<forall>c''. scheduled s' c'' \<noteq> Some x) \<and> scheduled s c \<noteq> Some x"
    if "m c' = Some x" for c' x
    using resched_placesD [OF pl'(2)] pl'(3) s'(1) migrating_okD(1-3) [OF pl(2) that] by auto
  have "migrating_ok pl' (?t, m(c := mg))"
    unfolding migrating_ok_def fst_conv snd_conv t
  proof (intro allI impI)
    fix c1 x
    assume x: "(m(c := mg)) c1 = Some x"
    show "pl' x = Nowhere \<and> edf_ok (tasks s' x) \<and> (\<forall>c'. scheduled s' c' \<noteq> Some x) \<and>
        (\<forall>c'. (m(c := mg)) c' = Some x \<longrightarrow> c' = c1)"
    proof (cases "c1 = c")
      case True
      then show ?thesis using x pl'(4) old by auto
    next
      case False
      then have "m c1 = Some x" using x by simp
      moreover have "mg \<noteq> Some x" using old [OF \<open>m c1 = Some x\<close>] pl'(4) by blast
      ultimately show ?thesis using old migrating_okD(4) [OF pl(2)] False by auto
    qed
  qed
  moreover have "curr ?t c' = x" if "scheduled ?t c' = Some x" for c' x
    using that s' t(1,4) pl(3) by (auto split: if_splits)
  ultimately show ?thesis using ex t(3) unfolding semi_safe_def by auto
qed

lemma migrate_safe:
  assumes "semi_safe (s, m)"
  shows "ok (semi_exec ops (Migrate c now) (s, m)) semi_safe"
proof (cases "m c")
  case None
  then show ?thesis using assms by simp
next
  case (Some t)
  from assms show ?thesis
  proof (rule semi_safeE)
    fix pl
    assume pl: "part_inv pl s" "migrating_ok pl (s, m)"
      "\<And>c t. scheduled s c = Some t \<Longrightarrow> curr s c = t \<and> (\<forall>c'. m c' \<noteq> Some t)"
    let ?s = "s\<lparr>this_cpu := c\<rparr>" and ?m = "m(c := None)"
    note t = migrating_okD [OF pl(2) Some]
    have m: "migrating_ok pl (s, ?m)" using pl(2) unfolding migrating_ok_def by simp
    have "ok (part_requeue_remote semi_check_resched t now ?s) (\<lambda>s'. semi_safe (s', ?m))"
    proof (rule ok_mono [OF semi_requeue_ok(2) [of pl ?s t, OF _ _ _ refl]])
      fix s' :: pstate
      assume "\<exists>p. part_inv (pl(t := p)) s' \<and> p \<noteq> Nowhere \<and> (\<forall>d'. d' \<noteq> get_partition (tasks ?s t) \<longrightarrow> p \<noteq> Ready d') \<and>
        scheduled s' = scheduled ?s \<and> edf_ready_order s' = edf_ready_order ?s \<and> this_cpu s' = this_cpu ?s \<and> curr s' = curr ?s \<and>
        (\<forall>x. get_partition (tasks s' x) = get_partition (tasks ?s x) \<and> edf_ok (tasks s' x) = edf_ok (tasks ?s x))"
      then obtain p where p: "part_inv (pl(t := p)) s'" "scheduled s' = scheduled s" "curr s' = curr s"
        "\<And>x. edf_ok (tasks s' x) = edf_ok (tasks s x)" by auto
      show "semi_safe (s', ?m)"
        by (rule semi_safeI [OF m p(1), of t]) (use p(2-4) pl(3) t(4) in \<open>auto simp: others_def split: if_splits\<close>)
    qed (use pl t in auto)
    then show ?thesis using Some by (cases "part_requeue_remote semi_check_resched t now ?s") simp_all
  qed
qed

lemma handlers_safe:
  assumes "semi_safe (s, m)"
  shows "semi_enabled ops (NewTask c t running now now') (s, m) \<Longrightarrow>
      ok (semi_task_new ops t running now now' (s\<lparr>this_cpu := c\<rparr>)) (\<lambda>s'. semi_safe (s', m))"
    and "semi_enabled ops (Wake c t now now') (s, m) \<Longrightarrow>
      ok (semi_task_wake_up ops t now now' (s\<lparr>this_cpu := c\<rparr>)) (\<lambda>s'. semi_safe (s', m))"
    and "semi_enabled ops (Suspend c t now) (s, m) \<Longrightarrow>
      ok (semi_task_block t now (s\<lparr>this_cpu := c\<rparr>)) (\<lambda>s'. semi_safe (s', m))"
    and "semi_enabled ops (Die c t) (s, m) \<Longrightarrow>
      ok (semi_task_exit t (s\<lparr>this_cpu := c\<rparr>)) (\<lambda>s'. semi_safe (s', m))"
proof -
  let ?s = "s\<lparr>this_cpu := c\<rparr>"
  obtain pl where pl: "part_inv pl s" "migrating_ok pl (s, m)"
    "\<And>c t. scheduled s c = Some t \<Longrightarrow> curr s c = t \<and> (\<forall>c'. m c' \<noteq> Some t)"
    "\<And>t. \<not> in_heap (rt_param (tasks s t)) \<Longrightarrow> pl t = Nowhere"
    by (rule semi_safeE [OF assms]) blast
  have oth: "others t pl ?s pl' s' = others t pl s pl' s'" for pl' s' by (simp add: others_def)
  show "ok (semi_task_new ops t running now now' ?s) (\<lambda>s'. semi_safe (s', m))"
    if "semi_enabled ops (NewTask c t running now now') (s, m)"
  proof (rule ok_mono [OF semi_task_new_ok [of pl ?s t now running now']], goal_cases)
    case (8 s')
    then show ?case using that pl(3) unfolding oth by (auto intro!: semi_safeI [OF pl(2)] split: if_splits)
  qed (use that pl in auto)
  show "ok (semi_task_wake_up ops t now now' ?s) (\<lambda>s'. semi_safe (s', m))"
    if en: "semi_enabled ops (Wake c t now now') (s, m)"
  proof -
    obtain p where "semi_wake_task ops now (tasks s t) = Some p" "edf_ok p"
      using en by (cases "semi_wake_task ops now (tasks s t)") simp_all
    then show ?thesis
      by (intro ok_mono [OF semi_task_wake_up_ok [of pl ?s t now p now']])
        (use en pl oth in \<open>auto intro!: semi_safeI [OF pl(2)]\<close>)
  qed
  show "ok (semi_task_block t now ?s) (\<lambda>s'. semi_safe (s', m))" if "semi_enabled ops (Suspend c t now) (s, m)"
    by (rule ok_mono [OF semi_task_block_ok [of pl ?s t]])
      (use that pl oth in \<open>auto intro!: semi_safeI [OF pl(2)]\<close>)
  show "ok (semi_task_exit t ?s) (\<lambda>s'. semi_safe (s', m))" if "semi_enabled ops (Die c t) (s, m)"
  proof -
    have "pl t = Nowhere \<or> pl t = Ready (get_partition (tasks s t))"
      using that by (intro part_inv_exits [OF pl(1)]) simp
    then show ?thesis
      by (intro ok_mono [OF semi_task_exit_ok [of pl ?s t]])
        (use that pl oth in \<open>auto intro!: semi_safeI [OF pl(2)] split: if_splits\<close>)
  qed
qed

lemma linux_safe:
  assumes "semi_safe (s, m)" "semi_enabled ops (LinuxTask t f) (s, m)"
  shows "semi_safe (upd_task t f s, m)"
proof (rule semi_safe_frame [OF assms(1)])
  show "edf_ok (tasks (upd_task t f s) x) = edf_ok (tasks s x)" for x
    using assms(2) qviewD(8) [of "f (tasks s t)" "tasks s t"] by simp
  show "part_inv pl (upd_task t f s)" if "part_inv pl s" for pl
    by (rule part_inv_linux(1) [OF that]) (use assms(2) in simp_all)
qed simp_all

lemma semi_call_ok:
  assumes "semi_safe sm" "semi_enabled ops call sm"
  shows "ok (semi_exec ops call sm) semi_safe"
proof -
  obtain s m where sm: "sm = (s, m)" by (cases sm)
  have pair: "ok (map_option (\<lambda>s'. (s', m)) r) semi_safe = ok r (\<lambda>s'. semi_safe (s', m))" for r
    by (cases r) simp_all
  show ?thesis
    using assms schedule_locked_safe migrate_safe handlers_safe release_timer_safe tick_safe linux_safe
    unfolding sm by (cases call) (simp_all del: semi_exec.simps(1,2) semi_enabled.simps(1,4,5,6,7,9) add: pair)
qed

end

sublocale slice_plugin \<subseteq> kernel_machine semi_init "semi_enabled ops" "semi_exec ops" semi_safe
  by unfold_locales (simp_all add: semi_init_safe semi_call_ok)

end
