(* ===== verification/Slices.thy ===== *)
theory Slices
  imports Semi_Machine
begin

text \<open>
  The accounting of slices, once for EDF-WM, C=D and HIME. While a sliced job runs, the plugins keep
  in \<^verbatim>\<open>exec_cost\<close> the budget of all slices up to the current one and in the first word of the
  run-time union the execution time at which the current slice began. \<open>slice_acct\<close> below is this
  convention; the lemmas of the locale show that the completion of a slice or a job establishes or
  keeps it, and that under it a wake-up runs into none of its \<^verbatim>\<open>BUG_ON\<close>s.
\<close>

text \<open>The execution time at which the current slice began: the first word in all three plugins.\<close>

abbreviation slice_start :: "task_struct \<Rightarrow> lt_t" where
  "slice_start t \<equiv> sp0 (semi_part (rt_param t))"

definition cumulative :: "(nat \<Rightarrow> lt_t) \<Rightarrow> nat \<Rightarrow> nat" where
  "cumulative b k = (\<Sum>i<k. unat (b i))"

lemma cumulative_simps [simp]:
  "cumulative b 0 = 0" "cumulative b (Suc k) = cumulative b k + unat (b k)"
  by (simp_all add: cumulative_def)

lemma cumulative_2 [simp]: "cumulative b 2 = unat (b 0) + unat (b 1)"
  using cumulative_simps(2) [of b 1] by (simp add: numeral_2_eq_2 del: One_nat_def) (simp add: cumulative_def)

lemma cumulative_mono: "j \<le> k \<Longrightarrow> cumulative b j \<le> cumulative b k"
  by (induction k rule: nat_induct) (auto simp: le_Suc_eq trans_le_add1)

lemma unat_of_nat_small: "n < 2 ^ 32 \<Longrightarrow> unat (of_nat n :: 64 word) = n"
  by (simp add: unat_of_nat take_bit_nat_eq_self)

text \<open>
  A table of slices, and the accounting of a task that is in the slice with index \<open>i\<close>.
\<close>

definition slice_table_ok :: "nat \<Rightarrow> (nat \<Rightarrow> lt_t) \<Rightarrow> bool" where
  "slice_table_ok n b \<longleftrightarrow> n \<noteq> 0 \<and> n < 2 ^ 32 \<and> cumulative b n < 2 ^ 64"

definition slice_acct :: "nat \<Rightarrow> (nat \<Rightarrow> lt_t) \<Rightarrow> nat \<Rightarrow> task_struct \<Rightarrow> bool" where
  "slice_acct n b i t \<longleftrightarrow> slice_table_ok n b \<and> i < n \<and> unat (get_exec_cost t) = cumulative b (Suc i) \<and>
     cumulative b i \<le> unat (slice_start t) \<and> slice_start t \<le> get_exec_time t"

text \<open>
  The laws of the slice tables: \<open>nr t\<close> slices with budgets \<open>budget t\<close>, the current one at index
  \<open>idx t\<close>; \<open>ends sig t\<close> says that the advancement of \<open>t\<close> ends the job.
\<close>

locale slice_accounting = slice_plugin ops for ops +
  fixes nr :: "task_struct \<Rightarrow> nat" and budget :: "task_struct \<Rightarrow> nat \<Rightarrow> lt_t"
    and idx :: "task_struct \<Rightarrow> nat" and ends :: "bool \<Rightarrow> task_struct \<Rightarrow> bool"
  assumes sliced_nr: "is_sliced ops t \<longleftrightarrow> nr t \<noteq> 0"
    and budget_idx: "slice_budget ops t = budget t (idx t)"
    and exec_start: "slice_exec_time ops t = get_exec_time t - slice_start t"
    and table_exec: "nr (add_exec_time x t) = nr t" "budget (add_exec_time x t) = budget t" "idx (add_exec_time x t) = idx t"
    and table_rewind: "nr (rewind ops x t) = nr t" "budget (rewind ops x t) = budget t"
      "is_sliced ops t \<Longrightarrow> nr t < 2 ^ 32 \<Longrightarrow> ends False (rewind ops x t)"
    and table_flags: "nr (set_rt_flags f t) = nr t" "budget (set_rt_flags f t) = budget t" "idx (set_rt_flags f t) = idx t"
    and ends_signaled: "ends True t"
    and ends_last: "\<not> ends sig t \<Longrightarrow> idx t < nr t \<Longrightarrow> Suc (idx t) < nr t"
    and advance_end: "advance ops sig t = Some t' \<Longrightarrow> ends sig t \<Longrightarrow>
      idx t' = 0 \<and> nr t' = nr t \<and> budget t' = budget t \<and> get_exec_time t' = 0 \<and> slice_start t' = 0 \<and>
      get_exec_cost t' = budget t 0"
    and advance_step: "advance ops sig t = Some t' \<Longrightarrow> \<not> ends sig t \<Longrightarrow> idx t < nr t \<Longrightarrow> nr t < 2 ^ 32 \<Longrightarrow>
      idx t' = Suc (idx t) \<and> nr t' = nr t \<and> budget t' = budget t \<and> get_exec_time t' = get_exec_time t \<and>
      slice_start t' = get_exec_time t \<and> get_exec_cost t' = get_exec_cost t + budget t (Suc (idx t))"
begin

abbreviation table_ok :: "task_struct \<Rightarrow> bool" where
  "table_ok t \<equiv> slice_table_ok (nr t) (budget t)"

abbreviation acct :: "task_struct \<Rightarrow> bool" where
  "acct t \<equiv> slice_acct (nr t) (budget t) (idx t) t"

lemmas acct_def = slice_acct_def
lemmas table_ok_def = slice_table_ok_def

lemma cumulative_bound: "table_ok t \<Longrightarrow> k \<le> nr t \<Longrightarrow> cumulative (budget t) k < 2 ^ 64"
  unfolding table_ok_def using cumulative_mono [of k "nr t" "budget t"] by simp

lemma acct_end:
  assumes "table_ok t" "advance ops sig t = Some t'" "ends sig t"
  shows "acct t'" "idx t' = 0"
  using assms advance_end [OF assms(2,3)] by (auto simp: acct_def table_ok_def)

lemma slice_used:
  assumes "acct t"
  shows "unat (slice_exec_time ops t) = unat (get_exec_time t) - unat (slice_start t)"
  using assms by (simp add: exec_start acct_def unat_minus_le)

text \<open>The completion of a slice or of a job keeps the accounting.\<close>

lemma acct_advance:
  assumes "acct t" "advance ops sig t = Some t'" "sig \<or> slice_budget_exhausted ops t"
  shows "acct t'"
proof (cases "ends sig t")
  case True
  have "table_ok t" using assms(1) by (simp add: acct_def)
  then show ?thesis by (rule acct_end(1) [OF _ assms(2) True])
next
  case False
  have ex: "slice_budget_exhausted ops t" using False ends_signaled assms(3) by (cases sig) auto
  have t: "table_ok t" "idx t < nr t" "nr t < 2 ^ 32" using assms(1) by (auto simp: acct_def table_ok_def)
  have last: "Suc (idx t) < nr t" by (rule ends_last [OF False t(2)])
  note step = advance_step [OF assms(2) False t(2,3)]
  have "cumulative (budget t) (Suc (Suc (idx t))) < 2 ^ 64"
    using cumulative_bound [OF t(1)] last by (simp only: Suc_leI)
  then have "unat (get_exec_cost t') = cumulative (budget t) (Suc (Suc (idx t)))"
    using assms(1) step by (simp add: acct_def unat_plus_no_overflow)
  moreover have "cumulative (budget t) (Suc (idx t)) \<le> unat (get_exec_time t)"
    using ex slice_used [OF assms(1)] assms(1)
    by (auto simp: slice_budget_exhausted_def budget_idx word_le_nat_alt acct_def)
  ultimately show ?thesis
    using step t last by (simp add: acct_def table_ok_def)
qed

lemma acct_completion:
  assumes "acct t" "semi_completion ops sig t = Some t'" "sig \<or> semi_budget_exhausted ops t"
  shows "acct t'"
proof -
  have "is_sliced ops t" using assms(1) by (simp add: acct_def table_ok_def sliced_nr)
  then show ?thesis
    using assms acct_advance by (simp add: semi_completion_def semi_budget_exhausted_def)
qed

text \<open>
  Under the accounting, fast-forwarding stays in the current slice: the loop is not entered, and
  no \<^verbatim>\<open>BUG_ON\<close> is hit.
\<close>

lemma acct_slice_remaining:
  assumes "acct t" "get_exec_time t < get_exec_cost t"
  shows "\<not> slice_budget_exhausted ops t"
    "unat (get_exec_cost t) - unat (get_exec_time t) \<le> unat (slice_budget_remaining ops t)"
    "unat (slice_budget_remaining ops t) = unat (slice_budget ops t) - unat (slice_exec_time ops t)"
proof -
  have *: "unat (get_exec_time t) < unat (get_exec_cost t)" using assms(2) by (simp add: word_less_nat_alt)
  have lt: "unat (slice_exec_time ops t) < unat (slice_budget ops t)"
    using * assms(1) slice_used [OF assms(1)] by (auto simp: acct_def budget_idx word_le_nat_alt)
  then show "\<not> slice_budget_exhausted ops t" by (simp add: slice_budget_exhausted_def word_le_nat_alt)
  show r: "unat (slice_budget_remaining ops t) = unat (slice_budget ops t) - unat (slice_exec_time ops t)"
    using lt by (simp add: slice_budget_remaining_def unat_minus_le word_le_nat_alt)
  show "unat (get_exec_cost t) - unat (get_exec_time t) \<le> unat (slice_budget_remaining ops t)"
    unfolding r using assms(1) slice_used [OF assms(1)] by (auto simp: acct_def budget_idx word_le_nat_alt)
qed

lemma acct_forward:
  assumes "acct t" "unat (get_exec_time t) + unat x < unat (get_exec_cost t)"
  shows "fast_forward_slices ops x t = Some (add_exec_time x t)" "acct (add_exec_time x t)"
    "\<not> slice_budget_exhausted ops (add_exec_time x t)"
proof -
  have lt: "get_exec_time t < get_exec_cost t" using assms(2) by (simp add: word_less_nat_alt)
  note rem = acct_slice_remaining [OF assms(1) lt]
  have sliced: "is_sliced ops t" using assms(1) by (simp add: acct_def table_ok_def sliced_nr)
  have nrem: "\<not> slice_budget_remaining ops t \<le> x" using rem(2) assms(2) by (simp add: word_le_nat_alt)
  have "\<not> budget_remaining t \<le> x"
    using lt assms(2) by (auto simp: budget_remaining_def budget_exhausted_def word_le_nat_alt word_less_nat_alt unat_sub)
  then show "fast_forward_slices ops x t = Some (add_exec_time x t)"
    using rem(1) sliced nrem
    by (simp add: fast_forward_slices_def semi_budget_exhausted_def fast_forward_loop.simps)
  have sum: "unat (get_exec_time (add_exec_time x t)) = unat (get_exec_time t) + unat x"
    using assms(2) word_64_bound [of "get_exec_cost t"] unat_plus_no_overflow [of "get_exec_time t" x]
    by (simp add: add_exec_time_def rt_simps)
  have same: "get_exec_cost (add_exec_time x t) = get_exec_cost t" "slice_start (add_exec_time x t) = slice_start t"
    by (simp_all add: add_exec_time_def rt_simps)
  show acct: "acct (add_exec_time x t)"
    using assms(1) sum same by (simp add: acct_def table_ok_def table_exec word_le_nat_alt)
  show "\<not> slice_budget_exhausted ops (add_exec_time x t)"
    by (rule acct_slice_remaining(1) [OF acct]) (use sum same assms(2) in \<open>simp add: word_less_nat_alt\<close>)
qed

lemma acct_flags: "acct (set_rt_flags f t) = acct t"
  by (simp add: acct_def table_ok_def table_flags) (simp add: rt_simps)

text \<open>A wake-up runs to its end and keeps the accounting.\<close>

lemma acct_wake:
  assumes "acct t" "heap_node (rt_param t)" "\<not> in_heap (rt_param t)"
    "unat (get_exec_time t) + unat (now - suspend_time t) < 2 ^ 64"
  shows "ok (semi_wake_task ops now t) acct"
proof -
  let ?x = "now - suspend_time t"
  have sliced: "is_sliced ops t" and tab: "table_ok t" using assms(1) by (auto simp: acct_def table_ok_def sliced_nr)
  have le: "get_exec_cost t \<le> get_exec_time t + ?x \<longleftrightarrow> unat (get_exec_cost t) \<le> unat (get_exec_time t) + unat ?x"
    using unat_plus_no_overflow [OF assms(4)] by (simp add: word_le_nat_alt)
  have "ok (semi_release_at ops start t) acct" for start
  proof -
    obtain t' where t': "advance ops False (rewind ops start t) = Some t'"
      using advance_ok [of "rewind ops start t" False] sliced rewind_sliced rewind_frame [of t start] assms(2,3)
      by (auto simp: task_frame_def)
    have "acct t'"
      by (rule acct_end(1) [OF _ t']) (use tab sliced table_rewind in \<open>simp_all add: table_ok_def\<close>)
    then show ?thesis using t' sliced by (simp add: semi_release_at_def acct_flags)
  qed
  moreover have "ok (do {t \<leftarrow> fast_forward_slices ops ?x t; BUG_ON (semi_budget_exhausted ops t); Some t}) acct"
    if "\<not> get_exec_cost t \<le> get_exec_time t + ?x"
  proof -
    note fwd = acct_forward [OF assms(1), of ?x]
    have "is_sliced ops (add_exec_time ?x t)" using sliced by (simp add: sliced_nr table_exec)
    then show ?thesis using fwd that unfolding le by (simp add: semi_budget_exhausted_def)
  qed
  ultimately show ?thesis using sliced assms(1) unfolding semi_wake_task_def Let_def by simp
qed

end

end
