(* ===== verification/Edf_Wm.thy ===== *)
theory Edf_Wm
  imports Slices
begin

text \<open>
  The plugin EDF-WM (\<^verbatim>\<open>litmus/sched_edf_wm.c\<close>): every slice of a sliced job has its own release and
  deadline window, relative to the release of the job. The handlers are the instances of the
  handlers of \<open>Semi_Partitioned\<close> at the slice operations below.
\<close>

section \<open>Slices\<close>

abbreviation wm_params :: "task_struct \<Rightarrow> edf_wm_params" where
  "wm_params t \<equiv> wm (task_params (rt_param t))"

text \<open>The index of the current slice, from the pointer kept in the run-time union.\<close>

definition wm_idx :: "task_struct \<Rightarrow> nat" where
  "wm_idx t = unat (sp5 (semi_part (rt_param t)))"

abbreviation wm_nr :: "task_struct \<Rightarrow> nat" where
  "wm_nr t \<equiv> wm_count (wm_params t)"

abbreviation wm_budgets :: "task_struct \<Rightarrow> nat \<Rightarrow> lt_t" where
  "wm_budgets t \<equiv> (\<lambda>i. wm_budget (wm_slices (wm_params t) i))"

definition wm_slice :: "task_struct \<Rightarrow> edf_wm_slice" where
  "wm_slice t = wm_slices (wm_params t) (wm_idx t)"

definition wm_is_sliced_task :: "task_struct \<Rightarrow> bool" where
  "wm_is_sliced_task t \<longleftrightarrow> wm_count (wm_params t) \<noteq> 0"

definition wm_get_last_slice :: "task_struct \<Rightarrow> nat" where
  "wm_get_last_slice t = wm_count (wm_params t) - 1"

definition wm_slice_budget :: "task_struct \<Rightarrow> lt_t" where
  "wm_slice_budget t = wm_budget (wm_slice t)"

definition wm_compute_slice_params :: "task_struct \<Rightarrow> task_struct" where
  "wm_compute_slice_params t =
     (let sl = wm_slice t;
          t = upd_job (\<lambda>j. j\<lparr>deadline := sp2 (semi_part (rt_param t)) + wm_deadline sl\<rparr>) t;
          t = upd_job (\<lambda>j. j\<lparr>release := sp2 (semi_part (rt_param t)) + wm_offset sl\<rparr>) t;
          t = upd_params (\<lambda>p. p\<lparr>exec_cost := exec_cost p + wm_slice_budget t\<rparr>) t;
          t = upd_params (\<lambda>p. p\<lparr>cpu := wm_cpu sl\<rparr>) t
      in upd_semi (\<lambda>u. u\<lparr>sp0 := get_exec_time t\<rparr>) t)"

definition wm_complete_sliced_job :: "task_struct \<Rightarrow> task_struct" where
  "wm_complete_sliced_job t =
     (let u = semi_part (rt_param t);
          t = upd_job (\<lambda>j. j\<lparr>release := sp2 u, deadline := sp3 u\<rparr>) t;
          t = upd_params (\<lambda>p. p\<lparr>exec_cost := sp4 u\<rparr>) t;
          t = prepare_for_next_period t
      in upd_semi (\<lambda>u. u\<lparr>sp2 := get_release t, sp3 := get_deadline t\<rparr>) t)"

definition wm_slice_exec_time :: "task_struct \<Rightarrow> lt_t" where
  "wm_slice_exec_time t = get_exec_time t - sp0 (semi_part (rt_param t))"

text \<open>
  The guard against a depleted job reads the field \<^verbatim>\<open>job_exec_cost\<close> of the member of C=D, which is
  the word \<open>sp3\<close>: in the member of EDF-WM this is the deadline of the job.
\<close>

definition wm_job_ends :: "bool \<Rightarrow> task_struct \<Rightarrow> bool" where
  "wm_job_ends completion_signaled t \<longleftrightarrow>
     completion_signaled \<or> sp3 (semi_part (rt_param t)) \<le> get_exec_time t"

definition wm_advance_next_slice :: "bool \<Rightarrow> task_struct \<Rightarrow> task_struct option" where
  "wm_advance_next_slice completion_signaled t = do {
     BUG_ON (\<not> wm_is_sliced_task t);
     BUG_ON (\<not> heap_node (rt_param t));
     BUG_ON (in_heap (rt_param t));
     let idx = wm_idx t;
     let idx = (if wm_job_ends completion_signaled t then 0
                else (idx + 1) mod wm_count (wm_params t));
     let t = upd_semi (\<lambda>u. u\<lparr>sp5 := of_nat idx\<rparr>) t;
     let t = (if idx = 0
              then upd_params (\<lambda>p. p\<lparr>exec_cost := 0\<rparr>) (wm_complete_sliced_job t)
              else t);
     Some (wm_compute_slice_params t)
   }"

definition wm_start_job :: "task_struct \<Rightarrow> task_struct" where
  "wm_start_job t =
     upd_job (\<lambda>j. j\<lparr>exec_time := 0\<rparr>)
       (upd_semi (\<lambda>u. u\<lparr>sp0 := 0, sp2 := get_release t, sp3 := get_deadline t, sp4 := get_exec_cost t, sp5 := 0\<rparr>) t)"

definition wm_rewind :: "lt_t \<Rightarrow> task_struct \<Rightarrow> task_struct" where
  "wm_rewind start t =
     upd_semi (\<lambda>u. u\<lparr>sp3 := start, sp5 := of_nat (wm_get_last_slice t)\<rparr>) t"

definition wm_ops :: slice_ops where
  "wm_ops =
     \<lparr>is_sliced = wm_is_sliced_task,
      slice_budget = wm_slice_budget,
      slice_exec_time = wm_slice_exec_time,
      on_last_slice = (\<lambda>t. wm_idx t = wm_get_last_slice t),
      advance = wm_advance_next_slice,
      start_job = wm_start_job,
      rewind = wm_rewind,
      job_dl = (\<lambda>t. sp3 (semi_part (rt_param t)))\<rparr>"

section \<open>Handlers\<close>

definition wm_slice_budget_exhausted :: "task_struct \<Rightarrow> bool" where
  "wm_slice_budget_exhausted = slice_budget_exhausted wm_ops"

definition wm_slice_budget_remaining :: "task_struct \<Rightarrow> lt_t" where
  "wm_slice_budget_remaining = slice_budget_remaining wm_ops"

definition wm_budget_exhausted :: "task_struct \<Rightarrow> bool" where
  "wm_budget_exhausted = semi_budget_exhausted wm_ops"

definition wm_fast_forward_slices :: "lt_t \<Rightarrow> task_struct \<Rightarrow> task_struct option" where
  "wm_fast_forward_slices = fast_forward_slices wm_ops"

definition wm_job_or_slice_completion :: "bool \<Rightarrow> task_struct \<Rightarrow> task_struct option" where
  "wm_job_or_slice_completion = semi_completion wm_ops"

definition wm_tick :: "tid \<Rightarrow> 'z pstate_scheme \<Rightarrow> 'z pstate_scheme option" where
  "wm_tick = semi_tick wm_ops"

definition wm_schedule ::
  "tid \<Rightarrow> lt_t \<Rightarrow> 'z pstate_scheme \<Rightarrow> (tid option \<times> 'z pstate_scheme) option"
where
  "wm_schedule = semi_schedule wm_ops"

definition wm_task_new ::
  "tid \<Rightarrow> bool \<Rightarrow> lt_t \<Rightarrow> lt_t \<Rightarrow> 'z pstate_scheme \<Rightarrow> 'z pstate_scheme option"
where
  "wm_task_new = semi_task_new wm_ops"

definition wm_release_at :: "lt_t \<Rightarrow> task_struct \<Rightarrow> task_struct option" where
  "wm_release_at = semi_release_at wm_ops"

definition wm_earliest_release :: "lt_t \<Rightarrow> task_struct \<Rightarrow> lt_t" where
  "wm_earliest_release = semi_earliest_release wm_ops"

definition wm_task_wake_up ::
  "tid \<Rightarrow> lt_t \<Rightarrow> lt_t \<Rightarrow> 'z pstate_scheme \<Rightarrow> 'z pstate_scheme option"
where
  "wm_task_wake_up = semi_task_wake_up wm_ops"

definition wm_task_block :: "tid \<Rightarrow> lt_t \<Rightarrow> 'z pstate_scheme \<Rightarrow> 'z pstate_scheme option" where
  "wm_task_block = semi_task_block"

definition wm_task_exit :: "tid \<Rightarrow> 'z pstate_scheme \<Rightarrow> 'z pstate_scheme option" where
  "wm_task_exit = semi_task_exit"

definition init_edf_wm :: "nat \<Rightarrow> 'z pstate_scheme \<Rightarrow> 'z pstate_scheme" where
  "init_edf_wm = init_semi"

section \<open>Admission\<close>

definition wm_check_params :: "(cpu_id \<Rightarrow> bool) \<Rightarrow> task_struct \<Rightarrow> int" where
  "wm_check_params cpu_online t =
     (let w = wm_params t; n = wm_count w; sl = wm_slices w
      in if \<not> wm_is_sliced_task t then 0
         else if n = 1 \<or> MAX_EDF_WM_SLICES < n then - EINVAL
         else if get_partition t \<noteq> wm_cpu (sl 0) then - EINVAL
         else if get_exec_cost t \<noteq> fold (\<lambda>i tmp. tmp + wm_budget (sl i)) [0..<n] 0 then - EINVAL
         else if list_ex (\<lambda>i. wm_offset (sl (i + 1)) < wm_deadline (sl i)) [0..<n - 1] then - EINVAL
         else if list_ex (\<lambda>i. lt_before (wm_deadline (sl i)) (wm_offset (sl i)) \<or>
                              wm_deadline (sl i) - wm_offset (sl i) < wm_budget (sl i)) [0..<n] then - EINVAL
         else if list_ex (\<lambda>i. wm_budget (sl i) < MIN_EDF_WM_SLICE_SIZE) [0..<n] then - EINVAL
         else if list_ex (\<lambda>i. wm_cpu (sl i) = wm_cpu (sl (i + 1))) [0..<n - 1] then - EINVAL
         else if list_ex (\<lambda>i. \<not> cpu_online (wm_cpu (sl i))) [0..<n] then - EINVAL
         else if \<not> budget_precisely_enforced t then - EINVAL
         else 0)"

definition wm_admit_task :: "(cpu_id \<Rightarrow> bool) \<Rightarrow> task_struct \<Rightarrow> int" where
  "wm_admit_task cpu_online t =
     (if task_cpu t = get_partition t then wm_check_params cpu_online t else - EINVAL)"

section \<open>The slice operations keep their contract\<close>

lemmas wm_simps = wm_ops_def wm_is_sliced_task_def wm_slice_budget_def wm_slice_exec_time_def wm_slice_def
  wm_idx_def wm_job_ends_def wm_get_last_slice_def

lemma wm_slice_frame:
  "task_frame t (wm_compute_slice_params t)" "task_frame t (wm_complete_sliced_job t)"
  by (simp_all add: task_frame_def wm_compute_slice_params_def wm_complete_sliced_job_def Let_def
      prepare_for_next_period_def rt_simps)

lemma wm_advance_frame: "wm_advance_next_slice b t = Some t' \<Longrightarrow> task_frame t t'"
  unfolding wm_advance_next_slice_def
  by (auto simp: Let_def bind_eq_Some_iff
      intro!: task_frame_trans [OF _ wm_slice_frame(1)] task_frame_trans [OF _ wm_slice_frame(2)]
        task_frame_trans [OF _ task_frame_job(6)])

lemma wm_slice_plugin: "slice_plugin wm_ops"
proof
  show "advance wm_ops b t = Some t' \<Longrightarrow> task_frame t t'" for b t t'
    by (simp add: wm_ops_def wm_advance_frame)
  show "advance wm_ops b t \<noteq> None" if "is_sliced wm_ops t" "heap_node (rt_param t)" "\<not> in_heap (rt_param t)" for b t
    using that by (simp add: wm_ops_def wm_advance_next_slice_def Let_def)
  show "task_frame t (start_job wm_ops t)" "task_frame t (rewind wm_ops x t)" for t x
    by (simp_all add: wm_ops_def wm_start_job_def wm_rewind_def task_frame_def rt_simps)
  show "is_sliced wm_ops (rewind wm_ops x t) = is_sliced wm_ops t" for x t
    by (simp add: wm_simps wm_rewind_def rt_simps)
qed

text \<open>What the advancement does to the task, for the two outcomes.\<close>

definition wm_ends :: "bool \<Rightarrow> task_struct \<Rightarrow> bool" where
  "wm_ends sig t \<longleftrightarrow> wm_job_ends sig t \<or> Suc (wm_idx t) mod wm_nr t = 0"

lemma wm_advance_end:
  assumes "wm_advance_next_slice sig t = Some t'" "wm_ends sig t"
  shows "t' = wm_compute_slice_params (upd_params (\<lambda>p. p\<lparr>exec_cost := 0\<rparr>)
    (wm_complete_sliced_job (upd_semi (\<lambda>u. u\<lparr>sp5 := 0\<rparr>) t)))"
  using assms by (auto simp: wm_advance_next_slice_def wm_ends_def Let_def bind_eq_Some_iff)

lemma wm_advance_step:
  assumes "wm_advance_next_slice sig t = Some t'" "\<not> wm_ends sig t" "wm_idx t < wm_nr t"
  shows "t' = wm_compute_slice_params (upd_semi (\<lambda>u. u\<lparr>sp5 := of_nat (Suc (wm_idx t))\<rparr>) t)" "Suc (wm_idx t) < wm_nr t"
  using assms by (auto simp: wm_advance_next_slice_def wm_ends_def Let_def bind_eq_Some_iff mod_Suc split: if_splits)

interpretation wm: slice_accounting wm_ops wm_nr wm_budgets wm_idx wm_ends
proof (intro slice_accounting.intro wm_slice_plugin slice_accounting_axioms.intro, goal_cases)
  case (9 t x)
  then show ?case
    by (cases "wm_nr t") (simp_all add: wm_simps wm_rewind_def wm_ends_def rt_simps unat_of_nat_small)
next
  case (15 sig t t')
  then show ?case
    using wm_advance_end [of sig t t']
    by (simp add: wm_simps wm_compute_slice_params_def wm_complete_sliced_job_def prepare_for_next_period_def Let_def rt_simps)
next
  case (16 sig t t')
  then have "unat (of_nat (Suc (wm_idx t)) :: 64 word) = Suc (wm_idx t)"
    using wm_advance_step(2) [of sig t t'] by (intro unat_of_nat_small) (simp add: wm_ops_def)
  with 16 show ?case
    using wm_advance_step(1) [of sig t t']
    by (simp add: wm_simps wm_compute_slice_params_def Let_def rt_simps)
next
  case (14 sig t)
  then show ?case by (auto simp: wm_ends_def mod_Suc split: if_splits)
qed (simp_all add: wm_simps wm_ends_def wm_rewind_def add_exec_time_def rt_simps)

section \<open>Parameters that are admitted\<close>

lemma fold_sum_word:
  "fold (\<lambda>i tmp. tmp + b i) [0..<n] (0 :: 64 word) = of_nat (cumulative b n)"
  by (induction n) simp_all

text \<open>Windows that follow one another and hold their budgets bound the sum of the budgets.\<close>

lemma cumulative_windows:
  assumes "\<And>i. i < n \<Longrightarrow> o' i + unat (b i) \<le> d i" "\<And>i. Suc i < n \<Longrightarrow> d i \<le> o' (Suc i)" "0 < n"
  shows "cumulative b n \<le> d (n - 1 :: nat)"
  using assms
proof (induction n)
  case (Suc n)
  show ?case
  proof (cases n)
    case 0
    then show ?thesis using Suc.prems(1) [of 0] by simp
  next
    case (Suc m)
    have "cumulative b n \<le> d (n - 1)" using Suc.IH Suc.prems \<open>n = Suc m\<close> by simp
    also have "\<dots> \<le> o' n" using Suc.prems(2) [of m] \<open>n = Suc m\<close> by simp
    finally show ?thesis using Suc.prems(1) [of n] by simp
  qed
qed simp

lemma window_fits:
  assumes "\<not> lt_before d x" "\<not> d - x < b" "unat d < 2 ^ 63" "unat x < 2 ^ 63"
  shows "unat x + unat b \<le> unat (d :: 64 word)"
proof -
  have "x \<le> d" using assms(1,3,4) by (simp add: lt_before_small)
  then show ?thesis using assms(2) by (simp add: word_less_nat_alt word_le_nat_alt unat_minus_le)
qed

lemma wm_check_params_result: "wm_check_params on t = 0 \<or> wm_check_params on t = - EINVAL"
  by (simp add: wm_check_params_def Let_def)

lemma wm_check_paramsD:
  assumes "wm_check_params on t = 0" "wm_is_sliced_task t"
  shows "2 \<le> wm_nr t" "wm_nr t \<le> MAX_EDF_WM_SLICES" "get_partition t = wm_cpu (wm_slices (wm_params t) 0)"
    "get_exec_cost t = of_nat (cumulative (wm_budgets t) (wm_nr t))" "budget_precisely_enforced t"
    "\<And>i. Suc i < wm_nr t \<Longrightarrow> wm_deadline (wm_slices (wm_params t) i) \<le> wm_offset (wm_slices (wm_params t) (Suc i))"
    "\<And>i. Suc i < wm_nr t \<Longrightarrow> wm_cpu (wm_slices (wm_params t) i) \<noteq> wm_cpu (wm_slices (wm_params t) (Suc i))"
    "\<And>i. i < wm_nr t \<Longrightarrow> \<not> lt_before (wm_deadline (wm_slices (wm_params t) i)) (wm_offset (wm_slices (wm_params t) i))"
    "\<And>i. i < wm_nr t \<Longrightarrow> \<not> wm_deadline (wm_slices (wm_params t) i) - wm_offset (wm_slices (wm_params t) i) < wm_budgets t i"
    "\<And>i. i < wm_nr t \<Longrightarrow> MIN_EDF_WM_SLICE_SIZE \<le> wm_budgets t i"
    "\<And>i. i < wm_nr t \<Longrightarrow> on (wm_cpu (wm_slices (wm_params t) i))"
  using assms
  by (auto simp: wm_check_params_def Let_def wm_is_sliced_task_def fold_sum_word list_ex_iff EINVAL_def not_less
      less_diff_conv split: if_splits)

section \<open>Properties\<close>

text \<open>
  C9: the scheduler of EDF-WM. In a state that satisfies the invariant of the queues, where the CPU
  runs the task that the plugin has scheduled there and the time stamps of its next slice or job
  stay in the window, the handler stops at no \<^verbatim>\<open>BUG_ON\<close> and keeps the invariant, also when it
  migrates the task to the CPU of its next slice. Only the chosen task and the one that was running
  change their place: a task that gives up the CPU is put in a queue, here or on its next CPU,
  exactly if it is still runnable. The choice is EDF among the task that was running and all jobs
  that are ready on the CPU, and the chosen task belongs to the CPU.
\<close>

theorem wm_schedule_correct:
  assumes "part_inv pl s"
    and "\<And>t. scheduled s (this_cpu s) = Some t \<Longrightarrow>
      prev = t \<and> (\<forall>b p. wm_job_or_slice_completion b (tasks s t) = Some p \<longrightarrow> edf_ok p)"
  shows "ok (wm_schedule prev now s) (\<lambda>(nxt, s'). scheduled s' = (scheduled s)(this_cpu s := nxt) \<and>
    (\<exists>pl'. part_inv pl' s' \<and> edf_choice (this_cpu s) nxt pl' s' \<and>
      resched_places (this_cpu s) (scheduled s (this_cpu s)) (on_sched (this_cpu s) is_running s) nxt pl pl' \<and>
      (\<forall>n. nxt = Some n \<longrightarrow> get_partition (tasks s' n) = this_cpu s)))"
  unfolding wm_schedule_def
  by (rule ok_mono [OF wm.semi_schedule_ok [of pl]])
    (use assms in \<open>auto simp: wm_job_or_slice_completion_def\<close>)

text \<open>A task with two slices, on CPU 0 and CPU 1, and a state where it is about to be created.\<close>

definition wm_sample_task :: rt_task where
  "wm_sample_task = (sample_rt_task 0 200000 1000000)\<lparr>wm :=
     \<lparr>wm_slices = (\<lambda>i. if i = 0
        then \<lparr>wm_cpu = 0, wm_deadline = 500000, wm_budget = 100000, wm_offset = 0\<rparr>
        else \<lparr>wm_cpu = 1, wm_deadline = 1000000, wm_budget = 100000, wm_offset = 500000\<rparr>),
      wm_count = 2\<rparr>\<rparr>"

definition wm_sample :: pstate where
  "wm_sample = sample_state (\<lambda>_. wm_sample_task)"

definition wm_sample1 :: semi_state where
  "wm_sample1 = the (semi_exec wm_ops (NewTask 0 1 False 10 20) (wm_sample, \<lambda>_. None))"

lemmas wm_sample_simps = wm_sample_def wm_sample_task_def sample_simps

lemma wm_sample1_reachable: "reachable semi_init (semi_enabled wm_ops) (semi_exec wm_ops) wm_sample1"
proof -
  have init: "semi_init (wm_sample, \<lambda>_. None)"
    by (simp add: semi_init_def part_init_def wm_sample_simps inj_def)
  have en: "semi_enabled wm_ops (NewTask 0 1 False 10 20) (wm_sample, \<lambda>_. None)"
    by (simp add: wm_sample_simps wm_ops_def wm_start_job_def release_at_def prepare_for_next_period_def edf_ok_def rt_simps)
  show ?thesis unfolding wm_sample1_def by (rule wm.reachable_step [OF wm.reachable_start [OF init] en])
qed

theorem wm_schedule_correct_witness:
  "ok (wm_schedule 0 50 (fst wm_sample1)) (\<lambda>(nxt, s'). \<exists>pl'. part_inv pl' s' \<and> edf_choice 0 nxt pl' s') \<and>
   fst (the (wm_schedule 0 50 (fst wm_sample1))) = Some 1"
proof -
  obtain pl where inv: "part_inv pl (fst wm_sample1)"
    using wm.reachable_inv [OF wm_sample1_reachable] by (auto simp: semi_safe_def)
  have ev: "this_cpu (fst wm_sample1) = 0 \<and> scheduled (fst wm_sample1) 0 = None" by code_simp
  have "fst (the (wm_schedule 0 50 (fst wm_sample1))) = Some 1" by code_simp
  moreover have "ok (wm_schedule 0 50 (fst wm_sample1)) (\<lambda>(nxt, s'). \<exists>pl'. part_inv pl' s' \<and> edf_choice 0 nxt pl' s')"
    by (rule ok_mono [OF wm_schedule_correct [OF inv]]) (use ev in auto)
  ultimately show ?thesis by blast
qed



text \<open>
  C11: the advancement of a sliced job in EDF-WM. If the job ends, the next job starts with its first
  slice: it is released at the deadline of the finished job, and its parameters are those of the
  first slice, relative to this release. If not, the task moves to the CPU of the next slice with
  the window of this slice, relative to the release of the job; the budget limit grows by the budget
  of the slice and the execution time is kept.
\<close>

theorem wm_advance_next_slice_correct:
  assumes "wm_is_sliced_task t" "heap_node (rt_param t)" "\<not> in_heap (rt_param t)" "wm_idx t < wm_nr t" "wm_nr t < 2 ^ 32"
  shows "ok (wm_advance_next_slice sig t) (\<lambda>t'.
    if wm_ends sig t then
      wm_idx t' = 0 \<and> job_no (job_params (rt_param t')) = job_no (job_params (rt_param t)) + 1 \<and>
      (let rel = sp3 (semi_part (rt_param t)); sl = wm_slices (wm_params t) 0
       in sp2 (semi_part (rt_param t')) = rel \<and> sp3 (semi_part (rt_param t')) = rel + get_rt_period t \<and>
          get_release t' = rel + wm_offset sl \<and> get_deadline t' = rel + wm_deadline sl \<and> get_partition t' = wm_cpu sl \<and>
          get_exec_cost t' = wm_budget sl \<and> get_exec_time t' = 0 \<and> slice_start t' = 0)
    else
      wm_idx t' = Suc (wm_idx t) \<and> job_no (job_params (rt_param t')) = job_no (job_params (rt_param t)) \<and>
      (let rel = sp2 (semi_part (rt_param t)); sl = wm_slices (wm_params t) (Suc (wm_idx t))
       in sp2 (semi_part (rt_param t')) = rel \<and> sp3 (semi_part (rt_param t')) = sp3 (semi_part (rt_param t)) \<and>
          get_release t' = rel + wm_offset sl \<and> get_deadline t' = rel + wm_deadline sl \<and> get_partition t' = wm_cpu sl \<and>
          get_exec_cost t' = get_exec_cost t + wm_budget sl \<and> get_exec_time t' = get_exec_time t \<and>
          slice_start t' = get_exec_time t))"
proof -
  obtain t' where t': "wm_advance_next_slice sig t = Some t'"
    using assms(1-3) by (auto simp: wm_advance_next_slice_def Let_def)
  show ?thesis
  proof (cases "wm_ends sig t")
    case True
    then show ?thesis
      using t' wm_advance_end [OF t' True]
      by (simp add: wm_simps wm_compute_slice_params_def wm_complete_sliced_job_def prepare_for_next_period_def Let_def rt_simps)
  next
    case False
    note step = wm_advance_step [OF t' False assms(4)]
    have "unat (of_nat (Suc (wm_idx t)) :: 64 word) = Suc (wm_idx t)"
      using step(2) assms(5) by (intro unat_of_nat_small) simp
    then show ?thesis
      using t' False step(1) by (simp add: wm_simps wm_compute_slice_params_def Let_def rt_simps)
  qed
qed

theorem wm_advance_next_slice_correct_witness:
  "wm_is_sliced_task (tasks wm_sample 1) \<and>
   ok (wm_advance_next_slice True (tasks wm_sample 1)) (\<lambda>t'. get_deadline t' = 500000 \<and> get_exec_cost t' = 100000)"
proof -
  have hyps: "wm_is_sliced_task (tasks wm_sample 1) \<and> heap_node (rt_param (tasks wm_sample 1)) \<and>
    \<not> in_heap (rt_param (tasks wm_sample 1)) \<and> wm_idx (tasks wm_sample 1) < wm_nr (tasks wm_sample 1)" by code_simp
  have nr: "wm_nr (tasks wm_sample 1) = 2" by (simp add: wm_sample_simps)
  have ends: "wm_ends True (tasks wm_sample 1)" by code_simp
  have "ok (wm_advance_next_slice True (tasks wm_sample 1)) (\<lambda>t'. get_deadline t' = 500000 \<and> get_exec_cost t' = 100000)"
    by (rule ok_mono [OF wm_advance_next_slice_correct])
      (use hyps nr ends in \<open>simp_all add: Let_def\<close>, simp add: wm_sample_simps)
  then show ?thesis using hyps by blast
qed

text \<open>
  C12: the accounting of slices in EDF-WM. Once the limit \<^verbatim>\<open>exec_cost\<close> is the budget of the slices up
  to the current one (as it is from the second job on), the completion of a slice or a job that the
  scheduler asks for keeps it so.
\<close>

theorem wm_accounting_kept:
  assumes "slice_acct (wm_nr t) (wm_budgets t) (wm_idx t) t" "wm_job_or_slice_completion sig t = Some t'"
    "sig \<or> wm_budget_exhausted t"
  shows "slice_acct (wm_nr t') (wm_budgets t') (wm_idx t') t'"
  using wm.acct_completion [OF assms(1)] assms(2,3)
  by (simp add: wm_job_or_slice_completion_def wm_budget_exhausted_def)

text \<open>The sample task after the completion of its first job, and after its first slice.\<close>

definition wm_steady :: task_struct where
  "wm_steady = the (wm_advance_next_slice True (tasks wm_sample 1))"

lemma wm_steady_fields:
  "wm_nr wm_steady = 2" "wm_idx wm_steady = 0" "get_exec_cost wm_steady = 100000" "slice_start wm_steady = 0"
  "get_exec_time wm_steady = 0" "wm_budgets wm_steady = (\<lambda>i. 100000)" "suspend_time wm_steady = 0"
  "heap_node (rt_param wm_steady)" "\<not> in_heap (rt_param wm_steady)" "pid wm_steady = 1" "get_partition wm_steady = 0"
  "is_sliced wm_ops wm_steady"
proof -
  have "wm_nr wm_steady = 2 \<and> wm_idx wm_steady = 0 \<and> get_exec_cost wm_steady = 100000 \<and> slice_start wm_steady = 0 \<and>
    get_exec_time wm_steady = 0 \<and> suspend_time wm_steady = 0 \<and> heap_node (rt_param wm_steady) \<and>
    \<not> in_heap (rt_param wm_steady) \<and> pid wm_steady = 1 \<and> get_partition wm_steady = 0 \<and> is_sliced wm_ops wm_steady" by code_simp
  then show "wm_nr wm_steady = 2" "wm_idx wm_steady = 0" "get_exec_cost wm_steady = 100000" "slice_start wm_steady = 0"
    "get_exec_time wm_steady = 0" "suspend_time wm_steady = 0" "heap_node (rt_param wm_steady)" "\<not> in_heap (rt_param wm_steady)"
    "pid wm_steady = 1" "get_partition wm_steady = 0" "is_sliced wm_ops wm_steady"
    by blast+
  show "wm_budgets wm_steady = (\<lambda>i. 100000)"
    by (rule ext) (simp add: wm_steady_def wm_advance_next_slice_def wm_compute_slice_params_def wm_complete_sliced_job_def
        prepare_for_next_period_def wm_simps wm_sample_simps Let_def rt_simps)
qed

lemma wm_steady_acct: "slice_acct (wm_nr wm_steady) (wm_budgets wm_steady) (wm_idx wm_steady) wm_steady"
proof -
  have "cumulative (\<lambda>i. 100000) 2 = 200000" by simp
  then show ?thesis unfolding slice_acct_def slice_table_ok_def wm_steady_fields by simp
qed

theorem wm_accounting_kept_witness:
  "ok (wm_job_or_slice_completion False (add_exec_time 100000 wm_steady))
     (\<lambda>t'. slice_acct (wm_nr t') (wm_budgets t') (wm_idx t') t')"
proof -
  have fields: "wm_params (add_exec_time 100000 wm_steady) = wm_params wm_steady"
    "wm_idx (add_exec_time 100000 wm_steady) = wm_idx wm_steady"
    "get_exec_cost (add_exec_time 100000 wm_steady) = get_exec_cost wm_steady"
    "slice_start (add_exec_time 100000 wm_steady) = slice_start wm_steady"
    by (simp_all add: add_exec_time_def wm_idx_def rt_simps)
  have acct: "slice_acct (wm_nr (add_exec_time 100000 wm_steady)) (wm_budgets (add_exec_time 100000 wm_steady))
      (wm_idx (add_exec_time 100000 wm_steady)) (add_exec_time 100000 wm_steady)"
    using wm_steady_acct unfolding slice_acct_def fields wm_steady_fields by simp
  have ex: "wm_budget_exhausted (add_exec_time 100000 wm_steady)" by code_simp
  have "wm_job_or_slice_completion False (add_exec_time 100000 wm_steady) \<noteq> None" by code_simp
  then show ?thesis using wm_accounting_kept [OF acct] ex by (auto simp: ok_iff_ex)
qed

text \<open>
  C13: fast-forwarding in EDF-WM under the accounting. If the time a job was suspended fits in what
  is left of its limit, the whole time passes in the current slice: the function returns, with the
  time added to the execution time, and no slice is skipped.
\<close>

theorem wm_fast_forward_slices_correct:
  assumes "slice_acct (wm_nr t) (wm_budgets t) (wm_idx t) t" "unat (get_exec_time t) + unat x < unat (get_exec_cost t)"
  shows "wm_fast_forward_slices x t = Some (add_exec_time x t)" 
  using wm.acct_forward(1) [OF assms] by (simp add: wm_fast_forward_slices_def)

theorem wm_fast_forward_slices_correct_witness:
  "wm_fast_forward_slices 99999 wm_steady = Some (add_exec_time 99999 wm_steady)"
  by (rule wm_fast_forward_slices_correct [OF wm_steady_acct]) (simp add: wm_steady_fields)

text \<open>
  C14: waking up in EDF-WM. A task in no queue whose slices are accounted is woken up without a
  \<^verbatim>\<open>BUG_ON\<close>, provided that its time stamps stay in the window and that the time it slept does not
  overflow its execution time; the invariant of the queues is kept, every other task that is in no
  queue stays there, and no CPU changes its task.
\<close>

theorem wm_task_wake_up_correct:
  assumes "part_inv pl s" "pl t = Nowhere" "edf_ok (tasks s t)"
    "slice_acct (wm_nr (tasks s t)) (wm_budgets (tasks s t)) (wm_idx (tasks s t)) (tasks s t)"
    "unat (get_exec_time (tasks s t)) + unat (now - suspend_time (tasks s t)) < 2 ^ 64"
    "\<And>p. semi_wake_task wm_ops now (tasks s t) = Some p \<Longrightarrow> edf_ok p"
    "\<And>c. scheduled s c = Some t \<Longrightarrow> c = get_partition (tasks s t)"
  shows "ok (wm_task_wake_up t now now' s) (\<lambda>s'. (\<exists>pl'. part_inv pl' s' \<and> others t pl s pl' s') \<and> scheduled s' = scheduled s)"
proof -
  have "heap_node (rt_param (tasks s t))" "\<not> in_heap (rt_param (tasks s t))"
    using assms(2,3) part_invD(6) [OF assms(1)] by (auto simp: edf_ok_def)
  then obtain p where p: "semi_wake_task wm_ops now (tasks s t) = Some p"
    using okE [OF wm.acct_wake [OF assms(4) _ _ assms(5)]] by blast
  show ?thesis
    unfolding wm_task_wake_up_def
    by (rule ok_mono [OF wm.semi_task_wake_up_ok [OF assms(1-3) p assms(6) [OF p] assms(7)]]) auto
qed

theorem wm_task_wake_up_correct_witness:
  "ok (wm_task_wake_up 1 50000 50001 (upd_task 1 (\<lambda>_. wm_steady) wm_sample)) (\<lambda>s'. \<exists>pl'. part_inv pl' s')"
proof -
  let ?s = "upd_task 1 (\<lambda>_. wm_steady) wm_sample"
  have t: "tasks ?s 1 = wm_steady" by simp
  have inv: "part_inv (\<lambda>_. Nowhere) ?s"
    unfolding wm_sample_def
    by (rule part_inv_upd_free [OF sample_state_inv]) (use wm_steady_fields in \<open>simp_all add: sample_simps\<close>)
  have "edf_ok wm_steady" by code_simp
  moreover have "case semi_wake_task wm_ops 50000 wm_steady of None \<Rightarrow> True | Some p \<Rightarrow> edf_ok p" by code_simp
  moreover have "scheduled ?s c = None" for c by (simp add: wm_sample_simps)
  ultimately have "ok (wm_task_wake_up 1 50000 50001 ?s) (\<lambda>s'. (\<exists>pl'. part_inv pl' s' \<and> others 1 (\<lambda>_. Nowhere) ?s pl' s') \<and> scheduled s' = scheduled ?s)"
    by (intro wm_task_wake_up_correct [OF inv]) (simp_all only: t wm_steady_acct, simp_all add: wm_steady_fields)
  then show ?thesis by (rule ok_mono) blast
qed

text \<open>
  C15: what the admission test of EDF-WM guarantees for a sliced task whose windows stay below
  \<open>2 ^ 63\<close> nanoseconds: the slices are between 2 and \<^verbatim>\<open>MAX_EDF_WM_SLICES\<close>, start on the partition of
  the task, are on CPUs that are online and change at every slice; their windows follow one another,
  each holds its budget, and the cost of the task is the sum of the budgets, without overflow and no
  more than the deadline of the last slice.
\<close>

theorem wm_admit_task_sound:
  assumes "wm_admit_task cpu_online t = 0" "wm_is_sliced_task t"
    "\<forall>i < wm_nr t. unat (wm_deadline (wm_slices (wm_params t) i)) < 2 ^ 63 \<and> unat (wm_offset (wm_slices (wm_params t) i)) < 2 ^ 63"
  shows "task_cpu t = get_partition t \<and> 2 \<le> wm_nr t \<and> wm_nr t \<le> MAX_EDF_WM_SLICES \<and> budget_precisely_enforced t \<and>
    get_partition t = wm_cpu (wm_slices (wm_params t) 0) \<and>
    (\<forall>i < wm_nr t. let sl = wm_slices (wm_params t) i
       in cpu_online (wm_cpu sl) \<and> MIN_EDF_WM_SLICE_SIZE \<le> wm_budget sl \<and>
          unat (wm_offset sl) + unat (wm_budget sl) \<le> unat (wm_deadline sl)) \<and>
    (\<forall>i. Suc i < wm_nr t \<longrightarrow>
       (let sl = wm_slices (wm_params t) i; sl' = wm_slices (wm_params t) (Suc i)
        in wm_cpu sl \<noteq> wm_cpu sl' \<and> wm_deadline sl \<le> wm_offset sl')) \<and>
    unat (get_exec_cost t) = cumulative (wm_budgets t) (wm_nr t) \<and>
    cumulative (wm_budgets t) (wm_nr t) \<le> unat (wm_deadline (wm_slices (wm_params t) (wm_nr t - 1)))"
proof -
  have c: "wm_check_params cpu_online t = 0" and cpu: "task_cpu t = get_partition t"
    using assms(1) by (auto simp: wm_admit_task_def EINVAL_def split: if_splits)
  note D = wm_check_paramsD [OF c assms(2)]
  have fits: "unat (wm_offset (wm_slices (wm_params t) i)) + unat (wm_budgets t i) \<le> unat (wm_deadline (wm_slices (wm_params t) i))"
    if "i < wm_nr t" for i
    using window_fits [OF D(8) [OF that] D(9) [OF that]] assms(3) that by blast
  have sum: "cumulative (wm_budgets t) (wm_nr t) \<le> unat (wm_deadline (wm_slices (wm_params t) (wm_nr t - 1)))"
    by (rule cumulative_windows [where o' = "\<lambda>i. unat (wm_offset (wm_slices (wm_params t) i))" and
          d = "\<lambda>i. unat (wm_deadline (wm_slices (wm_params t) i))"])
      (use fits D(1,6) in \<open>auto simp: word_le_nat_alt\<close>)
  also have "\<dots> < 2 ^ 64" by (rule word_64_bound)
  finally have "unat (get_exec_cost t) = cumulative (wm_budgets t) (wm_nr t)"
    unfolding D(4) by (simp add: unat_of_nat take_bit_nat_eq_self)
  then show ?thesis using D cpu fits sum unfolding Let_def by blast
qed

theorem wm_admit_task_sound_witness:
  "wm_admit_task (\<lambda>_. True) (tasks wm_sample 1) = 0 \<and> unat (get_exec_cost (tasks wm_sample 1)) = cumulative (wm_budgets (tasks wm_sample 1)) (wm_nr (tasks wm_sample 1))"
proof -
  have adm: "wm_admit_task (\<lambda>_. True) (tasks wm_sample 1) = 0 \<and> wm_is_sliced_task (tasks wm_sample 1)" by code_simp
  have "\<forall>i < wm_nr (tasks wm_sample 1). unat (wm_deadline (wm_slices (wm_params (tasks wm_sample 1)) i)) < 2 ^ 63 \<and>
    unat (wm_offset (wm_slices (wm_params (tasks wm_sample 1)) i)) < 2 ^ 63"
    by (simp add: wm_sample_simps)
  then show ?thesis using wm_admit_task_sound [of "\<lambda>_. True" "tasks wm_sample 1"] adm by blast
qed

text \<open>
  C16: the guard of EDF-WM against a depleted job reads a field of the C=D plugin, which overlays the
  cached deadline. So a job that has used up its whole cost, at a time stamp of its deadline above
  this cost, does not end when its slice is exhausted: it moves on to the next slice.
\<close>

theorem wm_depleted_job_migrates:
  assumes "wm_is_sliced_task t" "heap_node (rt_param t)" "\<not> in_heap (rt_param t)" "wm_nr t < 2 ^ 32"
    "sp4 (semi_part (rt_param t)) \<le> get_exec_time t" "get_exec_time t < sp3 (semi_part (rt_param t))" "Suc (wm_idx t) < wm_nr t"
  shows "ok (wm_advance_next_slice False t) (\<lambda>t'. wm_idx t' = Suc (wm_idx t) \<and>
    get_partition t' = wm_cpu (wm_slices (wm_params t) (Suc (wm_idx t))) \<and> get_exec_time t' = get_exec_time t)"
proof -
  obtain t' where t': "wm_advance_next_slice False t = Some t'"
    using assms(1-3) by (auto simp: wm_advance_next_slice_def Let_def)
  have "\<not> wm_ends False t" using assms(6,7) by (simp add: wm_ends_def wm_job_ends_def)
  moreover have "unat (of_nat (Suc (wm_idx t)) :: 64 word) = Suc (wm_idx t)"
    using assms(4,7) by (intro unat_of_nat_small) simp
  ultimately show ?thesis
    using wm_advance_step(1) [OF t'] assms(7) t' by (simp add: wm_simps wm_compute_slice_params_def Let_def rt_simps)
qed

theorem wm_depleted_job_migrates_witness:
  "ok (wm_advance_next_slice False (add_exec_time 200000 (wm_start_job (release_at 10 (tasks wm_sample 1)))))
     (\<lambda>t'. get_partition t' = 1 \<and> get_exec_time t' = sp4 (semi_part (rt_param t')))"
proof -
  define t where "t = add_exec_time 200000 (wm_start_job (release_at 10 (tasks wm_sample 1)))"
  have hyps: "wm_is_sliced_task t \<and> heap_node (rt_param t) \<and> \<not> in_heap (rt_param t) \<and>
    sp4 (semi_part (rt_param t)) \<le> get_exec_time t \<and> get_exec_time t < sp3 (semi_part (rt_param t)) \<and> Suc (wm_idx t) < wm_nr t"
    unfolding t_def by code_simp
  have nr: "wm_nr t = 2" "wm_idx t = 0"
    by (simp_all add: t_def add_exec_time_def wm_start_job_def release_at_def prepare_for_next_period_def wm_idx_def wm_sample_simps rt_simps)
  have cpu: "wm_cpu (wm_slices (wm_params t) 1) = 1 \<and> get_exec_time t = 200000 \<and>
    sp4 (semi_part (rt_param (the (wm_advance_next_slice False t)))) = 200000" unfolding t_def by code_simp
  have "ok (wm_advance_next_slice False t) (\<lambda>t'. wm_idx t' = Suc (wm_idx t) \<and>
    get_partition t' = wm_cpu (wm_slices (wm_params t) (Suc (wm_idx t))) \<and> get_exec_time t' = get_exec_time t)"
    by (rule wm_depleted_job_migrates) (use hyps nr in simp_all)
  then show ?thesis using cpu nr unfolding t_def [symmetric] by (auto elim!: okE)
qed

text \<open>
  The first job of a sliced task in EDF-WM. \<^verbatim>\<open>task_new\<close> leaves the limit of the first job at
  the whole cost and the later slices are added to it, so a wake-up takes a sleep that is longer
  than the rest of the last slice for one that fits: an admitted task with two slices of 100000 ns
  that runs its first slice, blocks at the start of the second one and is woken up after 150000 ns
  stops the kernel in \<^verbatim>\<open>fast_forward_slices\<close>.
\<close>

definition wm_first_job :: task_struct where
  "wm_first_job = add_exec_time 100000 (wm_start_job (release_at 10 (tasks wm_sample 1)))"

definition wm_first_job_blocked :: task_struct where
  "wm_first_job_blocked =
     upd_semi (\<lambda>u. u\<lparr>sp1 := 500030\<rparr>) (the (wm_job_or_slice_completion False wm_first_job))"

theorem wm_first_job_bug:
  "wm_admit_task (\<lambda>_. True) (tasks wm_sample 1) = 0 \<and> wm_budget_exhausted wm_first_job \<and>
   wm_idx wm_first_job_blocked = 1 \<and> wm_slice_budget_remaining wm_first_job_blocked = 100000 \<and>
   wm_task_wake_up 1 650030 now' (upd_task 1 (\<lambda>_. wm_first_job_blocked) s) = None"
proof -
  have "semi_wake_task wm_ops 650030 wm_first_job_blocked = None" by code_simp
  then have "wm_task_wake_up 1 650030 now' (upd_task 1 (\<lambda>_. wm_first_job_blocked) s) = None"
    by (auto simp: wm_task_wake_up_def semi_task_wake_up_def Let_def bind_eq_None_conv)
  moreover have "wm_admit_task (\<lambda>_. True) (tasks wm_sample 1) = 0 \<and> wm_budget_exhausted wm_first_job \<and>
    wm_idx wm_first_job_blocked = 1 \<and> wm_slice_budget_remaining wm_first_job_blocked = 100000" by code_simp
  ultimately show ?thesis by blast
qed

end
