(* ===== verification/Cd.thy ===== *)
theory Cd
  imports Slices
begin

text \<open>
  The plugin C=D (\<^verbatim>\<open>litmus/sched_cd.c\<close>): every slice has its own deadline relative to the release of
  the job, but no release of its own, so a job that moves on is ready at once on its next CPU. The
  handlers are the instances of the handlers of \<open>Semi_Partitioned\<close> at the slice operations below.
\<close>

section \<open>Slices\<close>

abbreviation cd_pars :: "task_struct \<Rightarrow> cd_params" where
  "cd_pars t \<equiv> cd (task_params (rt_param t))"

definition cd_idx :: "task_struct \<Rightarrow> nat" where
  "cd_idx t = unat (sp4 (semi_part (rt_param t)))"

abbreviation cd_nr :: "task_struct \<Rightarrow> nat" where
  "cd_nr t \<equiv> cd_count (cd_pars t)"


definition cd_slice_of :: "task_struct \<Rightarrow> cd_slice" where
  "cd_slice_of t = cd_slices (cd_pars t) (cd_idx t)"

definition cd_is_sliced_task :: "task_struct \<Rightarrow> bool" where
  "cd_is_sliced_task t \<longleftrightarrow> cd_count (cd_pars t) \<noteq> 0"

definition cd_get_last_slice :: "task_struct \<Rightarrow> nat" where
  "cd_get_last_slice t = cd_count (cd_pars t) - 1"

definition cd_slice_budget :: "task_struct \<Rightarrow> lt_t" where
  "cd_slice_budget t = cd_budget (cd_slice_of t)"

definition cd_compute_slice_params :: "task_struct \<Rightarrow> task_struct" where
  "cd_compute_slice_params t =
     (let sl = cd_slice_of t;
          t = upd_job (\<lambda>j. j\<lparr>deadline := release j + cd_deadline sl\<rparr>) t;
          t = upd_params (\<lambda>p. p\<lparr>exec_cost := exec_cost p + cd_slice_budget t\<rparr>) t;
          t = upd_params (\<lambda>p. p\<lparr>cpu := cd_cpu sl\<rparr>) t
      in upd_semi (\<lambda>u. u\<lparr>sp0 := get_exec_time t\<rparr>) t)"

definition cd_complete_sliced_job :: "task_struct \<Rightarrow> task_struct" where
  "cd_complete_sliced_job t =
     (let u = semi_part (rt_param t);
          t = upd_job (\<lambda>j. j\<lparr>deadline := sp2 u\<rparr>) t;
          t = upd_params (\<lambda>p. p\<lparr>exec_cost := sp3 u\<rparr>) t;
          t = prepare_for_next_period t
      in upd_semi (\<lambda>u. u\<lparr>sp2 := get_deadline t\<rparr>) t)"

definition cd_slice_exec_time :: "task_struct \<Rightarrow> lt_t" where
  "cd_slice_exec_time t = get_exec_time t - sp0 (semi_part (rt_param t))"

text \<open>The guard against a depleted job: \<open>sp3\<close> is the cost of the job.\<close>

definition cd_job_ends :: "bool \<Rightarrow> task_struct \<Rightarrow> bool" where
  "cd_job_ends completion_signaled t \<longleftrightarrow>
     completion_signaled \<or> sp3 (semi_part (rt_param t)) \<le> get_exec_time t"

definition cd_advance_next_slice :: "bool \<Rightarrow> task_struct \<Rightarrow> task_struct option" where
  "cd_advance_next_slice completion_signaled t = do {
     BUG_ON (\<not> cd_is_sliced_task t);
     BUG_ON (\<not> heap_node (rt_param t));
     BUG_ON (in_heap (rt_param t));
     let idx = cd_idx t;
     let idx = (if cd_job_ends completion_signaled t then 0
                else (idx + 1) mod cd_count (cd_pars t));
     let t = upd_semi (\<lambda>u. u\<lparr>sp4 := of_nat idx\<rparr>) t;
     let t = (if idx = 0
              then upd_params (\<lambda>p. p\<lparr>exec_cost := 0\<rparr>) (cd_complete_sliced_job t)
              else t);
     Some (cd_compute_slice_params t)
   }"

definition cd_start_job :: "task_struct \<Rightarrow> task_struct" where
  "cd_start_job t =
     upd_job (\<lambda>j. j\<lparr>exec_time := 0\<rparr>)
       (upd_semi (\<lambda>u. u\<lparr>sp0 := 0, sp2 := get_deadline t, sp3 := get_exec_cost t, sp4 := 0\<rparr>) t)"

definition cd_rewind :: "lt_t \<Rightarrow> task_struct \<Rightarrow> task_struct" where
  "cd_rewind start t =
     upd_semi (\<lambda>u. u\<lparr>sp2 := start, sp4 := of_nat (cd_get_last_slice t)\<rparr>) t"

definition cd_ops :: slice_ops where
  "cd_ops =
     \<lparr>is_sliced = cd_is_sliced_task,
      slice_budget = cd_slice_budget,
      slice_exec_time = cd_slice_exec_time,
      on_last_slice = (\<lambda>t. cd_idx t = cd_get_last_slice t),
      advance = cd_advance_next_slice,
      start_job = cd_start_job,
      rewind = cd_rewind,
      job_dl = (\<lambda>t. sp2 (semi_part (rt_param t)))\<rparr>"

section \<open>Handlers\<close>

definition cd_slice_budget_exhausted :: "task_struct \<Rightarrow> bool" where
  "cd_slice_budget_exhausted = slice_budget_exhausted cd_ops"

definition cd_slice_budget_remaining :: "task_struct \<Rightarrow> lt_t" where
  "cd_slice_budget_remaining = slice_budget_remaining cd_ops"

definition cd_budget_exhausted :: "task_struct \<Rightarrow> bool" where
  "cd_budget_exhausted = semi_budget_exhausted cd_ops"

definition cd_fast_forward_slices :: "lt_t \<Rightarrow> task_struct \<Rightarrow> task_struct option" where
  "cd_fast_forward_slices = fast_forward_slices cd_ops"

definition cd_job_or_slice_completion :: "bool \<Rightarrow> task_struct \<Rightarrow> task_struct option" where
  "cd_job_or_slice_completion = semi_completion cd_ops"

definition cd_tick :: "tid \<Rightarrow> 'z pstate_scheme \<Rightarrow> 'z pstate_scheme option" where
  "cd_tick = semi_tick cd_ops"

definition cd_schedule ::
  "tid \<Rightarrow> lt_t \<Rightarrow> 'z pstate_scheme \<Rightarrow> (tid option \<times> 'z pstate_scheme) option"
where
  "cd_schedule = semi_schedule cd_ops"

definition cd_task_new ::
  "tid \<Rightarrow> bool \<Rightarrow> lt_t \<Rightarrow> lt_t \<Rightarrow> 'z pstate_scheme \<Rightarrow> 'z pstate_scheme option"
where
  "cd_task_new = semi_task_new cd_ops"

definition cd_release_at :: "lt_t \<Rightarrow> task_struct \<Rightarrow> task_struct option" where
  "cd_release_at = semi_release_at cd_ops"

definition cd_earliest_release :: "lt_t \<Rightarrow> task_struct \<Rightarrow> lt_t" where
  "cd_earliest_release = semi_earliest_release cd_ops"

definition cd_task_wake_up ::
  "tid \<Rightarrow> lt_t \<Rightarrow> lt_t \<Rightarrow> 'z pstate_scheme \<Rightarrow> 'z pstate_scheme option"
where
  "cd_task_wake_up = semi_task_wake_up cd_ops"

definition cd_task_block :: "tid \<Rightarrow> lt_t \<Rightarrow> 'z pstate_scheme \<Rightarrow> 'z pstate_scheme option" where
  "cd_task_block = semi_task_block"

definition cd_task_exit :: "tid \<Rightarrow> 'z pstate_scheme \<Rightarrow> 'z pstate_scheme option" where
  "cd_task_exit = semi_task_exit"

definition init_cd :: "nat \<Rightarrow> 'z pstate_scheme \<Rightarrow> 'z pstate_scheme" where
  "init_cd = init_semi"

section \<open>Admission\<close>

definition cd_check_params :: "(cpu_id \<Rightarrow> bool) \<Rightarrow> task_struct \<Rightarrow> int" where
  "cd_check_params cpu_online t =
     (let n = cd_count (cd_pars t); sl = cd_slices (cd_pars t)
      in if \<not> cd_is_sliced_task t then 0
         else if n = 1 \<or> MAX_CD_SLICES < n then - EINVAL
         else if get_partition t \<noteq> cd_cpu (sl 0) then - EINVAL
         else if get_exec_cost t \<noteq> fold (\<lambda>i tmp. tmp + cd_budget (sl i)) [0..<n] 0 then - EINVAL
         else if list_ex (\<lambda>i. cd_budget (sl i) < MIN_CD_SLICE_SIZE) [0..<n] then - EINVAL
         else if list_ex (\<lambda>i. cd_cpu (sl i) = cd_cpu (sl (i + 1))) [0..<n - 1] then - EINVAL
         else if list_ex (\<lambda>i. \<not> cpu_online (cd_cpu (sl i))) [0..<n] then - EINVAL
         else if \<not> budget_precisely_enforced t then - EINVAL
         else 0)"

definition cd_admit_task :: "(cpu_id \<Rightarrow> bool) \<Rightarrow> task_struct \<Rightarrow> int" where
  "cd_admit_task cpu_online t =
     (if task_cpu t = get_partition t then cd_check_params cpu_online t else - EINVAL)"

section \<open>The slice operations keep their contract\<close>

lemmas cd_simps = cd_ops_def cd_is_sliced_task_def cd_slice_budget_def cd_slice_exec_time_def cd_slice_of_def
  cd_idx_def cd_job_ends_def cd_get_last_slice_def




text \<open>What the advancement does to the task, for the two outcomes.\<close>

definition cd_ends :: "bool \<Rightarrow> task_struct \<Rightarrow> bool" where
  "cd_ends sig t \<longleftrightarrow> cd_job_ends sig t \<or> Suc (cd_idx t) mod cd_nr t = 0"

lemma cd_advance_end:
  assumes "cd_advance_next_slice sig t = Some t'" "cd_ends sig t"
  shows "t' = cd_compute_slice_params (upd_params (\<lambda>p. p\<lparr>exec_cost := 0\<rparr>)
    (cd_complete_sliced_job (upd_semi (\<lambda>u. u\<lparr>sp4 := 0\<rparr>) t)))"
  using assms by (auto simp: cd_advance_next_slice_def cd_ends_def Let_def bind_eq_Some_iff)

lemma cd_advance_step:
  assumes "cd_advance_next_slice sig t = Some t'" "\<not> cd_ends sig t" "cd_idx t < cd_nr t"
  shows "t' = cd_compute_slice_params (upd_semi (\<lambda>u. u\<lparr>sp4 := of_nat (Suc (cd_idx t))\<rparr>) t)" "Suc (cd_idx t) < cd_nr t"
  using assms by (auto simp: cd_advance_next_slice_def cd_ends_def Let_def bind_eq_Some_iff mod_Suc split: if_splits)


section \<open>Properties\<close>

text \<open>A task with two slices, on CPU 0 and CPU 1, and a state where it has been created.\<close>

definition cd_sample_task :: rt_task where
  "cd_sample_task = (sample_rt_task 0 200000 1000000)\<lparr>cd :=
     \<lparr>cd_slices = (\<lambda>i. if i = 0
        then \<lparr>cd_cpu = 0, cd_deadline = 100000, cd_budget = 100000\<rparr>
        else \<lparr>cd_cpu = 1, cd_deadline = 1000000, cd_budget = 100000\<rparr>),
      cd_count = 2\<rparr>\<rparr>"

definition cd_sample :: pstate where
  "cd_sample = sample_state (\<lambda>_. cd_sample_task)"


lemmas cd_sample_simps = cd_sample_def cd_sample_task_def sample_simps




text \<open>
  C18: the advancement of a sliced job in C=D. A job that has used up its cost, or whose completion is
  signalled, or that was in its last slice, ends: the next job starts with its first slice at the
  deadline of the finished job. Otherwise the task moves to the CPU of the next slice with the
  deadline of this slice; its release is kept, so a job that was released stays released and needs
  no release timer on the next CPU.
\<close>

theorem cd_advance_next_slice_correct:
  assumes "cd_is_sliced_task t" "heap_node (rt_param t)" "\<not> in_heap (rt_param t)" "cd_idx t < cd_nr t" "cd_nr t < 2 ^ 32"
  shows "ok (cd_advance_next_slice sig t) (\<lambda>t'.
    if sig \<or> sp3 (semi_part (rt_param t)) \<le> get_exec_time t \<or> Suc (cd_idx t) = cd_nr t then
      cd_idx t' = 0 \<and> job_no (job_params (rt_param t')) = job_no (job_params (rt_param t)) + 1 \<and>
      (let rel = sp2 (semi_part (rt_param t)); sl = cd_slices (cd_pars t) 0
       in sp2 (semi_part (rt_param t')) = rel + get_rt_period t \<and>
          get_release t' = rel \<and> get_deadline t' = rel + cd_deadline sl \<and> get_partition t' = cd_cpu sl \<and>
          get_exec_cost t' = cd_budget sl \<and> get_exec_time t' = 0 \<and> slice_start t' = 0)
    else
      cd_idx t' = Suc (cd_idx t) \<and> job_no (job_params (rt_param t')) = job_no (job_params (rt_param t)) \<and>
      (let sl = cd_slices (cd_pars t) (Suc (cd_idx t))
       in sp2 (semi_part (rt_param t')) = sp2 (semi_part (rt_param t)) \<and>
          (\<forall>now. is_released t' now = is_released t now) \<and> get_deadline t' = get_release t + cd_deadline sl \<and>
          get_partition t' = cd_cpu sl \<and> get_exec_cost t' = get_exec_cost t + cd_budget sl \<and>
          get_exec_time t' = get_exec_time t \<and> slice_start t' = get_exec_time t))"
proof -
  obtain t' where t': "cd_advance_next_slice sig t = Some t'"
    using assms(1-3) by (auto simp: cd_advance_next_slice_def Let_def)
  have ends: "(sig \<or> sp3 (semi_part (rt_param t)) \<le> get_exec_time t \<or> Suc (cd_idx t) = cd_nr t) = cd_ends sig t"
    using assms(4) by (auto simp: cd_ends_def cd_job_ends_def mod_Suc split: if_splits)
  show ?thesis
  proof (cases "cd_ends sig t")
    case True
    show ?thesis
      unfolding ends if_P [OF True] using t' cd_advance_end [OF t' True]
      by (simp add: cd_simps cd_compute_slice_params_def cd_complete_sliced_job_def prepare_for_next_period_def Let_def rt_simps)
  next
    case False
    note step = cd_advance_step [OF t' False assms(4)]
    have "unat (of_nat (Suc (cd_idx t)) :: 64 word) = Suc (cd_idx t)"
      using step(2) assms(5) by (intro unat_of_nat_small) simp
    then show ?thesis
      unfolding ends if_not_P [OF False] using t' step(1) by (simp add: cd_simps cd_compute_slice_params_def is_released_def Let_def rt_simps)
  qed
qed

theorem cd_advance_next_slice_correct_witness:
  "cd_is_sliced_task (tasks cd_sample 1) \<and>
   ok (cd_advance_next_slice True (tasks cd_sample 1)) (\<lambda>t'. get_deadline t' = 100000 \<and> get_exec_cost t' = 100000)"
proof -
  have hyps: "cd_is_sliced_task (tasks cd_sample 1) \<and> heap_node (rt_param (tasks cd_sample 1)) \<and>
    \<not> in_heap (rt_param (tasks cd_sample 1)) \<and> cd_idx (tasks cd_sample 1) < cd_nr (tasks cd_sample 1)" by code_simp
  have nr: "cd_nr (tasks cd_sample 1) = 2" by (simp add: cd_sample_simps)
  have "ok (cd_advance_next_slice True (tasks cd_sample 1)) (\<lambda>t'. get_deadline t' = 100000 \<and> get_exec_cost t' = 100000)"
    by (rule ok_mono [OF cd_advance_next_slice_correct])
      (use hyps nr in \<open>simp_all add: Let_def\<close>, simp add: cd_sample_simps)
  then show ?thesis using hyps by blast
qed

end
