(* ===== verification/Hime.thy ===== *)
theory Hime
  imports Slices
begin

text \<open>
  The plugin HIME (\<^verbatim>\<open>litmus/sched_hime.c\<close>): the slices have budgets only, and a sliced job runs with
  the highest priority, which is the absolute deadline 0. The handlers are the instances of the
  handlers of \<open>Semi_Partitioned\<close> at the slice operations below.
\<close>

section \<open>Slices\<close>

abbreviation hime_pars :: "task_struct \<Rightarrow> hime_params" where
  "hime_pars t \<equiv> hime (task_params (rt_param t))"

definition hime_idx :: "task_struct \<Rightarrow> nat" where
  "hime_idx t = unat (sp4 (semi_part (rt_param t)))"

abbreviation hime_nr :: "task_struct \<Rightarrow> nat" where
  "hime_nr t \<equiv> hime_count (hime_pars t)"


definition hime_slice_of :: "task_struct \<Rightarrow> hime_slice" where
  "hime_slice_of t = hime_slices (hime_pars t) (hime_idx t)"

definition hime_is_sliced_task :: "task_struct \<Rightarrow> bool" where
  "hime_is_sliced_task t \<longleftrightarrow> hime_count (hime_pars t) \<noteq> 0"

definition hime_get_last_slice :: "task_struct \<Rightarrow> nat" where
  "hime_get_last_slice t = hime_count (hime_pars t) - 1"

definition hime_slice_budget :: "task_struct \<Rightarrow> lt_t" where
  "hime_slice_budget t = hime_budget (hime_slice_of t)"

definition hime_compute_slice_params :: "task_struct \<Rightarrow> task_struct" where
  "hime_compute_slice_params t =
     (let sl = hime_slice_of t;
          t = upd_params (\<lambda>p. p\<lparr>exec_cost := exec_cost p + hime_slice_budget t\<rparr>) t;
          t = upd_params (\<lambda>p. p\<lparr>cpu := hime_cpu sl\<rparr>) t
      in upd_semi (\<lambda>u. u\<lparr>sp0 := get_exec_time t\<rparr>) t)"

definition hime_complete_sliced_job :: "task_struct \<Rightarrow> task_struct" where
  "hime_complete_sliced_job t =
     (let u = semi_part (rt_param t);
          t = upd_job (\<lambda>j. j\<lparr>deadline := sp2 u\<rparr>) t;
          t = upd_params (\<lambda>p. p\<lparr>exec_cost := sp3 u\<rparr>) t;
          t = prepare_for_next_period t
      in upd_semi (\<lambda>u. u\<lparr>sp2 := get_deadline t\<rparr>) t)"

definition hime_slice_exec_time :: "task_struct \<Rightarrow> lt_t" where
  "hime_slice_exec_time t = get_exec_time t - sp0 (semi_part (rt_param t))"

text \<open>
  The guard against a depleted job reads the field of the C=D member, which overlays the field of
  the HIME member: \<open>sp3\<close> is the cost of the job.
\<close>

definition hime_job_ends :: "bool \<Rightarrow> task_struct \<Rightarrow> bool" where
  "hime_job_ends completion_signaled t \<longleftrightarrow>
     completion_signaled \<or> sp3 (semi_part (rt_param t)) \<le> get_exec_time t"

text \<open>The real deadline is cached, then the deadline becomes 0.\<close>

definition hime_max_priority :: "task_struct \<Rightarrow> task_struct" where
  "hime_max_priority t =
     upd_job (\<lambda>j. j\<lparr>deadline := 0\<rparr>) (upd_semi (\<lambda>u. u\<lparr>sp2 := get_deadline t\<rparr>) t)"

definition hime_advance_next_slice :: "bool \<Rightarrow> task_struct \<Rightarrow> task_struct option" where
  "hime_advance_next_slice completion_signaled t = do {
     BUG_ON (\<not> hime_is_sliced_task t);
     BUG_ON (\<not> heap_node (rt_param t));
     BUG_ON (in_heap (rt_param t));
     let idx = hime_idx t;
     let idx = (if hime_job_ends completion_signaled t then 0
                else (idx + 1) mod hime_count (hime_pars t));
     let t = upd_semi (\<lambda>u. u\<lparr>sp4 := of_nat idx\<rparr>) t;
     let t = (if idx = 0
              then hime_max_priority (upd_params (\<lambda>p. p\<lparr>exec_cost := 0\<rparr>) (hime_complete_sliced_job t))
              else t);
     Some (hime_compute_slice_params t)
   }"

definition hime_start_job :: "task_struct \<Rightarrow> task_struct" where
  "hime_start_job t =
     upd_job (\<lambda>j. j\<lparr>exec_time := 0\<rparr>)
       (upd_semi (\<lambda>u. u\<lparr>sp0 := 0, sp2 := get_deadline t, sp3 := get_exec_cost t, sp4 := 0\<rparr>) t)"

definition hime_rewind :: "lt_t \<Rightarrow> task_struct \<Rightarrow> task_struct" where
  "hime_rewind start t =
     upd_semi (\<lambda>u. u\<lparr>sp2 := start, sp4 := of_nat (hime_get_last_slice t)\<rparr>) t"

definition hime_ops :: slice_ops where
  "hime_ops =
     \<lparr>is_sliced = hime_is_sliced_task,
      slice_budget = hime_slice_budget,
      slice_exec_time = hime_slice_exec_time,
      on_last_slice = (\<lambda>t. hime_idx t = hime_get_last_slice t),
      advance = hime_advance_next_slice,
      start_job = hime_start_job,
      rewind = hime_rewind,
      job_dl = (\<lambda>t. sp2 (semi_part (rt_param t)))\<rparr>"

section \<open>Handlers\<close>

definition hime_slice_budget_exhausted :: "task_struct \<Rightarrow> bool" where
  "hime_slice_budget_exhausted = slice_budget_exhausted hime_ops"

definition hime_slice_budget_remaining :: "task_struct \<Rightarrow> lt_t" where
  "hime_slice_budget_remaining = slice_budget_remaining hime_ops"

definition hime_budget_exhausted :: "task_struct \<Rightarrow> bool" where
  "hime_budget_exhausted = semi_budget_exhausted hime_ops"

definition hime_fast_forward_slices :: "lt_t \<Rightarrow> task_struct \<Rightarrow> task_struct option" where
  "hime_fast_forward_slices = fast_forward_slices hime_ops"

definition hime_job_or_slice_completion :: "bool \<Rightarrow> task_struct \<Rightarrow> task_struct option" where
  "hime_job_or_slice_completion = semi_completion hime_ops"

definition hime_tick :: "tid \<Rightarrow> 'z pstate_scheme \<Rightarrow> 'z pstate_scheme option" where
  "hime_tick = semi_tick hime_ops"

definition hime_schedule ::
  "tid \<Rightarrow> lt_t \<Rightarrow> 'z pstate_scheme \<Rightarrow> (tid option \<times> 'z pstate_scheme) option"
where
  "hime_schedule = semi_schedule hime_ops"

definition hime_task_new ::
  "tid \<Rightarrow> bool \<Rightarrow> lt_t \<Rightarrow> lt_t \<Rightarrow> 'z pstate_scheme \<Rightarrow> 'z pstate_scheme option"
where
  "hime_task_new = semi_task_new hime_ops"

definition hime_release_at :: "lt_t \<Rightarrow> task_struct \<Rightarrow> task_struct option" where
  "hime_release_at = semi_release_at hime_ops"

definition hime_earliest_release :: "lt_t \<Rightarrow> task_struct \<Rightarrow> lt_t" where
  "hime_earliest_release = semi_earliest_release hime_ops"

definition hime_task_wake_up ::
  "tid \<Rightarrow> lt_t \<Rightarrow> lt_t \<Rightarrow> 'z pstate_scheme \<Rightarrow> 'z pstate_scheme option"
where
  "hime_task_wake_up = semi_task_wake_up hime_ops"

definition hime_task_block :: "tid \<Rightarrow> lt_t \<Rightarrow> 'z pstate_scheme \<Rightarrow> 'z pstate_scheme option" where
  "hime_task_block = semi_task_block"

definition hime_task_exit :: "tid \<Rightarrow> 'z pstate_scheme \<Rightarrow> 'z pstate_scheme option" where
  "hime_task_exit = semi_task_exit"

definition init_hime :: "nat \<Rightarrow> 'z pstate_scheme \<Rightarrow> 'z pstate_scheme" where
  "init_hime = init_semi"

section \<open>Admission\<close>

definition hime_check_params :: "(cpu_id \<Rightarrow> bool) \<Rightarrow> task_struct \<Rightarrow> int" where
  "hime_check_params cpu_online t =
     (let n = hime_count (hime_pars t); sl = hime_slices (hime_pars t)
      in if \<not> hime_is_sliced_task t then 0
         else if n = 1 \<or> MAX_HIME_SLICES < n then - EINVAL
         else if get_partition t \<noteq> hime_cpu (sl 0) then - EINVAL
         else if get_exec_cost t \<noteq> fold (\<lambda>i tmp. tmp + hime_budget (sl i)) [0..<n] 0 then - EINVAL
         else if list_ex (\<lambda>i. hime_budget (sl i) < MIN_HIME_SLICE_SIZE) [0..<n] then - EINVAL
         else if list_ex (\<lambda>i. hime_cpu (sl i) = hime_cpu (sl (i + 1))) [0..<n - 1] then - EINVAL
         else if list_ex (\<lambda>i. \<not> cpu_online (hime_cpu (sl i))) [0..<n] then - EINVAL
         else if \<not> budget_precisely_enforced t then - EINVAL
         else 0)"

definition hime_admit_task :: "(cpu_id \<Rightarrow> bool) \<Rightarrow> task_struct \<Rightarrow> int" where
  "hime_admit_task cpu_online t =
     (if task_cpu t = get_partition t then hime_check_params cpu_online t else - EINVAL)"

section \<open>The slice operations keep their contract\<close>

lemmas hime_simps = hime_ops_def hime_is_sliced_task_def hime_slice_budget_def hime_slice_exec_time_def hime_slice_of_def
  hime_idx_def hime_job_ends_def hime_get_last_slice_def

lemma hime_slice_frame:
  "task_frame t (hime_compute_slice_params t)" "task_frame t (hime_complete_sliced_job t)"
  "task_frame t (hime_max_priority t)"
  by (simp_all add: task_frame_def hime_compute_slice_params_def hime_complete_sliced_job_def hime_max_priority_def Let_def
      prepare_for_next_period_def rt_simps)

lemma hime_advance_frame: "hime_advance_next_slice b t = Some t' \<Longrightarrow> task_frame t t'"
  unfolding hime_advance_next_slice_def
  by (auto simp: Let_def bind_eq_Some_iff
      intro!: task_frame_trans [OF _ hime_slice_frame(1)] task_frame_trans [OF _ hime_slice_frame(2)] task_frame_trans [OF _ hime_slice_frame(3)]
        task_frame_trans [OF _ task_frame_job(6)])


text \<open>What the advancement does to the task, for the two outcomes.\<close>

definition hime_ends :: "bool \<Rightarrow> task_struct \<Rightarrow> bool" where
  "hime_ends sig t \<longleftrightarrow> hime_job_ends sig t \<or> Suc (hime_idx t) mod hime_nr t = 0"

lemma hime_advance_end:
  assumes "hime_advance_next_slice sig t = Some t'" "hime_ends sig t"
  shows "t' = hime_compute_slice_params (hime_max_priority (upd_params (\<lambda>p. p\<lparr>exec_cost := 0\<rparr>)
    (hime_complete_sliced_job (upd_semi (\<lambda>u. u\<lparr>sp4 := 0\<rparr>) t))))"
  using assms by (auto simp: hime_advance_next_slice_def hime_ends_def Let_def bind_eq_Some_iff)

lemma hime_advance_step:
  assumes "hime_advance_next_slice sig t = Some t'" "\<not> hime_ends sig t" "hime_idx t < hime_nr t"
  shows "t' = hime_compute_slice_params (upd_semi (\<lambda>u. u\<lparr>sp4 := of_nat (Suc (hime_idx t))\<rparr>) t)" "Suc (hime_idx t) < hime_nr t"
  using assms by (auto simp: hime_advance_next_slice_def hime_ends_def Let_def bind_eq_Some_iff mod_Suc split: if_splits)


section \<open>Properties\<close>

text \<open>A task with two slices, on CPU 0 and CPU 1, and a state where it has been created.\<close>

definition hime_sample_task :: rt_task where
  "hime_sample_task = (sample_rt_task 0 200000 1000000)\<lparr>hime :=
     \<lparr>hime_slices = (\<lambda>i. if i = 0
        then \<lparr>hime_cpu = 0, hime_budget = 100000\<rparr>
        else \<lparr>hime_cpu = 1, hime_budget = 100000\<rparr>),
      hime_count = 2\<rparr>\<rparr>"

definition hime_sample :: pstate where
  "hime_sample = sample_state (\<lambda>_. hime_sample_task)"


lemmas hime_sample_simps = hime_sample_def hime_sample_task_def sample_simps




text \<open>
  C20: the advancement of a sliced job in HIME. A job that has used up its cost, or whose completion is
  signalled, or that was in its last slice, ends: the next job is released at the deadline of the
  finished job, which is cached, and starts with its first slice at the deadline 0. Otherwise the
  task moves to the CPU of the next slice; release and deadline are kept.
\<close>

theorem hime_advance_next_slice_correct:
  assumes "hime_is_sliced_task t" "heap_node (rt_param t)" "\<not> in_heap (rt_param t)" "hime_idx t < hime_nr t" "hime_nr t < 2 ^ 32"
  shows "ok (hime_advance_next_slice sig t) (\<lambda>t'.
    if sig \<or> sp3 (semi_part (rt_param t)) \<le> get_exec_time t \<or> Suc (hime_idx t) = hime_nr t then
      hime_idx t' = 0 \<and> job_no (job_params (rt_param t')) = job_no (job_params (rt_param t)) + 1 \<and>
      (let rel = sp2 (semi_part (rt_param t)); sl = hime_slices (hime_pars t) 0
       in sp2 (semi_part (rt_param t')) = rel + get_rt_period t \<and>
          get_release t' = rel \<and> get_deadline t' = 0 \<and> get_partition t' = hime_cpu sl \<and>
          get_exec_cost t' = hime_budget sl \<and> get_exec_time t' = 0 \<and> slice_start t' = 0)
    else
      hime_idx t' = Suc (hime_idx t) \<and> job_no (job_params (rt_param t')) = job_no (job_params (rt_param t)) \<and>
      (let sl = hime_slices (hime_pars t) (Suc (hime_idx t))
       in sp2 (semi_part (rt_param t')) = sp2 (semi_part (rt_param t)) \<and>
          get_release t' = get_release t \<and> get_deadline t' = get_deadline t \<and>
          get_partition t' = hime_cpu sl \<and> get_exec_cost t' = get_exec_cost t + hime_budget sl \<and>
          get_exec_time t' = get_exec_time t \<and> slice_start t' = get_exec_time t))"
proof -
  obtain t' where t': "hime_advance_next_slice sig t = Some t'"
    using assms(1-3) by (auto simp: hime_advance_next_slice_def Let_def)
  have ends: "(sig \<or> sp3 (semi_part (rt_param t)) \<le> get_exec_time t \<or> Suc (hime_idx t) = hime_nr t) = hime_ends sig t"
    using assms(4) by (auto simp: hime_ends_def hime_job_ends_def mod_Suc split: if_splits)
  show ?thesis
  proof (cases "hime_ends sig t")
    case True
    show ?thesis
      unfolding ends if_P [OF True] using t' hime_advance_end [OF t' True]
      by (simp add: hime_simps hime_compute_slice_params_def hime_complete_sliced_job_def hime_max_priority_def
          prepare_for_next_period_def Let_def rt_simps)
  next
    case False
    note step = hime_advance_step [OF t' False assms(4)]
    have "unat (of_nat (Suc (hime_idx t)) :: 64 word) = Suc (hime_idx t)"
      using step(2) assms(5) by (intro unat_of_nat_small) simp
    then show ?thesis
      unfolding ends if_not_P [OF False] using t' step(1) by (simp add: hime_simps hime_compute_slice_params_def Let_def rt_simps)
  qed
qed

theorem hime_advance_next_slice_correct_witness:
  "hime_is_sliced_task (tasks hime_sample 1) \<and>
   ok (hime_advance_next_slice True (tasks hime_sample 1)) (\<lambda>t'. get_deadline t' = 0 \<and> get_exec_cost t' = 100000)"
proof -
  have hyps: "hime_is_sliced_task (tasks hime_sample 1) \<and> heap_node (rt_param (tasks hime_sample 1)) \<and>
    \<not> in_heap (rt_param (tasks hime_sample 1)) \<and> hime_idx (tasks hime_sample 1) < hime_nr (tasks hime_sample 1)" by code_simp
  have nr: "hime_nr (tasks hime_sample 1) = 2" by (simp add: hime_sample_simps)
  have "ok (hime_advance_next_slice True (tasks hime_sample 1)) (\<lambda>t'. get_deadline t' = 0 \<and> get_exec_cost t' = 100000)"
    by (rule ok_mono [OF hime_advance_next_slice_correct])
      (use hyps nr in \<open>simp_all add: Let_def\<close>, simp add: hime_sample_simps)
  then show ?thesis using hyps by blast
qed

text \<open>
  The priority of sliced tasks in HIME. From its second job on (that is, once a job of it has
  ended), a sliced task has a higher EDF priority than every task whose deadline lies after the
  origin of the clock within half its range.
\<close>

theorem hime_sliced_highest_priority:
  assumes "hime_advance_next_slice True t = Some t'" "ts f = t'" "inh_task (rt_param t) = None" "f \<noteq> g"
    "inh_task (rt_param (ts g)) = None" "0 < get_deadline (ts g)" "unat (get_deadline (ts g)) < 2 ^ 63"
  shows "edf_higher_prio ts (Some f) (Some g)"
proof -
  have "hime_ends True t" by (simp add: hime_ends_def hime_job_ends_def)
  then have dl: "get_deadline t' = 0"
    using hime_advance_end [OF assms(1)]
    by (simp add: hime_compute_slice_params_def hime_max_priority_def Let_def rt_simps)
  have inh: "inh_task (rt_param t') = None" using hime_advance_frame [OF assms(1)] assms(3) by (simp add: task_frame_def)
  have "lt_before 0 (get_deadline (ts g))" using assms(6,7) by (subst lt_before_small) simp_all
  then show ?thesis
    unfolding edf_higher_prio_Some using assms(2,4,5) dl inh by (simp add: eff_def earlier_deadline_def)
qed

theorem hime_sliced_highest_priority_witness:
  "edf_higher_prio (\<lambda>t. if t = 1 then the (hime_advance_next_slice True (tasks hime_sample 1)) else release_at 10 (tasks hime_sample 2))
     (Some 1) (Some 2)"
proof -
  have ex: "hime_advance_next_slice True (tasks hime_sample 1) \<noteq> None" by code_simp
  have "0 < get_deadline (release_at 10 (tasks hime_sample 2)) \<and> inh_task (rt_param (release_at 10 (tasks hime_sample 2))) = None \<and>
    inh_task (rt_param (tasks hime_sample 1)) = None" by code_simp
  moreover have "get_deadline (release_at 10 (tasks hime_sample 2)) = 1000010"
    by (simp add: release_at_def prepare_for_next_period_def hime_sample_simps rt_simps)
  ultimately show ?thesis
    using ex by (intro hime_sliced_highest_priority [where t = "tasks hime_sample 1"]) auto
qed

text \<open>
  The first job of a sliced task in HIME is not given the highest priority: it keeps the deadline
  of its period.
\<close>

theorem hime_first_job_deadline:
  "get_deadline (hime_start_job (release_at now t)) = now + get_rt_period t"
  by (simp add: hime_start_job_def release_at_def prepare_for_next_period_def rt_simps)

end
