(* ===== verification/Edf_Fm.thy ===== *)
theory Edf_Fm
  imports Semi_Partitioned Sample_State
begin

text \<open>
  The plugin EDF-fm (\<^verbatim>\<open>litmus/sched_edf_fm.c\<close>): a migratory task runs whole jobs on one of two CPUs,
  and its jobs are distributed over them by the fractions of its load. The ready queues of the
  domains are set up by \<^verbatim>\<open>edf_domain_init\<close>, so they are in EDF order, while the test for a
  preemption uses the order of EDF-fm; the domains have no callback of their own
  (\<open>dummy_resched\<close>).

  \<^verbatim>\<open>insert_task_in_remote_ready\<close> gives up the lock of its CPU to take both locks in order; here the
  handlers that call it are one step.
\<close>

section \<open>Migratory tasks\<close>

abbreviation fm_params :: "task_struct \<Rightarrow> edffm_params" where
  "fm_params t \<equiv> fm (task_params (rt_param t))"

abbreviation fm_on_first :: "task_struct \<Rightarrow> bool" where
  "fm_on_first t \<equiv> get_partition t = fm_cpus (fm_params t) 0"

definition is_migrat_task :: "task_struct \<Rightarrow> bool" where
  "is_migrat_task t \<longleftrightarrow> nr_cpus (fm_params t) \<noteq> 0"

definition fm_wrong_cpu :: "task_struct \<Rightarrow> bool" where
  "fm_wrong_cpu t \<longleftrightarrow> is_migrat_task t \<and> task_cpu t \<noteq> get_partition t"

definition migrat_next_cpu :: "task_struct \<Rightarrow> cpu_id" where
  "migrat_next_cpu t = (if fm_on_first t then fm_cpus (fm_params t) 1 else fm_cpus (fm_params t) 0)"

definition migrat_cur_cpu :: "task_struct \<Rightarrow> cpu_id" where
  "migrat_cur_cpu t = (if fm_on_first t then fm_cpus (fm_params t) 0 else fm_cpus (fm_params t) 1)"

definition cur_cpu_fract_num :: "task_struct \<Rightarrow> lt_t" where
  "cur_cpu_fract_num t = (if fm_on_first t then fraction (fm_params t) 0 0 else fraction (fm_params t) 0 1)"

definition cur_cpu_fract_den :: "task_struct \<Rightarrow> lt_t" where
  "cur_cpu_fract_den t = (if fm_on_first t then fraction (fm_params t) 1 0 else fraction (fm_params t) 1 1)"

definition cur_cpu_job_no :: "task_struct \<Rightarrow> 32 word" where
  "cur_cpu_job_no t =
     (if fm_on_first t then cpu_job_no (semi_part (rt_param t)) 0 else cpu_job_no (semi_part (rt_param t)) 1)"

definition edffm_cpu_pos :: "cpu_id \<Rightarrow> task_struct \<Rightarrow> nat" where
  "edffm_cpu_pos c t = (if c = fm_cpus (fm_params t) 0 then 0 else 1)"

section \<open>Priorities and preemption\<close>

definition edffm_higher_prio :: "(tid \<Rightarrow> task_struct) \<Rightarrow> tid option \<Rightarrow> tid option \<Rightarrow> bool" where
  "edffm_higher_prio ts first second =
     (let mig = (\<lambda>x. case x of None \<Rightarrow> False | Some t \<Rightarrow> nr_cpus (fm_params (ts t)) \<noteq> 0)
      in if mig first \<or> mig second
         then if mig first \<and> mig second then edf_higher_prio ts first second
              else mig first
         else edf_higher_prio ts first second)"

definition edffm_preemption_needed ::
  "nat \<Rightarrow> tid option \<Rightarrow> 'z kstate_scheme \<Rightarrow> bool \<times> 'z kstate_scheme"
where
  "edffm_preemption_needed d t s =
     (if \<not> jobs_pending d s then (False, s)
      else case t of
             None \<Rightarrow> (True, s)
           | Some t \<Rightarrow>
               if \<not> is_realtime (tasks s t) then (True, s)
               else let (r, s') = next_ready edf_ready_order d s
                    in (edffm_higher_prio (tasks s') r (Some t), s'))"

definition edffm_preempt :: "cpu_id \<Rightarrow> 'z pstate_scheme \<Rightarrow> 'z pstate_scheme" where
  "edffm_preempt c s = preempt_if_preemptable (scheduled s c) c s"

definition edffm_release_jobs :: "nat \<Rightarrow> tid \<Rightarrow> 'z pstate_scheme \<Rightarrow> 'z pstate_scheme" where
  "edffm_release_jobs d r s =
     (let s = merge_ready edf_ready_order dummy_resched d r s;
          (needed, s) = edffm_preemption_needed d (scheduled s d) s
      in if needed then edffm_preempt d s else s)"

section \<open>Queueing\<close>

definition edffm_add_release_remote :: "tid \<Rightarrow> 'z pstate_scheme \<Rightarrow> 'z pstate_scheme option" where
  "edffm_add_release_remote t s = do {
     let d = get_partition (tasks s t);
     let s = upd_dom d (\<lambda>D. D\<lparr>release_master := Some (get_partition (tasks s t))\<rparr>) s;
     s \<leftarrow> add_release edf_ready_order d t s;
     Some (upd_dom d (\<lambda>D. D\<lparr>release_master := None\<rparr>) s)
   }"

definition insert_task_in_remote_ready :: "tid \<Rightarrow> 'z pstate_scheme \<Rightarrow> 'z pstate_scheme option" where
  "insert_task_in_remote_ready t s = do {
     let remote = get_partition (tasks s t);
     s \<leftarrow> add_ready edf_ready_order dummy_resched remote t s;
     Some (edffm_preempt remote s)
   }"

definition edffm_requeue :: "nat \<Rightarrow> tid \<Rightarrow> lt_t \<Rightarrow> 'z pstate_scheme \<Rightarrow> 'z pstate_scheme option" where
  "edffm_requeue d t now s =
     (let s = upd_task t (set_rt_flags RT_F_RUNNING) s
      in if is_released (tasks s t) now
         then if fm_wrong_cpu (tasks s t) then insert_task_in_remote_ready t s
              else add_ready edf_ready_order dummy_resched d t s
         else if fm_wrong_cpu (tasks s t) then edffm_add_release_remote t s
              else add_release edf_ready_order d t s)"

section \<open>The distribution of the jobs\<close>

definition update_job_counter :: "task_struct \<Rightarrow> task_struct" where
  "update_job_counter t =
     (let pos = edffm_cpu_pos (get_partition t) t
      in upd_semi (\<lambda>u. u\<lparr>cpu_job_no := (cpu_job_no u)(pos := cpu_job_no u pos + 1)\<rparr>) t)"

text \<open>A division by zero stops the kernel, too.\<close>

definition next_cpu_for_job :: "task_struct \<Rightarrow> cpu_id option" where
  "next_cpu_for_job t = do {
     BUG_ON (\<not> is_migrat_task t);
     BUG_ON (cur_cpu_fract_num t = 0);
     Some (if ucast (job_no (job_params (rt_param t))) =
              (ucast (cur_cpu_job_no t) * cur_cpu_fract_den t) div cur_cpu_fract_num t
           then fm_cpus (fm_params t) 0 else fm_cpus (fm_params t) 1)
   }"

definition change_migrat_cpu_if_needed :: "task_struct \<Rightarrow> task_struct option" where
  "change_migrat_cpu_if_needed t = do {
     BUG_ON (\<not> is_migrat_task t);
     c \<leftarrow> next_cpu_for_job t;
     Some (if c \<noteq> migrat_cur_cpu t then upd_params (\<lambda>p. p\<lparr>cpu := migrat_next_cpu t\<rparr>) t else t)
   }"

definition edffm_count_job :: "task_struct \<Rightarrow> task_struct option" where
  "edffm_count_job t =
     (if is_migrat_task t then change_migrat_cpu_if_needed (update_job_counter t) else Some t)"

definition edffm_job_completion :: "task_struct \<Rightarrow> task_struct option" where
  "edffm_job_completion t = do {
     t \<leftarrow> edffm_count_job t;
     Some (prepare_for_next_period (set_rt_flags RT_F_SLEEP t))
   }"

section \<open>Handlers\<close>

definition edffm_tick :: "tid \<Rightarrow> 'z pstate_scheme \<Rightarrow> 'z pstate_scheme option" where
  "edffm_tick t s = do {
     BUG_ON (is_realtime (tasks s t) \<and> scheduled s (this_cpu s) \<noteq> Some t);
     Some (if is_realtime (tasks s t) \<and> budget_enforced (tasks s t) \<and> budget_exhausted (tasks s t)
           then set_tsk_need_resched t s else s)
   }"

definition edffm_schedule ::
  "tid \<Rightarrow> lt_t \<Rightarrow> 'z pstate_scheme \<Rightarrow> (tid option \<times> 'z pstate_scheme) option"
where
  "edffm_schedule prev now s = do {
     let c = this_cpu s;
     BUG_ON (scheduled s c \<noteq> None \<and> scheduled s c \<noteq> Some prev);
     BUG_ON (scheduled s c \<noteq> None \<and> \<not> is_realtime (tasks s prev));
     let exsts = (scheduled s c \<noteq> None);
     let blocks = on_sched c (\<lambda>t. \<not> is_running t) s;
     let out_of_time = on_sched c (\<lambda>t. budget_enforced t \<and> budget_exhausted t) s;
     let sleep = on_sched c (\<lambda>t. get_rt_flags t = RT_F_SLEEP) s;
     let change_cpu = on_sched c fm_wrong_cpu s;
     let (preempt, s) = edffm_preemption_needed c (Some prev) s;
     BUG_ON (blocks \<and> change_cpu);
     let completes = ((out_of_time \<or> sleep) \<and> \<not> blocks);
     s \<leftarrow> (if completes then upd_sched_opt c edffm_job_completion s else Some s);
     let resched = (preempt \<or> blocks \<or> change_cpu \<or> completes);
     (nxt, s) \<leftarrow>
       (if resched \<or> \<not> exsts then do {
          s \<leftarrow> (case scheduled s c of
                  Some t \<Rightarrow> if \<not> blocks then edffm_requeue c t now s else Some s
                | None \<Rightarrow> Some s);
          Some (take_ready edf_ready_order c s)
        } else Some (if exsts then Some prev else None, s));
     Some (nxt, set_scheduled c nxt s)
   }"

definition edffm_task_new ::
  "tid \<Rightarrow> bool \<Rightarrow> lt_t \<Rightarrow> lt_t \<Rightarrow> 'z pstate_scheme \<Rightarrow> 'z pstate_scheme option"
where
  "edffm_task_new t running now now' s = do {
     let c = get_partition (tasks s t);
     let s = upd_task t (release_at now) s;
     let s = upd_task t update_job_counter s;
     (if running then do {
        BUG_ON (scheduled s c \<noteq> None);
        Some (s\<lparr>scheduled := (scheduled s)(c := Some t)\<rparr>)
      } else do {
        s \<leftarrow> edffm_requeue c t now' s;
        Some (edffm_preempt c s)
      })
   }"

text \<open>The part of the wake-up that updates the task.\<close>

definition edffm_wake_task :: "lt_t \<Rightarrow> task_struct \<Rightarrow> task_struct option" where
  "edffm_wake_task now t =
     (if is_tardy t now then map_option (release_at now) (edffm_count_job t) else Some t)"

definition edffm_task_wake_up ::
  "tid \<Rightarrow> lt_t \<Rightarrow> lt_t \<Rightarrow> 'z pstate_scheme \<Rightarrow> 'z pstate_scheme option"
where
  "edffm_task_wake_up t now now' s = do {
     let c = get_partition (tasks s t);
     q \<leftarrow> is_queued t s;
     BUG_ON q;
     p \<leftarrow> edffm_wake_task now (tasks s t);
     let s = upd_task t (\<lambda>_. p) s;
     (if scheduled s c \<noteq> Some t then edffm_requeue c t now' s else Some s)
   }"

definition edffm_task_block :: "tid \<Rightarrow> 'z pstate_scheme \<Rightarrow> 'z pstate_scheme option" where
  "edffm_task_block t s = do {
     BUG_ON (\<not> is_realtime (tasks s t));
     q \<leftarrow> is_queued t s;
     (if q then remove_rt edf_ready_order (this_cpu s) t s else Some s)
   }"

definition edffm_task_exit :: "tid \<Rightarrow> 'z pstate_scheme \<Rightarrow> 'z pstate_scheme option" where
  "edffm_task_exit t s = do {
     let c = get_partition (tasks s t);
     q \<leftarrow> is_queued t s;
     s \<leftarrow> (if q then remove_rt edf_ready_order c t s else Some s);
     let s = (if scheduled s c = Some t then s\<lparr>scheduled := (scheduled s)(c := None)\<rparr> else s);
     Some (edffm_preempt c s)
   }"

definition edffm_admit_task :: "task_struct \<Rightarrow> int" where
  "edffm_admit_task t = (if task_cpu t = cpu (task_params (rt_param t)) then 0 else - EINVAL)"

fun init_edffm :: "nat \<Rightarrow> 'z pstate_scheme \<Rightarrow> 'z pstate_scheme" where
  "init_edffm 0 s = s"
| "init_edffm (Suc n) s =
     (let s = init_edffm n s;
          s = s\<lparr>scheduled := (scheduled s)(n := None)\<rparr>
      in edf_domain_init n s)"

section \<open>The test for a preemption\<close>






section \<open>Queueing keeps the invariant\<close>







section \<open>The scheduler\<close>




lemma edffm_higher_prio_flags [simp]:
  "edffm_higher_prio (ts(t := set_rt_flags f (ts t))) a b = edffm_higher_prio ts a b"
proof -
  have *: "nr_cpus (fm_params ((ts(t := set_rt_flags f (ts t))) x)) = nr_cpus (fm_params (ts x))" for x
    by (simp add: rt_simps)
  have "eff (ts(t := set_rt_flags f (ts t))) z = eff ts z" for z by (simp add: eff_def rt_simps)
  then have "edf_higher_prio (ts(t := set_rt_flags f (ts t))) a b = edf_higher_prio ts a b"
    by (cases a; cases b) (simp_all add: edf_higher_prio_Some earlier_deadline_def rt_simps)
  then show ?thesis unfolding edffm_higher_prio_def * by (cases a; cases b) (simp_all only: Let_def option.case * )
qed




lemma set_scheduled_params [simp]:
  "task_params (rt_param (tasks (set_scheduled c nxt s) x)) = task_params (rt_param (tasks s x))"
  by (auto simp: set_scheduled_def Let_def rt_simps split: option.splits)



section \<open>The other handlers\<close>

text \<open>The invariant: in addition to that of the queues, a fixed task is scheduled on its own CPU only.\<close>

definition fm_home :: "cpu_id \<Rightarrow> task_struct \<Rightarrow> bool" where
  "fm_home c t \<longleftrightarrow> is_migrat_task t \<or> get_partition t = c"

definition fm_inv :: "(tid \<Rightarrow> place) \<Rightarrow> 'z pstate_scheme \<Rightarrow> bool" where
  "fm_inv pl s \<longleftrightarrow> part_inv pl s \<and> (\<forall>c t. scheduled s c = Some t \<longrightarrow> fm_home c (tasks s t))"






lemma update_job_counter_frame [simp]:
  "task_frame t (update_job_counter t') = task_frame t t'" "edf_ok (update_job_counter t) = edf_ok t"
  "task_params (rt_param (update_job_counter t)) = task_params (rt_param t)"
  "get_partition (update_job_counter t) = get_partition t"
  by (simp_all add: update_job_counter_def Let_def task_frame_def edf_ok_def rt_simps)

lemma release_at_params [simp]:
  "task_params (rt_param (release_at now t)) = task_params (rt_param t)"
  "get_partition (release_at now t) = get_partition t"
  by (simp_all add: release_at_def prepare_for_next_period_def rt_simps)





section \<open>The plugin as a state machine\<close>

fun fm_exec :: "plugin_call \<Rightarrow> pstate \<Rightarrow> pstate option" where
  "fm_exec (Schedule c now idle) s =
     map_option (switch_to c idle) (edffm_schedule (curr s c) now (s\<lparr>this_cpu := c\<rparr>))"
| "fm_exec (ReleaseTimer c r) s = Some (on_release_timer edffm_release_jobs r (s\<lparr>this_cpu := c\<rparr>))"
| "fm_exec (TaskNew c t running now now') s = edffm_task_new t running now now' (s\<lparr>this_cpu := c\<rparr>)"
| "fm_exec (WakeUp c t now now') s = edffm_task_wake_up t now now' (s\<lparr>this_cpu := c\<rparr>)"
| "fm_exec (Block c t) s = edffm_task_block t (s\<lparr>this_cpu := c\<rparr>)"
| "fm_exec (Exit c t) s = edffm_task_exit t (s\<lparr>this_cpu := c\<rparr>)"
| "fm_exec (Tick c) s = edffm_tick (curr s c) (s\<lparr>this_cpu := c\<rparr>)"
| "fm_exec (Linux t f) s = Some (upd_task t f s)"



lemma fm_inv_this_cpu [simp]:
  "fm_inv pl (s\<lparr>this_cpu := c\<rparr>) = fm_inv pl s" "fm_inv pl (s\<lparr>curr := f\<rparr>) = fm_inv pl s"
  by (simp_all add: fm_inv_def)





section \<open>Properties\<close>


text \<open>A migratory task (1) and a fixed one (2) with an earlier deadline become ready on CPU 0.\<close>

definition fm_sample_params :: "tid \<Rightarrow> rt_task" where
  "fm_sample_params t = (sample_rt_task 0 100 (if t = 2 then 500 else 900))\<lparr>fm := \<lparr>fm_cpus = (\<lambda>i. i),
     nr_cpus = if t = 1 then 2 else 0, fraction = (\<lambda>r c. if r = 0 then 1 else 2)\<rparr>\<rparr>"

definition fm_sample0 :: pstate where
  "fm_sample0 = sample_state fm_sample_params"

definition fm_sample1 :: pstate where
  "fm_sample1 = the (fm_exec (TaskNew 0 1 False 10 20) fm_sample0)"

definition fm_sample2 :: pstate where
  "fm_sample2 = the (fm_exec (TaskNew 0 2 False 30 40) fm_sample1)"





text \<open>
  The scheduler of EDF-fm takes the first job in EDF order, not in its own order: with a ready
  migratory job, which has the higher priority in EDF-fm, and a ready fixed job with an earlier
  deadline, the fixed job is chosen.
\<close>

theorem fm_fixed_before_migratory:
  "edffm_higher_prio (tasks fm_sample2) (Some 1) (Some 2) \<and> is_queued 1 fm_sample2 = Some True \<and>
   get_partition (tasks fm_sample2 1) = 0 \<and> fst (the (edffm_schedule 0 50 fm_sample2)) = Some 2"
  by code_simp

text \<open>
  C25: a wake-up in EDF-fm asks for no preemption. A job that is released when its task is woken up,
  and that stays on its CPU, is only put in the ready queue: no inter-processor interrupt is sent and no task is
  asked to reschedule, whatever the priority of the job.
\<close>

theorem edffm_wake_up_no_preemption:
  assumes "edffm_task_wake_up t now now' s = Some s'" "edffm_wake_task now (tasks s t) = Some p"
    "\<not> fm_wrong_cpu p" "is_released p now'"
  shows "ipis s' = ipis s \<and> (\<forall>x. need_resched (tasks s' x) = (if x = t then need_resched p else need_resched (tasks s x)))"
  using assms
  by (auto simp: edffm_task_wake_up_def edffm_requeue_def fm_wrong_cpu_def is_migrat_task_def is_released_def add_ready_def
      dummy_resched_def bind_eq_Some_iff Let_def rt_simps split: if_splits)

definition fm_sample_busy :: pstate where
  "fm_sample_busy = fm_sample0\<lparr>scheduled := (\<lambda>_. None)(0 := Some 3)\<rparr>"

theorem edffm_wake_up_no_preemption_witness:
  "ipis (the (edffm_task_wake_up 2 5000 5000 fm_sample_busy)) = [] \<and>
   \<not> need_resched (tasks (the (edffm_task_wake_up 2 5000 5000 fm_sample_busy)) 3)"
proof -
  have ev: "edffm_task_wake_up 2 5000 5000 fm_sample_busy \<noteq> None \<and>
    edffm_wake_task 5000 (tasks fm_sample_busy 2) = Some (release_at 5000 (tasks fm_sample_busy 2)) \<and>
    \<not> fm_wrong_cpu (release_at 5000 (tasks fm_sample_busy 2)) \<and> is_released (release_at 5000 (tasks fm_sample_busy 2)) 5000 \<and>
    ipis fm_sample_busy = [] \<and> \<not> need_resched (tasks fm_sample_busy 3)"
  proof (intro conjI)
    show "edffm_task_wake_up 2 5000 5000 fm_sample_busy \<noteq> None" by code_simp
    show "edffm_wake_task 5000 (tasks fm_sample_busy 2) = Some (release_at 5000 (tasks fm_sample_busy 2))"
      by (simp add: edffm_wake_task_def edffm_count_job_def is_migrat_task_def is_tardy_def fm_sample_busy_def fm_sample0_def
          fm_sample_params_def sample_simps rt_simps lt_before_eq_def lt_after_eq_def)
    show "\<not> fm_wrong_cpu (release_at 5000 (tasks fm_sample_busy 2))"
      "is_released (release_at 5000 (tasks fm_sample_busy 2)) 5000"
      "ipis fm_sample_busy = []" "\<not> need_resched (tasks fm_sample_busy 3)" by code_simp+
  qed
  then obtain s' where s': "edffm_task_wake_up 2 5000 5000 fm_sample_busy = Some s'" by blast
  show ?thesis using edffm_wake_up_no_preemption [OF s', of "release_at 5000 (tasks fm_sample_busy 2)"] ev by (simp add: s')
qed

end
