(* ===== verification/Edf_Fm_Share.thy ===== *)
theory Edf_Fm_Share
  imports Edf_Fm
begin

text \<open>
  How EDF-fm distributes the jobs of a migratory task over its two CPUs: the decision for the next
  job, on natural numbers, and the share of the first CPU over every sequence of jobs.
\<close>

section \<open>Jobs one after the other\<close>

text \<open>
  A job ends when it completes, or when the task is woken up after the deadline of its job; a wake-up
  before the deadline continues the job.
\<close>

datatype fm_event = Completes | WakesUp lt_t

fun fm_step :: "fm_event \<Rightarrow> task_struct \<Rightarrow> task_struct option" where
  "fm_step Completes t = edffm_job_completion t"
| "fm_step (WakesUp now) t = edffm_wake_task now t"

fun fm_run :: "fm_event list \<Rightarrow> task_struct \<Rightarrow> task_struct option" where
  "fm_run [] t = Some t"
| "fm_run (e # es) t = Option.bind (fm_step e t) (fm_run es)"

text \<open>The number of jobs that have been counted for a CPU, and the number of the current job.\<close>

definition fm_count :: "nat \<Rightarrow> task_struct \<Rightarrow> nat" where
  "fm_count k t = unat (cpu_job_no (semi_part (rt_param t)) k)"

definition fm_job :: "task_struct \<Rightarrow> nat" where
  "fm_job t = unat (job_no (job_params (rt_param t)))"

text \<open>A migratory task on two CPUs with the shares \<open>p / q\<close> and \<open>(q - p) / q\<close>.\<close>

definition fm_shares :: "nat \<Rightarrow> nat \<Rightarrow> task_struct \<Rightarrow> bool" where
  "fm_shares p q t \<longleftrightarrow>
     is_migrat_task t \<and> fm_cpus (fm_params t) 0 \<noteq> fm_cpus (fm_params t) 1 \<and> 0 < p \<and> p < q \<and> q < 2 ^ 32 \<and>
     fraction (fm_params t) 0 0 = of_nat p \<and> fraction (fm_params t) 1 0 = of_nat q \<and>
     fraction (fm_params t) 0 1 = of_nat (q - p) \<and> fraction (fm_params t) 1 1 = of_nat q \<and>
     (get_partition t = fm_cpus (fm_params t) 0 \<or> get_partition t = fm_cpus (fm_params t) 1)"

section \<open>The decision on natural numbers\<close>

lemma unat_fraction: "n < 2 ^ 32 \<Longrightarrow> unat (of_nat n :: lt_t) = n"
  by (simp add: unat_of_nat take_bit_nat_eq_self_iff)

lemma unat_ucast_64: "unat (ucast (w :: 32 word) :: lt_t) = unat w"
proof -
  have "unat w < 2 ^ 32" using unsigned_less [of w] by simp
  then have "unat w < 2 ^ 64" by simp
  then show ?thesis by (simp add: unsigned_ucast_eq take_bit_nat_eq_self_iff)
qed

lemma eq_div_iff: "0 < (c :: nat) \<Longrightarrow> a = b div c \<longleftrightarrow> a * c \<le> b \<and> b < (a + 1) * c"
  by (metis Suc_eq_plus1 div_less_iff_less_mult le_antisym less_Suc_eq_le less_eq_div_iff_mult_less_eq nle_le)

lemma next_cpu_nat:
  assumes "is_migrat_task t" "cur_cpu_fract_num t = of_nat a" "cur_cpu_fract_den t = of_nat b" "0 < a" "a < 2 ^ 32" "b < 2 ^ 32"
  shows "next_cpu_for_job t = Some (if fm_job t * a \<le> unat (cur_cpu_job_no t) * b \<and> unat (cur_cpu_job_no t) * b < (fm_job t + 1) * a
    then fm_cpus (fm_params t) 0 else fm_cpus (fm_params t) 1)"
proof -
  let ?n = "cur_cpu_job_no t" and ?j = "job_no (job_params (rt_param t))"
  have n: "unat (ucast ?n :: lt_t) = unat ?n" "unat (ucast ?j :: lt_t) = unat ?j"
    by (rule unat_ucast_64)+
  have "unat ?n < 2 ^ 32" using unsigned_less [of ?n] by simp
  then have "unat ?n * b < 2 ^ 32 * 2 ^ 32" using assms(6) by (intro mult_strict_mono) simp_all
  then have "unat ?n * b < 2 ^ 64" by simp
  then have m: "unat (ucast ?n * of_nat b :: lt_t) = unat ?n * b"
    using n(1) unat_fraction [OF assms(6)] by (simp add: unat_word_ariths)
  have "ucast ?j = (ucast ?n * of_nat b :: lt_t) div of_nat a \<longleftrightarrow> unat ?j = unat ?n * b div a"
    using n(2) m unat_fraction [OF assms(5)] by (simp add: word_unat_eq_iff unat_div)
  moreover have "cur_cpu_fract_num t \<noteq> 0"
    using assms(2,4) unat_fraction [OF assms(5)] by (metis less_irrefl unat_0)
  ultimately show ?thesis
    using assms(1-4) eq_div_iff [OF assms(4)] by (simp add: next_cpu_for_job_def fm_job_def)
qed
lemma fm_count_job:
  assumes sh: "fm_shares p q t" and "fm_count 0 t + fm_count 1 t \<le> fm_job t" "fm_job t + 1 < 2 ^ 32"
  shows "\<exists>t'. edffm_count_job t = Some t' \<and> fm_shares p q t' \<and> fm_job t' = fm_job t \<and> fm (task_params (rt_param t')) = fm_params t \<and>
    (if fm_on_first t
     then fm_count 0 t' = fm_count 0 t + 1 \<and> fm_count 1 t' = fm_count 1 t \<and>
       (fm_on_first t' \<longleftrightarrow> fm_job t * p \<le> (fm_count 0 t + 1) * q \<and> (fm_count 0 t + 1) * q < (fm_job t + 1) * p)
     else fm_count 0 t' = fm_count 0 t \<and> fm_count 1 t' = fm_count 1 t + 1 \<and>
       (fm_on_first t' \<longleftrightarrow> fm_job t * (q - p) \<le> (fm_count 1 t + 1) * q \<and> (fm_count 1 t + 1) * q < (fm_job t + 1) * (q - p)))"
proof -
  define u where "u = update_job_counter t"
  have inc: "unat (w + 1 :: 32 word) = unat w + 1" if "unat w + 1 < 2 ^ 32" for w :: "32 word"
    using that by (simp add: unat_word_ariths)
  have less: "fm_count 0 t + 1 < 2 ^ 32" "fm_count 1 t + 1 < 2 ^ 32" using assms(2,3) by linarith+
  have u: "fm_params u = fm_params t" "get_partition u = get_partition t" "fm_job u = fm_job t" "is_migrat_task u"
    using sh unfolding u_def
    by (simp_all add: fm_shares_def is_migrat_task_def fm_job_def update_job_counter_def Let_def rt_simps)
  have uc: "fm_count k u = (if k = edffm_cpu_pos (get_partition t) t then fm_count k t + 1 else fm_count k t)" if "k < 2" for k
    using sh less that inc unfolding u_def
    by (auto simp: fm_count_def update_job_counter_def Let_def rt_simps less_2_cases_iff)
  have pos: "edffm_cpu_pos (get_partition t) t = (if fm_on_first t then 0 else 1)" by (simp add: edffm_cpu_pos_def)
  have cnt: "unat (cur_cpu_job_no u) = (if fm_on_first t then fm_count 0 t + 1 else fm_count 1 t + 1)"
    using u(1,2) uc [of 0] uc [of 1] pos by (simp add: cur_cpu_job_no_def fm_count_def)
  have fr: "cur_cpu_fract_num u = of_nat (if fm_on_first t then p else q - p)" "cur_cpu_fract_den u = of_nat q"
    using sh u(1,2) by (simp_all add: cur_cpu_fract_num_def cur_cpu_fract_den_def fm_shares_def)
  have bounds: "0 < (if fm_on_first t then p else q - p)" "(if fm_on_first t then p else q - p) < 2 ^ 32" "q < 2 ^ 32"
    using sh by (auto simp: fm_shares_def)
  define fst_next where "fst_next \<longleftrightarrow> fm_job t * (if fm_on_first t then p else q - p) \<le> unat (cur_cpu_job_no u) * q \<and>
      unat (cur_cpu_job_no u) * q < (fm_job t + 1) * (if fm_on_first t then p else q - p)"
  have "next_cpu_for_job u = Some (if fst_next then fm_cpus (fm_params t) 0 else fm_cpus (fm_params t) 1)"
    using next_cpu_nat [OF u(4) fr bounds] u(1,3) by (simp add: fst_next_def)
  moreover have "migrat_cur_cpu u = (if fm_on_first t then fm_cpus (fm_params t) 0 else fm_cpus (fm_params t) 1)"
    "migrat_next_cpu u = (if fm_on_first t then fm_cpus (fm_params t) 1 else fm_cpus (fm_params t) 0)"
    using u(1,2) by (simp_all add: migrat_cur_cpu_def migrat_next_cpu_def)
  moreover have "is_migrat_task t" "fm_cpus (fm_params t) 0 \<noteq> fm_cpus (fm_params t) 1" using sh by (simp_all add: fm_shares_def)
  ultimately have eq: "edffm_count_job t = Some (if fm_on_first t \<longleftrightarrow> fst_next then u else
      upd_params (\<lambda>p. p\<lparr>cpu := if fst_next then fm_cpus (fm_params t) 0 else fm_cpus (fm_params t) 1\<rparr>) u)"
    using u(4) by (auto simp: edffm_count_job_def change_migrat_cpu_if_needed_def u_def [symmetric])
  define t' where "t' = (if fm_on_first t \<longleftrightarrow> fst_next then u else
      upd_params (\<lambda>p. p\<lparr>cpu := if fst_next then fm_cpus (fm_params t) 0 else fm_cpus (fm_params t) 1\<rparr>) u)"
  have t': "fm_params t' = fm_params t" "fm_job t' = fm_job t" "fm_count k t' = fm_count k u" for k
    using u(1,3) by (auto simp: t'_def fm_job_def fm_count_def rt_simps)
  have part: "get_partition t' = (if fst_next then fm_cpus (fm_params t) 0 else fm_cpus (fm_params t) 1)"
    using sh u(2) by (auto simp: t'_def fm_shares_def rt_simps)
  have "fm_shares p q t'"
    using sh part t'(1) by (simp add: fm_shares_def is_migrat_task_def)
  moreover have "fm_on_first t' \<longleftrightarrow> fst_next" using part t'(1) sh by (simp add: fm_shares_def)
  moreover have "edffm_count_job t = Some t'" using eq by (simp only: t'_def)
  ultimately show ?thesis
    using t' uc [of 0] uc [of 1] unfolding pos fst_next_def cnt
    by (intro exI [of _ t'] conjI) (simp_all only: if_True if_False split: if_split, simp_all)
qed

section \<open>The share of the first CPU\<close>

text \<open>
  By how much the first CPU is ahead of its share, times \<open>q\<close>; and the invariant. The number of the
  job is one more than the number of counted jobs if the task has been released synchronously, and
  equal to it otherwise, because the first job is counted when the task is created.
\<close>

definition fm_lead :: "nat \<Rightarrow> nat \<Rightarrow> task_struct \<Rightarrow> int" where
  "fm_lead p q t = int (fm_count 0 t * q) - int ((fm_count 0 t + fm_count 1 t) * p)"

text \<open>How the lead evolves: \<open>b\<close> is 1 if the first job was counted twice, \<open>f\<close> says that the task is on its first CPU.\<close>

definition lead_inv :: "int \<Rightarrow> int \<Rightarrow> int \<Rightarrow> bool \<Rightarrow> int \<Rightarrow> bool" where
  "lead_inv p q b f l \<longleftrightarrow>
     (if f then (if b = 0 then - p else q - 2 * p) < l \<and> l \<le> q - p
      else (if b = 0 then 0 else q - p) < l \<and> l \<le> 2 * (q - p))"

definition fm_share_inv :: "nat \<Rightarrow> nat \<Rightarrow> task_struct \<Rightarrow> bool" where
  "fm_share_inv p q t \<longleftrightarrow>
     fm_shares p q t \<and> 2 * p \<le> q \<and> (\<exists>b \<in> {0, 1}. fm_job t + b = fm_count 0 t + fm_count 1 t + 1 \<and>
       lead_inv (int p) (int q) (int b) (fm_on_first t) (fm_lead p q t))"

text \<open>The conditions of the decision in terms of the lead.\<close>

lemma first_cond:
  fixes p q j n0 n1 :: nat
  shows "j * p \<le> n0 * q \<and> n0 * q < (j + 1) * p \<longleftrightarrow>
    0 \<le> int (n0 * q) - int ((n0 + n1) * p) + (int (n0 + n1) - int j) * int p \<and>
    int (n0 * q) - int ((n0 + n1) * p) + (int (n0 + n1) - int j) * int p < int p"
proof -
  have "int (n0 * q) - int ((n0 + n1) * p) + (int (n0 + n1) - int j) * int p = int (n0 * q) - int (j * p)"
    by (simp add: algebra_simps)
  moreover have "int ((j + 1) * p) = int (j * p) + int p" by (simp add: algebra_simps)
  ultimately show ?thesis by linarith
qed

lemma second_cond:
  fixes p q j n0 n1 :: nat
  assumes "p \<le> q"
  shows "j * (q - p) \<le> n1 * q \<and> n1 * q < (j + 1) * (q - p) \<longleftrightarrow>
    int (n0 * q) - int ((n0 + n1) * p) \<le> (int (n0 + n1) - int j) * (int q - int p) \<and>
    (int (n0 + n1) - int j - 1) * (int q - int p) < int (n0 * q) - int ((n0 + n1) * p)"
proof -
  define r where "r = int q - int p"
  have cast: "int (j * (q - p)) = int j * r" "int ((j + 1) * (q - p)) = (int j + 1) * r"
    using assms by (simp_all only: r_def of_nat_mult of_nat_diff of_nat_add of_nat_1)
  have nat: "j * (q - p) \<le> n1 * q \<longleftrightarrow> int j * r \<le> int (n1 * q)" "n1 * q < (j + 1) * (q - p) \<longleftrightarrow> int (n1 * q) < (int j + 1) * r"
    by (simp_all only: cast [symmetric] of_nat_le_iff of_nat_less_iff)
  have lead: "int (n0 * q) - int ((n0 + n1) * p) = int (n0 + n1) * r - int (n1 * q)"
    by (simp add: r_def algebra_simps)
  have dist: "(int (n0 + n1) - int j) * r = int (n0 + n1) * r - int j * r"
    "(int (n0 + n1) - int j - 1) * r = int (n0 + n1) * r - (int j + 1) * r"
    by (simp_all add: algebra_simps)
  have diff: "a - b \<le> a - c \<longleftrightarrow> c \<le> b" "a - b < a - c \<longleftrightarrow> c < b" for a b c :: int by linarith+
  show ?thesis unfolding r_def [symmetric] lead dist nat diff ..
qed

lemma lead_step:
  assumes "0 < p" "2 * p \<le> q" "b = 0 \<or> b = 1" "lead_inv p q b f l" "l' = l + (if f then q - p else - p)"
    "f' \<longleftrightarrow> (if f then 0 \<le> l' + b * p \<and> l' + b * p < p else l' \<le> b * (q - p) \<and> (b - 1) * (q - p) < l')"
  shows "lead_inv p q b f' l'"
proof (cases f)
  case True
  then have l: "(if b = 0 then - p else q - 2 * p) < l" "l \<le> q - p" "l' = l + (q - p)"
    "f' \<longleftrightarrow> 0 \<le> l' + b * p \<and> l' + b * p < p"
    using assms(4-6) by (simp_all add: lead_inv_def)
  show ?thesis using l assms(1-3) unfolding lead_inv_def by (cases "b = 0"; cases f'; auto)
next
  case False
  then have l: "(if b = 0 then 0 else q - p) < l" "l \<le> 2 * (q - p)" "l' = l - p"
    "f' \<longleftrightarrow> l' \<le> b * (q - p) \<and> (b - 1) * (q - p) < l'"
    using assms(4-6) by (simp_all add: lead_inv_def)
  show ?thesis using l assms(1-3) unfolding lead_inv_def by (cases "b = 0"; cases f'; auto)
qed

lemma fm_count_inv:
  assumes "fm_share_inv p q t" "fm_job t + 1 < 2 ^ 32"
  shows "\<exists>u. edffm_count_job t = Some u \<and> fm_job u = fm_job t \<and>
    (\<forall>t'. get_partition t' = get_partition u \<longrightarrow> fm_params t' = fm_params u \<longrightarrow>
       fm_count 0 t' = fm_count 0 u \<longrightarrow> fm_count 1 t' = fm_count 1 u \<longrightarrow> fm_job t' = fm_job t + 1 \<longrightarrow> fm_share_inv p q t')"
proof -
  let ?n0 = "fm_count 0 t" and ?n1 = "fm_count 1 t" and ?j = "fm_job t"
  have sh: "fm_shares p q t" "2 * p \<le> q" "?n0 + ?n1 \<le> ?j" "p \<le> q" using assms(1) by (auto simp: fm_share_inv_def fm_shares_def)
  obtain u where u: "edffm_count_job t = Some u" "fm_shares p q u" "fm_job u = ?j"
    "if fm_on_first t
     then fm_count 0 u = ?n0 + 1 \<and> fm_count 1 u = ?n1 \<and>
       (fm_on_first u \<longleftrightarrow> ?j * p \<le> (?n0 + 1) * q \<and> (?n0 + 1) * q < (?j + 1) * p)
     else fm_count 0 u = ?n0 \<and> fm_count 1 u = ?n1 + 1 \<and>
       (fm_on_first u \<longleftrightarrow> ?j * (q - p) \<le> (?n1 + 1) * q \<and> (?n1 + 1) * q < (?j + 1) * (q - p))"
    using fm_count_job [OF sh(1,3) assms(2)] by blast
  obtain b where b: "b \<in> {0, 1}" "?j + b = ?n0 + ?n1 + 1"
    "lead_inv (int p) (int q) (int b) (fm_on_first t) (fm_lead p q t)"
    using assms(1) unfolding fm_share_inv_def by blast
  then have b_def: "int b = int (?n0 + ?n1 + 1) - int ?j" by linarith
  have lead: "fm_lead p q u = fm_lead p q t + (if fm_on_first t then int q - int p else - int p)"
  proof (cases "fm_on_first t")
    case True
    then have "fm_count 0 u = ?n0 + 1" "fm_count 1 u = ?n1" using u(4) by simp_all
    then show ?thesis unfolding fm_lead_def if_P [OF True] by (simp only:) (simp add: algebra_simps)
  next
    case False
    then have "fm_count 0 u = ?n0" "fm_count 1 u = ?n1 + 1" using u(4) by simp_all
    then show ?thesis unfolding fm_lead_def if_not_P [OF False] by (simp only:) (simp add: algebra_simps)
  qed
  have on: "fm_on_first u \<longleftrightarrow> (if fm_on_first t then 0 \<le> fm_lead p q u + int b * int p \<and> fm_lead p q u + int b * int p < int p
      else fm_lead p q u \<le> int b * (int q - int p) \<and> (int b - 1) * (int q - int p) < fm_lead p q u)"
  proof (cases "fm_on_first t")
    case True
    then have n: "fm_count 0 u = ?n0 + 1" "fm_count 1 u = ?n1"
      and on: "fm_on_first u \<longleftrightarrow> ?j * p \<le> (?n0 + 1) * q \<and> (?n0 + 1) * q < (?j + 1) * p"
      using u(4) by simp_all
    have "?n0 + 1 + ?n1 = ?n0 + ?n1 + 1" by simp
    with on [unfolded first_cond [of ?j p "?n0 + 1" q ?n1]] show ?thesis
      unfolding if_P [OF True] fm_lead_def n b_def by (simp only:)
  next
    case False
    then have n: "fm_count 0 u = ?n0" "fm_count 1 u = ?n1 + 1"
      and on: "fm_on_first u \<longleftrightarrow> ?j * (q - p) \<le> (?n1 + 1) * q \<and> (?n1 + 1) * q < (?j + 1) * (q - p)"
      using u(4) by simp_all
    have "?n0 + (?n1 + 1) = ?n0 + ?n1 + 1" by simp
    with on [unfolded second_cond [OF sh(4), of ?j "?n1 + 1" ?n0]] show ?thesis
      unfolding if_not_P [OF False] fm_lead_def n b_def by (simp only:)
  qed
  have cnt: "fm_count 0 u + fm_count 1 u = ?n0 + ?n1 + 1" using u(4) by (cases "fm_on_first t") simp_all
  have pos: "0 < int p" "2 * int p \<le> int q" using sh by (auto simp: fm_shares_def)
  have new: "lead_inv (int p) (int q) (int b) (fm_on_first u) (fm_lead p q u)"
    by (rule lead_step [OF pos _ b(3) lead on]) (use b(1) in auto)
  have "fm_share_inv p q t'" if "get_partition t' = get_partition u" "fm_params t' = fm_params u"
    "fm_count 0 t' = fm_count 0 u" "fm_count 1 t' = fm_count 1 u" "fm_job t' = ?j + 1" for t'
  proof -
    have "fm_shares p q t'" using u(2) that(1,2) by (simp add: fm_shares_def is_migrat_task_def)
    moreover have "fm_lead p q t' = fm_lead p q u" using that(3,4) by (simp add: fm_lead_def)
    ultimately show ?thesis
      using new sh(2) cnt that(1,2,5) b(1,2) that(3,4) unfolding fm_share_inv_def by (intro conjI bexI [of _ b]) simp_all
  qed
  then show ?thesis using u(1,3) by blast
qed

text \<open>The job that follows keeps the counters and the CPU.\<close>

lemma fm_next_job:
  assumes "fm_job u + 1 < 2 ^ 32"
  shows "fm_job (prepare_for_next_period (set_rt_flags RT_F_SLEEP u)) = fm_job u + 1" "fm_job (release_at now u) = fm_job u + 1"
    "get_partition (prepare_for_next_period (set_rt_flags RT_F_SLEEP u)) = get_partition u"
    "fm_params (prepare_for_next_period (set_rt_flags RT_F_SLEEP u)) = fm_params u"
    "fm_count k (prepare_for_next_period (set_rt_flags RT_F_SLEEP u)) = fm_count k u" "fm_count k (release_at now u) = fm_count k u"
proof -
  have "unat (job_no (job_params (rt_param u)) + 1) = unat (job_no (job_params (rt_param u))) + 1"
    using assms by (simp add: fm_job_def unat_word_ariths)
  then show "fm_job (prepare_for_next_period (set_rt_flags RT_F_SLEEP u)) = fm_job u + 1" "fm_job (release_at now u) = fm_job u + 1"
    by (simp_all add: fm_job_def prepare_for_next_period_def release_at_def rt_simps)
qed (simp_all add: prepare_for_next_period_def release_at_def fm_count_def rt_simps)

lemma fm_step_inv:
  assumes "fm_share_inv p q t" "fm_job t + 1 < 2 ^ 32"
  shows "ok (fm_step e t) (\<lambda>t'. fm_share_inv p q t' \<and> fm_job t' \<le> fm_job t + 1)"
proof -
  obtain u where u: "edffm_count_job t = Some u" "fm_job u = fm_job t"
    "\<And>t'. get_partition t' = get_partition u \<Longrightarrow> fm_params t' = fm_params u \<Longrightarrow>
       fm_count 0 t' = fm_count 0 u \<Longrightarrow> fm_count 1 t' = fm_count 1 u \<Longrightarrow> fm_job t' = fm_job t + 1 \<Longrightarrow> fm_share_inv p q t'"
    using fm_count_inv [OF assms] by blast
  have less: "fm_job u + 1 < 2 ^ 32" using assms(2) u(2) by simp
  note j = fm_next_job [OF less]
  have "fm_share_inv p q (prepare_for_next_period (set_rt_flags RT_F_SLEEP u))" "fm_share_inv p q (release_at now u)" for now
    by (rule u(3); simp only: j u(2) release_at_params)+
  then show ?thesis
    using assms(1) u(1,2) j(1,2) by (cases e) (simp_all add: edffm_job_completion_def edffm_wake_task_def)
qed

lemma fm_run_inv:
  assumes "fm_share_inv p q t" "fm_job t + length es < 2 ^ 32"
  shows "ok (fm_run es t) (fm_share_inv p q)"
  using assms
proof (induction es arbitrary: t)
  case (Cons e es)
  have "ok (fm_step e t) (\<lambda>t'. ok (fm_run es t') (fm_share_inv p q))"
    by (rule ok_mono [OF fm_step_inv [OF Cons.prems(1)]]) (use Cons in auto)
  then show ?case by (cases "fm_step e t") simp_all
qed simp

text \<open>
  The first job of a task that is created, and its release by \<^verbatim>\<open>release_ts\<close>.
\<close>

definition fm_created :: "lt_t \<Rightarrow> task_struct \<Rightarrow> task_struct" where
  "fm_created now t = update_job_counter (release_at now t)"

definition fm_fresh :: "nat \<Rightarrow> nat \<Rightarrow> task_struct \<Rightarrow> bool" where
  "fm_fresh p q t \<longleftrightarrow> fm_shares p q t \<and> fm_on_first t \<and> fm_count 0 t = 0 \<and> fm_count 1 t = 0 \<and> fm_job t = 0"

lemma fm_created_counts:
  assumes "fm_fresh p q t"
  shows "fm_shares p q (fm_created now t)" "fm_on_first (fm_created now t)" "fm_count 0 (fm_created now t) = 1"
    "fm_count 1 (fm_created now t) = 0" "fm_job (fm_created now t) = 1"
proof -
  have t: "fm_shares p q t" "fm_on_first t" "fm_count 0 t = 0" "fm_count 1 t = 0" "fm_job t = 0"
    using assms by (simp_all add: fm_fresh_def)
  have "fm_job t + 1 < 2 ^ 32" using t(5) by simp
  note r = fm_next_job(2,6) [OF this]
  have p: "fm_params (fm_created now t) = fm_params t" "get_partition (fm_created now t) = get_partition t"
    by (simp_all add: fm_created_def)
  then show "fm_shares p q (fm_created now t)" "fm_on_first (fm_created now t)"
    using t(1,2) by (simp_all add: fm_shares_def is_migrat_task_def)
  show "fm_job (fm_created now t) = 1" using r(1) [of now] t(5)
    by (simp add: fm_created_def update_job_counter_def Let_def fm_job_def rt_simps)
  show "fm_count 0 (fm_created now t) = 1" "fm_count 1 (fm_created now t) = 0"
    using r(2) [of 0 now] r(2) [of 1 now] t(2-4)
    by (simp_all add: fm_created_def update_job_counter_def edffm_cpu_pos_def Let_def fm_count_def rt_simps)
      (simp add: unat_word_ariths)
qed

lemma fm_created_inv:
  assumes "fm_fresh p q t" "2 * p \<le> q"
  shows "fm_share_inv p q (fm_created now t)" "fm_share_inv p q (release_at start (fm_created now t))"
proof -
  note c = fm_created_counts [OF assms(1), of now]
  have "fm_job (fm_created now t) + 1 < 2 ^ 32" using c(5) by simp
  note r = fm_next_job(2,6) [OF this]
  have lead: "fm_lead p q (fm_created now t) = int q - int p" "fm_lead p q (release_at start (fm_created now t)) = int q - int p"
    using c(3,4) r(2) by (simp_all add: fm_lead_def)
  have pos: "0 < p" "p < q" using c(1) by (simp_all add: fm_shares_def)
  show "fm_share_inv p q (fm_created now t)"
    using c pos assms(2) unfolding fm_share_inv_def lead
    by (intro conjI bexI [of _ 1]) (simp_all add: lead_inv_def)
  have "fm_shares p q (release_at start (fm_created now t))" using c(1) by (simp add: fm_shares_def is_migrat_task_def)
  then show "fm_share_inv p q (release_at start (fm_created now t))"
    using c pos assms(2) r unfolding fm_share_inv_def lead
    by (intro conjI bexI [of _ 0]) (simp_all add: lead_inv_def)
qed

text \<open>With the shares 3/5 and 2/5, a task on its second CPU with two jobs counted on the first one.\<close>

definition fm_stranded :: "task_struct \<Rightarrow> bool" where
  "fm_stranded t \<longleftrightarrow> fm_shares 3 5 t \<and> \<not> fm_on_first t \<and> fm_count 0 t = 2 \<and> fm_job t = fm_count 1 t + 3"

lemma fm_stranded_step:
  assumes "fm_stranded t" "fm_job t + 1 < 2 ^ 32"
  shows "ok (edffm_job_completion t) (\<lambda>t'. fm_stranded t' \<and> fm_job t' = fm_job t + 1 \<and> fm_params t' = fm_params t)"
proof -
  have t: "fm_shares 3 5 t" "\<not> fm_on_first t" "fm_count 0 t = 2" "fm_job t = fm_count 1 t + 3"
    using assms(1) by (simp_all add: fm_stranded_def)
  have le: "fm_count 0 t + fm_count 1 t \<le> fm_job t" using t(3,4) by simp
  obtain u where u: "edffm_count_job t = Some u" "fm_shares 3 5 u" "fm_job u = fm_job t" "fm_params u = fm_params t"
    "fm_count 0 u = fm_count 0 t" "fm_count 1 u = fm_count 1 t + 1"
    "fm_on_first u \<longleftrightarrow> fm_job t * (5 - 3) \<le> (fm_count 1 t + 1) * 5 \<and> (fm_count 1 t + 1) * 5 < (fm_job t + 1) * (5 - 3)"
    using fm_count_job [OF t(1) le assms(2)] unfolding if_not_P [OF t(2)] by blast
  have "\<not> fm_on_first u" unfolding u(7) t(4) by presburger
  moreover have "fm_job u + 1 < 2 ^ 32" using assms(2) u(3) by simp
  note j = fm_next_job [OF this]
  ultimately show ?thesis
    using u t(3,4) j unfolding fm_stranded_def
    by (simp add: edffm_job_completion_def fm_shares_def is_migrat_task_def)
qed

lemma fm_stranded_run:
  assumes "fm_stranded t" "fm_job t + k < 2 ^ 32"
  shows "ok (fm_run (replicate k Completes) t) (\<lambda>t'. fm_stranded t' \<and> fm_params t' = fm_params t)"
  using assms
proof (induction k arbitrary: t)
  case (Suc k)
  have "ok (edffm_job_completion t) (\<lambda>t'. ok (fm_run (replicate k Completes) t') (\<lambda>t''. fm_stranded t'' \<and> fm_params t'' = fm_params t))"
  proof (rule ok_mono [OF fm_stranded_step [OF Suc.prems(1)]], goal_cases)
    case (2 t')
    then have "fm_stranded t'" "fm_job t' + k < 2 ^ 32" "fm_params t' = fm_params t" using Suc.prems(2) by simp_all
    then show ?case using Suc.IH [of t'] by simp
  qed (use Suc.prems(2) in simp)
  then show ?case by (cases "edffm_job_completion t") simp_all
qed simp

lemma fm_strands:
  assumes "fm_fresh 3 5 t"
  shows "ok (edffm_job_completion (release_at start (fm_created now t)))
    (\<lambda>t'. fm_stranded t' \<and> fm_job t' = 3 \<and> fm_params t' = fm_params t)"
proof -
  let ?t = "release_at start (fm_created now t)"
  note c = fm_created_counts [OF assms, of now]
  have "fm_job (fm_created now t) + 1 < 2 ^ 32" using c(5) by simp
  note r = fm_next_job(2,6) [OF this]
  have t: "fm_shares 3 5 ?t" "fm_on_first ?t" "fm_count 0 ?t = 1" "fm_count 1 ?t = 0" "fm_job ?t = 2" "fm_params ?t = fm_params t"
    using c r by (simp_all add: fm_shares_def is_migrat_task_def fm_created_def)
  have "fm_count 0 ?t + fm_count 1 ?t \<le> fm_job ?t" "fm_job ?t + 1 < 2 ^ 32" using t(3-5) by simp_all
  from fm_count_job [OF t(1) this]
  obtain u where u: "edffm_count_job ?t = Some u" "fm_shares 3 5 u" "fm_job u = fm_job ?t" "fm_params u = fm_params ?t"
    "fm_count 0 u = fm_count 0 ?t + 1" "fm_count 1 u = fm_count 1 ?t"
    "fm_on_first u \<longleftrightarrow> fm_job ?t * 3 \<le> (fm_count 0 ?t + 1) * 5 \<and> (fm_count 0 ?t + 1) * 5 < (fm_job ?t + 1) * 3"
    unfolding if_P [OF t(2)] by blast
  have "fm_job u + 1 < 2 ^ 32" using u(3) t(5) by simp
  note j = fm_next_job [OF this]
  have "\<not> fm_on_first u" unfolding u(7) t(3,5) by simp
  then show ?thesis
    using u t(3-6) j unfolding fm_stranded_def
    by (simp add: edffm_job_completion_def fm_shares_def is_migrat_task_def)
qed

section \<open>Properties\<close>

text \<open>
  C23: the shares of a migratory task in EDF-fm. If the fraction \<open>p / q\<close> of its first CPU is at most
  one half, a task that is created, released synchronously or not, and then runs any sequence of
  jobs that complete or are abandoned after their deadline, never runs into a \<^verbatim>\<open>BUG_ON\<close> or a
  division by zero in the decision for the next CPU; and the number of jobs counted for the first
  CPU is never a whole job below, nor two jobs above, the fraction \<open>p / q\<close> of all jobs, as long as
  the 32-bit number of the job does not overflow.
\<close>

theorem fm_share_bounded:
  assumes "fm_fresh p q t" "2 * p \<le> q" "length es + 2 < 2 ^ 32"
    "t1 = fm_created now t \<or> t1 = release_at start (fm_created now t)"
  shows "ok (fm_run es t1) (\<lambda>t'. - int q < int (fm_count 0 t' * q) - int ((fm_count 0 t' + fm_count 1 t') * p) \<and>
    int (fm_count 0 t' * q) - int ((fm_count 0 t' + fm_count 1 t') * p) < 2 * int q)"
proof -
  have "fm_job (fm_created now t) + 1 < 2 ^ 32" using fm_created_counts(5) [OF assms(1)] by simp
  then have "fm_job t1 \<le> 2" using assms(4) fm_next_job(2) fm_created_counts(5) [OF assms(1)] by auto
  moreover have "fm_share_inv p q t1" using fm_created_inv [OF assms(1,2)] assms(4) by blast
  ultimately have "ok (fm_run es t1) (fm_share_inv p q)" using assms(3) by (intro fm_run_inv) simp_all
  then show ?thesis
  proof (rule ok_mono)
    fix t' assume "fm_share_inv p q t'"
    then have "0 < p" "p < q" "- int p < fm_lead p q t' \<and> fm_lead p q t' \<le> 2 * (int q - int p)"
      by (auto simp: fm_share_inv_def fm_shares_def lead_inv_def split: if_splits)
    then have "- int q < fm_lead p q t' \<and> fm_lead p q t' < 2 * int q" by auto
    then show "- int q < int (fm_count 0 t' * q) - int ((fm_count 0 t' + fm_count 1 t') * p) \<and>
        int (fm_count 0 t' * q) - int ((fm_count 0 t' + fm_count 1 t') * p) < 2 * int q"
      unfolding fm_lead_def .
  qed
qed

definition fm_sample :: "nat \<Rightarrow> nat \<Rightarrow> task_struct" where
  "fm_sample p q = sample_task ((sample_rt_task 0 100 900)\<lparr>fm := \<lparr>fm_cpus = (\<lambda>i. i), nr_cpus = 2,
     fraction = (\<lambda>r c. if r = 0 then if c = 0 then of_nat p else of_nat (q - p) else of_nat q)\<rparr>\<rparr>) 1"

lemma fm_sample_fresh: "0 < p \<Longrightarrow> p < q \<Longrightarrow> q < 2 ^ 32 \<Longrightarrow> fm_fresh p q (fm_sample p q)"
  by (simp add: fm_fresh_def fm_shares_def is_migrat_task_def fm_count_def fm_job_def fm_sample_def sample_simps rt_simps)

theorem fm_share_bounded_witness:
  "ok (fm_run [Completes, Completes, WakesUp 5000, Completes] (fm_created 10 (fm_sample 1 3)))
     (\<lambda>t'. - 3 < int (fm_count 0 t' * 3) - int ((fm_count 0 t' + fm_count 1 t') * 1) \<and>
       int (fm_count 0 t' * 3) - int ((fm_count 0 t' + fm_count 1 t') * 1) < 2 * 3)"
  using fm_share_bounded [of 1 3 "fm_sample 1 3" "[Completes, Completes, WakesUp 5000, Completes]" "fm_created 10 (fm_sample 1 3)" 10]
    fm_sample_fresh [of 1 3] by simp

text \<open>
  C24: the decision of EDF-fm strands a task with a larger share on its first CPU. With the shares 3/5 and
  2/5, a synchronously released task leaves its first CPU when its first released job ends and is on
  its second CPU after every later job, so that it never gets the share of its first CPU.
\<close>

theorem fm_share_stranded:
  assumes "fm_fresh 3 5 t" "k + 3 < 2 ^ 32"
  shows "ok (fm_run (replicate (Suc k) Completes) (release_at start (fm_created now t)))
    (\<lambda>t'. get_partition t' = fm_cpus (fm_params t) 1 \<and> fm_count 0 t' = 2)"
proof -
  have "ok (edffm_job_completion (release_at start (fm_created now t))) (\<lambda>t1. ok (fm_run (replicate k Completes) t1)
      (\<lambda>t'. get_partition t' = fm_cpus (fm_params t) 1 \<and> fm_count 0 t' = 2))"
  proof (rule ok_mono [OF fm_strands [OF assms(1)]], elim conjE)
    fix t1 assume t1: "fm_stranded t1" "fm_job t1 = 3" "fm_params t1 = fm_params t"
    show "ok (fm_run (replicate k Completes) t1) (\<lambda>t'. get_partition t' = fm_cpus (fm_params t) 1 \<and> fm_count 0 t' = 2)"
      by (rule ok_mono [OF fm_stranded_run [OF t1(1)]])
        (use t1 assms(2) in \<open>auto simp: fm_stranded_def fm_shares_def\<close>)
  qed
  then show ?thesis by (cases "edffm_job_completion (release_at start (fm_created now t))") simp_all
qed

theorem fm_share_stranded_witness:
  "ok (fm_run (replicate (Suc 1000) Completes) (release_at 20 (fm_created 10 (fm_sample 3 5))))
     (\<lambda>t'. get_partition t' = 1 \<and> fm_count 0 t' = 2)"
  using fm_share_stranded [of "fm_sample 3 5" 1000 20 10] fm_sample_fresh [of 3 5]
  by (simp add: fm_sample_def sample_simps del: replicate.simps)

end
