(* ===== verification/Feather_Buffer.thy ===== *)
theory Feather_Buffer
  imports Prelude
begin

text \<open>
  The ring buffer of Feather-Trace (\<^verbatim>\<open>include/litmus/feather_buffer.h\<close>): many writers reserve slots by
  atomic operations, one reader takes the records out in order. The functions of the header are
  compositions of the atomic operations below; the second half of the theory interleaves the atomic
  operations of any number of writers and of the reader. Memory is sequentially consistent.

  A pointer into the buffer is its offset in bytes, and a record is stored at the offset of its slot.
\<close>

section \<open>The buffer\<close>

datatype slot_mark = SLOT_FREE | SLOT_BUSY | SLOT_READY

record 'a ft_buffer =
  slot_count :: "32 word"
  slot_size :: "32 word"
  free_count :: "32 word"
  write_idx :: "32 word"
  read_idx :: "32 word"
  slots :: "nat \<Rightarrow> slot_mark"
  buffer_mem :: "nat \<Rightarrow> 'a"
  failed_writes :: "32 word"

definition init_ft_buffer ::
  "32 word \<Rightarrow> 32 word \<Rightarrow> (nat \<Rightarrow> slot_mark) \<Rightarrow> (nat \<Rightarrow> 'a) \<Rightarrow> 'a ft_buffer option"
where
  "init_ft_buffer cnt sz marks mem =
     (if cnt = 0 \<or> (- 1) mod cnt \<noteq> cnt - 1 then None
      else Some \<lparr>slot_count = cnt, slot_size = sz, free_count = cnt, write_idx = 0, read_idx = 0,
             slots = (\<lambda>i. if i < unat cnt then SLOT_FREE else marks i), buffer_mem = mem, failed_writes = 0\<rparr>)"

section \<open>The atomic operations\<close>

definition fb_reserve :: "'a ft_buffer \<Rightarrow> bool \<times> 'a ft_buffer" where
  "fb_reserve b = (0 < sint (free_count b), b\<lparr>free_count := free_count b - 1\<rparr>)"

definition fb_unreserve :: "'a ft_buffer \<Rightarrow> 'a ft_buffer" where
  "fb_unreserve b = b\<lparr>free_count := free_count b + 1\<rparr>"

definition fb_count_failure :: "'a ft_buffer \<Rightarrow> 'a ft_buffer" where
  "fb_count_failure b = b\<lparr>failed_writes := failed_writes b + 1\<rparr>"

definition fb_claim :: "'a ft_buffer \<Rightarrow> 32 word \<times> 'a ft_buffer" where
  "fb_claim b = (write_idx b mod slot_count b, b\<lparr>write_idx := write_idx b + 1\<rparr>)"

definition fb_set_slot :: "32 word \<Rightarrow> slot_mark \<Rightarrow> 'a ft_buffer \<Rightarrow> 'a ft_buffer" where
  "fb_set_slot idx x b = b\<lparr>slots := (slots b)(unat idx := x)\<rparr>"

definition fb_store :: "32 word \<Rightarrow> 'a \<Rightarrow> 'a ft_buffer \<Rightarrow> 'a ft_buffer" where
  "fb_store ptr v b = b\<lparr>buffer_mem := (buffer_mem b)(unat ptr := v)\<rparr>"

definition fb_nonempty :: "'a ft_buffer \<Rightarrow> bool" where
  "fb_nonempty b \<longleftrightarrow> free_count b \<noteq> slot_count b"

definition fb_read_slot :: "'a ft_buffer \<Rightarrow> 32 word" where
  "fb_read_slot b = read_idx b mod slot_count b"

definition fb_fetch :: "'a ft_buffer \<Rightarrow> 'a" where
  "fb_fetch b = buffer_mem b (unat (fb_read_slot b * slot_size b))"

definition fb_advance :: "'a ft_buffer \<Rightarrow> 'a ft_buffer" where
  "fb_advance b = b\<lparr>read_idx := read_idx b + 1\<rparr>"

section \<open>The functions\<close>

definition ft_buffer_start_write :: "'a ft_buffer \<Rightarrow> 32 word option \<times> 'a ft_buffer" where
  "ft_buffer_start_write b =
     (let (free, b) = fb_reserve b
      in if \<not> free then (None, fb_count_failure (fb_unreserve b))
         else let (idx, b) = fb_claim b;
                  b = fb_set_slot idx SLOT_BUSY b
              in (Some (idx * slot_size b), b))"

definition ft_buffer_finish_write :: "32 word \<Rightarrow> 'a ft_buffer \<Rightarrow> 'a ft_buffer" where
  "ft_buffer_finish_write ptr b = fb_set_slot (ptr div slot_size b) SLOT_READY b"

definition ft_buffer_read :: "'a ft_buffer \<Rightarrow> 'a option \<times> 'a ft_buffer" where
  "ft_buffer_read b =
     (if \<not> fb_nonempty b then (None, b)
      else if slots b (unat (fb_read_slot b)) = SLOT_READY
      then (Some (fb_fetch b), fb_unreserve (fb_advance (fb_set_slot (fb_read_slot b) SLOT_FREE b)))
      else (None, b))"

section \<open>Interleaved writers and the reader\<close>

text \<open>
  How far a writer and the reader have got. A writer that has claimed a slot carries the number of
  its claim, which the code does not have.
\<close>

datatype wphase =
    WIdle | WRefused | WCounting | WReserved
  | WClaimed nat "32 word" | WWriting nat "32 word" | WStored nat "32 word"

datatype rphase = RIdle | RChecked | RReady | RCopied | RFreed | RAdvanced

text \<open>
  The state of the whole system. The last five fields are for the specification: what has become of
  each claim, how many claims and completed reads there have been, what was stored for each claim, and what
  the reader has read.
\<close>

datatype claim_state = Unclaimed | Claimed nat | Writing nat | Stored nat | Published | Freed

record 'a fb_system =
  buf :: "'a ft_buffer"
  wr :: "nat \<Rightarrow> wphase"
  rd :: rphase
  stat :: "nat \<Rightarrow> claim_state"
  claims :: nat
  reads :: nat
  sent :: "nat \<Rightarrow> 'a"
  got :: "'a list"

datatype 'a fb_call =
    Reserve nat | Unreserve nat | CountFailure nat | Claim nat | Mark nat | Store nat 'a | Publish nat
  | Check | Test | Copy | FreeSlot | Advance | Release

fun fb_enabled :: "nat \<Rightarrow> 'a fb_call \<Rightarrow> 'a fb_system \<Rightarrow> bool" where
  "fb_enabled n (Reserve w) m \<longleftrightarrow> w < n \<and> wr m w = WIdle"
| "fb_enabled n (Unreserve w) m \<longleftrightarrow> wr m w = WRefused"
| "fb_enabled n (CountFailure w) m \<longleftrightarrow> wr m w = WCounting"
| "fb_enabled n (Claim w) m \<longleftrightarrow> wr m w = WReserved"
| "fb_enabled n (Mark w) m \<longleftrightarrow> (\<exists>k i. wr m w = WClaimed k i)"
| "fb_enabled n (Store w v) m \<longleftrightarrow> (\<exists>k p. wr m w = WWriting k p)"
| "fb_enabled n (Publish w) m \<longleftrightarrow> (\<exists>k p. wr m w = WStored k p)"
| "fb_enabled n Check m \<longleftrightarrow> rd m = RIdle"
| "fb_enabled n Test m \<longleftrightarrow> rd m = RChecked"
| "fb_enabled n Copy m \<longleftrightarrow> rd m = RReady"
| "fb_enabled n FreeSlot m \<longleftrightarrow> rd m = RCopied"
| "fb_enabled n Advance m \<longleftrightarrow> rd m = RFreed"
| "fb_enabled n Release m \<longleftrightarrow> rd m = RAdvanced"

fun fb_exec :: "'a fb_call \<Rightarrow> 'a fb_system \<Rightarrow> 'a fb_system option" where
  "fb_exec (Reserve w) m =
     (let (free, b) = fb_reserve (buf m) in Some (m\<lparr>buf := b, wr := (wr m)(w := if free then WReserved else WRefused)\<rparr>))"
| "fb_exec (Unreserve w) m = Some (m\<lparr>buf := fb_unreserve (buf m), wr := (wr m)(w := WCounting)\<rparr>)"
| "fb_exec (CountFailure w) m = Some (m\<lparr>buf := fb_count_failure (buf m), wr := (wr m)(w := WIdle)\<rparr>)"
| "fb_exec (Claim w) m =
     (let (idx, b) = fb_claim (buf m)
      in Some (m\<lparr>buf := b, wr := (wr m)(w := WClaimed (claims m) idx),
               stat := (stat m)(claims m := Claimed w), claims := claims m + 1\<rparr>))"
| "fb_exec (Mark w) m =
     (case wr m w of
        WClaimed k idx \<Rightarrow>
          Some (m\<lparr>buf := fb_set_slot idx SLOT_BUSY (buf m), wr := (wr m)(w := WWriting k (idx * slot_size (buf m))),
                  stat := (stat m)(k := Writing w)\<rparr>)
      | _ \<Rightarrow> None)"
| "fb_exec (Store w v) m =
     (case wr m w of
        WWriting k ptr \<Rightarrow>
          Some (m\<lparr>buf := fb_store ptr v (buf m), wr := (wr m)(w := WStored k ptr), stat := (stat m)(k := Stored w),
                  sent := (sent m)(k := v)\<rparr>)
      | _ \<Rightarrow> None)"
| "fb_exec (Publish w) m =
     (case wr m w of
        WStored k ptr \<Rightarrow>
          Some (m\<lparr>buf := ft_buffer_finish_write ptr (buf m), wr := (wr m)(w := WIdle), stat := (stat m)(k := Published)\<rparr>)
      | _ \<Rightarrow> None)"
| "fb_exec Check m = Some (if fb_nonempty (buf m) then m\<lparr>rd := RChecked\<rparr> else m)"
| "fb_exec Test m =
     Some (m\<lparr>rd := if slots (buf m) (unat (fb_read_slot (buf m))) = SLOT_READY then RReady else RIdle\<rparr>)"
| "fb_exec Copy m = Some (m\<lparr>rd := RCopied, got := got m @ [fb_fetch (buf m)]\<rparr>)"
| "fb_exec FreeSlot m =
     Some (m\<lparr>buf := fb_set_slot (fb_read_slot (buf m)) SLOT_FREE (buf m), rd := RFreed, stat := (stat m)(reads m := Freed)\<rparr>)"
| "fb_exec Advance m = Some (m\<lparr>buf := fb_advance (buf m), rd := RAdvanced\<rparr>)"
| "fb_exec Release m = Some (m\<lparr>buf := fb_unreserve (buf m), rd := RIdle, reads := reads m + 1\<rparr>)"

text \<open>A new buffer, no writer and no reader active.\<close>

definition fb_init :: "nat \<Rightarrow> 'a fb_system \<Rightarrow> bool" where
  "fb_init n m \<longleftrightarrow>
     (\<exists>cnt sz marks mem. init_ft_buffer cnt sz marks mem = Some (buf m) \<and> unat cnt + n < 2 ^ 31 \<and>
        0 < sz \<and> unat cnt * unat sz < 2 ^ 32) \<and>
     (\<forall>w. wr m w = WIdle) \<and> rd m = RIdle \<and> (\<forall>k. stat m k = Unclaimed) \<and> claims m = 0 \<and> reads m = 0 \<and> got m = []"

section \<open>The invariant\<close>

abbreviation fb_N :: "'a fb_system \<Rightarrow> nat" where "fb_N m \<equiv> unat (slot_count (buf m))"
abbreviation fb_S :: "'a fb_system \<Rightarrow> nat" where "fb_S m \<equiv> unat (slot_size (buf m))"

definition in_phase :: "nat \<Rightarrow> wphase \<Rightarrow> 'a fb_system \<Rightarrow> nat" where
  "in_phase n p m = card {w. w < n \<and> wr m w = p}"

fun mark_of :: "claim_state \<Rightarrow> slot_mark" where
  "mark_of (Writing w) = SLOT_BUSY"
| "mark_of (Stored w) = SLOT_BUSY"
| "mark_of Published = SLOT_READY"
| "mark_of _ = SLOT_FREE"

text \<open>
  The counters. The free count is the number of slots minus the claims that have not been read, the
  reservations without a claim, and the refused writers that have not put their decrement back.
\<close>

definition fb_dims :: "nat \<Rightarrow> 'a fb_system \<Rightarrow> bool" where
  "fb_dims n m \<longleftrightarrow> 0 < fb_N m \<and> fb_N m dvd 2 ^ 32 \<and> fb_N m + n < 2 ^ 31 \<and> 0 < fb_S m \<and> fb_N m * fb_S m < 2 ^ 32"

definition fb_free :: "nat \<Rightarrow> 'a fb_system \<Rightarrow> int" where
  "fb_free n m = int (fb_N m) - (int (claims m) - int (reads m)) - int (in_phase n WReserved m) - int (in_phase n WRefused m)"

definition fb_counts :: "nat \<Rightarrow> 'a fb_system \<Rightarrow> bool" where
  "fb_counts n m \<longleftrightarrow>
     write_idx (buf m) = of_nat (claims m) \<and>
     read_idx (buf m) = of_nat (reads m + (if rd m = RAdvanced then 1 else 0)) \<and>
     free_count (buf m) = word_of_int (fb_free n m) \<and>
     reads m \<le> claims m \<and> claims m + in_phase n WReserved m \<le> reads m + fb_N m"

text \<open>The claims and the marks of their slots.\<close>

definition fb_slots :: "'a fb_system \<Rightarrow> bool" where
  "fb_slots m \<longleftrightarrow>
     (\<forall>k. stat m k = Unclaimed \<longleftrightarrow> claims m \<le> k) \<and>
     (\<forall>k. stat m k = Freed \<longleftrightarrow> k < reads m + (if rd m \<in> {RFreed, RAdvanced} then 1 else 0)) \<and>
     (rd m \<in> {RReady, RCopied} \<longrightarrow> stat m (reads m) = Published) \<and>
     (\<forall>k. reads m \<le> k \<and> k < reads m + fb_N m \<longrightarrow> slots (buf m) (k mod fb_N m) = mark_of (stat m k))"

text \<open>Each claim that is not published belongs to one writer.\<close>

fun owner :: "claim_state \<Rightarrow> nat option" where
  "owner (Claimed w) = Some w"
| "owner (Writing w) = Some w"
| "owner (Stored w) = Some w"
| "owner _ = None"

fun claim_of :: "wphase \<Rightarrow> nat option" where
  "claim_of (WClaimed k i) = Some k"
| "claim_of (WWriting k p) = Some k"
| "claim_of (WStored k p) = Some k"
| "claim_of _ = None"

fun agree :: "nat \<Rightarrow> nat \<Rightarrow> wphase \<Rightarrow> claim_state \<Rightarrow> bool" where
  "agree N S (WClaimed k i) x \<longleftrightarrow> (\<exists>w. x = Claimed w) \<and> i = of_nat (k mod N)"
| "agree N S (WWriting k p) x \<longleftrightarrow> (\<exists>w. x = Writing w) \<and> p = of_nat (k mod N * S)"
| "agree N S (WStored k p) x \<longleftrightarrow> (\<exists>w. x = Stored w) \<and> p = of_nat (k mod N * S)"
| "agree N S p x \<longleftrightarrow> True"

definition fb_writers :: "nat \<Rightarrow> 'a fb_system \<Rightarrow> bool" where
  "fb_writers n m \<longleftrightarrow>
     (\<forall>w. n \<le> w \<longrightarrow> wr m w = WIdle) \<and>
     (\<forall>w k. owner (stat m k) = Some w \<longleftrightarrow> claim_of (wr m w) = Some k) \<and>
     (\<forall>w k. claim_of (wr m w) = Some k \<longrightarrow> agree (fb_N m) (fb_S m) (wr m w) (stat m k))"

text \<open>What has been stored is in the slot until it is read, and has been read in order.\<close>

definition fb_data :: "'a fb_system \<Rightarrow> bool" where
  "fb_data m \<longleftrightarrow>
     (\<forall>k. stat m k = Published \<or> (\<exists>w. stat m k = Stored w) \<longrightarrow> buffer_mem (buf m) (k mod fb_N m * fb_S m) = sent m k) \<and>
     got m = map (sent m) [0..<reads m + (if rd m \<in> {RCopied, RFreed, RAdvanced} then 1 else 0)]"

definition fb_inv :: "nat \<Rightarrow> 'a fb_system \<Rightarrow> bool" where
  "fb_inv n m \<longleftrightarrow> fb_dims n m \<and> fb_counts n m \<and> fb_slots m \<and> fb_writers n m \<and> fb_data m"

section \<open>Arithmetic of the indices\<close>

lemma word_32_bound: "unat (x :: 32 word) < 2 ^ 32"
  using unsigned_less [of x] by simp

lemma unat_of_nat_32: "x < 2 ^ 32 \<Longrightarrow> unat (of_nat x :: 32 word) = x"
  by (simp add: unat_of_nat take_bit_nat_eq_self_iff)

text \<open>A word that counts modulo \<open>2 ^ 32\<close>, taken modulo a divisor of \<open>2 ^ 32\<close>.\<close>

lemma index_wraps:
  assumes "unat (c :: 32 word) dvd 2 ^ 32"
  shows "(of_nat k :: 32 word) mod c = of_nat (k mod unat c)"
proof -
  have "unat ((of_nat k :: 32 word) mod c) = (k mod 2 ^ 32) mod unat c"
    by (simp add: unat_mod unat_of_nat take_bit_eq_mod)
  also have "\<dots> = k mod unat c" using assms by (rule mod_mod_cancel)
  finally have *: "unat ((of_nat k :: 32 word) mod c) = k mod unat c" .
  then have "k mod unat c < 2 ^ 32" using word_32_bound by metis
  then show ?thesis using * by (simp add: word_unat_eq_iff unat_of_nat take_bit_nat_eq_self_iff)
qed

lemma window_inj:
  fixes N :: nat
  assumes "r \<le> k" "k < r + N" "r \<le> k'" "k' < r + N" "k mod N = k' mod N"
  shows "k = k'"
proof -
  have *: "a = b" if "a \<le> b" "a mod N = b mod N" "b - a < N" for a b
  proof -
    have "N dvd b - a" using that(1,2) mod_eq_dvd_iff_nat [of a b N] by simp
    then show ?thesis using that(1,3) by (auto dest: dvd_imp_le)
  qed
  show ?thesis
  proof (cases "k \<le> k'")
    case True
    show ?thesis by (rule * [OF True assms(5)]) (use assms(1,4) True in linarith)
  next
    case False
    then have "k' = k" by (intro * [OF _ assms(5) [symmetric]]) (use assms(2,3) False in linarith)+
    then show ?thesis by simp
  qed
qed

text \<open>The index and the offset of a claim as words, and back.\<close>

lemma slot_index:
  assumes "fb_dims n m"
  shows "unat (of_nat (k mod fb_N m) :: 32 word) = k mod fb_N m"
    "of_nat (k mod fb_N m) * slot_size (buf m) = of_nat (k mod fb_N m * fb_S m)"
    "unat (of_nat (k mod fb_N m * fb_S m) :: 32 word) = k mod fb_N m * fb_S m"
    "(of_nat (k mod fb_N m * fb_S m) :: 32 word) div slot_size (buf m) = of_nat (k mod fb_N m)"
proof -
  have N: "0 < fb_N m" "0 < fb_S m" "fb_N m * fb_S m < 2 ^ 32" using assms by (simp_all add: fb_dims_def)
  have k: "k mod fb_N m < fb_N m" using N(1) by simp
  show idx: "unat (of_nat (k mod fb_N m) :: 32 word) = k mod fb_N m"
    using k word_32_bound [of "slot_count (buf m)"] by (intro unat_of_nat_32) simp
  have "k mod fb_N m * fb_S m < fb_N m * fb_S m" using k N(2) by simp
  then have "k mod fb_N m * fb_S m < 2 ^ 32" using N(3) by linarith
  then show off: "unat (of_nat (k mod fb_N m * fb_S m) :: 32 word) = k mod fb_N m * fb_S m"
    by (intro unat_of_nat_32) simp
  show "of_nat (k mod fb_N m) * slot_size (buf m) = of_nat (k mod fb_N m * fb_S m)"
    by simp
  show "(of_nat (k mod fb_N m * fb_S m) :: 32 word) div slot_size (buf m) = of_nat (k mod fb_N m)"
    unfolding word_unat_eq_iff unat_div off idx using N(2) by simp
qed

lemma in_phase_upd:
  assumes "w < n" "wr m' = (wr m)(w := q)"
  shows "int (in_phase n p m') = int (in_phase n p m) - (if wr m w = p then 1 else 0) + (if q = p then 1 else 0)"
proof -
  define A where "A = {v. v < n \<and> wr m v = p} - {w}"
  have fin: "finite A" "w \<notin> A" by (simp_all add: A_def)
  have old: "{v. v < n \<and> wr m v = p} = (if wr m w = p then insert w A else A)"
    and new: "{v. v < n \<and> wr m' v = p} = (if q = p then insert w A else A)"
    using assms by (auto simp: A_def split: if_splits)
  show ?thesis unfolding in_phase_def old new using fin by simp
qed

lemma in_phase_le: "in_phase n p m \<le> n"
proof -
  have "card {w. w < n \<and> wr m w = p} \<le> card {w. w < n}" by (rule card_mono) auto
  then show ?thesis by (simp add: in_phase_def)
qed

lemma sint_free:
  assumes "fb_dims n m" "fb_counts n m"
  shows "sint (free_count (buf m)) = fb_free n m"
proof -
  define N where "N = fb_N m"
  have *: "N + n < 2 ^ 31" "reads m \<le> claims m" "claims m + in_phase n WReserved m \<le> reads m + N"
    using assms by (simp_all add: fb_dims_def fb_counts_def N_def)
  have "- (2 ^ 31) \<le> fb_free n m" using * in_phase_le [of n WRefused m] unfolding fb_free_def N_def [symmetric] by simp
  moreover have "fb_free n m < 2 ^ 31" using * unfolding fb_free_def N_def [symmetric] by simp
  ultimately have "signed_take_bit 31 (fb_free n m) = fb_free n m" by (intro signed_take_bit_int_eq_self) simp_all
  then show ?thesis using assms(2) by (simp add: fb_counts_def sint_sbintrunc')
qed

lemma fb_free_pos: "0 < fb_free n m \<Longrightarrow> claims m + in_phase n WReserved m + 1 \<le> reads m + fb_N m"
proof -
  have "0 < int N - (int c - int r) - int a - int b \<Longrightarrow> c + a + 1 \<le> r + N" for N c r a b :: nat by linarith
  then show "0 < fb_free n m \<Longrightarrow> claims m + in_phase n WReserved m + 1 \<le> reads m + fb_N m"
    unfolding fb_free_def by blast
qed

lemma fb_active:
  assumes "fb_writers n m" "wr m w \<noteq> WIdle"
  shows "w < n"
proof (rule ccontr)
  assume "\<not> w < n"
  then show False using assms unfolding fb_writers_def by auto
qed

lemma fb_invD:
  assumes "fb_inv n m"
  shows "fb_dims n m" "fb_counts n m" "fb_slots m" "fb_writers n m" "fb_data m"
  using assms by (simp_all add: fb_inv_def)

section \<open>Every step keeps the invariant\<close>

lemmas fb_ops = fb_reserve_def fb_unreserve_def fb_count_failure_def fb_claim_def fb_set_slot_def fb_store_def
  fb_advance_def fb_fetch_def

lemma fb_writersD:
  assumes "fb_writers n m"
  shows "owner (stat m k) = Some w \<longleftrightarrow> claim_of (wr m w) = Some k"
    "claim_of (wr m w) = Some k \<Longrightarrow> agree (fb_N m) (fb_S m) (wr m w) (stat m k)"
  using assms by (simp_all add: fb_writers_def)

text \<open>A writer moves on, possibly with its claim \<open>k\<close>.\<close>

lemma fb_writers_upd:
  assumes "fb_writers n m" "wr m' = (wr m)(w := p)" "stat m' = (stat m)(k := x)" "w < n"
    "slot_count (buf m') = slot_count (buf m)" "slot_size (buf m') = slot_size (buf m)"
    "claim_of (wr m w) = Some k \<or> claim_of (wr m w) = None \<and> owner (stat m k) = None"
    "claim_of p = Some k \<and> owner x = Some w \<and> agree (fb_N m) (fb_S m) p x \<or> claim_of p = None \<and> owner x = None"
  shows "fb_writers n m'"
proof -
  note old = fb_writersD [OF assms(1)]
  have "owner (((stat m)(k := x)) j) = Some v \<longleftrightarrow> claim_of (((wr m)(w := p)) v) = Some j" for v j
    using assms(7,8) old(1) [of j v] old(1) [of k v] old(1) [of j w] old(1) [of k w] by auto
  moreover have "claim_of (((wr m)(w := p)) v) = Some j \<Longrightarrow>
      agree (fb_N m) (fb_S m) (((wr m)(w := p)) v) (((stat m)(k := x)) j)" for v j
    using assms(7,8) old(1) [of k v] old(1) [of k w] old(2) [of v j] by auto
  moreover have "\<forall>v. n \<le> v \<longrightarrow> ((wr m)(w := p)) v = WIdle" using assms(1,4) by (simp add: fb_writers_def)
  ultimately show ?thesis unfolding fb_writers_def assms(2,3,5,6) by blast
qed

text \<open>The steps in which a writer only moves between phases without a claim.\<close>

lemma fb_writers_phase:
  assumes "fb_writers n m" "wr m' = (wr m)(w := p)" "w < n"
    "slot_count (buf m') = slot_count (buf m)" "slot_size (buf m') = slot_size (buf m)" "stat m' = stat m"
    "claim_of (wr m w) = None" "claim_of p = None"
  shows "fb_writers n m'"
proof -
  note old = fb_writersD [OF assms(1)]
  have same: "claim_of (((wr m)(w := p)) v) = claim_of (wr m v)" for v using assms(7,8) by simp
  have "claim_of (wr m v) = Some k \<Longrightarrow> agree (fb_N m) (fb_S m) (((wr m)(w := p)) v) (stat m k)" for v k
    using old(2) [of v k] assms(7) by auto
  moreover have "\<forall>v. n \<le> v \<longrightarrow> ((wr m)(w := p)) v = WIdle" using assms(1,3) by (simp add: fb_writers_def)
  ultimately show ?thesis using old(1) unfolding fb_writers_def assms(2,4-6) same by blast
qed

lemma fb_reserve_inv:
  assumes "fb_inv n m" "fb_enabled n (Reserve w) m"
  shows "ok (fb_exec (Reserve w) m) (fb_inv n)"
proof -
  let ?free = "0 < sint (free_count (buf m))"
  define m' where "m' = m\<lparr>buf := (buf m)\<lparr>free_count := free_count (buf m) - 1\<rparr>, wr := (wr m)(w := if ?free then WReserved else WRefused)\<rparr>"
  note inv = fb_invD [OF assms(1)]
  have w: "w < n" "wr m w = WIdle" using assms(2) by simp_all
  have wr: "wr m' = (wr m)(w := if ?free then WReserved else WRefused)" by (simp add: m'_def)
  note ph = in_phase_upd [OF w(1) wr, of WReserved] in_phase_upd [OF w(1) wr, of WRefused]
  have free: "fb_free n m' = fb_free n m - 1" using ph w(2) by (auto simp: fb_free_def) (simp_all add: m'_def)
  have cap: "claims m + in_phase n WReserved m' \<le> reads m + fb_N m"
  proof (cases ?free)
    case True
    then have "claims m + in_phase n WReserved m + 1 \<le> reads m + fb_N m"
      using sint_free [OF inv(1,2)] by (intro fb_free_pos) simp
    then show ?thesis using ph(1) True w(2) by simp
  next
    case False
    then show ?thesis using ph(1) w(2) inv(2) by (simp add: fb_counts_def)
  qed
  have "fb_counts n m'"
    using inv(2) cap free unfolding fb_counts_def by (simp add: m'_def)
  moreover have "fb_writers n m'"
    by (rule fb_writers_phase [OF inv(4) wr w(1)]) (use w(2) in \<open>auto simp: m'_def\<close>)
  moreover have "fb_dims n m'" "fb_slots m'" "fb_data m'"
    using inv(1,3,5) by (simp_all add: m'_def fb_dims_def fb_slots_def fb_data_def)
  moreover have "fb_exec (Reserve w) m = Some m'" by (simp add: fb_reserve_def m'_def)
  ultimately show ?thesis by (simp add: fb_inv_def)
qed

lemma fb_unreserve_inv:
  assumes "fb_inv n m" "fb_enabled n (Unreserve w) m"
  shows "ok (fb_exec (Unreserve w) m) (fb_inv n)"
proof -
  define m' where "m' = m\<lparr>buf := fb_unreserve (buf m), wr := (wr m)(w := WCounting)\<rparr>"
  note inv = fb_invD [OF assms(1)]
  have w: "wr m w = WRefused" "w < n" using assms(2) fb_active [OF inv(4), of w] by simp_all
  have wr: "wr m' = (wr m)(w := WCounting)" by (simp add: m'_def)
  note ph = in_phase_upd [OF w(2) wr, of WReserved] in_phase_upd [OF w(2) wr, of WRefused]
  have free: "fb_free n m' = fb_free n m + 1" using ph w(1) by (simp add: fb_free_def) (simp add: m'_def fb_ops)
  have "fb_counts n m'"
    using inv(2) ph(1) w(1) free unfolding fb_counts_def by (simp add: m'_def fb_ops)
  moreover have "fb_writers n m'"
    by (rule fb_writers_phase [OF inv(4) wr w(2)]) (use w(1) in \<open>auto simp: m'_def fb_ops\<close>)
  moreover have "fb_dims n m'" "fb_slots m'" "fb_data m'"
    using inv(1,3,5) by (simp_all add: m'_def fb_ops fb_dims_def fb_slots_def fb_data_def)
  ultimately show ?thesis by (simp add: fb_inv_def m'_def)
qed

lemma fb_count_failure_inv:
  assumes "fb_inv n m" "fb_enabled n (CountFailure w) m"
  shows "ok (fb_exec (CountFailure w) m) (fb_inv n)"
proof -
  define m' where "m' = m\<lparr>buf := fb_count_failure (buf m), wr := (wr m)(w := WIdle)\<rparr>"
  note inv = fb_invD [OF assms(1)]
  have w: "wr m w = WCounting" "w < n" using assms(2) fb_active [OF inv(4), of w] by simp_all
  have wr: "wr m' = (wr m)(w := WIdle)" by (simp add: m'_def)
  note ph = in_phase_upd [OF w(2) wr, of WReserved] in_phase_upd [OF w(2) wr, of WRefused]
  have free: "fb_free n m' = fb_free n m" using ph w(1) by (simp add: fb_free_def) (simp add: m'_def fb_ops)
  have "fb_counts n m'"
    using inv(2) ph(1) w(1) free unfolding fb_counts_def by (simp add: m'_def fb_ops)
  moreover have "fb_writers n m'"
    by (rule fb_writers_phase [OF inv(4) wr w(2)]) (use w(1) in \<open>auto simp: m'_def fb_ops\<close>)
  moreover have "fb_dims n m'" "fb_slots m'" "fb_data m'"
    using inv(1,3,5) by (simp_all add: m'_def fb_ops fb_dims_def fb_slots_def fb_data_def)
  ultimately show ?thesis by (simp add: fb_inv_def m'_def)
qed

text \<open>What is known of a claim that is not free.\<close>

lemma fb_slotsD:
  assumes "fb_slots m"
  shows "stat m k = Unclaimed \<longleftrightarrow> claims m \<le> k" "stat m k \<noteq> Freed \<Longrightarrow> reads m \<le> k"
    "reads m \<le> k \<Longrightarrow> k < reads m + fb_N m \<Longrightarrow> slots (buf m) (k mod fb_N m) = mark_of (stat m k)"
    "rd m \<in> {RReady, RCopied} \<Longrightarrow> stat m (reads m) = Published"
    "rd m \<in> {RFreed, RAdvanced} \<Longrightarrow> stat m (reads m) = Freed"
  using assms unfolding fb_slots_def by (simp_all add: not_less [symmetric])

lemma fb_window:
  assumes "fb_counts n m" "fb_slots m" "stat m k \<noteq> Unclaimed" "stat m k \<noteq> Freed"
  shows "reads m \<le> k" "k < claims m" "k < reads m + fb_N m"
  using assms fb_slotsD(1,2) [OF assms(2), of k] by (auto simp: fb_counts_def)

lemma fb_reader_claim:
  assumes "fb_slots m" "rd m \<in> {RReady, RCopied, RFreed, RAdvanced}"
  shows "reads m < claims m"
proof (rule ccontr)
  assume "\<not> reads m < claims m"
  then have "stat m (reads m) = Unclaimed" using fb_slotsD(1) [OF assms(1)] by simp
  then show False using fb_slotsD(4,5) [OF assms(1)] assms(2) by auto
qed

lemma fb_owned_claim:
  assumes "fb_slots m" "owner (stat m k) \<noteq> None" "rd m \<in> {RReady, RCopied, RFreed, RAdvanced}"
  shows "reads m < k"
proof -
  have "stat m k \<noteq> Freed" "stat m k \<noteq> Published" using assms(2) by auto
  then have "reads m \<le> k" "k \<noteq> reads m" using fb_slotsD(2) [OF assms(1), of k] fb_slotsD(4,5) [OF assms(1)] assms(3) by auto
  then show ?thesis by simp
qed

text \<open>The state of a claim and the mark of its slot change together.\<close>

lemma fb_slots_upd:
  assumes "fb_slots m" "reads m \<le> k" "k < reads m + fb_N m" "reads m \<le> j" "j < reads m + fb_N m"
  shows "((slots (buf m))(k mod fb_N m := mark_of x)) (j mod fb_N m) = mark_of (((stat m)(k := x)) j)"
  using fb_slotsD(3) [OF assms(1,4,5)] window_inj [OF assms(2,3,4,5)] by auto

lemma fb_slots_step:
  assumes "fb_slots m" "reads m \<le> k" "k < reads m + fb_N m" "reads m' = reads m" "slot_count (buf m') = slot_count (buf m)"
    "stat m' = (stat m)(k := x)" "slots (buf m') = (slots (buf m))(k mod fb_N m := mark_of x)"
    "\<And>j. j \<noteq> k \<Longrightarrow> claims m \<le> j \<longleftrightarrow> claims m' \<le> j" "x = Unclaimed \<longleftrightarrow> claims m' \<le> k"
    "\<And>j. j \<noteq> k \<Longrightarrow> j < reads m + (if rd m \<in> {RFreed, RAdvanced} then 1 else 0) \<longleftrightarrow>
       j < reads m + (if rd m' \<in> {RFreed, RAdvanced} then 1 else 0)"
    "x = Freed \<longleftrightarrow> k < reads m + (if rd m' \<in> {RFreed, RAdvanced} then 1 else 0)"
    "rd m' \<in> {RReady, RCopied} \<Longrightarrow> rd m \<in> {RReady, RCopied} \<and> k \<noteq> reads m"
  shows "fb_slots m'"
proof -
  have a: "((stat m)(k := x)) j = Unclaimed \<longleftrightarrow> claims m' \<le> j" for j
    using fb_slotsD(1) [OF assms(1), of j] assms(8) [of j] assms(9) by (cases "j = k") simp_all
  have "stat m j = Freed \<longleftrightarrow> j < reads m + (if rd m \<in> {RFreed, RAdvanced} then 1 else 0)" for j
    using assms(1) unfolding fb_slots_def by blast
  then have b: "((stat m)(k := x)) j = Freed \<longleftrightarrow> j < reads m + (if rd m' \<in> {RFreed, RAdvanced} then 1 else 0)" for j
    using assms(10) [of j] assms(11) by (cases "j = k") simp_all
  have c: "rd m' \<in> {RReady, RCopied} \<Longrightarrow> ((stat m)(k := x)) (reads m) = Published"
    using fb_slotsD(4) [OF assms(1)] assms(12) by auto
  show ?thesis
    unfolding fb_slots_def assms(4-7) using a b c fb_slots_upd [OF assms(1-3)] by blast
qed

lemma fb_claim_inv:
  assumes "fb_inv n m" "fb_enabled n (Claim w) m"
  shows "ok (fb_exec (Claim w) m) (fb_inv n)"
proof -
  note inv = fb_invD [OF assms(1)]
  have w: "wr m w = WReserved" "w < n" using assms(2) fb_active [OF inv(4), of w] by simp_all
  have dvd: "fb_N m dvd 2 ^ 32" using inv(1) by (simp add: fb_dims_def)
  have idx: "write_idx (buf m) mod slot_count (buf m) = of_nat (claims m mod fb_N m)"
    using inv(2) index_wraps [OF dvd] by (simp add: fb_counts_def)
  define m' where "m' = m\<lparr>buf := (buf m)\<lparr>write_idx := write_idx (buf m) + 1\<rparr>,
    wr := (wr m)(w := WClaimed (claims m) (of_nat (claims m mod fb_N m))),
    stat := (stat m)(claims m := Claimed w), claims := claims m + 1\<rparr>"
  have wr: "wr m' = (wr m)(w := WClaimed (claims m) (of_nat (claims m mod fb_N m)))" by (simp add: m'_def)
  note ph = in_phase_upd [OF w(2) wr, of WReserved] in_phase_upd [OF w(2) wr, of WRefused]
  have free: "fb_free n m' = fb_free n m" using ph w(1) by (simp add: fb_free_def) (simp add: m'_def)
  have "in_phase n WReserved m = in_phase n WReserved m' + 1" using ph(1) w(1) by simp
  then have "fb_counts n m'" using inv(2) free unfolding fb_counts_def by (simp add: m'_def)
  moreover have "fb_writers n m'"
  proof (rule fb_writers_upd [OF inv(4) wr])
    show "stat m' = (stat m)(claims m := Claimed w)" by (simp add: m'_def)
    show "claim_of (wr m w) = Some (claims m) \<or> claim_of (wr m w) = None \<and> owner (stat m (claims m)) = None"
      using w(1) fb_slotsD(1) [OF inv(3), of "claims m"] by simp
  qed (use w(2) in \<open>simp_all add: m'_def\<close>)
  moreover have "fb_slots m'"
  proof (rule fb_slots_step [OF inv(3), of "claims m" _ "Claimed w"])
    have un: "stat m (claims m) = Unclaimed" using fb_slotsD(1) [OF inv(3)] by simp
    show cl: "reads m \<le> claims m" "claims m < reads m + fb_N m" using inv(2) \<open>in_phase n WReserved m = _\<close> by (simp_all add: fb_counts_def)
    show "slots (buf m') = (slots (buf m))(claims m mod fb_N m := mark_of (Claimed w))"
      using fb_slotsD(3) [OF inv(3) cl] un by (simp add: m'_def fun_upd_idem)
    show "Claimed w = Freed \<longleftrightarrow> claims m < reads m + (if rd m' \<in> {RFreed, RAdvanced} then 1 else 0)"
      "rd m' \<in> {RReady, RCopied} \<Longrightarrow> rd m \<in> {RReady, RCopied} \<and> claims m \<noteq> reads m"
      using cl fb_reader_claim [OF inv(3)] by (auto simp: m'_def)
  qed (auto simp: m'_def)
  moreover have "fb_dims n m'" "fb_data m'"
    using inv(1,5) by (auto simp: m'_def fb_dims_def fb_data_def)
  moreover have "fb_exec (Claim w) m = Some m'" by (simp add: fb_claim_def idx m'_def)
  ultimately show ?thesis by (simp add: fb_inv_def)
qed

lemma fb_mark_inv:
  assumes "fb_inv n m" "fb_enabled n (Mark w) m"
  shows "ok (fb_exec (Mark w) m) (fb_inv n)"
proof -
  note inv = fb_invD [OF assms(1)]
  obtain k i where k: "wr m w = WClaimed k i" using assms(2) by auto
  then have w: "w < n" using fb_active [OF inv(4), of w] by simp
  have st: "stat m k = Claimed w" "i = of_nat (k mod fb_N m)"
    using fb_writersD(1) [OF inv(4), of k w] fb_writersD(2) [OF inv(4), of w k] k by auto
  note win = fb_window [OF inv(2,3), of k, unfolded st(1), simplified]
  note ix = slot_index [OF inv(1), of k]
  define m' where "m' = m\<lparr>buf := (buf m)\<lparr>slots := (slots (buf m))(k mod fb_N m := SLOT_BUSY)\<rparr>,
    wr := (wr m)(w := WWriting k (of_nat (k mod fb_N m * fb_S m))), stat := (stat m)(k := Writing w)\<rparr>"
  have wr: "wr m' = (wr m)(w := WWriting k (of_nat (k mod fb_N m * fb_S m)))" by (simp add: m'_def)
  note ph = in_phase_upd [OF w wr, of WReserved] in_phase_upd [OF w wr, of WRefused]
  have free: "fb_free n m' = fb_free n m" using ph k by (simp add: fb_free_def) (simp add: m'_def)
  have "in_phase n WReserved m' = in_phase n WReserved m" using ph(1) k by simp
  then have "fb_counts n m'" using inv(2) free unfolding fb_counts_def by (simp add: m'_def)
  moreover have "fb_writers n m'"
    by (rule fb_writers_upd [OF inv(4) wr, of k "Writing w"]) (use w k in \<open>simp_all add: m'_def\<close>)
  moreover have "fb_slots m'"
    by (rule fb_slots_step [OF inv(3) win(1,3), of _ "Writing w"])
      (use win st(1) fb_owned_claim [OF inv(3), of k] in \<open>auto simp: m'_def\<close>)
  moreover have "fb_dims n m'" "fb_data m'"
    using inv(1,5) by (auto simp: m'_def fb_dims_def fb_data_def)
  moreover have "fb_exec (Mark w) m = Some m'" using k st(2) ix by (simp add: fb_set_slot_def m'_def del: of_nat_mult)
  ultimately show ?thesis by (simp add: fb_inv_def)
qed

lemma fb_store_inv:
  assumes "fb_inv n m" "fb_enabled n (Store w v) m"
  shows "ok (fb_exec (Store w v) m) (fb_inv n)"
proof -
  note inv = fb_invD [OF assms(1)]
  obtain k p where k: "wr m w = WWriting k p" using assms(2) by auto
  then have w: "w < n" using fb_active [OF inv(4), of w] by simp
  have st: "stat m k = Writing w" "p = of_nat (k mod fb_N m * fb_S m)"
    using fb_writersD(1) [OF inv(4), of k w] fb_writersD(2) [OF inv(4), of w k] k by auto
  note win = fb_window [OF inv(2,3), of k, unfolded st(1), simplified]
  note ix = slot_index [OF inv(1), of k]
  define m' where "m' = m\<lparr>buf := (buf m)\<lparr>buffer_mem := (buffer_mem (buf m))(k mod fb_N m * fb_S m := v)\<rparr>,
    wr := (wr m)(w := WStored k p), stat := (stat m)(k := Stored w), sent := (sent m)(k := v)\<rparr>"
  have wr: "wr m' = (wr m)(w := WStored k p)" by (simp add: m'_def)
  note ph = in_phase_upd [OF w wr, of WReserved] in_phase_upd [OF w wr, of WRefused]
  have free: "fb_free n m' = fb_free n m" using ph k by (simp add: fb_free_def) (simp add: m'_def)
  have "in_phase n WReserved m' = in_phase n WReserved m" using ph(1) k by simp
  then have "fb_counts n m'" using inv(2) free unfolding fb_counts_def by (simp add: m'_def)
  moreover have "fb_writers n m'"
    by (rule fb_writers_upd [OF inv(4) wr, of k "Stored w"]) (use w k st(2) in \<open>simp_all add: m'_def\<close>)
  moreover have "fb_slots m'"
    by (rule fb_slots_step [OF inv(3) win(1,3), of _ "Stored w"])
      (use win st(1) fb_slotsD(3) [OF inv(3) win(1,3)] fb_owned_claim [OF inv(3), of k] in \<open>auto simp: m'_def fun_upd_idem\<close>)
  moreover have "fb_data m'"
  proof -
    have mem: "((buffer_mem (buf m))(k mod fb_N m * fb_S m := v)) (j mod fb_N m * fb_S m) = sent m j"
      if j: "j \<noteq> k" "stat m j = Published \<or> (\<exists>w. stat m j = Stored w)" for j
    proof -
      have "reads m \<le> j" "j < reads m + fb_N m" by (rule fb_window [OF inv(2,3)]; use j(2) in auto)+
      then have "j mod fb_N m \<noteq> k mod fb_N m" using window_inj [OF _ _ win(1,3)] j(1) by blast
      then have "j mod fb_N m * fb_S m \<noteq> k mod fb_N m * fb_S m" using inv(1) by (simp add: fb_dims_def)
      moreover have "buffer_mem (buf m) (j mod fb_N m * fb_S m) = sent m j"
        using j(2) inv(5) unfolding fb_data_def by blast
      ultimately show ?thesis by simp
    qed
    have "k \<notin> {0..<reads m + (if rd m \<in> {RCopied, RFreed, RAdvanced} then 1 else 0)}"
      using win(1) st(1) fb_owned_claim [OF inv(3), of k] by auto
    then have "map ((sent m)(k := v)) [0..<reads m + (if rd m \<in> {RCopied, RFreed, RAdvanced} then 1 else 0)] =
        map (sent m) [0..<reads m + (if rd m \<in> {RCopied, RFreed, RAdvanced} then 1 else 0)]"
      by (intro map_cong) auto
    moreover have "got m = map (sent m) [0..<reads m + (if rd m \<in> {RCopied, RFreed, RAdvanced} then 1 else 0)]"
      using inv(5) by (simp add: fb_data_def)
    ultimately show ?thesis using mem unfolding fb_data_def by (auto simp: m'_def)
  qed
  moreover have "fb_dims n m'" using inv(1) by (simp add: m'_def fb_dims_def)
  moreover have "fb_exec (Store w v) m = Some m'" using k st(2) ix by (simp add: fb_store_def m'_def del: of_nat_mult)
  ultimately show ?thesis by (simp add: fb_inv_def)
qed

lemma fb_publish_inv:
  assumes "fb_inv n m" "fb_enabled n (Publish w) m"
  shows "ok (fb_exec (Publish w) m) (fb_inv n)"
proof -
  note inv = fb_invD [OF assms(1)]
  obtain k p where k: "wr m w = WStored k p" using assms(2) by auto
  then have w: "w < n" using fb_active [OF inv(4), of w] by simp
  have st: "stat m k = Stored w" "p = of_nat (k mod fb_N m * fb_S m)"
    using fb_writersD(1) [OF inv(4), of k w] fb_writersD(2) [OF inv(4), of w k] k by auto
  note win = fb_window [OF inv(2,3), of k, unfolded st(1), simplified]
  note ix = slot_index [OF inv(1), of k]
  define m' where "m' = m\<lparr>buf := (buf m)\<lparr>slots := (slots (buf m))(k mod fb_N m := SLOT_READY)\<rparr>,
    wr := (wr m)(w := WIdle), stat := (stat m)(k := Published)\<rparr>"
  have wr: "wr m' = (wr m)(w := WIdle)" by (simp add: m'_def)
  note ph = in_phase_upd [OF w wr, of WReserved] in_phase_upd [OF w wr, of WRefused]
  have free: "fb_free n m' = fb_free n m" using ph k by (simp add: fb_free_def) (simp add: m'_def)
  have "in_phase n WReserved m' = in_phase n WReserved m" using ph(1) k by simp
  then have "fb_counts n m'" using inv(2) free unfolding fb_counts_def by (simp add: m'_def)
  moreover have "fb_writers n m'"
    by (rule fb_writers_upd [OF inv(4) wr, of k Published]) (use w k in \<open>simp_all add: m'_def\<close>)
  moreover have "fb_slots m'"
    by (rule fb_slots_step [OF inv(3) win(1,3), of _ Published])
      (use win st(1) fb_owned_claim [OF inv(3), of k] in \<open>auto simp: m'_def\<close>)
  moreover have "fb_dims n m'" "fb_data m'"
    using inv(1,5) st(1) by (auto simp: m'_def fb_dims_def fb_data_def)
  moreover have "fb_exec (Publish w) m = Some m'"
    using k st(2) ix by (simp add: ft_buffer_finish_write_def fb_set_slot_def m'_def del: of_nat_mult)
  ultimately show ?thesis by (simp add: fb_inv_def)
qed

text \<open>The steps of the reader.\<close>

lemma fb_read_index:
  assumes "fb_inv n m" "rd m \<noteq> RAdvanced"
  shows "fb_read_slot (buf m) = of_nat (reads m mod fb_N m)" "unat (fb_read_slot (buf m)) = reads m mod fb_N m"
    "slots (buf m) (unat (fb_read_slot (buf m))) = mark_of (stat m (reads m))"
proof -
  note inv = fb_invD [OF assms(1)]
  have N: "fb_N m dvd 2 ^ 32" "0 < fb_N m" using inv(1) by (simp_all add: fb_dims_def)
  show slot: "fb_read_slot (buf m) = of_nat (reads m mod fb_N m)"
    using inv(2) assms(2) index_wraps [OF N(1)] by (simp add: fb_counts_def fb_read_slot_def)
  then show "unat (fb_read_slot (buf m)) = reads m mod fb_N m" using slot_index(1) [OF inv(1)] by simp
  then show "slots (buf m) (unat (fb_read_slot (buf m))) = mark_of (stat m (reads m))"
    using fb_slotsD(3) [OF inv(3), of "reads m"] N(2) by simp
qed

lemma mark_ready: "mark_of x = SLOT_READY \<longleftrightarrow> x = Published"
  by (cases x) simp_all

text \<open>A change of the phase of the reader and of the counters leaves the writers alone.\<close>

lemma fb_same_writers:
  assumes "fb_inv n m" "wr m' = wr m" "slot_count (buf m') = slot_count (buf m)" "slot_size (buf m') = slot_size (buf m)"
    "\<And>k. owner (stat m' k) = owner (stat m k)" "\<And>k. owner (stat m k) \<noteq> None \<Longrightarrow> stat m' k = stat m k"
  shows "fb_dims n m'" "fb_writers n m'" "in_phase n p m' = in_phase n p m"
proof -
  note inv = fb_invD [OF assms(1)]
  show "fb_dims n m'" using inv(1) by (simp add: fb_dims_def assms(3,4))
  show "in_phase n p m' = in_phase n p m" by (simp add: in_phase_def assms(2))
  have "claim_of (wr m w) = Some k \<Longrightarrow> agree (fb_N m) (fb_S m) (wr m w) (stat m' k)" for w k
    using fb_writersD [OF inv(4)] assms(6) [of k] by (metis option.distinct(1))
  then show "fb_writers n m'"
    using inv(4) unfolding fb_writers_def assms(2-5) by blast
qed

lemma fb_reader_inv:
  assumes "fb_inv n m" "fb_enabled n c m" "c = Check \<or> c = Test \<or> c = Copy"
  shows "ok (fb_exec c m) (fb_inv n)"
proof -
  note inv = fb_invD [OF assms(1)]
  have upd: "fb_inv n (m\<lparr>rd := r, got := g\<rparr>)"
    if "rd m \<notin> {RCopied, RFreed, RAdvanced}" "r \<notin> {RFreed, RAdvanced}" "r \<in> {RReady, RCopied} \<Longrightarrow> stat m (reads m) = Published"
      "g = map (sent m) [0..<reads m + (if r = RCopied then 1 else 0)]" for r g
  proof -
    have "fb_dims n (m\<lparr>rd := r, got := g\<rparr>)" "fb_writers n (m\<lparr>rd := r, got := g\<rparr>)"
      "\<And>p. in_phase n p (m\<lparr>rd := r, got := g\<rparr>) = in_phase n p m"
      by (rule fb_same_writers [OF assms(1)]; simp)+
    moreover from this have "fb_counts n (m\<lparr>rd := r, got := g\<rparr>)"
      using inv(2) that(1,2) by (simp add: fb_counts_def fb_free_def)
    moreover have "fb_slots (m\<lparr>rd := r, got := g\<rparr>)"
      using inv(3) that(1-3) by (simp add: fb_slots_def)
    moreover have "fb_data (m\<lparr>rd := r, got := g\<rparr>)"
      using inv(5) that(2,4) by (simp add: fb_data_def)
    ultimately show ?thesis by (simp add: fb_inv_def)
  qed
  have got: "got m = map (sent m) [0..<reads m]" if "rd m \<notin> {RCopied, RFreed, RAdvanced}"
    using inv(5) that by (simp add: fb_data_def)
  have keep: "fb_inv n (m\<lparr>rd := r\<rparr>)"
    if "rd m \<notin> {RCopied, RFreed, RAdvanced}" "r = RReady \<and> stat m (reads m) = Published \<or> r = RIdle \<or> r = RChecked" for r
  proof -
    have "m\<lparr>rd := r, got := got m\<rparr> = m\<lparr>rd := r\<rparr>" by simp
    moreover have "fb_inv n (m\<lparr>rd := r, got := got m\<rparr>)"
      by (rule upd [OF that(1)]) (use that(2) got [OF that(1)] in auto)
    ultimately show ?thesis by simp
  qed
  consider (check) "c = Check" "rd m = RIdle" | (test) "c = Test" "rd m = RChecked" | (copy) "c = Copy" "rd m = RReady"
    using assms(2,3) by auto
  then show ?thesis
  proof cases
    case check
    then show ?thesis using keep [of RChecked] assms(1) by simp
  next
    case test
    then show ?thesis
      using keep [of RReady] keep [of RIdle] fb_read_index(3) [OF assms(1)] mark_ready by simp
  next
    case copy
    then have pub: "stat m (reads m) = Published" using fb_slotsD(4) [OF inv(3)] by simp
    have ix: "fb_read_slot (buf m) * slot_size (buf m) = of_nat (reads m mod fb_N m * fb_S m)"
      using fb_read_index(1) [OF assms(1)] slot_index(2) [OF inv(1)] copy(2) by simp
    have "fb_fetch (buf m) = sent m (reads m)"
      unfolding fb_fetch_def ix slot_index(3) [OF inv(1)] using inv(5) pub unfolding fb_data_def by blast
    then show ?thesis using copy upd [of RCopied "got m @ [sent m (reads m)]"] got pub by simp
  qed
qed

lemma fb_free_slot_inv:
  assumes "fb_inv n m" "fb_enabled n FreeSlot m"
  shows "ok (fb_exec FreeSlot m) (fb_inv n)"
proof -
  note inv = fb_invD [OF assms(1)]
  have rd: "rd m = RCopied" and pub: "stat m (reads m) = Published"
    using assms(2) fb_slotsD(4) [OF inv(3)] by simp_all
  define m' where "m' = m\<lparr>buf := (buf m)\<lparr>slots := (slots (buf m))(reads m mod fb_N m := SLOT_FREE)\<rparr>, rd := RFreed,
    stat := (stat m)(reads m := Freed)\<rparr>"
  have "fb_dims n m'" "fb_writers n m'" and ph: "\<And>p. in_phase n p m' = in_phase n p m"
    by (rule fb_same_writers [OF assms(1)]; use pub in \<open>auto simp: m'_def\<close>)+
  moreover have "fb_counts n m'" using inv(2) rd ph unfolding fb_counts_def fb_free_def by (simp add: m'_def)
  moreover have "fb_slots m'"
    by (rule fb_slots_step [OF inv(3), of "reads m" _ Freed])
      (use rd inv(1) fb_reader_claim [OF inv(3)] in \<open>auto simp: m'_def fb_dims_def\<close>)
  moreover have "fb_data m'" using inv(5) rd by (auto simp: m'_def fb_data_def)
  moreover have "fb_exec FreeSlot m = Some m'" using fb_read_index(2) [OF assms(1)] rd by (simp add: fb_set_slot_def m'_def)
  ultimately show ?thesis by (simp add: fb_inv_def)
qed

lemma fb_advance_inv:
  assumes "fb_inv n m" "fb_enabled n Advance m"
  shows "ok (fb_exec Advance m) (fb_inv n)"
proof -
  note inv = fb_invD [OF assms(1)]
  define m' where "m' = m\<lparr>buf := fb_advance (buf m), rd := RAdvanced\<rparr>"
  have rd: "rd m = RFreed" using assms(2) by simp
  have "fb_dims n m'" "fb_writers n m'" and ph: "\<And>p. in_phase n p m' = in_phase n p m"
    by (rule fb_same_writers [OF assms(1)]; simp add: m'_def fb_ops)+
  moreover have "fb_counts n m'" using inv(2) rd ph unfolding fb_counts_def fb_free_def by (simp add: m'_def fb_ops add.commute)
  moreover have "fb_slots m'" "fb_data m'" using inv(3,5) rd by (simp_all add: m'_def fb_ops fb_slots_def fb_data_def)
  ultimately show ?thesis by (simp add: fb_inv_def m'_def)
qed

lemma fb_release_inv:
  assumes "fb_inv n m" "fb_enabled n Release m"
  shows "ok (fb_exec Release m) (fb_inv n)"
proof -
  note inv = fb_invD [OF assms(1)]
  define m' where "m' = m\<lparr>buf := fb_unreserve (buf m), rd := RIdle, reads := reads m + 1\<rparr>"
  have rd: "rd m = RAdvanced" using assms(2) by simp
  have less: "reads m < claims m" using fb_reader_claim [OF inv(3)] rd by simp
  have "fb_dims n m'" "fb_writers n m'" and ph: "\<And>p. in_phase n p m' = in_phase n p m"
    by (rule fb_same_writers [OF assms(1)]; simp add: m'_def fb_ops)+
  moreover have free: "fb_free n m' = fb_free n m + 1" using ph by (simp add: fb_free_def) (simp add: m'_def fb_ops)
  moreover have "fb_counts n m'"
    using inv(2) rd ph less free unfolding fb_counts_def by (simp add: m'_def fb_ops)
  moreover have "fb_slots m'"
  proof -
    have cap: "claims m \<le> reads m + fb_N m" "0 < fb_N m" using inv(1,2) by (simp_all add: fb_counts_def fb_dims_def)
    have "slots (buf m) ((reads m + fb_N m) mod fb_N m) = mark_of (stat m (reads m + fb_N m))"
      using fb_slotsD(1) [OF inv(3), of "reads m + fb_N m"] fb_slotsD(3) [OF inv(3), of "reads m"]
        fb_slotsD(5) [OF inv(3)] rd cap by simp
    then have "slots (buf m) (k mod fb_N m) = mark_of (stat m k)" if "reads m + 1 \<le> k" "k < reads m + 1 + fb_N m" for k
      using that fb_slotsD(3) [OF inv(3), of k] by (cases "k = reads m + fb_N m") auto
    moreover have "\<forall>k. stat m k = Unclaimed \<longleftrightarrow> claims m \<le> k" "\<forall>k. stat m k = Freed \<longleftrightarrow> k < reads m + 1"
      using inv(3) rd unfolding fb_slots_def by simp_all
    ultimately show ?thesis unfolding fb_slots_def by (simp add: m'_def fb_ops)
  qed
  moreover have "fb_data m'" using inv(5) rd by (simp add: m'_def fb_ops fb_data_def)
  ultimately show ?thesis by (simp add: fb_inv_def m'_def)
qed

lemma fb_step_inv:
  assumes "fb_inv n m" "fb_enabled n c m"
  shows "ok (fb_exec c m) (fb_inv n)"
proof (cases c)
  case (Reserve w)
  then show ?thesis using fb_reserve_inv assms by blast
next
  case (Unreserve w)
  then show ?thesis using fb_unreserve_inv assms by blast
next
  case (CountFailure w)
  then show ?thesis using fb_count_failure_inv assms by blast
next
  case (Claim w)
  then show ?thesis using fb_claim_inv assms by blast
next
  case (Mark w)
  then show ?thesis using fb_mark_inv assms by blast
next
  case (Store w v)
  then show ?thesis using fb_store_inv [OF assms(1), of w v] assms(2) by (simp only:)
next
  case (Publish w)
  then show ?thesis using fb_publish_inv assms by blast
next
  case FreeSlot
  then show ?thesis using fb_free_slot_inv assms by blast
next
  case Advance
  then show ?thesis using fb_advance_inv assms by blast
next
  case Release
  then show ?thesis using fb_release_inv assms by blast
next
  case Check
  then show ?thesis using fb_reader_inv [OF assms] by blast
next
  case Test
  then show ?thesis using fb_reader_inv [OF assms] by blast
next
  case Copy
  then show ?thesis using fb_reader_inv [OF assms] by blast
qed

section \<open>The initial state\<close>

lemma init_ft_buffer_iff:
  "init_ft_buffer cnt sz marks mem = Some b \<longleftrightarrow> cnt \<noteq> 0 \<and> unat cnt dvd 2 ^ 32 \<and>
     b = \<lparr>slot_count = cnt, slot_size = sz, free_count = cnt, write_idx = 0, read_idx = 0,
       slots = (\<lambda>i. if i < unat cnt then SLOT_FREE else marks i), buffer_mem = mem, failed_writes = 0\<rparr>"
proof -
  have "(- 1) mod cnt = cnt - 1 \<longleftrightarrow> unat cnt dvd 2 ^ 32" if "cnt \<noteq> 0"
  proof -
    have pos: "0 < unat cnt" using that by (simp add: word_unat_eq_iff)
    have "unat (- 1 :: 32 word) = 2 ^ 32 - 1" by (simp add: unsigned_minus_1_eq_mask mask_eq_exp_minus_1)
    then have "(- 1) mod cnt = cnt - 1 \<longleftrightarrow> (2 ^ 32 - 1) mod unat cnt = unat cnt - 1"
      using pos by (simp add: word_unat_eq_iff unat_mod unat_sub that word_le_nat_alt)
    also have "\<dots> \<longleftrightarrow> unat cnt dvd Suc (2 ^ 32 - 1)"
      using pos mod_Suc [of "2 ^ 32 - 1" "unat cnt"] by (auto simp: dvd_eq_mod_eq_0 split: if_splits)
    finally show ?thesis by simp
  qed
  then show ?thesis by (auto simp: init_ft_buffer_def)
qed

lemma fb_init_inv:
  assumes "fb_init n m"
  shows "fb_inv n m"
proof -
  obtain cnt sz marks mem where i: "init_ft_buffer cnt sz marks mem = Some (buf m)" "unat cnt + n < 2 ^ 31" "0 < sz"
    "unat cnt * unat sz < 2 ^ 32"
    and m: "\<And>w. wr m w = WIdle" "rd m = RIdle" "\<And>k. stat m k = Unclaimed" "claims m = 0" "reads m = 0" "got m = []"
    using assms unfolding fb_init_def by blast
  have b: "slot_count (buf m) = cnt" "slot_size (buf m) = sz" "free_count (buf m) = cnt" "write_idx (buf m) = 0" "read_idx (buf m) = 0"
    "slots (buf m) = (\<lambda>i. if i < unat cnt then SLOT_FREE else marks i)" "cnt \<noteq> 0" "unat cnt dvd 2 ^ 32"
    using i(1) [unfolded init_ft_buffer_iff] by simp_all
  have pos: "0 < unat cnt" "0 < unat sz" using b(7) i(3) by (simp_all add: word_unat_eq_iff word_less_nat_alt)
  have "in_phase n WReserved m = 0" "in_phase n WRefused m = 0" using m(1) by (simp_all add: in_phase_def)
  then have "fb_counts n m" using m b by (simp add: fb_counts_def fb_free_def)
  moreover have "fb_dims n m" using b i(2,4) pos by (simp add: fb_dims_def)
  moreover have "fb_slots m" using m b pos by (simp add: fb_slots_def)
  moreover have "fb_writers n m" "fb_data m" using m by (simp_all add: fb_writers_def fb_data_def)
  ultimately show ?thesis by (simp add: fb_inv_def)
qed

interpretation feather: kernel_machine "fb_init n" "fb_enabled n" fb_exec "fb_inv n"
  by unfold_locales (simp_all add: fb_init_inv fb_step_inv)

section \<open>The functions as operations of a bounded queue\<close>

text \<open>
  A buffer that no writer or reader is working on represents the queue of the records that have been
  written and not read.
\<close>

definition fb_rep :: "'a ft_buffer \<Rightarrow> 'a list \<Rightarrow> bool" where
  "fb_rep b q \<longleftrightarrow>
     (\<exists>m. fb_inv 1 m \<and> (\<forall>w. wr m w = WIdle) \<and> rd m = RIdle \<and> buf m = b \<and> q = map (sent m) [reads m..<claims m])"

text \<open>How the tracing code uses the buffer: reserve a slot, fill it and finish.\<close>

definition fb_write :: "'a \<Rightarrow> 'a ft_buffer \<Rightarrow> bool \<times> 'a ft_buffer" where
  "fb_write v b =
     (case ft_buffer_start_write b of
        (None, b) \<Rightarrow> (False, b)
      | (Some ptr, b) \<Rightarrow> (True, ft_buffer_finish_write ptr (fb_store ptr v b)))"

lemma fb_quiet_free:
  assumes "fb_inv 1 m" "\<And>w. wr m w = WIdle"
  shows "0 < sint (free_count (buf m)) \<longleftrightarrow> claims m - reads m < fb_N m" "claims m - reads m \<le> fb_N m"
    "free_count (buf m) = slot_count (buf m) \<longleftrightarrow> reads m = claims m"
proof -
  note inv = fb_invD [OF assms(1)]
  define N where "N = fb_N m"
  have z: "in_phase 1 WReserved m = 0" "in_phase 1 WRefused m = 0" using assms(2) by (simp_all add: in_phase_def)
  have c: "reads m \<le> claims m" "claims m \<le> reads m + N" using inv(2) by (simp_all add: fb_counts_def z N_def)
  have f: "sint (free_count (buf m)) = int N - (int (claims m) - int (reads m))"
    using sint_free [OF inv(1,2)] by (simp only: fb_free_def z N_def)
  then show "0 < sint (free_count (buf m)) \<longleftrightarrow> claims m - reads m < fb_N m" "claims m - reads m \<le> fb_N m"
    using c unfolding N_def [symmetric] by linarith+
  have "free_count (buf m) = of_nat (N - (claims m - reads m))"
    using inv(2) c z by (simp add: fb_counts_def fb_free_def N_def of_nat_diff)
  moreover have "N < 2 ^ 32" "N - (claims m - reads m) < 2 ^ 32" using word_32_bound [of "slot_count (buf m)"] unfolding N_def by simp_all
  ultimately have "unat (free_count (buf m)) = N - (claims m - reads m)" by (simp add: unat_of_nat_32)
  then show "free_count (buf m) = slot_count (buf m) \<longleftrightarrow> reads m = claims m"
    using c inv(1) by (simp add: word_unat_eq_iff N_def fb_dims_def) linarith
qed

lemma fb_write_refused:
  assumes "fb_rep b q" "length q = unat (slot_count b)"
  shows "fst (fb_write v b) = False" "fb_rep (snd (fb_write v b)) q"
proof -
  obtain m where m: "fb_inv 1 m" "\<And>w. wr m w = WIdle" "rd m = RIdle" "buf m = b" "q = map (sent m) [reads m..<claims m]"
    using assms(1) unfolding fb_rep_def by blast
  have nf: "\<not> 0 < sint (free_count b)" using fb_quiet_free [OF m(1,2)] assms(2) m(4,5) by simp
  then have eq: "fb_write v b = (False, fb_count_failure (fb_unreserve (b\<lparr>free_count := free_count b - 1\<rparr>)))"
    by (simp add: fb_write_def ft_buffer_start_write_def fb_reserve_def)
  then show "fst (fb_write v b) = False" by simp
  define m1 where "m1 = m\<lparr>buf := b\<lparr>free_count := free_count b - 1\<rparr>, wr := (wr m)(0 := WRefused)\<rparr>"
  have "ok (fb_exec (Reserve 0) m) (fb_inv 1)" by (rule fb_step_inv [OF m(1)]) (simp add: m(2))
  then have m1: "fb_inv 1 m1" using nf m(4) by (simp add: fb_reserve_def m1_def)
  define m2 where "m2 = m1\<lparr>buf := fb_unreserve (buf m1), wr := (wr m1)(0 := WCounting)\<rparr>"
  have "ok (fb_exec (Unreserve 0) m1) (fb_inv 1)" by (rule fb_step_inv [OF m1]) (simp add: m1_def)
  then have m2: "fb_inv 1 m2" by (simp add: m2_def)
  define m3 where "m3 = m2\<lparr>buf := fb_count_failure (buf m2), wr := (wr m2)(0 := WIdle)\<rparr>"
  have "ok (fb_exec (CountFailure 0) m2) (fb_inv 1)" by (rule fb_step_inv [OF m2]) (simp add: m2_def)
  then have "fb_inv 1 m3" by (simp add: m3_def)
  moreover have "wr m3 = wr m" "rd m3 = rd m" "buf m3 = snd (fb_write v b)" "sent m3 = sent m" "reads m3 = reads m" "claims m3 = claims m"
    using m(2) by (auto simp: m3_def m2_def m1_def eq)
  ultimately show "fb_rep (snd (fb_write v b)) q"
    unfolding fb_rep_def using m(2,3,5) by (intro exI [of _ m3]) simp
qed

lemma fb_write_accepted:
  assumes "fb_rep b q" "length q < unat (slot_count b)"
  shows "fst (fb_write v b) = True" "fb_rep (snd (fb_write v b)) (q @ [v])"
proof -
  obtain m where m: "fb_inv 1 m" "\<And>w. wr m w = WIdle" "rd m = RIdle" "buf m = b" "q = map (sent m) [reads m..<claims m]"
    using assms(1) unfolding fb_rep_def by blast
  have free: "0 < sint (free_count b)" using fb_quiet_free(1) [OF m(1,2)] assms(2) m(4,5) by simp
  have le: "reads m \<le> claims m" using fb_invD(2) [OF m(1)] by (simp add: fb_counts_def)
  define m1 where "m1 = m\<lparr>buf := b\<lparr>free_count := free_count b - 1\<rparr>, wr := (wr m)(0 := WReserved)\<rparr>"
  have "ok (fb_exec (Reserve 0) m) (fb_inv 1)" by (rule fb_step_inv [OF m(1)]) (simp add: m(2))
  then have m1: "fb_inv 1 m1" using free m(4) by (simp add: fb_reserve_def m1_def)
  define m2 where "m2 = m1\<lparr>buf := snd (fb_claim (buf m1)), wr := (wr m1)(0 := WClaimed (claims m) (fst (fb_claim (buf m1)))),
    stat := (stat m1)(claims m := Claimed 0), claims := claims m + 1\<rparr>"
  have "ok (fb_exec (Claim 0) m1) (fb_inv 1)" by (rule fb_step_inv [OF m1]) (simp add: m1_def)
  then have m2: "fb_inv 1 m2" by (simp add: m2_def fb_claim_def m1_def)
  let ?i = "fst (fb_claim (buf m1))" and ?p = "fst (fb_claim (buf m1)) * slot_size b"
  define m3 where "m3 = m2\<lparr>buf := fb_set_slot ?i SLOT_BUSY (buf m2), wr := (wr m2)(0 := WWriting (claims m) ?p),
    stat := (stat m2)(claims m := Writing 0)\<rparr>"
  have "ok (fb_exec (Mark 0) m2) (fb_inv 1)" by (rule fb_step_inv [OF m2]) (simp add: m2_def)
  then have m3: "fb_inv 1 m3" by (simp add: m3_def m2_def m1_def fb_claim_def)
  define m4 where "m4 = m3\<lparr>buf := fb_store ?p v (buf m3), wr := (wr m3)(0 := WStored (claims m) ?p),
    stat := (stat m3)(claims m := Stored 0), sent := (sent m)(claims m := v)\<rparr>"
  have "ok (fb_exec (Store 0 v) m3) (fb_inv 1)" by (rule fb_step_inv [OF m3]) (simp add: m3_def)
  then have m4: "fb_inv 1 m4" by (simp add: m4_def m3_def m2_def m1_def)
  define m5 where "m5 = m4\<lparr>buf := ft_buffer_finish_write ?p (buf m4), wr := (wr m4)(0 := WIdle),
    stat := (stat m4)(claims m := Published)\<rparr>"
  have "ok (fb_exec (Publish 0) m4) (fb_inv 1)" by (rule fb_step_inv [OF m4]) (simp add: m4_def)
  then have "fb_inv 1 m5" by (simp add: m5_def m4_def)
  moreover have eq: "fb_write v b = (True, buf m5)"
    using free by (simp add: fb_write_def ft_buffer_start_write_def fb_ops m5_def m4_def m3_def m2_def m1_def Let_def)
  moreover have "wr m5 = wr m" "rd m5 = rd m" "sent m5 = (sent m)(claims m := v)" "reads m5 = reads m" "claims m5 = claims m + 1"
    using m(2) by (auto simp: m5_def m4_def m3_def m2_def m1_def)
  ultimately show "fst (fb_write v b) = True" "fb_rep (snd (fb_write v b)) (q @ [v])"
    unfolding fb_rep_def using m(2,3,5) le by (auto intro!: exI [of _ m5])
qed

lemma fb_read_spec:
  assumes "fb_rep b q"
  shows "fst (ft_buffer_read b) = (case q of [] \<Rightarrow> None | x # _ \<Rightarrow> Some x)" "fb_rep (snd (ft_buffer_read b)) (tl q)"
proof -
  obtain m where m: "fb_inv 1 m" "\<And>w. wr m w = WIdle" "rd m = RIdle" "buf m = b" "q = map (sent m) [reads m..<claims m]"
    using assms(1) unfolding fb_rep_def by blast
  note inv = fb_invD [OF m(1)]
  have le: "reads m \<le> claims m" using inv(2) by (simp add: fb_counts_def)
  have "fst (ft_buffer_read b) = (case q of [] \<Rightarrow> None | x # _ \<Rightarrow> Some x) \<and> fb_rep (snd (ft_buffer_read b)) (tl q)"
  proof (cases "reads m = claims m")
    case True
    then have "ft_buffer_read b = (None, b)" "q = []"
      using fb_quiet_free(3) [OF m(1,2)] m(4,5) by (simp_all add: ft_buffer_read_def fb_nonempty_def)
    then show ?thesis using assms by simp
  next
    case False
    then have q: "q = sent m (reads m) # map (sent m) [reads m + 1..<claims m]"
      using le m(5) by (simp add: upt_conv_Cons)
    have ne: "fb_nonempty b" using fb_quiet_free(3) [OF m(1,2)] False m(4) by (simp add: fb_nonempty_def)
    have "stat m (reads m) = Published"
    proof -
      have "stat m (reads m) \<noteq> Unclaimed" "stat m (reads m) \<noteq> Freed"
        using inv(3) False le m(3) unfolding fb_slots_def by simp_all
      moreover have "owner (stat m (reads m)) = None"
        using fb_writersD(1) [OF inv(4), of "reads m"] m(2) by (cases "owner (stat m (reads m))") auto
      ultimately show ?thesis by (cases "stat m (reads m)") simp_all
    qed
    then have ready: "slots b (unat (fb_read_slot b)) = SLOT_READY"
      using fb_read_index(3) [OF m(1)] m(3,4) by simp
    define m1 where "m1 = m\<lparr>rd := RChecked\<rparr>"
    have "ok (fb_exec Check m) (fb_inv 1)" by (rule fb_step_inv [OF m(1)]) (simp add: m(3))
    then have m1: "fb_inv 1 m1" using ne m(4) by (simp add: m1_def)
    define m2 where "m2 = m1\<lparr>rd := RReady\<rparr>"
    have "ok (fb_exec Test m1) (fb_inv 1)" by (rule fb_step_inv [OF m1]) (simp add: m1_def)
    then have m2: "fb_inv 1 m2" using ready m(4) by (simp add: m2_def m1_def)
    define m3 where "m3 = m2\<lparr>rd := RCopied, got := got m @ [fb_fetch b]\<rparr>"
    have "ok (fb_exec Copy m2) (fb_inv 1)" by (rule fb_step_inv [OF m2]) (simp add: m2_def)
    then have m3: "fb_inv 1 m3" using m(4) by (simp add: m3_def m2_def m1_def)
    have "got m3 = map (sent m3) [0..<reads m3 + 1]" using fb_invD(5) [OF m3] by (simp add: fb_data_def m3_def)
    then have fetch: "fb_fetch b = sent m (reads m)" by (simp add: m3_def m2_def m1_def)
    define m4 where "m4 = m3\<lparr>buf := fb_set_slot (fb_read_slot b) SLOT_FREE b, rd := RFreed, stat := (stat m)(reads m := Freed)\<rparr>"
    have "ok (fb_exec FreeSlot m3) (fb_inv 1)" by (rule fb_step_inv [OF m3]) (simp add: m3_def)
    then have m4: "fb_inv 1 m4" using m(4) by (simp add: m4_def m3_def m2_def m1_def)
    define m5 where "m5 = m4\<lparr>buf := fb_advance (buf m4), rd := RAdvanced\<rparr>"
    have "ok (fb_exec Advance m4) (fb_inv 1)" by (rule fb_step_inv [OF m4]) (simp add: m4_def)
    then have m5: "fb_inv 1 m5" by (simp add: m5_def)
    define m6 where "m6 = m5\<lparr>buf := fb_unreserve (buf m5), rd := RIdle, reads := reads m + 1\<rparr>"
    have "ok (fb_exec Release m5) (fb_inv 1)" by (rule fb_step_inv [OF m5]) (simp add: m5_def)
    then have m6: "fb_inv 1 m6" by (simp add: m6_def m5_def m4_def m3_def m2_def m1_def)
    have eq: "ft_buffer_read b = (Some (sent m (reads m)), buf m6)"
      using ne ready fetch by (simp add: ft_buffer_read_def m6_def m5_def m4_def)
    have "wr m6 = wr m" "rd m6 = RIdle" "sent m6 = sent m" "reads m6 = reads m + 1" "claims m6 = claims m"
      by (simp_all add: m6_def m5_def m4_def m3_def m2_def m1_def)
    then have "fb_rep (buf m6) (tl q)" unfolding fb_rep_def using m6 m(2) q by (intro exI [of _ m6]) simp
    then show ?thesis using eq q by simp
  qed
  then show "fst (ft_buffer_read b) = (case q of [] \<Rightarrow> None | x # _ \<Rightarrow> Some x)" "fb_rep (snd (ft_buffer_read b)) (tl q)"
    by simp_all
qed

section \<open>Properties\<close>

text \<open>
  C26: the ring buffer under concurrency. Whatever the interleaving of the atomic operations of \<open>n\<close> writers and the
  reader, from a new buffer whose number of slots passed the test of \<^verbatim>\<open>init_ft_buffer\<close>: the records
  that the reader has got are the records stored for the first claims, in the order of the claims and
  without a gap; each of them had been published; no slot is claimed again before it was read, so
  that at most \<^verbatim>\<open>slot_count\<close> claims are unread; and a record that has been published and not read is in the
  memory of its slot. This holds across the overflow of the 32-bit indices.
\<close>

theorem ft_buffer_fifo:
  assumes "reachable (fb_init n) (fb_enabled n) fb_exec m"
  shows "got m = map (sent m) [0..<length (got m)] \<and> (\<forall>k < length (got m). stat m k = Published \<or> stat m k = Freed) \<and>
    length (got m) \<le> claims m \<and> claims m \<le> reads m + unat (slot_count (buf m)) \<and>
    (\<forall>k. stat m k = Published \<longrightarrow>
       buffer_mem (buf m) (k mod unat (slot_count (buf m)) * unat (slot_size (buf m))) = sent m k)"
proof -
  note inv = fb_invD [OF feather.reachable_inv [OF assms]]
  have len: "length (got m) = reads m + (if rd m \<in> {RCopied, RFreed, RAdvanced} then 1 else 0)"
    using inv(5) by (simp add: fb_data_def)
  have "stat m k = Published \<or> stat m k = Freed" if "k < length (got m)" for k
  proof (cases "k < reads m")
    case True
    then show ?thesis using fb_slotsD(2) [OF inv(3), of k] by auto
  next
    case False
    then have "k = reads m" "rd m \<in> {RCopied, RFreed, RAdvanced}" using that len by (auto split: if_splits)
    then show ?thesis using fb_slotsD(4,5) [OF inv(3)] by auto
  qed
  moreover have "length (got m) \<le> claims m"
    using len fb_reader_claim [OF inv(3)] inv(2) by (auto simp: fb_counts_def)
  moreover have "claims m \<le> reads m + fb_N m" using inv(2) by (simp add: fb_counts_def)
  moreover have "got m = map (sent m) [0..<length (got m)]" using inv(5) len by (simp add: fb_data_def)
  ultimately show ?thesis using inv(5) unfolding fb_data_def by blast
qed

definition fb_sample :: "nat fb_system" where
  "fb_sample = \<lparr>buf = \<lparr>slot_count = 2, slot_size = 16, free_count = 2, write_idx = 0, read_idx = 0, slots = (\<lambda>_. SLOT_FREE),
     buffer_mem = (\<lambda>_. 0), failed_writes = 0\<rparr>, wr = (\<lambda>_. WIdle), rd = RIdle, stat = (\<lambda>_. Unclaimed), claims = 0, reads = 0,
     sent = (\<lambda>_. 0), got = []\<rparr>"

fun fb_steps :: "nat fb_call list \<Rightarrow> nat fb_system \<Rightarrow> nat fb_system" where
  "fb_steps [] m = m"
| "fb_steps (c # cs) m = fb_steps cs (the (fb_exec c m))"

fun fb_all_enabled :: "nat \<Rightarrow> nat fb_call list \<Rightarrow> nat fb_system \<Rightarrow> bool" where
  "fb_all_enabled n [] m = True"
| "fb_all_enabled n (c # cs) m = (fb_enabled n c m \<and> fb_all_enabled n cs (the (fb_exec c m)))"

lemma fb_steps_reachable:
  "reachable (fb_init n) (fb_enabled n) fb_exec m \<Longrightarrow> fb_all_enabled n cs m \<Longrightarrow>
     reachable (fb_init n) (fb_enabled n) fb_exec (fb_steps cs m)"
  by (induction cs arbitrary: m) (auto intro: feather.reachable_step)

text \<open>Two writers, of which the second publishes first, and the reader, which waits for the first one.\<close>

definition fb_sample_calls :: "nat fb_call list" where
  "fb_sample_calls = [Reserve 0, Reserve 1, Claim 0, Claim 1, Mark 1, Store 1 7, Publish 1, Check, Test, Mark 0, Store 0 5,
     Publish 0, Check, Test, Copy, FreeSlot]"

lemma fb_sample_init: "fb_init 2 fb_sample"
proof -
  have "init_ft_buffer 2 16 (\<lambda>_. SLOT_FREE) (\<lambda>_. 0 :: nat) = Some (buf fb_sample)"
    by (simp add: init_ft_buffer_iff fb_sample_def)
  then show ?thesis unfolding fb_init_def
    by (intro conjI exI [of _ 2] exI [of _ 16] exI [of _ "\<lambda>_. SLOT_FREE"] exI [of _ "\<lambda>_. 0"]) (simp_all add: fb_sample_def)
qed

theorem ft_buffer_fifo_witness:
  "got (fb_steps fb_sample_calls fb_sample) = map (sent (fb_steps fb_sample_calls fb_sample)) [0..<1] \<and>
   got (fb_steps fb_sample_calls fb_sample) = [5]"
proof -
  have "reachable (fb_init 2) (fb_enabled 2) fb_exec (fb_steps fb_sample_calls fb_sample)"
    by (rule fb_steps_reachable [OF feather.reachable_start [OF fb_sample_init]])
      (simp add: fb_sample_calls_def fb_sample_def fb_ops fb_nonempty_def fb_read_slot_def ft_buffer_finish_write_def)
  from ft_buffer_fifo [OF this] show ?thesis
    by (simp add: fb_sample_calls_def fb_sample_def fb_ops fb_nonempty_def fb_read_slot_def ft_buffer_finish_write_def)
qed

text \<open>
  C27: the functions of the ring buffer implement a bounded queue. For a buffer that represents the
  queue \<open>q\<close>, writing a record succeeds exactly if the queue has fewer than \<^verbatim>\<open>slot_count\<close> records and then
  appends it, a refused write leaves the queue alone, and \<^verbatim>\<open>ft_buffer_read\<close> returns and removes the
  oldest record or reports that there is none. A new buffer represents the empty queue.
\<close>

theorem ft_buffer_refines_queue:
  assumes "fb_rep b q"
  shows "length q \<le> unat (slot_count b) \<and> fst (fb_write v b) = (length q < unat (slot_count b)) \<and>
    fb_rep (snd (fb_write v b)) (if length q < unat (slot_count b) then q @ [v] else q) \<and>
    fst (ft_buffer_read b) = (case q of [] \<Rightarrow> None | x # _ \<Rightarrow> Some x) \<and> fb_rep (snd (ft_buffer_read b)) (tl q)"
proof -
  have "length q \<le> unat (slot_count b)"
    using assms fb_quiet_free(2) unfolding fb_rep_def by force
  then show ?thesis
    using fb_write_accepted [OF assms] fb_write_refused [OF assms] fb_read_spec [OF assms]
    by (cases "length q = unat (slot_count b)") auto
qed

lemma fb_rep_init:
  assumes "init_ft_buffer cnt sz marks mem = Some b" "unat cnt + 1 < 2 ^ 31" "0 < sz" "unat cnt * unat sz < 2 ^ 32"
  shows "fb_rep b []"
proof -
  define m where "m = \<lparr>buf = b, wr = (\<lambda>_. WIdle), rd = RIdle, stat = (\<lambda>_. Unclaimed), claims = 0, reads = 0,
    sent = (\<lambda>_. undefined), got = []\<rparr>"
  have "fb_init 1 m" using assms unfolding fb_init_def m_def by auto
  then have "fb_inv 1 m" by (rule fb_init_inv)
  then show ?thesis unfolding fb_rep_def by (intro exI [of _ m]) (simp add: m_def)
qed

theorem ft_buffer_refines_queue_witness:
  "fst (ft_buffer_read (snd (fb_write 9 (snd (fb_write 5 (buf fb_sample)))))) = Some 5 \<and>
   fst (fb_write 7 (snd (fb_write 9 (snd (fb_write 5 (buf fb_sample)))))) = False"
proof -
  have "init_ft_buffer 2 16 (\<lambda>_. SLOT_FREE) (\<lambda>_. 0 :: nat) = Some (buf fb_sample)"
    by (simp add: init_ft_buffer_iff fb_sample_def)
  then have r: "fb_rep (buf fb_sample) []" by (rule fb_rep_init) simp_all
  have c: "slot_count (snd (fb_write v b)) = slot_count b" for v and b :: "nat ft_buffer"
    by (simp add: fb_write_def ft_buffer_start_write_def ft_buffer_finish_write_def fb_ops Let_def split: prod.splits)
  have "slot_count (buf fb_sample) = 2" by (simp add: fb_sample_def)
  then have two: "fb_rep (snd (fb_write 9 (snd (fb_write 5 (buf fb_sample))))) [5, 9]"
    using ft_buffer_refines_queue [OF r, of 5] ft_buffer_refines_queue [of "snd (fb_write 5 (buf fb_sample))" "[5]" 9] c
    by simp
  show ?thesis using ft_buffer_refines_queue [OF two, of 7] c \<open>slot_count (buf fb_sample) = 2\<close> by simp
qed

end
