(* ===== verification/Ftdev.thy ===== *)
theory Ftdev
  imports Feather_Buffer
begin

text \<open>
  The Feather-Trace device (\<^verbatim>\<open>litmus/ftdev.c\<close>) and the event counters (\<^verbatim>\<open>litmus/ft_event.c\<close>, the
  portable implementation): allocation sizes, events that are switched on and off, opening and
  closing, and reading records to user space. What the code gets from outside is a parameter: whether
  memory was allocated and a lock was interrupted, how many bytes \<^verbatim>\<open>copy_to_user\<close> left uncopied, and
  what the writers did while the reader slept.
\<close>

section \<open>Event counters\<close>

definition MAX_EVENTS :: nat where "MAX_EVENTS = 1024"

type_synonym event_counts = "nat \<Rightarrow> 32 word"

definition ft_enable_event :: "64 word \<Rightarrow> event_counts \<Rightarrow> bool \<times> event_counts" where
  "ft_enable_event i evs =
     (if unat i < MAX_EVENTS then (True, evs(unat i := evs (unat i) + 1)) else (False, evs))"

definition ft_disable_event :: "64 word \<Rightarrow> event_counts \<Rightarrow> bool \<times> event_counts" where
  "ft_disable_event i evs =
     (if unat i < MAX_EVENTS \<and> evs (unat i) \<noteq> 0 then (True, evs(unat i := evs (unat i) - 1)) else (False, evs))"

definition ft_disable_all_events :: "event_counts \<Rightarrow> event_counts" where
  "ft_disable_all_events evs = (\<lambda>i. if i < MAX_EVENTS then 0 else evs i)"

definition ft_is_event_enabled :: "64 word \<Rightarrow> event_counts \<Rightarrow> bool" where
  "ft_is_event_enabled i evs \<longleftrightarrow> unat i < MAX_EVENTS \<and> evs (unat i) \<noteq> 0"

section \<open>Allocation\<close>







section \<open>Devices\<close>

record 'a ftdev_minor =
  mbuf :: "'a ft_buffer option"
  readers :: "32 word"
  events :: "32 word list"

text \<open>The identifier of an event is an \<^verbatim>\<open>int\<close> that is sign-extended for the event table.\<close>

definition activate :: "bool \<Rightarrow> 32 word \<Rightarrow> 32 word list \<times> event_counts \<Rightarrow> int \<times> 32 word list \<times> event_counts" where
  "activate have_mem i ce =
     (if have_mem then (0, i # fst ce, snd (ft_enable_event (scast i) (snd ce))) else (- ENOMEM, ce))"

fun deactivate :: "32 word \<Rightarrow> 32 word list \<times> event_counts \<Rightarrow> 32 word list \<times> event_counts" where
  "deactivate i ([], evs) = ([], evs)"
| "deactivate i (c # cs, evs) =
     (if c = i then (cs, snd (ft_disable_event (scast i) evs))
      else let (cs', evs') = deactivate i (cs, evs) in (c # cs', evs'))"

text \<open>The loop of \<^verbatim>\<open>ftdev_release\<close>: switch off the first event of the chain until there is none.\<close>

fun deactivate_all :: "32 word list \<times> event_counts \<Rightarrow> 32 word list \<times> event_counts" where
  "deactivate_all ([], evs) = ([], evs)"
| "deactivate_all (c # cs, evs) = deactivate_all (cs, snd (ft_disable_event (scast c) evs))"

text \<open>The callbacks of a device; \<open>None\<close> stands for a null pointer.\<close>

record 'a ftdev =
  minor_cnt :: nat
  can_open :: "(nat \<Rightarrow> int) option"
  falloc :: "('a ftdev_minor \<Rightarrow> int \<times> 'a ftdev_minor) option"
  ffree :: "('a ftdev_minor \<Rightarrow> 'a ftdev_minor) option"

definition ftdev_open :: "'a ftdev \<Rightarrow> bool \<Rightarrow> nat \<Rightarrow> (nat \<Rightarrow> 'a ftdev_minor) \<Rightarrow> int \<times> (nat \<Rightarrow> 'a ftdev_minor)" where
  "ftdev_open dev interrupted idx ms =
     (if minor_cnt dev \<le> idx then (- ENODEV, ms)
      else let err = (case can_open dev of None \<Rightarrow> 0 | Some f \<Rightarrow> f idx)
      in if err \<noteq> 0 then (err, ms)
      else if interrupted then (- ERESTARTSYS, ms)
      else let (err, m) = (case falloc dev of
                             Some f \<Rightarrow> if readers (ms idx) = 0 then f (ms idx) else (0, ms idx)
                           | None \<Rightarrow> (0, ms idx));
               m = (if err = 0 then m\<lparr>readers := readers m + 1\<rparr> else m)
      in (err, ms(idx := m)))"

text \<open>The last reader reports \<^verbatim>\<open>failed_writes\<close> of the buffer: without a buffer the kernel follows a null pointer (\<open>None\<close>).\<close>

definition ftdev_release ::
  "'a ftdev \<Rightarrow> bool \<Rightarrow> nat \<Rightarrow> (nat \<Rightarrow> 'a ftdev_minor) \<times> event_counts \<Rightarrow>
   (int \<times> (nat \<Rightarrow> 'a ftdev_minor) \<times> event_counts) option"
where
  "ftdev_release dev interrupted idx ce =
     (if minor_cnt dev \<le> idx then Some (- ENODEV, ce)
      else if interrupted then Some (- ERESTARTSYS, ce)
      else let m = fst ce idx
      in if readers m = 1
         then let (chain, evs) = deactivate_all (events m, snd ce);
                  m = m\<lparr>events := chain\<rparr>
              in if mbuf m = None then None
                 else let m = (case ffree dev of Some f \<Rightarrow> f m | None \<Rightarrow> m)
                      in Some (0, (fst ce)(idx := m\<lparr>readers := readers m - 1\<rparr>), evs)
         else Some (0, (fst ce)(idx := m\<lparr>readers := readers m - 1\<rparr>), snd ce))"

datatype ftdev_cmd = FTDEV_ENABLE_CMD | FTDEV_DISABLE_CMD | OtherCmd

definition ftdev_ioctl ::
  "bool \<Rightarrow> bool \<Rightarrow> ftdev_cmd \<Rightarrow> 64 word \<Rightarrow> 'a ftdev_minor \<times> event_counts \<Rightarrow> int \<times> 'a ftdev_minor \<times> event_counts"
where
  "ftdev_ioctl interrupted have_mem cmd arg me =
     (if interrupted then (- ERESTARTSYS, me)
      else case cmd of
             FTDEV_ENABLE_CMD \<Rightarrow>
               (let (err, chain, evs) = activate have_mem (ucast arg) (events (fst me), snd me)
                in (if err \<noteq> 0 then - ENOMEM else 0, (fst me)\<lparr>events := chain\<rparr>, evs))
           | FTDEV_DISABLE_CMD \<Rightarrow>
               (let (chain, evs) = deactivate (ucast arg) (events (fst me), snd me)
                in (0, (fst me)\<lparr>events := chain\<rparr>, evs))
           | OtherCmd \<Rightarrow> (- ENOIOCTLCMD, me))"

section \<open>Registration\<close>

text \<open>
  What Linux keeps for a device: the region of device numbers, the character device, the device class,
  the nodes of the minor devices, and how often \<^verbatim>\<open>device_destroy\<close> was called. The results of the calls
  that can fail are parameters.
\<close>

record dev_nodes =
  chr_region :: bool
  cdev_added :: bool
  class_created :: bool
  nodes :: "nat set"
  destroy_calls :: nat

definition new_minor :: "'a ftdev_minor" where
  "new_minor = \<lparr>mbuf = None, readers = 0, events = []\<rparr>"

text \<open>The minor devices are \<open>None\<close> if their memory was not allocated or was freed; \<open>None\<close> as the result is \<^verbatim>\<open>BUG_ON\<close>.\<close>

definition ftdev_init ::
  "int \<Rightarrow> bool \<Rightarrow> int \<Rightarrow> dev_nodes \<Rightarrow> (int \<times> 'a ftdev \<times> (nat \<Rightarrow> 'a ftdev_minor) option \<times> dev_nodes) option"
where
  "ftdev_init cnt have_mem class_err s =
     (if cnt < 1 then None
      else let dev = \<lparr>minor_cnt = nat cnt, can_open = None, falloc = None, ffree = None\<rparr>
           in Some (if \<not> have_mem then (- ENOMEM, dev, None, s)
                    else if class_err \<noteq> 0 then (class_err, dev, None, s)
                    else (0, dev, Some (\<lambda>_. new_minor), s\<lparr>class_created := True\<rparr>)))"

definition device_destroy :: "nat \<Rightarrow> dev_nodes \<Rightarrow> dev_nodes" where
  "device_destroy i s = s\<lparr>nodes := nodes s - {i}, destroy_calls := destroy_calls s + 1\<rparr>"

definition ftdev_device_destroy :: "nat \<Rightarrow> 32 word \<Rightarrow> dev_nodes \<Rightarrow> dev_nodes" where
  "ftdev_device_destroy cnt up_to s =
     (let up_to = (if up_to < 1 then (if cnt < 1 then 0 else cnt) else unat up_to)
      in fold device_destroy [0..<up_to] s)"

definition ftdev_exit :: "'a ftdev \<Rightarrow> dev_nodes \<Rightarrow> dev_nodes" where
  "ftdev_exit dev s =
     (ftdev_device_destroy (minor_cnt dev) (- 1) s)\<lparr>cdev_added := False, chr_region := False, class_created := False\<rparr>"

text \<open>The loop that creates the minor devices; it returns the error and the minor device that failed.\<close>

fun create_minors :: "(nat \<Rightarrow> int) \<Rightarrow> nat list \<Rightarrow> dev_nodes \<Rightarrow> int \<times> nat \<times> dev_nodes" where
  "create_minors create_err [] s = (0, 0, s)"
| "create_minors create_err (i # is) s =
     (if create_err i \<noteq> 0 then (create_err i, i, s)
      else create_minors create_err is (s\<lparr>nodes := insert i (nodes s)\<rparr>))"

definition register_ftdev :: "int \<Rightarrow> int \<Rightarrow> (nat \<Rightarrow> int) \<Rightarrow> 'a ftdev \<Rightarrow> dev_nodes \<Rightarrow> int \<times> dev_nodes" where
  "register_ftdev region_err cdev_err create_err dev s =
     (if region_err \<noteq> 0 then (region_err, s)
      else let s = s\<lparr>chr_region := True\<rparr>
      in if cdev_err \<noteq> 0 then (cdev_err, s\<lparr>chr_region := False\<rparr>)
      else let s = s\<lparr>cdev_added := True\<rparr>;
               (err, i, s) = create_minors create_err [0..<minor_cnt dev] s
      in if err \<noteq> 0
         then (err, (ftdev_device_destroy (minor_cnt dev) (of_nat i) s)\<lparr>cdev_added := False, chr_region := False\<rparr>)
         else (0, s))"

section \<open>Reading\<close>

text \<open>\<open>left\<close> is the number of bytes that \<^verbatim>\<open>copy_to_user\<close> could not copy.\<close>

definition ft_buffer_copy_to_user :: "nat \<Rightarrow> 'a ft_buffer \<Rightarrow> int \<times> 'a option \<times> 'a ft_buffer" where
  "ft_buffer_copy_to_user left b =
     (if fb_nonempty b \<and> slots b (unat (fb_read_slot b)) = SLOT_READY
      then if left = 0
           then (1, Some (fb_fetch b), fb_unreserve (fb_advance (fb_set_slot (fb_read_slot b) SLOT_FREE b)))
           else (int left, None, b)
      else (0, None, b))"

text \<open>
  The loop of \<^verbatim>\<open>ftdev_read\<close>: \<open>to\<close> and \<open>len\<close> are the position in the buffer of the user and what is left
  of it, \<open>left to\<close> is the result of \<^verbatim>\<open>copy_to_user\<close> for the record at that position, and \<open>waits\<close> says, for each
  time the reader sleeps, whether a signal arrived and what the writers made of the buffer. The
  result has the return value, the records that reached the user, and the buffer; it is \<open>None\<close> if
  the reader never returns.
\<close>

partial_function (option) ftdev_read_loop ::
  "(nat \<Rightarrow> nat) \<Rightarrow> bool \<Rightarrow> nat \<Rightarrow> nat \<Rightarrow> nat \<Rightarrow> int \<Rightarrow> (bool \<times> 'a ft_buffer) list \<Rightarrow> 'a ft_buffer \<Rightarrow> 'a list \<Rightarrow>
   (int \<times> 'a list \<times> 'a ft_buffer) option"
where
  "ftdev_read_loop left has_events chunk to len err waits b out =
     (if len < chunk then Some (err, out, b)
      else case ft_buffer_copy_to_user (left to) b of (copied, v, b') \<Rightarrow>
        if copied = 1
        then ftdev_read_loop left has_events chunk (to + chunk) (len - chunk) (err + int chunk) waits b'
               (case v of Some x \<Rightarrow> out @ [x] | None \<Rightarrow> out)
        else if err = 0 \<and> copied = 0 \<and> has_events
        then (case waits of
                [] \<Rightarrow> None
              | (signal, b'') # waits' \<Rightarrow>
                  if signal then Some (if err = 0 then - ERESTARTSYS else err, out, b'')
                  else ftdev_read_loop left has_events chunk to len err waits' b'' out)
        else if copied < 0 then Some (copied, out, b')
        else Some (err, out, b'))"

definition ftdev_read ::
  "bool \<Rightarrow> (nat \<Rightarrow> nat) \<Rightarrow> nat \<Rightarrow> (bool \<times> 'a ft_buffer) list \<Rightarrow> bool \<Rightarrow> 'a ft_buffer \<Rightarrow> (int \<times> 'a list \<times> 'a ft_buffer) option"
where
  "ftdev_read interrupted left len waits has_events b =
     (if interrupted then Some (- ERESTARTSYS, [], b)
      else ftdev_read_loop left has_events (unat (slot_size b)) 0 len 0 waits b [])"

definition ftdev_write :: "('b \<Rightarrow> int \<times> 'b) option \<Rightarrow> 'b \<Rightarrow> int \<times> 'b" where
  "ftdev_write write b = (case write of None \<Rightarrow> (- EINVAL, b) | Some f \<Rightarrow> f b)"

section \<open>Lemmas\<close>


text \<open>Switching an event on and off.\<close>

definition chain_count :: "nat \<Rightarrow> 32 word list \<Rightarrow> nat" where
  "chain_count i chain = length (filter (\<lambda>c. unat (scast c :: 64 word) = i) chain)"

definition chain_ok :: "event_counts \<Rightarrow> 32 word list \<Rightarrow> event_counts \<Rightarrow> bool" where
  "chain_ok base chain evs \<longleftrightarrow>
     (\<forall>i. evs i = base i + (if i < MAX_EVENTS then of_nat (chain_count i chain) else 0)) \<and>
     (\<forall>i < MAX_EVENTS. unat (base i) + length chain < 2 ^ 32)"

lemma chain_count_Cons: "chain_count i (c # cs) = (if unat (scast c :: 64 word) = i then 1 else 0) + chain_count i cs"
  by (simp add: chain_count_def)

lemma chain_count_le: "chain_count i cs \<le> length cs"
  by (simp add: chain_count_def)

lemma chain_ok_unat:
  assumes "chain_ok base chain evs" "i < MAX_EVENTS"
  shows "unat (evs i) = unat (base i) + chain_count i chain"
proof -
  have "unat (base i) + chain_count i chain < 2 ^ 32"
    using assms chain_count_le [of i chain] unfolding chain_ok_def by (meson le_less_trans add_left_mono)
  moreover have "unat (of_nat (chain_count i chain) :: 32 word) = chain_count i chain"
    using \<open>unat (base i) + _ < _\<close> by (intro unat_of_nat_32) simp
  ultimately show ?thesis using assms by (simp add: chain_ok_def unat_word_ariths)
qed

lemma disable_chain_ok:
  assumes "chain_ok base chain evs" "c \<in> set chain" "\<And>i. chain_count i chain = chain_count i chain' + (if unat (scast c :: 64 word) = i then 1 else 0)"
    "length chain' \<le> length chain"
  shows "chain_ok base chain' (snd (ft_disable_event (scast c) evs))"
proof -
  let ?c = "unat (scast c :: 64 word)"
  have pos: "evs ?c \<noteq> 0" if "?c < MAX_EVENTS"
  proof
    assume "evs ?c = 0"
    then show False using chain_ok_unat [OF assms(1) that] assms(3) [of ?c] by simp
  qed
  have "\<forall>i < MAX_EVENTS. unat (base i) + length chain' < 2 ^ 32"
    using assms(1,4) unfolding chain_ok_def by (meson add_left_mono le_less_trans)
  then show ?thesis
    using assms(1) assms(3) pos unfolding chain_ok_def ft_disable_event_def by (auto split: if_splits)
qed

lemma deactivate_ok:
  assumes "chain_ok base chain evs"
  shows "chain_ok base (fst (deactivate i (chain, evs))) (snd (deactivate i (chain, evs)))"
    "fst (deactivate i (chain, evs)) = remove1 i chain"
proof -
  have eq: "deactivate i (cs, e) = (remove1 i cs, if i \<in> set cs then snd (ft_disable_event (scast i) e) else e)" for cs e
    by (induction cs) (auto split: prod.splits)
  show "fst (deactivate i (chain, evs)) = remove1 i chain" by (simp add: eq)
  have "chain_ok base (remove1 i chain) (snd (ft_disable_event (scast i) evs))" if "i \<in> set chain"
  proof (rule disable_chain_ok [OF assms that])
    show "chain_count j chain = chain_count j (remove1 i chain) + (if unat (scast i :: 64 word) = j then 1 else 0)" for j
      using that by (induction chain) (auto simp: chain_count_Cons)
    show "length (remove1 i chain) \<le> length chain" by (simp add: length_remove1)
  qed
  then show "chain_ok base (fst (deactivate i (chain, evs))) (snd (deactivate i (chain, evs)))"
    using assms by (simp add: eq remove1_idem)
qed

lemma deactivate_all_ok:
  "chain_ok base chain evs \<Longrightarrow> fst (deactivate_all (chain, evs)) = [] \<and> chain_ok base [] (snd (deactivate_all (chain, evs)))"
proof (induction chain arbitrary: evs)
  case (Cons c cs)
  have "chain_ok base cs (snd (ft_disable_event (scast c) evs))"
    by (rule disable_chain_ok [OF Cons.prems]) (simp_all add: chain_count_Cons)
  then show ?case using Cons.IH by simp
qed simp

lemma activate_ok:
  assumes "chain_ok base chain evs" "\<forall>i < MAX_EVENTS. unat (base i) + length chain + 1 < 2 ^ 32"
  shows "chain_ok base (fst (snd (activate have_mem i (chain, evs)))) (snd (snd (activate have_mem i (chain, evs))))"
  using assms by (auto simp: activate_def ft_enable_event_def chain_ok_def chain_count_Cons)

lemma copy_to_user_read:
  "ft_buffer_copy_to_user 0 b =
     (case ft_buffer_read b of (Some x, b') \<Rightarrow> (1, Some x, b') | (None, b') \<Rightarrow> (0, None, b'))"
  by (simp add: ft_buffer_copy_to_user_def ft_buffer_read_def)

lemma ftdev_read_loop_spec:
  fixes b :: "'a ft_buffer"
  assumes "0 < chunk" "\<And>p. left p = 0" "fb_rep b q"
  shows "\<exists>b'. ftdev_read_loop left False chunk to len err waits b out =
      Some (err + int (chunk * min (len div chunk) (length q)), out @ take (len div chunk) q, b') \<and> fb_rep b' (drop (len div chunk) q)"
  using assms(3)
proof (induction "len div chunk" arbitrary: len to err b q out)
  case 0
  then have "len < chunk" using assms(1) by (metis div_eq_0_iff less_not_refl)
  then show ?case using 0 by (simp add: ftdev_read_loop.simps)
next
  case (Suc n)
  have ge: "\<not> len < chunk"
  proof
    assume "len < chunk"
    then show False using Suc.hyps(2) by simp
  qed
  then have len: "\<not> len < chunk" "(len - chunk) div chunk = n" "len div chunk = Suc n"
    using Suc.hyps(2) le_div_geq [of chunk len] assms(1) by simp_all
  note read = fb_read_spec [OF Suc.prems]
  show ?case
  proof (cases q)
    case Nil
    obtain b' where "ft_buffer_read b = (None, b')" using read(1) Nil by (cases "ft_buffer_read b") auto
    then have "ft_buffer_copy_to_user 0 b = (0, None, b')" "fb_rep b' []" using read(2) Nil by (simp_all add: copy_to_user_read)
    then show ?thesis using len Nil assms(2) by (subst ftdev_read_loop.simps) simp
  next
    case (Cons x xs)
    obtain b' where "ft_buffer_read b = (Some x, b')" using read(1) Cons by (cases "ft_buffer_read b") auto
    then have b': "ft_buffer_copy_to_user 0 b = (1, Some x, b')" "fb_rep b' xs" using read(2) Cons by (simp_all add: copy_to_user_read)
    obtain b'' where b'': "ftdev_read_loop left False chunk (to + chunk) (len - chunk) (err + int chunk) waits b' (out @ [x]) =
        Some (err + int chunk + int (chunk * min n (length xs)), (out @ [x]) @ take n xs, b'')" "fb_rep b'' (drop n xs)"
      using Suc.hyps(1) [OF len(2) [symmetric] b'(2), of "to + chunk" "err + int chunk" "out @ [x]"] len(2) by auto
    have "ftdev_read_loop left False chunk to len err waits b out =
        ftdev_read_loop left False chunk (to + chunk) (len - chunk) (err + int chunk) waits b' (out @ [x])"
      using len(1) b'(1) assms(2) by (subst ftdev_read_loop.simps) simp
    then show ?thesis using b'' len(3) Cons by (simp add: algebra_simps)
  qed
qed

text \<open>A sequence of requests to switch events on and off.\<close>

fun ftdev_ioctls :: "(ftdev_cmd \<times> 64 word) list \<Rightarrow> 'a ftdev_minor \<times> event_counts \<Rightarrow> 'a ftdev_minor \<times> event_counts" where
  "ftdev_ioctls [] me = me"
| "ftdev_ioctls (c # cs) me = ftdev_ioctls cs (snd (ftdev_ioctl False True (fst c) (snd c) me))"

lemma ftdev_ioctl_ok:
  assumes "chain_ok base (events m) evs" "\<forall>i < MAX_EVENTS. unat (base i) + length (events m) + 1 < 2 ^ 32"
    "ftdev_ioctl False True cmd arg (m, evs) = (r, m', evs')"
  shows "chain_ok base (events m') evs'" "readers m' = readers m \<and> mbuf m' = mbuf m"
    "length (events m') \<le> length (events m) + 1"
  using assms activate_ok [OF assms(1,2), of True "ucast arg"] deactivate_ok [OF assms(1), of "ucast arg"]
  by (auto simp: ftdev_ioctl_def activate_def length_remove1 split: ftdev_cmd.splits prod.splits)

lemma ftdev_ioctls_ok:
  "chain_ok base (events m) evs \<Longrightarrow> \<forall>i < MAX_EVENTS. unat (base i) + length (events m) + length cs < 2 ^ 32 \<Longrightarrow>
    ftdev_ioctls cs (m, evs) = (m', evs') \<Longrightarrow>
    chain_ok base (events m') evs' \<and> readers m' = readers m \<and> mbuf m' = mbuf m"
proof (induction cs arbitrary: m evs)
  case (Cons c cs)
  obtain r m1 evs1 where step: "ftdev_ioctl False True (fst c) (snd c) (m, evs) = (r, m1, evs1)" by (metis prod_cases3)
  have b: "\<forall>i < MAX_EVENTS. unat (base i) + length (events m) + 1 < 2 ^ 32" using Cons.prems(2) by auto
  note one = ftdev_ioctl_ok [OF Cons.prems(1) b step]
  have "\<forall>i < MAX_EVENTS. unat (base i) + length (events m1) + length cs < 2 ^ 32"
    using Cons.prems(2) one(3) by (auto simp: le_less_trans)
  then show ?case using Cons.IH [OF one(1)] Cons.prems(3) step one(2) by simp
qed simp

lemma fb_sample_writes:
  "fb_rep (snd (fb_write 5 (buf fb_sample))) [5]"
  "fb_rep (snd (fb_write 9 (snd (fb_write 5 (buf fb_sample))))) [5, 9]"
  "slot_size (snd (fb_write 9 (snd (fb_write 5 (buf fb_sample))))) = 16" "slot_size (snd (fb_write 5 (buf fb_sample))) = 16"
proof -
  have "init_ft_buffer 2 16 (\<lambda>_. SLOT_FREE) (\<lambda>_. 0 :: nat) = Some (buf fb_sample)"
    by (simp add: init_ft_buffer_iff fb_sample_def)
  then have r: "fb_rep (buf fb_sample) []" by (rule fb_rep_init) simp_all
  have c: "slot_count (snd (fb_write v b)) = slot_count b" "slot_size (snd (fb_write v b)) = slot_size b" for v and b :: "nat ft_buffer"
    by (simp_all add: fb_write_def ft_buffer_start_write_def ft_buffer_finish_write_def fb_ops Let_def split: prod.splits)
  have s: "slot_count (buf fb_sample) = 2" "slot_size (buf fb_sample) = 16" by (simp_all add: fb_sample_def)
  show one: "fb_rep (snd (fb_write 5 (buf fb_sample))) [5]" using fb_write_accepted(2) [OF r, of 5] s by simp
  show "fb_rep (snd (fb_write 9 (snd (fb_write 5 (buf fb_sample))))) [5, 9]"
    using fb_write_accepted(2) [OF one, of 9] s c by simp
  show "slot_size (snd (fb_write 9 (snd (fb_write 5 (buf fb_sample))))) = 16" "slot_size (snd (fb_write 5 (buf fb_sample))) = 16"
    using c s by simp_all
qed

section \<open>Properties\<close>

text \<open>
  C28: reading a trace device. If no writer is active, every copy to user space succeeds and no events are enabled,
  \<^verbatim>\<open>ftdev_read\<close> returns, and it delivers the oldest records of the buffer in order: as many as there are
  and as fit completely in the buffer of the user; it returns their size in bytes, and the rest stays
  in the buffer.
\<close>

theorem ftdev_read_delivers:
  assumes "fb_rep b q" "0 < slot_size b" "\<And>p. left p = 0"
  shows "ok (ftdev_read False left len waits False b) (\<lambda>(r, out, b').
    r = int (unat (slot_size b) * min (len div unat (slot_size b)) (length q)) \<and>
    out = take (len div unat (slot_size b)) q \<and> fb_rep b' (drop (len div unat (slot_size b)) q))"
proof -
  have "0 < unat (slot_size b)" using assms(2) by (simp add: word_less_nat_alt)
  from ftdev_read_loop_spec [of "unat (slot_size b)" left b q 0 len 0 waits "[]", OF this assms(3,1)]
  show ?thesis by (auto simp: ftdev_read_def)
qed

theorem ftdev_read_delivers_witness:
  "ok (ftdev_read False (\<lambda>_. 0) 40 [] False (snd (fb_write 9 (snd (fb_write 5 (buf fb_sample)))))) (\<lambda>(r, out, b').
     r = 32 \<and> out = [5, 9] \<and> fb_rep b' [])"
  using ftdev_read_delivers [OF fb_sample_writes(2), of "\<lambda>_. 0" 40 "[]"] fb_sample_writes(3) by simp

text \<open>
  C29: a fault in \<^verbatim>\<open>copy_to_user\<close>. The function that copies one record never returns a negative value, but the number
  of bytes that were not copied. A fault at the first record makes \<^verbatim>\<open>ftdev_read\<close> return 0, as if
  there were no data; and if exactly one byte was not copied, it reports the record as delivered and
  leaves it in the buffer.
\<close>

theorem ft_copy_fault:
  assumes "fb_rep b q" "q \<noteq> []" "0 < slot_size b" "0 < left 0"
  shows "fst (ft_buffer_copy_to_user (left 0) b) = int (left 0) \<and>
    (1 < left 0 \<longrightarrow> unat (slot_size b) \<le> len \<longrightarrow> ftdev_read False left len waits ev b = Some (0, [], b)) \<and>
    (left 0 = 1 \<longrightarrow> len = unat (slot_size b) \<longrightarrow> ftdev_read False left len waits ev b = Some (int len, [], b))"
proof -
  have "fst (ft_buffer_read b) \<noteq> None" using fb_read_spec(1) [OF assms(1)] assms(2) by (cases q) simp_all
  then have "fb_nonempty b \<and> slots b (unat (fb_read_slot b)) = SLOT_READY"
    by (auto simp: ft_buffer_read_def split: if_splits)
  then have c: "ft_buffer_copy_to_user (left 0) b = (int (left 0), None, b)" using assms(4) by (simp add: ft_buffer_copy_to_user_def)
  have sz: "0 < unat (slot_size b)" using assms(3) by (simp add: word_less_nat_alt)
  have "ftdev_read_loop left ev (unat (slot_size b)) 0 len 0 waits b [] = Some (0, [], b)"
    if "1 < left 0" "unat (slot_size b) \<le> len"
    using that c by (subst ftdev_read_loop.simps) simp
  moreover have "ftdev_read_loop left ev (unat (slot_size b)) 0 len 0 waits b [] = Some (int len, [], b)"
    if "left 0 = 1" "len = unat (slot_size b)"
    using that c sz by (subst ftdev_read_loop.simps, simp, subst ftdev_read_loop.simps) simp
  ultimately show ?thesis using c by (simp add: ftdev_read_def)
qed

theorem ft_copy_fault_witness:
  "fst (ft_buffer_copy_to_user 1 (snd (fb_write 5 (buf fb_sample)))) = 1 \<and>
   ftdev_read False (\<lambda>_. 1) 16 [] True (snd (fb_write 5 (buf fb_sample))) = Some (16, [], snd (fb_write 5 (buf fb_sample))) \<and>
   ftdev_read False (\<lambda>_. 2) 16 [] True (snd (fb_write 5 (buf fb_sample))) = Some (0, [], snd (fb_write 5 (buf fb_sample)))"
  using ft_copy_fault [OF fb_sample_writes(1), of "\<lambda>_. 1" 16 "[]" True] ft_copy_fault [OF fb_sample_writes(1), of "\<lambda>_. 2" 16 "[]" True]
    fb_sample_writes(4) by simp

text \<open>
  C30: trace events are balanced. Whatever events are switched on and off through a device with one reader, in
  whatever order, the counters of the events are what they were before once the reader closes the device,
  as long as no counter overflows.
\<close>

theorem ftdev_events_balanced:
  assumes "events m = []" "readers m = 1" "mbuf m = Some b" "\<forall>i < MAX_EVENTS. unat (evs i) + length cs < 2 ^ 32"
    "idx < minor_cnt dev" "ftdev_ioctls cs (m, evs) = (m', evs')" "ms idx = m'"
  shows "\<exists>ms'. ftdev_release dev False idx (ms, evs') = Some (0, ms', evs)"
proof -
  have "chain_ok evs (events m) evs" using assms(1,4) by (fastforce simp: chain_ok_def chain_count_def)
  then have m': "chain_ok evs (events m') evs'" "readers m' = 1" "mbuf m' = Some b"
    using ftdev_ioctls_ok [of evs m evs cs m' evs'] assms(1-4,6) by auto
  have "chain_ok evs [] (snd (deactivate_all (events m', evs')))" using deactivate_all_ok [OF m'(1)] by simp
  then have "snd (deactivate_all (events m', evs')) = evs" by (auto simp: chain_ok_def chain_count_def fun_eq_iff)
  then show ?thesis using assms(5,7) m'(2,3) by (simp add: ftdev_release_def Let_def split_beta)
qed

theorem ftdev_events_balanced_witness:
  "\<exists>ms'. ftdev_release \<lparr>minor_cnt = 1, can_open = None, falloc = None, ffree = None\<rparr> False 0
     ((\<lambda>_. fst (ftdev_ioctls [(FTDEV_ENABLE_CMD, 100), (FTDEV_ENABLE_CMD, 101), (FTDEV_DISABLE_CMD, 100)]
        (\<lparr>mbuf = Some (buf fb_sample), readers = 1, events = []\<rparr>, (\<lambda>_. 0)))),
      snd (ftdev_ioctls [(FTDEV_ENABLE_CMD, 100), (FTDEV_ENABLE_CMD, 101), (FTDEV_DISABLE_CMD, 100)]
        (\<lparr>mbuf = Some (buf fb_sample), readers = 1, events = []\<rparr>, (\<lambda>_. 0)))) = Some (0, ms', (\<lambda>_. 0))"
  using ftdev_events_balanced [of "\<lparr>mbuf = Some (buf fb_sample), readers = 1, events = []\<rparr>" "buf fb_sample" "\<lambda>_. 0"
      "[(FTDEV_ENABLE_CMD, 100), (FTDEV_ENABLE_CMD, 101), (FTDEV_DISABLE_CMD, 100)]" 0
      "\<lparr>minor_cnt = 1, can_open = None, falloc = None, ffree = None\<rparr>", OF _ _ _ _ _ prod.collapse [symmetric]]
  by simp



section \<open>Registration: lemmas\<close>

lemma fold_device_destroy:
  "fold device_destroy is s = s\<lparr>nodes := nodes s - set is, destroy_calls := destroy_calls s + length is\<rparr>"
  by (induction "is" arbitrary: s) (simp_all add: device_destroy_def Diff_insert2 [symmetric])

text \<open>Device nodes up to the failing one are destroyed; if the first one fails, the loop runs over all, of which none exists.\<close>

lemma ftdev_device_destroy_nodes:
  assumes "unat up_to \<le> cnt" "nodes s \<subseteq> {..<unat up_to}"
  shows "\<exists>n \<le> cnt. ftdev_device_destroy cnt up_to s = s\<lparr>nodes := {}, destroy_calls := destroy_calls s + n\<rparr>"
proof (cases "up_to < 1")
  case True
  then have "up_to = 0" by (simp add: word_less_nat_alt unat_eq_zero)
  then have "nodes s = {}" using assms(2) by simp
  then show ?thesis using True by (intro exI [of _ cnt]) (simp add: ftdev_device_destroy_def fold_device_destroy Let_def)
next
  case False
  have "nodes s - {0..<unat up_to} = {}" using assms(2) by (simp add: atLeast0LessThan)
  then show ?thesis using False assms(1)
    by (intro exI [of _ "unat up_to"]) (simp add: ftdev_device_destroy_def fold_device_destroy Let_def)
qed

lemma ftdev_exit_nodes:
  assumes "nodes s \<subseteq> {..<2 ^ 32 - 1}"
  shows "ftdev_exit dev s = s\<lparr>nodes := {}, destroy_calls := destroy_calls s + (2 ^ 32 - 1),
    cdev_added := False, chr_region := False, class_created := False\<rparr>"
proof -
  have u: "unat (- 1 :: 32 word) = 2 ^ 32 - 1" by (simp add: unsigned_minus_1_eq_mask mask_eq_exp_minus_1)
  have "nodes s - set [0..<2 ^ 32 - 1] = {}" using assms by (simp only: set_upt atLeast0LessThan Diff_eq_empty_iff)
  moreover have "length [0..<2 ^ 32 - 1] = (2 ^ 32 - 1 :: nat)" by (simp only: length_upt diff_zero)
  moreover have "\<not> (- 1 :: 32 word) < 1" by simp
  ultimately have "ftdev_device_destroy (minor_cnt dev) (- 1) s =
      s\<lparr>nodes := {}, destroy_calls := destroy_calls s + (2 ^ 32 - 1)\<rparr>"
    unfolding ftdev_device_destroy_def Let_def u fold_device_destroy by (simp only: if_False)
  then show ?thesis by (simp add: ftdev_exit_def)
qed

lemma create_minors_spec:
  assumes "create_minors create_err [k..<n] s = (err, i, s')"
  shows "(err = 0 \<and> s' = s\<lparr>nodes := nodes s \<union> {k..<n}\<rparr> \<and> (\<forall>j. k \<le> j \<and> j < n \<longrightarrow> create_err j = 0)) \<or>
    (err \<noteq> 0 \<and> k \<le> i \<and> i < n \<and> err = create_err i \<and> s' = s\<lparr>nodes := nodes s \<union> {k..<i}\<rparr>)"
  using assms
proof (induction "n - k" arbitrary: k s)
  case (Suc d)
  then have k: "k < n" by simp
  have cons: "[k..<n] = k # [Suc k..<n]" using k by (rule upt_conv_Cons)
  have ins: "insert k (nodes s) \<union> {Suc k..<m} = nodes s \<union> {k..<m}" if "k < m" for m
    using that atLeastLessThan_eq_iff by force
  show ?case
  proof (cases "create_err k = 0")
    case True
    then have "create_minors create_err [Suc k..<n] (s\<lparr>nodes := insert k (nodes s)\<rparr>) = (err, i, s')"
      using Suc.prems cons by simp
    from Suc.hyps(1) [OF _ this] Suc.hyps(2) consider
        "err = 0" "s' = s\<lparr>nodes := insert k (nodes s) \<union> {Suc k..<n}\<rparr>" "\<forall>j. Suc k \<le> j \<and> j < n \<longrightarrow> create_err j = 0"
      | "err \<noteq> 0" "Suc k \<le> i" "i < n" "err = create_err i" "s' = s\<lparr>nodes := insert k (nodes s) \<union> {Suc k..<i}\<rparr>"
      by force
    then show ?thesis
    proof cases
      case 1
      then show ?thesis using True ins [OF k] by (metis Suc_leI le_neq_implies_less)
    next
      case 2
      then show ?thesis using ins [of i] by simp
    qed
  next
    case False
    then show ?thesis using Suc.prems cons k by auto
  qed
qed simp

text \<open>
  C32: registration is undone completely. If one of the steps of \<^verbatim>\<open>register_ftdev\<close> fails, everything that it had
  set up is gone; if it succeeds, all minor devices exist and \<^verbatim>\<open>ftdev_exit\<close> removes them, the device
  and the class. \<^verbatim>\<open>ftdev_exit\<close> passes -1 as an unsigned bound, so that it calls \<^verbatim>\<open>device_destroy\<close>
  for 4294967295 numbers and not for the minor devices of the device only.
\<close>

theorem ftdev_register_exit:
  assumes "nodes s = {}" "\<not> chr_region s" "\<not> cdev_added s" "minor_cnt dev < 2 ^ 32"
    "register_ftdev region_err cdev_err create_err dev s = (err, s')"
  shows "(err = 0 \<longrightarrow> s' = s\<lparr>chr_region := True, cdev_added := True, nodes := {..<minor_cnt dev}\<rparr> \<and>
      ftdev_exit dev s' = s\<lparr>class_created := False, destroy_calls := destroy_calls s + (2 ^ 32 - 1)\<rparr>) \<and>
    (err \<noteq> 0 \<longrightarrow> (\<exists>n \<le> minor_cnt dev. s' = s\<lparr>destroy_calls := destroy_calls s + n\<rparr>))"
proof -
  have same: "s\<lparr>chr_region := False\<rparr> = s" "s\<lparr>destroy_calls := destroy_calls s + 0\<rparr> = s" using assms(2) by simp_all
  consider (region) "region_err \<noteq> 0" "err = region_err" "s' = s"
    | (cdev) "region_err = 0" "cdev_err \<noteq> 0" "err = cdev_err" "s' = s"
    | (minors) "region_err = 0" "cdev_err = 0" by (cases "region_err = 0"; cases "cdev_err = 0")
      (use assms(5) same in \<open>auto simp: register_ftdev_def Let_def\<close>)
  then show ?thesis
  proof cases
    case minors
    define s1 where "s1 = s\<lparr>chr_region := True, cdev_added := True\<rparr>"
    obtain e i s2 where c: "create_minors create_err [0..<minor_cnt dev] s1 = (e, i, s2)" by (metis prod_cases3)
    have reg: "(err, s') = (if e \<noteq> 0 then (e, (ftdev_device_destroy (minor_cnt dev) (of_nat i) s2)\<lparr>cdev_added := False, chr_region := False\<rparr>)
        else (0, s2))" using assms(5) minors c by (simp add: register_ftdev_def s1_def)
    from create_minors_spec [OF c] show ?thesis
    proof (elim disjE conjE)
      assume e: "e = 0" and s2: "s2 = s1\<lparr>nodes := nodes s1 \<union> {0..<minor_cnt dev}\<rparr>"
      have s': "err = 0" "s' = s\<lparr>chr_region := True, cdev_added := True, nodes := {..<minor_cnt dev}\<rparr>"
        using reg e s2 assms(1) by (simp_all add: s1_def atLeast0LessThan)
      have "nodes s' \<subseteq> {..<2 ^ 32 - 1}" using s'(2) assms(4) by auto
      then show ?thesis using ftdev_exit_nodes [of s' dev] s' assms(1-3) by simp
    next
      assume e: "e \<noteq> 0" and i: "i < minor_cnt dev" and s2: "s2 = s1\<lparr>nodes := nodes s1 \<union> {0..<i}\<rparr>"
      have u: "unat (of_nat i :: 32 word) = i" using i assms(4) by (simp add: unat_of_nat take_bit_nat_eq_self)
      have n: "nodes s2 \<subseteq> {..<unat (of_nat i :: 32 word)}" using s2 assms(1) by (auto simp: s1_def u)
      obtain k where "k \<le> minor_cnt dev"
        "ftdev_device_destroy (minor_cnt dev) (of_nat i) s2 = s2\<lparr>nodes := {}, destroy_calls := destroy_calls s2 + k\<rparr>"
        using ftdev_device_destroy_nodes [OF _ n, of "minor_cnt dev"] i u by auto
      then show ?thesis using reg e s2 assms(1-3) by (auto simp: s1_def)
    qed
  qed (use same(2) in auto)
qed

theorem ftdev_register_exit_witness:
  "\<exists>n \<le> 3. register_ftdev 0 0 (\<lambda>i. if i = 2 then - ENOMEM else 0)
     \<lparr>minor_cnt = 3, can_open = None, falloc = None, ffree = None :: (nat ftdev_minor \<Rightarrow> nat ftdev_minor) option\<rparr>
     \<lparr>chr_region = False, cdev_added = False, class_created = True, nodes = {}, destroy_calls = 0\<rparr>
   = (- ENOMEM, \<lparr>chr_region = False, cdev_added = False, class_created = True, nodes = {}, destroy_calls = n\<rparr>)"
  using ftdev_register_exit [of "\<lparr>chr_region = False, cdev_added = False, class_created = True, nodes = {}, destroy_calls = 0\<rparr>"
      "\<lparr>minor_cnt = 3, can_open = None, falloc = None, ffree = None :: (nat ftdev_minor \<Rightarrow> nat ftdev_minor) option\<rparr>"
      0 0 "\<lambda>i. if i = 2 then - ENOMEM else 0", OF _ _ _ _ prod.collapse [symmetric]]
  by (simp add: register_ftdev_def ENOMEM_def upt_rec)

end
