(* ===== verification/Npsf.thy ===== *)
theory Npsf
  imports Partitioned
begin

text \<open>
  The NPS-F plugin (\<^verbatim>\<open>litmus/sched_npsf.c\<close>): servers (notional processors) that run on reserves of the
  CPUs. A server is a real-time domain, and its number is the number of its domain; a reserve is named
  by a number too. This theory has the state, the slots of time, and the handlers that schedule the
  tasks of a server; a clock reading that the code takes is an argument. \<^verbatim>\<open>npsf_schedule\<close> gives up the
  lock of one server before it takes that of the next one, so it is the composition of the parts that
  run under one lock; theory \<open>Npsf_Machine\<close> interleaves them. \<open>None\<close> stands for a stopped kernel: a
  \<^verbatim>\<open>BUG\<close>, a null pointer, or a division by zero.
\<close>

section \<open>State\<close>

record npsf_reserve =
  rsv_server :: "nat option"
  rsv_budget :: lt_t
  rsv_cpu :: cpu_id
  rsv_id :: int
  next_npsf :: "nat option"
  is_currently_scheduled :: bool

record npsf_server =
  highest_prio :: "tid option"
  curr_reserve :: nat
  first_reserve :: nat
  first_cpu_wants_ipi :: bool

record cpu_entry =
  cpu_reserve :: "nat option"
  npsf_reserves :: "nat list"
  npsf_timer :: timer
  should_expire :: lt_t
  last_seen_npsf_id :: int

record npsf_state = kstate +
  servers :: "nat \<Rightarrow> npsf_server"
  reserves :: "nat \<Rightarrow> npsf_reserve"
  entries :: "cpu_id \<Rightarrow> cpu_entry"
  all_servers_added :: bool
  timers_activated :: bool
  time_origin :: lt_t
  npsf_slot_length :: lt_t

definition upd_server :: "nat \<Rightarrow> (npsf_server \<Rightarrow> npsf_server) \<Rightarrow> 'z npsf_state_scheme \<Rightarrow> 'z npsf_state_scheme" where
  "upd_server v f s = s\<lparr>servers := (servers s)(v := f (servers s v))\<rparr>"

definition upd_reserve :: "nat \<Rightarrow> (npsf_reserve \<Rightarrow> npsf_reserve) \<Rightarrow> 'z npsf_state_scheme \<Rightarrow> 'z npsf_state_scheme" where
  "upd_reserve r f s = s\<lparr>reserves := (reserves s)(r := f (reserves s r))\<rparr>"

definition upd_entry :: "cpu_id \<Rightarrow> (cpu_entry \<Rightarrow> cpu_entry) \<Rightarrow> 'z npsf_state_scheme \<Rightarrow> 'z npsf_state_scheme" where
  "upd_entry c f s = s\<lparr>entries := (entries s)(c := f (entries s c))\<rparr>"

definition task_npsfid :: "task_struct \<Rightarrow> int" where
  "task_npsfid t = npsf_id (task_params (rt_param t))"

definition no_reserves :: "cpu_entry \<Rightarrow> bool" where
  "no_reserves e \<longleftrightarrow> npsf_reserves e = []"

definition owns_server :: "nat \<Rightarrow> 'z npsf_state_scheme \<Rightarrow> bool option" where
  "owns_server r s = do {
     v \<leftarrow> rsv_server (reserves s r);
     Some (curr_reserve (servers s v) = r)
   }"

text \<open>
  The neighbours of a reserve in the list of its CPU; after the last one comes the first one. A reserve
  that is not in the list has no neighbour.
\<close>

fun next_in :: "nat \<Rightarrow> nat \<Rightarrow> nat list \<Rightarrow> nat option" where
  "next_in r f [] = None"
| "next_in r f [x] = (if x = r then Some f else None)"
| "next_in r f (x # y # ys) = (if x = r then Some y else next_in r f (y # ys))"

definition local_next_reserve :: "nat \<Rightarrow> cpu_entry \<Rightarrow> nat option" where
  "local_next_reserve r e = (case npsf_reserves e of [] \<Rightarrow> None | f # _ \<Rightarrow> next_in r f (npsf_reserves e))"

definition local_prev_reserve :: "nat \<Rightarrow> cpu_entry \<Rightarrow> nat option" where
  "local_prev_reserve r e =
     (case rev (npsf_reserves e) of [] \<Rightarrow> None | l # _ \<Rightarrow> next_in r l (rev (npsf_reserves e)))"

section \<open>Slots of time\<close>

definition slot_begin :: "lt_t \<Rightarrow> 'z npsf_state_scheme \<Rightarrow> lt_t option" where
  "slot_begin now s = do {
     BUG_ON (npsf_slot_length s = 0);
     Some ((now - time_origin s) div npsf_slot_length s * npsf_slot_length s + time_origin s)
   }"

definition delta_from_slot_begin :: "lt_t \<Rightarrow> 'z npsf_state_scheme \<Rightarrow> lt_t option" where
  "delta_from_slot_begin now s = do {
     b \<leftarrow> slot_begin now s;
     Some (now - b)
   }"

text \<open>The search through the list; \<open>e\<close> is \<^verbatim>\<open>*reservation_end\<close> so far, and falling off the list is \<^verbatim>\<open>BUG()\<close>.\<close>

fun find_reserve :: "(nat \<Rightarrow> npsf_reserve) \<Rightarrow> lt_t \<Rightarrow> lt_t \<Rightarrow> nat list \<Rightarrow> (nat \<times> lt_t) option" where
  "find_reserve rsvs offset e [] = None"
| "find_reserve rsvs offset e (r # rs) =
     (let e = e + rsv_budget (rsvs r) in if offset < e then Some (r, e) else find_reserve rsvs offset e rs)"

definition get_reserve_for_offset :: "cpu_id \<Rightarrow> lt_t \<Rightarrow> 'z npsf_state_scheme \<Rightarrow> (nat \<times> lt_t) option" where
  "get_reserve_for_offset c offset s = find_reserve (reserves s) offset 0 (npsf_reserves (entries s c))"

definition get_current_reserve :: "cpu_id \<Rightarrow> lt_t \<Rightarrow> 'z npsf_state_scheme \<Rightarrow> nat option" where
  "get_current_reserve c now s = do {
     offset \<leftarrow> delta_from_slot_begin now s;
     (r, e) \<leftarrow> get_reserve_for_offset c offset s;
     Some r
   }"

text \<open>
  The wait for a clock that is behind: \<open>clock i\<close> is the reading number \<open>i\<close>, and \<open>None\<close> is a wait
  without end. The result is the first reading that is not before the target.
\<close>

partial_function (option) catchup_time :: "(nat \<Rightarrow> lt_t) \<Rightarrow> nat \<Rightarrow> lt_t \<Rightarrow> lt_t \<Rightarrow> lt_t option" where
  "catchup_time clock i from' target =
     (if lt_before from' target then catchup_time clock (i + 1) (clock i) target else Some from')"

definition get_next_reserve_switch_time :: "cpu_id \<Rightarrow> lt_t \<Rightarrow> 'z npsf_state_scheme \<Rightarrow> lt_t option" where
  "get_next_reserve_switch_time c now s = do {
     slot_start \<leftarrow> slot_begin now s;
     let offset = now - slot_start;
     (r, next_time) \<leftarrow> get_reserve_for_offset c offset s;
     let next_time = next_time + slot_start;
     r \<leftarrow> local_next_reserve r (entries s c);
     v \<leftarrow> rsv_server (reserves s r);
     Some (if first_reserve (servers s v) \<noteq> r then next_time + rsv_budget (reserves s r) else next_time)
   }"

text \<open>
  The timer that switches reserves: \<open>now\<close> is the time of the interrupt, \<open>clock\<close> the readings of a wait,
  and \<open>now'\<close> the reading for the next expiry.
\<close>

definition reserve_switch_tick ::
  "cpu_id \<Rightarrow> lt_t \<Rightarrow> (nat \<Rightarrow> lt_t) \<Rightarrow> lt_t \<Rightarrow> 'z npsf_state_scheme \<Rightarrow> 'z npsf_state_scheme option"
where
  "reserve_switch_tick c now clock now' s = do {
     let late = (0 \<le> sint (now - should_expire (entries s c)));
     (if late then Some now else catchup_time clock 0 now (should_expire (entries s c)));
     BUG_ON (\<not> all_servers_added s);
     BUG_ON (no_reserves (entries s c));
     e \<leftarrow> get_next_reserve_switch_time c now' s;
     let s = upd_entry c (\<lambda>E. E\<lparr>should_expire := e, npsf_timer := Some (e, c)\<rparr>) s;
     Some (set_tsk_need_resched (curr s (this_cpu s)) s)
   }"

section \<open>The tasks of a server\<close>

definition npsf_requeue :: "tid \<Rightarrow> nat \<Rightarrow> lt_t \<Rightarrow> 'z npsf_state_scheme \<Rightarrow> 'z npsf_state_scheme option" where
  "npsf_requeue t d now s = do {
     q \<leftarrow> is_queued t s;
     BUG_ON q;
     let s = upd_task t (set_rt_flags RT_F_RUNNING) s;
     (if is_released (tasks s t) now then add_ready edf_ready_order dummy_resched d t s
      else add_release edf_ready_order d t s)
   }"

definition npsf_preempt :: "nat \<Rightarrow> 'z npsf_state_scheme \<Rightarrow> 'z npsf_state_scheme" where
  "npsf_preempt r s = preempt_if_preemptable None (rsv_cpu (reserves s r)) s"

definition npsf_preempt_if_server_is_scheduled :: "nat \<Rightarrow> 'z npsf_state_scheme \<Rightarrow> 'z npsf_state_scheme" where
  "npsf_preempt_if_server_is_scheduled v s =
     (let r = curr_reserve (servers s v) in if is_currently_scheduled (reserves s r) then npsf_preempt r s else s)"

definition set_highest :: "nat \<Rightarrow> tid option \<Rightarrow> 'z npsf_state_scheme \<Rightarrow> 'z npsf_state_scheme" where
  "set_highest v h = upd_server v (\<lambda>S. S\<lparr>highest_prio := h\<rparr>)"

definition npsf_reschedule_server :: "nat \<Rightarrow> lt_t \<Rightarrow> 'z npsf_state_scheme \<Rightarrow> 'z npsf_state_scheme option" where
  "npsf_reschedule_server v now s =
     (let hp = highest_prio (servers s v);
          (needed, s) = edf_preemption_needed v hp s
      in if needed
         then do {
           let (nxt, s) = take_ready edf_ready_order v s;
           let s = set_highest v nxt s;
           s \<leftarrow> (case hp of Some h \<Rightarrow> npsf_requeue h v now s | None \<Rightarrow> Some s);
           Some (npsf_preempt_if_server_is_scheduled v s)
         }
         else Some s)"

definition npsf_release_jobs :: "lt_t \<Rightarrow> nat \<Rightarrow> tid \<Rightarrow> 'z npsf_state_scheme \<Rightarrow> 'z npsf_state_scheme option" where
  "npsf_release_jobs now d r s = npsf_reschedule_server d now (merge_ready edf_ready_order dummy_resched d r s)"

definition npsf_job_completion :: "task_struct \<Rightarrow> task_struct" where
  "npsf_job_completion t = prepare_for_next_period (set_rt_flags RT_F_SLEEP t)"

definition npsf_scheduler_tick :: "tid \<Rightarrow> 'z npsf_state_scheme \<Rightarrow> 'z npsf_state_scheme" where
  "npsf_scheduler_tick t s =
     (if is_realtime (tasks s t) \<and> budget_enforced (tasks s t) \<and> budget_exhausted (tasks s t)
      then set_tsk_need_resched t s else s)"

definition npsf_schedule_server :: "tid \<Rightarrow> nat \<Rightarrow> lt_t \<Rightarrow> 'z npsf_state_scheme \<Rightarrow> 'z npsf_state_scheme option" where
  "npsf_schedule_server prev v now s = do {
     let p = tasks s prev;
     let exsts = is_realtime p;
     let blocks = (exsts \<and> \<not> is_running p);
     let out_of_time = (exsts \<and> budget_enforced p \<and> budget_exhausted p);
     let sleep = (exsts \<and> get_rt_flags p = RT_F_SLEEP);
     s \<leftarrow> (if (out_of_time \<or> sleep) \<and> \<not> blocks
           then do {
             let s = upd_task prev npsf_job_completion s;
             s \<leftarrow> (if highest_prio (servers s v) \<noteq> Some prev
                   then do {
                     q \<leftarrow> is_queued prev s;
                     BUG_ON (\<not> q);
                     remove_rt edf_ready_order v prev s
                   }
                   else Some s);
             s \<leftarrow> npsf_requeue prev v now s;
             Some (if highest_prio (servers s v) = Some prev
                   then let (nxt, s) = take_ready edf_ready_order v s in set_highest v nxt s
                   else s)
           }
           else Some s);
     BUG_ON (blocks \<and> highest_prio (servers s v) = Some prev);
     Some s
   }"

section \<open>Switching reserves\<close>

definition npsf_notify_next_cpu :: "nat \<Rightarrow> 'z npsf_state_scheme \<Rightarrow> 'z npsf_state_scheme option" where
  "npsf_notify_next_cpu r s =
     (if next_npsf (reserves s r) \<noteq> Some r
      then do {
        v \<leftarrow> rsv_server (reserves s r);
        n \<leftarrow> next_npsf (reserves s r);
        let s = upd_server v (\<lambda>S. S\<lparr>curr_reserve := n\<rparr>) s;
        Some (if first_reserve (servers s v) \<noteq> n \<or> first_cpu_wants_ipi (servers s v)
              then npsf_preempt n (upd_server v (\<lambda>S. S\<lparr>first_cpu_wants_ipi := False\<rparr>) s)
              else s)
      }
      else Some s)"

text \<open>
  How far \<^verbatim>\<open>npsf_schedule\<close> has got on a CPU: it has chosen, or it switches from one reserve to the next,
  stays with the previous one after a race, or has yet to notify the next CPU.
\<close>

datatype sched_phase =
    Chosen "tid option"
  | Switching nat nat
  | Keeping nat
  | Notifying nat "tid option"

definition set_currently :: "nat \<Rightarrow> bool \<Rightarrow> 'z npsf_state_scheme \<Rightarrow> 'z npsf_state_scheme" where
  "set_currently r b = upd_reserve r (\<lambda>R. R\<lparr>is_currently_scheduled := b\<rparr>)"

text \<open>Under the lock of the previous server.\<close>

definition npsf_schedule_prev ::
  "tid \<Rightarrow> lt_t \<Rightarrow> lt_t \<Rightarrow> 'z npsf_state_scheme \<Rightarrow> (sched_phase \<times> 'z npsf_state_scheme) option"
where
  "npsf_schedule_prev prev now now' s =
     (let c = this_cpu s
      in if \<not> all_servers_added s then Some (Chosen None, s)
         else do {
           BUG_ON (no_reserves (entries s c));
           p \<leftarrow> cpu_reserve (entries s c);
           v \<leftarrow> rsv_server (reserves s p);
           n \<leftarrow> get_current_reserve c now s;
           s \<leftarrow> (if is_realtime (tasks s prev) \<and> task_npsfid (tasks s prev) = rsv_id (reserves s p)
                 then npsf_schedule_server prev v now' s else Some s);
           Some (if p = n then (Chosen (highest_prio (servers s v)), s)
                 else (Switching p n, set_currently p False s))
         })"

text \<open>Under the lock of the next server.\<close>

definition npsf_schedule_next ::
  "nat \<Rightarrow> nat \<Rightarrow> 'z npsf_state_scheme \<Rightarrow> (sched_phase \<times> 'z npsf_state_scheme) option"
where
  "npsf_schedule_next p n s = do {
     v \<leftarrow> rsv_server (reserves s n);
     let s = set_currently n True s;
     Some (if curr_reserve (servers s v) \<noteq> n
           then (Keeping p,
                 set_currently n False
                   (if first_reserve (servers s v) = n then upd_server v (\<lambda>S. S\<lparr>first_cpu_wants_ipi := True\<rparr>) s else s))
           else (Notifying p (highest_prio (servers s v)),
                 upd_entry (this_cpu s) (\<lambda>E. E\<lparr>cpu_reserve := Some n\<rparr>) s))
   }"

text \<open>Under the lock of the previous server again, or in \<^verbatim>\<open>npsf_notify_next_cpu\<close>.\<close>

definition npsf_schedule_keep :: "nat \<Rightarrow> 'z npsf_state_scheme \<Rightarrow> (sched_phase \<times> 'z npsf_state_scheme) option" where
  "npsf_schedule_keep p s = do {
     v \<leftarrow> rsv_server (reserves s p);
     let s = set_currently p True s;
     Some (Chosen (highest_prio (servers s v)), s)
   }"

definition npsf_schedule_notify ::
  "nat \<Rightarrow> tid option \<Rightarrow> 'z npsf_state_scheme \<Rightarrow> (sched_phase \<times> 'z npsf_state_scheme) option"
where
  "npsf_schedule_notify p nxt s = do {
     s \<leftarrow> npsf_notify_next_cpu p s;
     Some (Chosen nxt, s)
   }"

fun npsf_schedule_part :: "sched_phase \<Rightarrow> 'z npsf_state_scheme \<Rightarrow> (sched_phase \<times> 'z npsf_state_scheme) option" where
  "npsf_schedule_part (Chosen nxt) s = Some (Chosen nxt, s)"
| "npsf_schedule_part (Switching p n) s = npsf_schedule_next p n s"
| "npsf_schedule_part (Keeping p) s = npsf_schedule_keep p s"
| "npsf_schedule_part (Notifying p nxt) s = npsf_schedule_notify p nxt s"

definition npsf_schedule_end :: "tid option \<Rightarrow> 'z npsf_state_scheme \<Rightarrow> 'z npsf_state_scheme" where
  "npsf_schedule_end nxt s = (case nxt of Some n \<Rightarrow> upd_task n (set_rt_flags RT_F_RUNNING) s | None \<Rightarrow> s)"

definition npsf_schedule ::
  "tid \<Rightarrow> lt_t \<Rightarrow> lt_t \<Rightarrow> 'z npsf_state_scheme \<Rightarrow> (tid option \<times> 'z npsf_state_scheme) option"
where
  "npsf_schedule prev now now' s = do {
     (ph, s) \<leftarrow> npsf_schedule_prev prev now now' s;
     (ph, s) \<leftarrow> npsf_schedule_part ph s;
     (ph, s) \<leftarrow> npsf_schedule_part ph s;
     (case ph of Chosen nxt \<Rightarrow> Some (nxt, npsf_schedule_end nxt s) | _ \<Rightarrow> None)
   }"

section \<open>Handlers for tasks\<close>

fun find_npsf :: "(nat \<Rightarrow> npsf_reserve) \<Rightarrow> int \<Rightarrow> nat list \<Rightarrow> nat option" where
  "find_npsf rsvs i [] = None"
| "find_npsf rsvs i (r # rs) = (if rsv_id (rsvs r) = i then Some r else find_npsf rsvs i rs)"

definition npsf_task_new :: "tid \<Rightarrow> lt_t \<Rightarrow> lt_t \<Rightarrow> lt_t \<Rightarrow> 'z npsf_state_scheme \<Rightarrow> 'z npsf_state_scheme option" where
  "npsf_task_new t now now' now'' s = do {
     let e = entries s (get_partition (tasks s t));
     BUG_ON (no_reserves e);
     r \<leftarrow> find_npsf (reserves s) (task_npsfid (tasks s t)) (npsf_reserves e);
     v \<leftarrow> rsv_server (reserves s r);
     let s = upd_task t (upd_rt (\<lambda>p. p\<lparr>domain := Some v\<rparr>)) s;
     let s = upd_task t (release_at now) s;
     s \<leftarrow> npsf_requeue t v now' s;
     s \<leftarrow> npsf_reschedule_server v now'' s;
     Some (set_tsk_need_resched t s)
   }"

definition npsf_task_wake_up :: "tid \<Rightarrow> lt_t \<Rightarrow> lt_t \<Rightarrow> lt_t \<Rightarrow> 'z npsf_state_scheme \<Rightarrow> 'z npsf_state_scheme option" where
  "npsf_task_wake_up t now now' now'' s = do {
     BUG_ON (\<not> is_realtime (tasks s t));
     v \<leftarrow> domain (rt_param (tasks s t));
     q \<leftarrow> is_queued t s;
     BUG_ON q;
     let s = (if is_tardy (tasks s t) now then upd_task t (release_at now) s else s);
     (if highest_prio (servers s v) \<noteq> Some t
      then do {
        s \<leftarrow> npsf_requeue t v now' s;
        npsf_reschedule_server v now'' s
      }
      else Some s)
   }"

definition remove_from_server :: "tid \<Rightarrow> nat \<Rightarrow> lt_t \<Rightarrow> 'z npsf_state_scheme \<Rightarrow> 'z npsf_state_scheme option" where
  "remove_from_server t v now s =
     (if highest_prio (servers s v) = Some t then npsf_reschedule_server v now (set_highest v None s)
      else do {
        q \<leftarrow> is_queued t s;
        (if q then remove_rt edf_ready_order v t s else Some s)
      })"

definition npsf_task_block :: "tid \<Rightarrow> lt_t \<Rightarrow> 'z npsf_state_scheme \<Rightarrow> 'z npsf_state_scheme option" where
  "npsf_task_block t now s = do {
     BUG_ON (\<not> is_realtime (tasks s t));
     v \<leftarrow> domain (rt_param (tasks s t));
     remove_from_server t v now s
   }"

definition npsf_task_exit :: "tid \<Rightarrow> lt_t \<Rightarrow> 'z npsf_state_scheme \<Rightarrow> 'z npsf_state_scheme option" where
  "npsf_task_exit t now s = do {
     BUG_ON (\<not> is_realtime (tasks s t));
     v \<leftarrow> domain (rt_param (tasks s t));
     remove_from_server t v now s
   }"

definition npsf_admit_task :: "tid \<Rightarrow> 'z npsf_state_scheme \<Rightarrow> int" where
  "npsf_admit_task t s =
     (if \<not> all_servers_added s then - ENODEV
      else if task_cpu (tasks s t) \<noteq> get_partition (tasks s t) then - EINVAL
      else if find_npsf (reserves s) (task_npsfid (tasks s t)) (npsf_reserves (entries s (get_partition (tasks s t)))) \<noteq> None
      then 0 else - EINVAL)"

end
