(* ===== verification/Npsf_Server.thy ===== *)
theory Npsf_Server
  imports Npsf
begin

text \<open>
  The tasks of the NPS-F servers: every task is at one place, and the invariant that the source states
  in \<^verbatim>\<open>npsf_schedule\<close>: \<^verbatim>\<open>highest_prio\<close> of a server is always its highest-priority job. Every operation on
  a server restores it.
\<close>

section \<open>Invariant\<close>

text \<open>A task belongs to the server whose domain it has.\<close>

definition npsf_home :: "task_struct \<Rightarrow> nat" where
  "npsf_home t = (case domain (rt_param t) of Some d \<Rightarrow> d | None \<Rightarrow> 0)"

abbreviation highest :: "'z npsf_state_scheme \<Rightarrow> nat \<Rightarrow> tid option" where
  "highest s v \<equiv> highest_prio (servers s v)"

definition srv_ok :: "(tid \<Rightarrow> place) \<Rightarrow> 'z npsf_state_scheme \<Rightarrow> bool" where
  "srv_ok pl s \<longleftrightarrow> queue_inv npsf_home pl s \<and> (\<forall>t. pl t \<noteq> Nowhere \<longrightarrow> domain (rt_param (tasks s t)) \<noteq> None) \<and>
     (\<forall>v t. highest s v = Some t \<longrightarrow> pl t = Nowhere \<and> edf_ok (tasks s t) \<and> domain (rt_param (tasks s t)) = Some v)"

text \<open>The same, but the choice of the server \<open>v\<close> is just being made.\<close>

definition srv_ok_but :: "nat \<Rightarrow> (tid \<Rightarrow> place) \<Rightarrow> 'z npsf_state_scheme \<Rightarrow> bool" where
  "srv_ok_but v pl s \<longleftrightarrow> queue_inv npsf_home pl s \<and> (\<forall>t. pl t \<noteq> Nowhere \<longrightarrow> domain (rt_param (tasks s t)) \<noteq> None) \<and>
     (\<forall>w t. w \<noteq> v \<longrightarrow> highest s w = Some t \<longrightarrow>
        pl t = Nowhere \<and> edf_ok (tasks s t) \<and> domain (rt_param (tasks s t)) = Some w)"

definition best_at :: "(tid \<Rightarrow> place) \<Rightarrow> 'z npsf_state_scheme \<Rightarrow> nat \<Rightarrow> bool" where
  "best_at pl s v \<longleftrightarrow> (\<forall>x. pl x = Ready v \<longrightarrow> (\<exists>h. highest s v = Some h \<and> \<not> edf_ready_order s x h))"

definition npsf_inv :: "(tid \<Rightarrow> place) \<Rightarrow> 'z npsf_state_scheme \<Rightarrow> bool" where
  "npsf_inv pl s \<longleftrightarrow> srv_ok pl s \<and> (\<forall>v. best_at pl s v)"

text \<open>A task that a server knows, and one that waits for its release.\<close>

definition busy :: "(tid \<Rightarrow> place) \<Rightarrow> 'z npsf_state_scheme \<Rightarrow> tid \<Rightarrow> bool" where
  "busy pl s x \<longleftrightarrow> pl x \<noteq> Nowhere \<or> (\<exists>v. highest s v = Some x)"

definition waits :: "(tid \<Rightarrow> place) \<Rightarrow> tid \<Rightarrow> bool" where
  "waits pl x \<longleftrightarrow> (\<exists>r. pl x = Waiting r)"

section \<open>What the operations leave alone\<close>

text \<open>The task without its flags and its position in a queue, but with its domain.\<close>

definition nview :: "task_struct \<Rightarrow> task_struct \<times> nat option" where
  "nview t = (set_rt_flags RT_F_RUNNING (jview t), domain (rt_param t))"

definition same_params :: "'z kstate_scheme \<Rightarrow> 'y kstate_scheme \<Rightarrow> bool" where
  "same_params s s' \<longleftrightarrow> (\<forall>t. nview (tasks s' t) = nview (tasks s t))"

lemma nviewD:
  assumes "nview t = nview t'"
  shows "pid t = pid t'" "policy t = policy t'" "state t = state t'" "preempt_active t = preempt_active t'"
    "task_cpu t = task_cpu t'" "task_params (rt_param t) = task_params (rt_param t')"
    "job_params (rt_param t) = job_params (rt_param t')" "inh_task (rt_param t) = inh_task (rt_param t')"
    "heap_node (rt_param t) = heap_node (rt_param t')" "domain (rt_param t) = domain (rt_param t')"
proof -
  have fields: "pid (set_rt_flags f (jview t)) = pid t" "policy (set_rt_flags f (jview t)) = policy t"
    "state (set_rt_flags f (jview t)) = state t" "preempt_active (set_rt_flags f (jview t)) = preempt_active t"
    "task_cpu (set_rt_flags f (jview t)) = task_cpu t"
    "task_params (rt_param (set_rt_flags f (jview t))) = task_params (rt_param t)"
    "job_params (rt_param (set_rt_flags f (jview t))) = job_params (rt_param t)"
    "inh_task (rt_param (set_rt_flags f (jview t))) = inh_task (rt_param t)"
    "heap_node (rt_param (set_rt_flags f (jview t))) = heap_node (rt_param t)" for f t
    by (simp_all add: rt_simps jview_def tview_def)
  have v: "set_rt_flags RT_F_RUNNING (jview t) = set_rt_flags RT_F_RUNNING (jview t')"
    "domain (rt_param t) = domain (rt_param t')" using assms by (simp_all add: nview_def)
  show "pid t = pid t'" "policy t = policy t'" "state t = state t'" "preempt_active t = preempt_active t'"
    "task_cpu t = task_cpu t'" "task_params (rt_param t) = task_params (rt_param t')"
    "job_params (rt_param t) = job_params (rt_param t')" "inh_task (rt_param t) = inh_task (rt_param t')"
    "heap_node (rt_param t) = heap_node (rt_param t')" "domain (rt_param t) = domain (rt_param t')"
    using v by (simp_all only: fields [of RT_F_RUNNING t, symmetric]) (simp_all only: fields)
qed

lemma nview_view:
  assumes "nview t = nview t'"
  shows "npsf_home t = npsf_home t'" "edf_ok t = edf_ok t'" "get_deadline t = get_deadline t'"
    "get_release t = get_release t'" "is_realtime t = is_realtime t'" "is_running t = is_running t'"
    "get_partition t = get_partition t'" "task_npsfid t = task_npsfid t'" "is_released t now = is_released t' now"
  using nviewD [OF assms]
  by (simp_all add: rt_simps edf_ok_def is_running_def npsf_home_def task_npsfid_def is_released_def)

lemma same_paramsD:
  assumes "same_params s s'"
  shows "npsf_home (tasks s' t) = npsf_home (tasks s t)" "edf_ok (tasks s' t) = edf_ok (tasks s t)"
    "get_release (tasks s' t) = get_release (tasks s t)" "is_realtime (tasks s' t) = is_realtime (tasks s t)"
    "is_running (tasks s' t) = is_running (tasks s t)" "get_partition (tasks s' t) = get_partition (tasks s t)"
    "task_npsfid (tasks s' t) = task_npsfid (tasks s t)"
    "domain (rt_param (tasks s' t)) = domain (rt_param (tasks s t))"
    "is_released (tasks s' t) now = is_released (tasks s t) now" "pid (tasks s' t) = pid (tasks s t)"
proof -
  have v: "nview (tasks s' t) = nview (tasks s t)" using assms by (simp add: same_params_def)
  show "npsf_home (tasks s' t) = npsf_home (tasks s t)" "edf_ok (tasks s' t) = edf_ok (tasks s t)"
    "get_release (tasks s' t) = get_release (tasks s t)" "is_realtime (tasks s' t) = is_realtime (tasks s t)"
    "is_running (tasks s' t) = is_running (tasks s t)" "get_partition (tasks s' t) = get_partition (tasks s t)"
    "task_npsfid (tasks s' t) = task_npsfid (tasks s t)"
    "domain (rt_param (tasks s' t)) = domain (rt_param (tasks s t))"
    "is_released (tasks s' t) now = is_released (tasks s t) now" "pid (tasks s' t) = pid (tasks s t)"
    using nview_view [OF v] nviewD [OF v] by simp_all
qed

lemma same_params_refl [simp]: "same_params s s"
  by (simp add: same_params_def)

lemma same_params_trans: "same_params s s' \<Longrightarrow> same_params s' s'' \<Longrightarrow> same_params s s''"
  by (simp add: same_params_def)

lemma same_params_order: "same_params s s' \<Longrightarrow> edf_ready_order s' = edf_ready_order s"
proof (intro ext)
  fix a b
  assume same: "same_params s s'"
  have v: "nview (tasks s' t) = nview (tasks s t)" for t using same by (simp add: same_params_def)
  have "eff (tasks s') t = eff (tasks s) t" for t using nviewD(8) [OF v] by (simp add: eff_def)
  then show "edf_ready_order s' a b = edf_ready_order s a b"
    unfolding edf_ready_order_def edf_higher_prio_Some earlier_deadline_def
    by (simp add: nview_view(3,5) [OF v] nviewD(1,8) [OF v])
qed

lemma nview_simps [simp]:
  "nview (set_in_heap b t) = nview t" "nview (set_rt_flags f t) = nview t"
  "nview (t\<lparr>need_resched := b\<rparr>) = nview t" "nview (request_exit_np t) = nview t"
  by (simp_all add: nview_def jview_def tview_def rt_simps request_exit_np_def option.map_comp comp_def split: option.splits)

lemma same_tasks_params:
  assumes "same_tasks s s'" "\<And>t. domain (rt_param (tasks s' t)) = domain (rt_param (tasks s t))"
  shows "same_params s s'"
  using assms by (simp add: same_tasks_def same_params_def nview_def jview_def)

lemma tview_domain: "tview t = tview t' \<Longrightarrow> domain (rt_param t) = domain (rt_param t')"
proof -
  have "domain (rt_param (tview t)) = domain (rt_param t)" for t by (simp add: tview_def)
  then show "tview t = tview t' \<Longrightarrow> domain (rt_param t) = domain (rt_param t')" by metis
qed

text \<open>The state without the queues, the tasks and the choices of the servers.\<close>

definition cfg where
  "cfg s = (reserves s, entries s,
     (\<lambda>v. (curr_reserve (servers s v), first_reserve (servers s v), first_cpu_wants_ipi (servers s v))),
     all_servers_added s, timers_activated s, time_origin s, npsf_slot_length s, this_cpu s, curr s, npsf_state.more s)"

lemma cfgD:
  assumes "cfg s' = cfg s"
  shows "reserves s' = reserves s" "entries s' = entries s" "all_servers_added s' = all_servers_added s"
    "time_origin s' = time_origin s" "npsf_slot_length s' = npsf_slot_length s" "this_cpu s' = this_cpu s"
    "curr s' = curr s" "curr_reserve (servers s' v) = curr_reserve (servers s v)"
    "first_reserve (servers s' v) = first_reserve (servers s v)" "npsf_state.more s' = npsf_state.more s"
  using assms by (simp_all add: cfg_def fun_eq_iff)

lemma npsf_more:
  assumes "kstate.more s' = kstate.more s"
  shows "servers s' = servers s" "reserves s' = reserves s" "entries s' = entries s"
    "all_servers_added s' = all_servers_added s" "timers_activated s' = timers_activated s"
    "time_origin s' = time_origin s" "npsf_slot_length s' = npsf_slot_length s" "npsf_state.more s' = npsf_state.more s"
  using assms by (cases s; cases s'; simp)+

lemma npsf_upd_simps [simp]:
  "servers (upd_task t f s) = servers s" "servers (upd_dom d g s) = servers s" "servers (upd_rh r h s) = servers s"
  "cfg (upd_task t f s) = cfg s" "cfg (upd_dom d g s) = cfg s" "cfg (upd_rh r h s) = cfg s"
  by (simp_all add: upd_task_def upd_dom_def upd_rh_def cfg_def)

lemma cfg_more:
  "kstate.more s' = kstate.more s \<Longrightarrow> this_cpu s' = this_cpu s \<Longrightarrow> curr s' = curr s \<Longrightarrow> cfg s' = cfg s"
  by (simp add: cfg_def npsf_more [of s' s])

lemma set_highest_simps [simp]:
  "cfg (set_highest v h s) = cfg s" "tasks (set_highest v h s) = tasks s" "doms (set_highest v h s) = doms s"
  "rel_heaps (set_highest v h s) = rel_heaps s" "tick_period (set_highest v h s) = tick_period s"
  "highest (set_highest v h s) w = (if w = v then h else highest s w)"
  "this_cpu (set_highest v h s) = this_cpu s" "curr (set_highest v h s) = curr s"
  by (auto simp: set_highest_def upd_server_def cfg_def fun_eq_iff)

lemma set_highest_order [simp]: "edf_ready_order (set_highest v h s) = edf_ready_order s"
  by (intro ext) (simp add: edf_ready_order_def)

lemma set_highest_queue [simp]: "queue_inv home pl (set_highest v h s) = queue_inv home pl s"
  by (simp add: queue_inv_def heaps_ok_def placed_def release_ok_def slot_of_def)

section \<open>Queues\<close>

lemma npsf_home_stable [simp]: "npsf_home (set_in_heap b t) = npsf_home t" "npsf_home (set_rt_flags f t) = npsf_home t"
  by (simp_all add: npsf_home_def rt_simps)

lemma npsf_home_domain [simp]: "npsf_home (upd_rt (\<lambda>p. p\<lparr>domain := Some d\<rparr>) t) = d"
  by (simp add: npsf_home_def rt_simps)

lemma srv_ok_butD:
  assumes "srv_ok_but v pl s"
  shows "queue_inv npsf_home pl s" "placed npsf_home pl s"
    "w \<noteq> v \<Longrightarrow> highest s w = Some t \<Longrightarrow> pl t = Nowhere" "w \<noteq> v \<Longrightarrow> highest s w = Some t \<Longrightarrow> edf_ok (tasks s t)"
    "w \<noteq> v \<Longrightarrow> highest s w = Some t \<Longrightarrow> domain (rt_param (tasks s t)) = Some w"
    "in_heap (rt_param (tasks s t)) \<longleftrightarrow> pl t \<noteq> Nowhere" "pl t \<noteq> Nowhere \<Longrightarrow> edf_ok (tasks s t)"
    "pl t = Ready u \<Longrightarrow> domain (rt_param (tasks s t)) = Some u" "pl t \<noteq> Nowhere \<Longrightarrow> domain (rt_param (tasks s t)) \<noteq> None"
proof -
  show "queue_inv npsf_home pl s" and p: "placed npsf_home pl s"
    using assms by (simp_all add: srv_ok_but_def queue_inv_def)
  show "w \<noteq> v \<Longrightarrow> highest s w = Some t \<Longrightarrow> pl t = Nowhere" "w \<noteq> v \<Longrightarrow> highest s w = Some t \<Longrightarrow> edf_ok (tasks s t)"
    "w \<noteq> v \<Longrightarrow> highest s w = Some t \<Longrightarrow> domain (rt_param (tasks s t)) = Some w"
    using assms by (simp_all add: srv_ok_but_def)
  show "in_heap (rt_param (tasks s t)) \<longleftrightarrow> pl t \<noteq> Nowhere" "pl t \<noteq> Nowhere \<Longrightarrow> edf_ok (tasks s t)"
    using placed_simps(5,6) [OF p, of t] by auto
  show d: "pl t \<noteq> Nowhere \<Longrightarrow> domain (rt_param (tasks s t)) \<noteq> None" using assms by (simp add: srv_ok_but_def)
  show "domain (rt_param (tasks s t)) = Some u" if "pl t = Ready u"
  proof -
    have "npsf_home (tasks s t) = u" using p that by (simp add: placed_def)
    then show ?thesis using d that by (auto simp: npsf_home_def split: option.splits)
  qed
qed

lemma srv_ok_but: "srv_ok pl s \<Longrightarrow> srv_ok_but v pl s"
  by (simp add: srv_ok_def srv_ok_but_def)

lemma srv_okD:
  assumes "srv_ok pl s"
  shows "queue_inv npsf_home pl s" "placed npsf_home pl s"
    "highest s v = Some t \<Longrightarrow> pl t = Nowhere" "highest s v = Some t \<Longrightarrow> edf_ok (tasks s t)"
    "highest s v = Some t \<Longrightarrow> domain (rt_param (tasks s t)) = Some v"
    "in_heap (rt_param (tasks s t)) \<longleftrightarrow> pl t \<noteq> Nowhere" "pl t \<noteq> Nowhere \<Longrightarrow> edf_ok (tasks s t)"
    "pl t = Ready u \<Longrightarrow> domain (rt_param (tasks s t)) = Some u" "pl t \<noteq> Nowhere \<Longrightarrow> domain (rt_param (tasks s t)) \<noteq> None"
  using srv_ok_butD [OF srv_ok_but [OF assms]] assms by (auto simp: srv_ok_def)

lemma npsf_invD:
  assumes "npsf_inv pl s"
  shows "srv_ok pl s" "best_at pl s v"
  using assms by (simp_all add: npsf_inv_def)

text \<open>Changing a task that is in no queue and not the choice of a server.\<close>

lemma queue_inv_free:
  assumes "queue_inv npsf_home pl s" "pl t = Nowhere" "pid (f (tasks s t)) = pid (tasks s t)"
    "in_heap (rt_param (f (tasks s t))) = in_heap (rt_param (tasks s t))"
  shows "queue_inv npsf_home pl (upd_task t f s)"
  by (rule queue_inv_frame [OF assms(1)]) (use assms(2-4) in auto)

lemma queue_inv_view:
  assumes "queue_inv npsf_home pl s" "same_tasks s s'" "doms s' = doms s" "rel_heaps s' = rel_heaps s"
    "tick_period s' = tick_period s"
  shows "queue_inv npsf_home pl s'"
proof -
  have v: "tview (tasks s' t) = tview (tasks s t)" for t using assms(2) by (simp add: same_tasks_def)
  show ?thesis
    by (rule queue_inv_frame [OF assms(1,3-5)])
      (simp_all add: tview_view [OF v] tviewD [OF v] npsf_home_def tview_domain [OF v])
qed

text \<open>A requeued task is in the ready queue of the server if it is released, and waits otherwise.\<close>

lemma npsf_requeue_ok:
  assumes "queue_inv npsf_home pl s" "pl t = Nowhere" "edf_ok (tasks s t)" "domain (rt_param (tasks s t)) = Some d"
  shows "ok (npsf_requeue t d now s) (\<lambda>s'. \<exists>p. queue_inv npsf_home (pl(t := p)) s' \<and>
    (if is_released (tasks s t) now then p = Ready d else \<exists>r. p = Waiting r) \<and>
    same_params s s' \<and> servers s' = servers s \<and> cfg s' = cfg s)"
proof -
  define s1 where "s1 = upd_task t (set_rt_flags RT_F_RUNNING) s"
  have s1: "queue_inv npsf_home pl s1" unfolding s1_def
    by (rule queue_inv_free [OF assms(1,2)]) (simp_all add: rt_simps)
  have t: "edf_ok (tasks s1 t)" "npsf_home (tasks s1 t) = d" "is_released (tasks s1 t) now = is_released (tasks s t) now"
    using assms(3,4) by (simp_all add: s1_def rt_simps edf_ok_def is_released_def npsf_home_def)
  have p1: "same_params s s1" "servers s1 = servers s" "cfg s1 = cfg s" by (simp_all add: s1_def same_params_def)
  have nq: "is_queued t s = Some False"
    using placed_simps(5) [OF queue_inv_heap(3) [OF assms(1)], of t] assms(2,3) by (simp add: is_queued_def edf_ok_def)
  have nh: "\<not> in_heap (rt_param (tasks s1 t))"
    using placed_simps(5) [OF queue_inv_heap(3) [OF s1], of t] assms(2) by simp
  let ?Q = "\<lambda>s'. \<exists>p. queue_inv npsf_home (pl(t := p)) s' \<and>
    (if is_released (tasks s t) now then p = Ready d else \<exists>r. p = Waiting r) \<and>
    same_params s s' \<and> servers s' = servers s \<and> cfg s' = cfg s"
  have ready: "ok (add_ready edf_ready_order dummy_resched d t s1) ?Q" if "is_released (tasks s t) now"
    using add_ready_core [OF s1 assms(2) t(1), of d] t(2) nh that p1
    by (auto simp: add_ready_def dummy_resched_def same_params_def)
  have wait: "ok (add_release edf_ready_order d t s1) ?Q" if "\<not> is_released (tasks s t) now"
    unfolding add_release_eq
  proof (rule ok_mono [OF add_release_on_spec [OF s1 assms(2) t(1)]], goal_cases)
    case (3 s')
    have "domain (rt_param (tasks s1 t)) = Some d" using assms(4) by (simp add: s1_def rt_simps)
    then have "upd_rt (\<lambda>p. p\<lparr>domain := Some d\<rparr>) (tasks s1 t) = tasks s1 t" by (simp add: rt_simps)
    then have "same_params s1 s'" using 3(2) by (simp add: same_params_def)
    then show ?case using 3 that p1 same_params_trans [OF p1(1)] npsf_more(1) [of s' s1] cfg_more [of s' s1] by auto
  qed simp_all
  show ?thesis
    unfolding npsf_requeue_def nq using ready wait t(3) by (simp add: s1_def [symmetric] Let_def)
qed

section \<open>Rescheduling a server\<close>

text \<open>The tasks stay where they are, as far as the rest of the system can tell.\<close>

definition same_places :: "(tid \<Rightarrow> place) \<Rightarrow> 'z npsf_state_scheme \<Rightarrow> (tid \<Rightarrow> place) \<Rightarrow> 'z npsf_state_scheme \<Rightarrow> bool" where
  "same_places pl s pl' s' \<longleftrightarrow> (\<forall>x. busy pl' s' x = busy pl s x) \<and> (\<forall>x. waits pl' x = waits pl x)"

lemma srv_ok_same:
  assumes "srv_ok pl s" "queue_inv npsf_home pl s'" "same_params s s'" "servers s' = servers s"
  shows "srv_ok pl s'"
  using assms by (simp add: srv_ok_def same_paramsD [OF assms(3)])

lemma best_at_same:
  assumes "best_at pl s v" "same_params s s'" "highest s' v = highest s v"
  shows "best_at pl s' v"
  using assms by (simp add: best_at_def same_params_order [OF assms(2)])

lemma npsf_preempt_frame:
  fixes s :: "'z npsf_state_scheme" and v :: nat
  defines "s' \<equiv> npsf_preempt_if_server_is_scheduled v s"
  shows "same_tasks s s'" "doms s' = doms s" "rel_heaps s' = rel_heaps s" "tick_period s' = tick_period s"
    "servers s' = servers s" "cfg s' = cfg s"
proof -
  have "s' = s \<or> (\<exists>c. s' = preempt_if_preemptable None c s)"
    by (auto simp: s'_def npsf_preempt_if_server_is_scheduled_def npsf_preempt_def Let_def)
  then have f: "same_tasks s s' \<and> doms s' = doms s \<and> rel_heaps s' = rel_heaps s \<and> tick_period s' = tick_period s \<and>
    kstate.more s' = kstate.more s \<and> this_cpu s' = this_cpu s \<and> curr s' = curr s" by auto
  then show "same_tasks s s'" "doms s' = doms s" "rel_heaps s' = rel_heaps s" "tick_period s' = tick_period s"
    "servers s' = servers s" "cfg s' = cfg s" using npsf_more(1) cfg_more by blast+
qed

lemma same_tasks_same_params: "same_tasks s s' \<Longrightarrow> same_params s s'"
  by (rule same_tasks_params) (auto simp: same_tasks_def intro: tview_domain)

lemma npsf_inv_preempt:
  assumes "npsf_inv pl s"
  shows "npsf_inv pl (npsf_preempt_if_server_is_scheduled v s)" "same_params s (npsf_preempt_if_server_is_scheduled v s)"
proof -
  note f = npsf_preempt_frame [where s = s and v = v]
  show p: "same_params s (npsf_preempt_if_server_is_scheduled v s)" by (rule same_tasks_same_params [OF f(1)])
  have "queue_inv npsf_home pl (npsf_preempt_if_server_is_scheduled v s)"
    by (rule queue_inv_view [OF srv_okD(1) [OF npsf_invD(1) [OF assms]] f(1-4)])
  then show "npsf_inv pl (npsf_preempt_if_server_is_scheduled v s)"
    using srv_ok_same [OF npsf_invD(1) [OF assms] _ p f(5)] best_at_same [OF npsf_invD(2) [OF assms] p] f(5)
    by (simp add: npsf_inv_def)
qed

text \<open>
  Taking the best ready job of a server as its choice, where the old choice \<open>hp\<close> is no longer the choice
  of the server.
\<close>

lemma take_highest:
  assumes "srv_ok_but v pl s" "\<forall>w. w \<noteq> v \<longrightarrow> best_at pl s w" "take_ready edf_ready_order v s = (nxt, s1)"
  defines "s2 \<equiv> set_highest v nxt s1" and "pl' \<equiv> removed nxt pl"
  shows "srv_ok pl' s2" "\<And>v'. best_at pl' s2 v'" "same_params s s2" "cfg s2 = cfg s"
    "nxt = None \<longleftrightarrow> (\<forall>x. pl x \<noteq> Ready v)" "nxt = Some n \<Longrightarrow> pl n = Ready v"
    "nxt = Some n \<Longrightarrow> pl x = Ready v \<Longrightarrow> \<not> edf_ready_order s x n"
proof -
  note spec = take_ready_spec [OF srv_ok_butD(1) [OF assms(1)] assms(3) npsf_home_stable(1)]
  have p1: "same_params s s1" using spec(2,4) by (cases nxt) (auto simp: same_params_def)
  then show p: "same_params s s2" by (simp add: s2_def same_params_def)
  show "cfg s2 = cfg s" unfolding s2_def using cfg_more [OF spec(8-10)] by simp
  show none: "nxt = None \<longleftrightarrow> (\<forall>x. pl x \<noteq> Ready v)" by (rule spec(1))
  show some: "nxt = Some n \<Longrightarrow> pl n = Ready v" for n by (rule spec(5))
  show best: "nxt = Some n \<Longrightarrow> pl x = Ready v \<Longrightarrow> \<not> edf_ready_order s x n" for x n by (rule spec(6))
  have q: "queue_inv npsf_home pl' s2" using spec(2,3) by (cases nxt) (auto simp: pl'_def removed_def s2_def)
  have sub: "pl' x \<noteq> Nowhere \<Longrightarrow> pl x \<noteq> Nowhere" "pl' x = Ready w \<Longrightarrow> pl x = Ready w" for x w
    by (auto simp: pl'_def removed_def split: option.splits if_splits)
  have free: "pl x = Nowhere \<Longrightarrow> pl' x = Nowhere" for x by (auto simp: pl'_def removed_def split: option.splits)
  have hi: "highest s2 w = (if w = v then nxt else highest s w)" for w
    using npsf_more(1) [OF spec(8)] by (simp add: s2_def)
  show "srv_ok pl' s2"
    unfolding srv_ok_def
  proof (intro conjI allI impI)
    show "queue_inv npsf_home pl' s2" by (rule q)
    show "domain (rt_param (tasks s2 t)) \<noteq> None" if "pl' t \<noteq> Nowhere" for t
      using srv_ok_butD(9) [OF assms(1) sub(1) [OF that]] same_paramsD(8) [OF p] by simp
    fix w t assume t: "highest s2 w = Some t"
    have *: "pl t = Nowhere \<and> w \<noteq> v \<or> w = v \<and> nxt = Some t \<and> pl t = Ready v"
      using t hi some srv_ok_butD(3) [OF assms(1)] by (metis)
    then show "pl' t = Nowhere" using free by (auto simp: pl'_def removed_def)
    show "edf_ok (tasks s2 t)" "domain (rt_param (tasks s2 t)) = Some w"
      using * t hi srv_ok_butD(4,5,7,8) [OF assms(1)] same_paramsD(2,8) [OF p] by (auto split: if_splits)
  qed
  show "best_at pl' s2 v'" for v'
  proof (cases "v' = v")
    case True
    show ?thesis
    proof (cases nxt)
      case None
      then show ?thesis using none sub(2) True unfolding best_at_def by blast
    next
      case (Some n)
      have "highest s2 v' = Some n" using hi Some True by simp
      then show ?thesis
        using best [OF Some] sub(2) True unfolding best_at_def same_params_order [OF p] by blast
    qed
  next
    case False
    then have "highest s2 v' = highest s v'" using hi by simp
    then show ?thesis using assms(2) False sub(2) unfolding best_at_def same_params_order [OF p] by fastforce
  qed
qed

lemma busy_take:
  assumes "\<forall>n. nxt = Some n \<longrightarrow> pl n = Ready v"
  shows "waits (removed nxt pl) x = waits pl x" "pl x \<noteq> Nowhere \<longleftrightarrow> removed nxt pl x \<noteq> Nowhere \<or> nxt = Some x"
  using assms by (auto simp: removed_def waits_def split: option.splits)

text \<open>After a task has been put in a queue.\<close>

lemma srv_ok_requeued:
  assumes "srv_ok pl s" "queue_inv npsf_home (pl(t := p)) s'" "same_params s s'" "servers s' = servers s"
    "\<And>w. highest s w \<noteq> Some t" "domain (rt_param (tasks s t)) \<noteq> None"
  shows "srv_ok (pl(t := p)) s'"
  unfolding srv_ok_def
proof (intro conjI allI impI)
  show "queue_inv npsf_home (pl(t := p)) s'" by (rule assms(2))
  show "domain (rt_param (tasks s' y)) \<noteq> None" if "(pl(t := p)) y \<noteq> Nowhere" for y
    using that assms(6) srv_okD(9) [OF assms(1), of y] same_paramsD(8) [OF assms(3)] by (auto split: if_splits)
  fix w y assume "highest s' w = Some y"
  then have y: "highest s w = Some y" by (simp add: assms(4))
  then have "y \<noteq> t" using assms(5) by blast
  then show "(pl(t := p)) y = Nowhere" using srv_okD(3) [OF assms(1) y] by simp
  show "edf_ok (tasks s' y)" "domain (rt_param (tasks s' y)) = Some w"
    using srv_okD(4,5) [OF assms(1) y] same_paramsD(2,8) [OF assms(3)] by auto
qed

lemma best_at_requeued:
  assumes "best_at pl s w" "same_params s s'" "servers s' = servers s"
    "p = Ready w \<Longrightarrow> \<exists>g. highest s w = Some g \<and> \<not> edf_ready_order s t g"
  shows "best_at (pl(t := p)) s' w"
  using assms unfolding best_at_def same_params_order [OF assms(2)] by (auto split: if_splits)

text \<open>The old choice \<open>h\<close> of a server is beaten by the best ready job \<open>n\<close>.\<close>

lemma beaten_choice:
  assumes "weak_order_on {t. edf_ok (tasks s t)} (edf_ready_order s)" "edf_ready_order s x h" "\<not> edf_ready_order s x n"
    "edf_ok (tasks s x)" "edf_ok (tasks s h)" "edf_ok (tasks s n)"
  shows "\<not> edf_ready_order s h n"
  using weak_order_ntrans [OF assms(1,3), of h] weak_order_asym [OF assms(1), of h n] assms(2,4-6) by auto

definition resched_post where
  "resched_post v pl s s' \<longleftrightarrow> (\<exists>pl'. npsf_inv pl' s' \<and> same_places pl s pl' s') \<and> same_params s s' \<and> cfg s' = cfg s \<and>
     (\<forall>w. w \<noteq> v \<longrightarrow> highest s' w = highest s w)"

lemma resched_post_from:
  assumes "resched_post v pl1 s1 s'" "same_params s s1" "cfg s1 = cfg s" "\<And>x. busy pl1 s1 x = B x" "\<And>x. waits pl1 x = W x"
  shows "\<exists>pl'. npsf_inv pl' s' \<and> (\<forall>x. busy pl' s' x = B x) \<and> (\<forall>x. waits pl' x = W x) \<and> same_params s s' \<and> cfg s' = cfg s"
  using assms same_params_trans [OF assms(2)] unfolding resched_post_def same_places_def by auto

lemma resched_post_preempt:
  assumes "npsf_inv pl' s'" "same_places pl s pl' s'" "same_params s s'" "cfg s' = cfg s"
    "\<And>w. w \<noteq> v \<Longrightarrow> highest s' w = highest s w"
  shows "resched_post v pl s (npsf_preempt_if_server_is_scheduled v s')"
proof -
  note pre = npsf_inv_preempt [OF assms(1), of v] and f = npsf_preempt_frame [where s = s' and v = v]
  have "same_places pl s pl' (npsf_preempt_if_server_is_scheduled v s')"
    using assms(2) f(5) by (simp add: same_places_def busy_def)
  then show ?thesis
    unfolding resched_post_def using pre(1) same_params_trans [OF assms(3) pre(2)] f(5,6) assms(4,5) by auto
qed

text \<open>The part of \<^verbatim>\<open>npsf_reschedule_server\<close> after the best ready job was taken.\<close>

lemma requeue_old_choice:
  fixes s s' :: "'z npsf_state_scheme"
  assumes "srv_ok pl s" "npsf_inv (pl(n := Nowhere)) s'" "same_params s s'" "cfg s' = cfg s"
    "highest s v = Some h" "pl n = Ready v" "\<And>w. highest s' w = (if w = v then Some n else highest s w)"
    "\<not> edf_ready_order s h n" "is_released (tasks s h) now"
  shows "ok (npsf_requeue h v now s') (\<lambda>s''. resched_post v pl s (npsf_preempt_if_server_is_scheduled v s''))"
proof -
  let ?pl = "(pl(n := Nowhere))(h := Ready v)"
  have h: "pl h = Nowhere" "edf_ok (tasks s h)" "domain (rt_param (tasks s h)) = Some v"
    using srv_okD(3-5) [OF assms(1,5)] by blast+
  then have hn: "h \<noteq> n" using assms(6) by auto
  have nh: "highest s' w \<noteq> Some h" for w using assms(7) hn srv_okD(5) [OF assms(1), of w h] h(3) by auto
  have dom: "domain (rt_param (tasks s' h)) = Some v" "edf_ok (tasks s' h)" "is_released (tasks s' h) now"
    using h assms(9) same_paramsD(2,8,9) [OF assms(3)] by simp_all
  have places: "busy ?pl s'' y = busy pl s y" "waits ?pl y = waits pl y" if "servers s'' = servers s'" for s'' :: "'z npsf_state_scheme" and y
  proof -
    have "(\<exists>w. highest s'' w = Some y) \<longleftrightarrow> y = n \<or> (\<exists>w. w \<noteq> v \<and> highest s w = Some y)"
      unfolding that assms(7) by (auto split: if_splits)
    moreover have "(\<exists>w. highest s w = Some y) \<longleftrightarrow> y = h \<or> (\<exists>w. w \<noteq> v \<and> highest s w = Some y)"
      using assms(5) by (metis option.inject)
    ultimately show "busy ?pl s'' y = busy pl s y" unfolding busy_def using assms(6) h(1) by auto
    show "waits ?pl y = waits pl y" using assms(6) h(1) by (auto simp: waits_def)
  qed
  have free: "(pl(n := Nowhere)) h = Nowhere" by (simp add: h)
  show ?thesis
  proof (rule ok_mono [OF npsf_requeue_ok [OF srv_okD(1) [OF npsf_invD(1) [OF assms(2)]] free dom(2,1), of now]], elim exE conjE)
    fix s'' :: "'z npsf_state_scheme" and p
    assume p: "queue_inv npsf_home ((pl(n := Nowhere))(h := p)) s''" "same_params s' s''" "servers s'' = servers s'" "cfg s'' = cfg s'"
      and "if is_released (tasks s' h) now then p = Ready v else \<exists>r. p = Waiting r"
    then have q: "queue_inv npsf_home ?pl s''" using dom(3) by simp
    have "srv_ok ?pl s''"
      by (rule srv_ok_requeued [OF npsf_invD(1) [OF assms(2)] q p(2,3) nh]) (simp add: dom)
    moreover have "best_at ?pl s'' w" for w
      by (rule best_at_requeued [OF npsf_invD(2) [OF assms(2)] p(2,3)])
        (use assms(7,8) same_params_order [OF assms(3)] in auto)
    ultimately have "npsf_inv ?pl s''" by (simp add: npsf_inv_def)
    then show "resched_post v pl s (npsf_preempt_if_server_is_scheduled v s'')"
      by (rule resched_post_preempt) (use places p assms(4,7) same_params_trans [OF assms(3) p(2)] in \<open>auto simp: same_places_def\<close>)
  qed
qed

lemma npsf_reschedule_server_ok:
  assumes "srv_ok pl s" "\<forall>w. w \<noteq> v \<longrightarrow> best_at pl s w"
    "\<forall>h. highest s v = Some h \<longrightarrow> is_released (tasks s h) now"
  shows "ok (npsf_reschedule_server v now s) (resched_post v pl s)"
proof -
  obtain b s1 where pn: "edf_preemption_needed v (highest s v) s = (b, s1)" by fastforce
  note q = srv_okD(1) [OF assms(1)]
  note spec = edf_preemption_needed_spec [OF q pn]
  have p1: "same_params s s1" "servers s1 = servers s" "cfg s1 = cfg s"
    using spec(2) npsf_more(1) [OF spec(4)] cfg_more [OF spec(4-6)] by (simp_all add: same_params_def)
  have ok1: "srv_ok pl s1" by (rule srv_ok_same [OF assms(1) spec(1) p1(1,2)])
  have best1: "\<forall>w. w \<noteq> v \<longrightarrow> best_at pl s1 w" using best_at_same [OF _ p1(1)] assms(2) p1(2) by auto
  show ?thesis
  proof (cases b)
    case False
    have "best_at pl s1 v"
      using False spec(8,10) srv_okD(4) [OF assms(1)] p1(2) same_params_order [OF p1(1)]
      by (cases "highest s v") (auto simp: best_at_def)
    then have "npsf_inv pl s1" using ok1 best1 unfolding npsf_inv_def by metis
    then show ?thesis
      using pn False p1 by (auto simp: npsf_reschedule_server_def resched_post_def same_places_def busy_def)
  next
    case True
    obtain nxt s2 where take: "take_ready edf_ready_order v s1 = (nxt, s2)" by fastforce
    note t = take_highest [OF srv_ok_but [OF ok1] best1 take]
    define s3 where "s3 = set_highest v nxt s2"
    have p3: "same_params s s3" "cfg s3 = cfg s" using same_params_trans [OF p1(1) t(3)] t(4) p1(3) by (simp_all add: s3_def)
    have hi: "highest s3 w = (if w = v then nxt else highest s w)" for w
      using p1(2) npsf_more(1) [OF take_ready_spec(8) [OF spec(1) take npsf_home_stable(1)]] by (simp add: s3_def)
    have inv3: "npsf_inv (removed nxt pl) s3" using t(1,2) by (simp add: s3_def npsf_inv_def)
    have run: "npsf_reschedule_server v now s = Option.bind
        (case highest s v of Some h \<Rightarrow> npsf_requeue h v now s3 | None \<Rightarrow> Some s3)
        (\<lambda>s. Some (npsf_preempt_if_server_is_scheduled v s))"
      using pn True take unfolding s3_def by (simp add: npsf_reschedule_server_def Let_def split: option.splits)
    show ?thesis
    proof (cases "highest s v")
      case None
      have "same_places pl s (removed nxt pl) s3"
        unfolding same_places_def busy_def using busy_take [of nxt pl v] t(6) None hi by (metis option.distinct(1))
      then show ?thesis unfolding run using resched_post_preempt [OF inv3 _ p3] None hi by simp
    next
      case (Some h)
      have ok_s: "edf_ok (tasks s h)" "pl y = Ready v \<Longrightarrow> edf_ok (tasks s y)" for y
        using srv_okD(4) [OF assms(1) Some] srv_okD(7) [OF assms(1), of y] by auto
      obtain x where x: "pl x = Ready v" "edf_ready_order s x h" using True spec(10) [OF Some ok_s(1)] by blast
      then obtain n where n: "nxt = Some n" using t(5) by (cases nxt) auto
      have rdy: "pl n = Ready v" "\<not> edf_ready_order s x n"
        using t(6,7) [OF n] x(1) same_params_order [OF p1(1)] by auto
      have "\<not> edf_ready_order s h n"
        by (rule beaten_choice [OF queue_inv_weak_order(1) [OF q] x(2) rdy(2)]) (use ok_s x(1) rdy(1) in auto)
      moreover have "npsf_inv (pl(n := Nowhere)) s3" using inv3 n by (simp add: removed_def)
      ultimately have "ok (npsf_requeue h v now s3) (\<lambda>s4. resched_post v pl s (npsf_preempt_if_server_is_scheduled v s4))"
        by (intro requeue_old_choice [OF assms(1) _ p3 Some rdy(1)]) (use hi n assms(3) Some in auto)
      then show ?thesis unfolding run Some by (simp add: ok_bind)
    qed
  qed
qed

section \<open>Releases, arrivals and departures\<close>

lemma merged_frame:
  fixes s :: "'z npsf_state_scheme"
  shows "tasks (merged r s) = tasks s" "servers (merged r s) = servers s" "cfg (merged r s) = cfg s"
    "edf_ready_order (merged r s) = edf_ready_order s"
proof -
  have *: "merged r s = upd_rh r f (upd_dom d g s) \<Longrightarrow> tasks (merged r s) = tasks s \<and> servers (merged r s) = servers s \<and>
    cfg (merged r s) = cfg s \<and> edf_ready_order (merged r s) = edf_ready_order s" for f d g by simp
  show "tasks (merged r s) = tasks s" "servers (merged r s) = servers s" "cfg (merged r s) = cfg s"
    "edf_ready_order (merged r s) = edf_ready_order s"
    using * by (auto simp: merged_def Let_def split: prod.splits)
qed

lemma npsf_release_timer_merged:
  "on_release_timer (npsf_release_jobs now) r s = npsf_reschedule_server (rh_dom (rel_heaps s r)) now (merged r s)"
  unfolding on_release_timer_def npsf_release_jobs_def merge_ready_def merged_def Let_def dummy_resched_def
  by (simp split: prod.splits) (simp add: upd_rh_def upd_dom_def)

text \<open>A release timer: the jobs of its heap no longer wait.\<close>

lemma npsf_release_ok:
  assumes "npsf_inv pl s" "rh_timer (rel_heaps s r) \<noteq> None" "\<And>v h. highest s v = Some h \<Longrightarrow> is_released (tasks s h) now"
  shows "ok (on_release_timer (npsf_release_jobs now) r s) (\<lambda>s'. \<exists>pl'. npsf_inv pl' s' \<and>
    (\<forall>x. busy pl' s' x = busy pl s x) \<and> (\<forall>x. waits pl' x \<longleftrightarrow> waits pl x \<and> pl x \<noteq> Waiting r) \<and> same_params s s' \<and> cfg s' = cfg s)"
proof -
  note ok = npsf_invD(1) [OF assms(1)]
  have "release_ok pl s" using srv_okD(1) [OF ok] by (simp add: queue_inv_def)
  then have r: "pl r = Waiting r" using release_okD(6) [of pl s r] assms(2) by auto
  define d where "d = rh_dom (rel_heaps s r)"
  define pl1 where "pl1 = (\<lambda>x. if pl x = Waiting r then Ready d else pl x)"
  define s1 where "s1 = merged r s"
  have f: "tasks s1 = tasks s" "servers s1 = servers s" "cfg s1 = cfg s" "edf_ready_order s1 = edf_ready_order s"
    by (simp_all add: s1_def merged_frame)
  have q: "queue_inv npsf_home pl1 s1" unfolding pl1_def d_def s1_def by (rule queue_inv_merged [OF srv_okD(1) [OF ok] r])
  have ok1: "srv_ok pl1 s1" using q ok unfolding srv_ok_def f by (auto simp: pl1_def)
  have best1: "\<forall>w. w \<noteq> d \<longrightarrow> best_at pl1 s1 w"
    using npsf_invD(2) [OF assms(1)] unfolding best_at_def f by (auto simp: pl1_def split: if_splits)
  have rel: "\<forall>h. highest s1 d = Some h \<longrightarrow> is_released (tasks s1 h) now" using assms(3) f by simp
  have busy: "busy pl1 s1 x = busy pl s x" for x using f by (auto simp: busy_def pl1_def)
  have waits: "waits pl1 x \<longleftrightarrow> waits pl x \<and> pl x \<noteq> Waiting r" for x by (auto simp: waits_def pl1_def)
  show ?thesis
    unfolding npsf_release_timer_merged d_def [symmetric] s1_def [symmetric]
    by (rule ok_mono [OF npsf_reschedule_server_ok [OF ok1 best1 rel]], rule resched_post_from [OF _ _ f(3) busy waits])
      (auto simp: same_params_def f(1))
qed

text \<open>A task that arrives at its server.\<close>

lemma npsf_arrive_ok:
  assumes "npsf_inv pl s" "\<not> busy pl s t" "edf_ok (tasks s t)" "domain (rt_param (tasks s t)) = Some v"
    "\<And>h. highest s v = Some h \<Longrightarrow> is_released (tasks s h) now'"
  shows "ok (Option.bind (npsf_requeue t v now s) (npsf_reschedule_server v now')) (\<lambda>s'. \<exists>pl'. npsf_inv pl' s' \<and>
    (\<forall>x. busy pl' s' x \<longleftrightarrow> busy pl s x \<or> x = t) \<and>
    (\<forall>x. waits pl' x \<longleftrightarrow> waits pl x \<or> x = t \<and> \<not> is_released (tasks s t) now) \<and> same_params s s' \<and> cfg s' = cfg s)"
  unfolding ok_bind
proof (rule ok_mono [OF npsf_requeue_ok [OF srv_okD(1) [OF npsf_invD(1) [OF assms(1)]] _ assms(3,4)]], goal_cases)
  case 1
  then show ?case using assms(2) by (simp add: busy_def)
next
  case (2 s1)
  then obtain p where p: "queue_inv npsf_home (pl(t := p)) s1" "same_params s s1" "servers s1 = servers s" "cfg s1 = cfg s"
    "if is_released (tasks s t) now then p = Ready v else \<exists>r. p = Waiting r" by blast
  have free: "pl t = Nowhere" "\<And>w. highest s w \<noteq> Some t" using assms(2) by (auto simp: busy_def)
  have ok1: "srv_ok (pl(t := p)) s1"
    by (rule srv_ok_requeued [OF npsf_invD(1) [OF assms(1)] p(1-3) free(2)]) (simp add: assms(4))
  have best1: "\<forall>w. w \<noteq> v \<longrightarrow> best_at (pl(t := p)) s1 w"
    using best_at_requeued [OF npsf_invD(2) [OF assms(1)] p(2,3), where p = p and t = t] p(5) by (auto split: if_splits)
  have rel: "\<forall>h. highest s1 v = Some h \<longrightarrow> is_released (tasks s1 h) now'"
    using assms(5) p(3) same_paramsD(9) [OF p(2)] by simp
  have busy: "busy (pl(t := p)) s1 x \<longleftrightarrow> busy pl s x \<or> x = t" for x
    using p(3,5) by (auto simp: busy_def split: if_splits)
  have waits: "waits (pl(t := p)) x \<longleftrightarrow> waits pl x \<or> x = t \<and> \<not> is_released (tasks s t) now" for x
    using p(5) free(1) by (auto simp: waits_def split: if_splits)
  show ?case
    by (rule ok_mono [OF npsf_reschedule_server_ok [OF ok1 best1 rel]]) (rule resched_post_from [OF _ p(2,4) busy waits])
qed

text \<open>A task that leaves its server: from the ready queue, or as the choice of the server.\<close>

lemma npsf_dequeue_ok:
  assumes "npsf_inv pl s" "pl t = Ready v"
  shows "ok (remove_rt edf_ready_order v t s) (\<lambda>s'. npsf_inv (pl(t := Nowhere)) s' \<and> servers s' = servers s \<and>
    same_params s s' \<and> cfg s' = cfg s)"
proof -
  note ok = npsf_invD(1) [OF assms(1)]
  have nh: "highest s w \<noteq> Some t" for w using srv_okD(3) [OF ok, of w t] assms(2) by auto
  have dom: "domain (rt_param (tasks s t)) \<noteq> None" using srv_okD(9) [OF ok, of t] assms(2) by simp
  show ?thesis
  proof (rule ok_mono [OF remove_rt_spec [OF srv_okD(1) [OF ok] assms(2) npsf_home_stable(1)]], elim conjE)
    fix s' assume s': "queue_inv npsf_home (pl(t := Nowhere)) s'" "tasks s' = (tasks s)(t := set_in_heap False (tasks s t))"
      "kstate.more s' = kstate.more s" "this_cpu s' = this_cpu s" "curr s' = curr s"
    have p: "same_params s s'" "servers s' = servers s" "cfg s' = cfg s"
      using s'(2) npsf_more(1) [OF s'(3)] cfg_more [OF s'(3-5)] by (auto simp: same_params_def)
    have "srv_ok (pl(t := Nowhere)) s'" by (rule srv_ok_requeued [OF ok s'(1) p(1,2) nh dom])
    moreover have "best_at (pl(t := Nowhere)) s' w" for w
      by (rule best_at_requeued [OF npsf_invD(2) [OF assms(1)] p(1,2)]) simp
    ultimately show "npsf_inv (pl(t := Nowhere)) s' \<and> servers s' = servers s \<and> same_params s s' \<and> cfg s' = cfg s"
      using p by (simp add: npsf_inv_def)
  qed
qed

lemma npsf_drop_choice_ok:
  assumes "npsf_inv pl s" "highest s v = Some t"
  shows "ok (npsf_reschedule_server v now (set_highest v None s)) (\<lambda>s'. \<exists>pl'. npsf_inv pl' s' \<and>
    (\<forall>x. busy pl' s' x \<longleftrightarrow> busy pl s x \<and> x \<noteq> t) \<and> (\<forall>x. waits pl' x = waits pl x) \<and> same_params s s' \<and> cfg s' = cfg s)"
proof -
  note ok = npsf_invD(1) [OF assms(1)] and best = npsf_invD(2) [OF assms(1)]
  define s1 where "s1 = set_highest v None s"
  have ok1: "srv_ok pl s1" using ok by (simp add: srv_ok_def s1_def)
  have best1: "\<forall>w. w \<noteq> v \<longrightarrow> best_at pl s1 w" using best by (simp add: best_at_def s1_def)
  have only: "highest s w = Some t \<Longrightarrow> w = v" for w using srv_okD(5) [OF ok, of w t] srv_okD(5) [OF ok assms(2)] by simp
  have hi: "highest s1 w = (if w = v then None else highest s w)" for w by (simp add: s1_def)
  have "(\<exists>w. highest s1 w = Some x) \<longleftrightarrow> (\<exists>w. highest s w = Some x) \<and> x \<noteq> t" for x
    unfolding hi using assms(2) only by (metis option.distinct(1) option.inject)
  then have busy: "busy pl s1 x \<longleftrightarrow> busy pl s x \<and> x \<noteq> t" for x
    using srv_okD(3) [OF ok assms(2)] by (auto simp: busy_def)
  show ?thesis
    unfolding s1_def [symmetric]
    by (rule ok_mono [OF npsf_reschedule_server_ok [OF ok1 best1]], simp add: s1_def, rule resched_post_from [OF _ _ _ busy])
      (auto simp: s1_def same_params_def)
qed

lemma npsf_leave_ok:
  assumes "npsf_inv pl s" "\<not> waits pl t" "domain (rt_param (tasks s t)) = Some v" "heap_node (rt_param (tasks s t))"
  shows "ok (remove_from_server t v now s) (\<lambda>s'. \<exists>pl'. npsf_inv pl' s' \<and>
    (\<forall>x. busy pl' s' x \<longleftrightarrow> busy pl s x \<and> x \<noteq> t) \<and> (\<forall>x. waits pl' x = waits pl x) \<and> same_params s s' \<and> cfg s' = cfg s)"
proof -
  note ok = npsf_invD(1) [OF assms(1)]
  have q: "is_queued t s = Some (pl t \<noteq> Nowhere)" using assms(4) srv_okD(6) [OF ok] by (simp add: is_queued_def)
  consider (choice) "highest s v = Some t" | (none) "highest s v \<noteq> Some t" "pl t = Nowhere"
    | (ready) "highest s v \<noteq> Some t" "pl t = Ready v"
    using assms(2,3) srv_okD(8) [OF ok, of t] by (cases "pl t") (auto simp: waits_def)
  then show ?thesis
  proof cases
    case choice
    then show ?thesis using npsf_drop_choice_ok [OF assms(1) choice] by (simp add: remove_from_server_def)
  next
    case none
    then have "\<not> busy pl s t" using srv_okD(5) [OF ok, of _ t] assms(3) by (auto simp: busy_def)
    then have "\<forall>x. busy pl s x \<longleftrightarrow> busy pl s x \<and> x \<noteq> t" by blast
    then show ?thesis using none q assms(1) by (auto simp: remove_from_server_def)
  next
    case ready
    then have nh: "highest s w \<noteq> Some t" for w using srv_okD(3) [OF ok, of w t] by auto
    have "ok (remove_rt edf_ready_order v t s) (\<lambda>s'. \<exists>pl'. npsf_inv pl' s' \<and>
        (\<forall>x. busy pl' s' x \<longleftrightarrow> busy pl s x \<and> x \<noteq> t) \<and> (\<forall>x. waits pl' x = waits pl x) \<and> same_params s s' \<and> cfg s' = cfg s)"
      by (rule ok_mono [OF npsf_dequeue_ok [OF assms(1) ready(2)]])
        (use nh ready(2) in \<open>auto intro!: exI [of _ "pl(t := Nowhere)"] simp: busy_def waits_def split: if_splits\<close>)
    then show ?thesis using ready q by (simp add: remove_from_server_def)
  qed
qed

section \<open>The end of a job\<close>

lemma job_completion_simps [simp]:
  "pid (npsf_job_completion t) = pid t" "in_heap (rt_param (npsf_job_completion t)) = in_heap (rt_param t)"
  "domain (rt_param (npsf_job_completion t)) = domain (rt_param t)"
  "inh_task (rt_param (npsf_job_completion t)) = inh_task (rt_param t)"
  "is_realtime (npsf_job_completion t) = is_realtime t" "heap_node (rt_param (npsf_job_completion t)) = heap_node (rt_param t)"
  "get_deadline (npsf_job_completion t) = get_deadline t + get_rt_period t"
  "get_release (npsf_job_completion t) = get_deadline t" "npsf_home (npsf_job_completion t) = npsf_home t"
  "set_in_heap b (npsf_job_completion t) = npsf_job_completion (set_in_heap b t)"
  by (simp_all add: npsf_job_completion_def prepare_for_next_period_def rt_simps npsf_home_def)

text \<open>The comparison of two other tasks.\<close>

lemma order_other:
  assumes "x \<noteq> t" "y \<noteq> t" "inh_task (rt_param (tasks s x)) = None" "inh_task (rt_param (tasks s y)) = None"
  shows "edf_ready_order (upd_task t f s) x y = edf_ready_order s x y"
  by (rule edf_ready_order_cong) (use assms in simp_all)

text \<open>
  A task whose parameters have changed while it was in the ready queue is removed as it would have been
  before the change.
\<close>

lemma remove_rt_stale:
  assumes "queue_inv npsf_home pl s" "pl t = Ready d" "\<And>b. set_in_heap b (f (tasks s t)) = f (set_in_heap b (tasks s t))"
  shows "remove_rt edf_ready_order d t (upd_task t f s) = map_option (upd_task t f) (remove_rt edf_ready_order d t s)"
proof -
  let ?q = "ready_queue (doms s d)"
  note p = queue_inv_heap(3) [OF assms(1)]
  have only: "x \<noteq> t \<and> inh_task (rt_param (tasks s x)) = None" if "x \<in># bheap_elems ?q - {#t#}" for x
  proof -
    have "count (bheap_elems ?q) t = 1" using placed_simps(1) [OF p, of d t] assms(2) by simp
    then have "x \<noteq> t" using that by (metis count_diff count_single diff_self_eq_0 not_in_iff)
    moreover have "pl x = Ready d" using placed_simps(3) [OF p, of x d] in_diffD [OF that] by simp
    ultimately show ?thesis using placed_simps(6) [OF p, of x] by (simp add: edf_ok_def)
  qed
  have "bheap_delete (edf_ready_order (upd_task t f s)) ?q t = bheap_delete (edf_ready_order s) ?q t"
    by (rule bq.del_cong) (use only order_other in blast)
  moreover have "upd_task t (set_in_heap False) (upd_dom d g (upd_task t f s)) = upd_task t f (upd_task t (set_in_heap False) (upd_dom d g s))" for g
    using assms(3) by (simp add: upd_task_def upd_dom_def)
  ultimately show ?thesis by (cases "bheap_delete (edf_ready_order s) ?q t") (simp_all add: remove_rt_def)
qed

text \<open>The next job of a task has no higher priority than its last one.\<close>

lemma next_job_not_before:
  assumes "edf_ok (tasks s t)" "edf_ok (npsf_job_completion (tasks s t))" "edf_ok (tasks s h)" "h \<noteq> t"
    "get_rt_period (tasks s t) < 2 ^ 63" "\<not> edf_ready_order s t h"
  shows "\<not> edf_ready_order (upd_task t npsf_job_completion s) t h"
proof -
  let ?d = "get_deadline (tasks s t)" and ?h = "get_deadline (tasks s h)"
  have dl: "?d < 2 ^ 63" "?d + get_rt_period (tasks s t) < 2 ^ 63" "?h < 2 ^ 63"
    using assms(1-3) by (simp_all add: edf_ok_def)
  have le: "?d \<le> ?d + get_rt_period (tasks s t)"
    using dl(1) assms(5) by (simp add: word_le_nat_alt word_less_nat_alt unat_word_ariths)
  have *: "earlier_deadline a b \<longleftrightarrow> get_deadline a < get_deadline b"
    if "get_deadline a < 2 ^ 63" "get_deadline b < 2 ^ 63" for a b
    using lt_before_base [of "get_deadline a" 0 "get_deadline b"] that
    by (simp add: earlier_deadline_def below_2p63 word_less_nat_alt)
  have no_inh: "inh_task (rt_param (tasks s t)) = None" "inh_task (rt_param (tasks s h)) = None"
    "is_realtime (tasks s h)" using assms(1,3) by (simp_all add: edf_ok_def)
  have jc: "get_deadline (npsf_job_completion (tasks s t)) < 2 ^ 63" using dl(2) by simp
  show ?thesis
    using assms(4,6) no_inh le * [OF dl(1,3)] * [OF jc dl(3)]
    unfolding edf_ready_order_def edf_higher_prio_Some by (auto simp: eff_no_inh)
qed

text \<open>After the job of \<open>t\<close> has ended and \<open>t\<close> has been put in a queue of its server again.\<close>

lemma completed_but:
  assumes "npsf_inv pl s" "domain (rt_param (tasks s t)) = Some v"
    "queue_inv npsf_home (pl(t := p)) s'" "same_params (upd_task t npsf_job_completion s) s'" "servers s' = servers s"
    "p = Ready v \<or> (\<exists>r. p = Waiting r)"
  shows "srv_ok_but v (pl(t := p)) s'" "\<forall>w. w \<noteq> v \<longrightarrow> best_at (pl(t := p)) s' w"
    "\<And>x y. x \<noteq> t \<Longrightarrow> y \<noteq> t \<Longrightarrow> edf_ok (tasks s x) \<Longrightarrow> edf_ok (tasks s y) \<Longrightarrow> edf_ready_order s' x y = edf_ready_order s x y"
proof -
  note ok = npsf_invD(1) [OF assms(1)]
  have dom: "domain (rt_param (tasks s' x)) = domain (rt_param (tasks s x))" for x
    using same_paramsD(8) [OF assms(4), of x] by (cases "x = t") simp_all
  have eok: "edf_ok (tasks s' x) = edf_ok (tasks s x)" if "x \<noteq> t" for x
    using same_paramsD(2) [OF assms(4), of x] that by simp
  have other: "t' \<noteq> t" if "w \<noteq> v" "highest s w = Some t'" for w t' using that srv_okD(5) [OF ok that(2)] assms(2) by auto
  show ord: "edf_ready_order s' x y = edf_ready_order s x y"
    if "x \<noteq> t" "y \<noteq> t" "edf_ok (tasks s x)" "edf_ok (tasks s y)" for x y
    using order_other [of x t y s npsf_job_completion] that same_params_order [OF assms(4)] by (simp add: edf_ok_def)
  show "srv_ok_but v (pl(t := p)) s'"
    unfolding srv_ok_but_def
  proof (intro conjI allI impI)
    show "queue_inv npsf_home (pl(t := p)) s'" by (rule assms(3))
    show "domain (rt_param (tasks s' x)) \<noteq> None" if "(pl(t := p)) x \<noteq> Nowhere" for x
      using that srv_okD(9) [OF ok, of x] assms(2) dom by (auto split: if_splits)
    fix w x assume wx: "w \<noteq> v" "highest s' w = Some x"
    then have x: "highest s w = Some x" using assms(5) by simp
    show "(pl(t := p)) x = Nowhere" "edf_ok (tasks s' x)" "domain (rt_param (tasks s' x)) = Some w"
      using srv_okD(3-5) [OF ok x] other [OF wx(1) x] eok dom by auto
  qed
  show "\<forall>w. w \<noteq> v \<longrightarrow> best_at (pl(t := p)) s' w"
  proof (intro allI impI)
    fix w assume w: "w \<noteq> v"
    have "\<exists>h. highest s' w = Some h \<and> \<not> edf_ready_order s' x h" if x: "(pl(t := p)) x = Ready w" for x
    proof -
      have xt: "x \<noteq> t" "pl x = Ready w" using x assms(6) w by (auto split: if_splits)
      then obtain h where h: "highest s w = Some h" "\<not> edf_ready_order s x h"
        using npsf_invD(2) [OF assms(1), of w] unfolding best_at_def by blast
      have "edf_ready_order s' x h = edf_ready_order s x h"
        by (rule ord) (use xt other [OF w h(1)] srv_okD(4) [OF ok h(1)] srv_okD(7) [OF ok, of x] in auto)
      then show ?thesis using h assms(5) by simp
    qed
    then show "best_at (pl(t := p)) s' w" by (simp add: best_at_def)
  qed
qed

definition complete_post where
  "complete_post t pl now s s' \<longleftrightarrow> (\<exists>pl'. npsf_inv pl' s' \<and> (\<forall>x. busy pl' s' x = busy pl s x) \<and>
     (\<forall>x. waits pl' x \<longleftrightarrow> (if x = t then \<not> is_released (npsf_job_completion (tasks s t)) now else waits pl x))) \<and>
     same_params (upd_task t npsf_job_completion s) s' \<and> cfg s' = cfg s"

text \<open>The choice of a server ends its job: the best ready job becomes the choice.\<close>

lemma complete_choice:
  assumes "npsf_inv pl s" "highest s v = Some t" "edf_ok (npsf_job_completion (tasks s t))"
  shows "ok (npsf_requeue t v now (upd_task t npsf_job_completion s)) (\<lambda>s1. highest s1 v = Some t \<and>
    complete_post t pl now s (let (nxt, s2) = take_ready edf_ready_order v s1 in set_highest v nxt s2))"
proof -
  note ok = npsf_invD(1) [OF assms(1)]
  have t: "pl t = Nowhere" "domain (rt_param (tasks s t)) = Some v" using srv_okD(3,5) [OF ok assms(2)] by blast+
  let ?s = "upd_task t npsf_job_completion s"
  have q: "queue_inv npsf_home pl ?s" by (rule queue_inv_free [OF srv_okD(1) [OF ok] t(1)]) simp_all
  have rq: "edf_ok (tasks ?s t)" "domain (rt_param (tasks ?s t)) = Some v" using assms(3) t(2) by simp_all
  show ?thesis
  proof (rule ok_mono [OF npsf_requeue_ok [OF q t(1) rq]], elim exE conjE)
    fix s1 p
    assume s1: "queue_inv npsf_home (pl(t := p)) s1" "same_params ?s s1" "servers s1 = servers ?s" "cfg s1 = cfg ?s"
      and "if is_released (tasks ?s t) now then p = Ready v else \<exists>r. p = Waiting r"
    then have p: "if is_released (npsf_job_completion (tasks s t)) now then p = Ready v else \<exists>r. p = Waiting r" by simp
    obtain nxt s2 where take: "take_ready edf_ready_order v s1 = (nxt, s2)" by fastforce
    have srv1: "servers s1 = servers s" using s1(3) by simp
    have p': "p = Ready v \<or> (\<exists>r. p = Waiting r)" using p by (auto split: if_splits)
    note but = completed_but [OF assms(1) t(2) s1(1,2) srv1 p']
    note th = take_highest [OF but(1,2) take]
    have "\<forall>n. nxt = Some n \<longrightarrow> (pl(t := p)) n = Ready v" using th(6) by blast
    note bt = busy_take [OF this]
    define s3 where "s3 = set_highest v nxt s2"
    have inv3: "npsf_inv (removed nxt (pl(t := p))) s3" using th(1,2) by (simp add: npsf_inv_def s3_def)
    have hi: "highest s3 w = (if w = v then nxt else highest s w)" for w
      using srv1 npsf_more(1) [OF take_ready_spec(8) [OF s1(1) take npsf_home_stable(1)]] by (simp add: s3_def)
    have "busy (removed nxt (pl(t := p))) s3 x = busy pl s x" for x
    proof -
      have "(\<exists>w. highest s3 w = Some x) \<longleftrightarrow> nxt = Some x \<or> (\<exists>w. w \<noteq> v \<and> highest s w = Some x)" unfolding hi by auto
      moreover have "(\<exists>w. highest s w = Some x) \<longleftrightarrow> x = t \<or> (\<exists>w. w \<noteq> v \<and> highest s w = Some x)"
        using assms(2) by (metis option.inject)
      moreover have "(pl(t := p)) x \<noteq> Nowhere \<longleftrightarrow> x = t \<or> pl x \<noteq> Nowhere" using p' by auto
      ultimately show ?thesis unfolding busy_def using bt(2) [of x] by blast
    qed
    moreover have "waits (removed nxt (pl(t := p))) x \<longleftrightarrow>
        (if x = t then \<not> is_released (npsf_job_completion (tasks s t)) now else waits pl x)" for x
      unfolding bt(1) using p t(1) by (auto simp: waits_def split: if_splits)
    moreover have "same_params ?s s3" "cfg s3 = cfg s"
      using same_params_trans [OF s1(2) th(3)] th(4) s1(4) by (simp_all add: s3_def)
    ultimately have "complete_post t pl now s s3" using inv3 unfolding complete_post_def by blast
    then show "highest s1 v = Some t \<and>
        complete_post t pl now s (let (nxt, s2) = take_ready edf_ready_order v s1 in set_highest v nxt s2)"
      using take srv1 assms(2) by (simp add: s3_def)
  qed
qed

text \<open>A task that is no longer the choice of its server ends its job while it is in the ready queue.\<close>

lemma requeued_not_best:
  assumes "npsf_inv pl s" "pl t = Ready v" "edf_ok (npsf_job_completion (tasks s t))" "get_rt_period (tasks s t) < 2 ^ 63"
    "queue_inv npsf_home (pl(t := p)) s'" "same_params (upd_task t npsf_job_completion s) s'" "servers s' = servers s"
    "p = Ready v \<or> (\<exists>r. p = Waiting r)"
  shows "npsf_inv (pl(t := p)) s'"
proof -
  note ok = npsf_invD(1) [OF assms(1)]
  have t: "domain (rt_param (tasks s t)) = Some v" "edf_ok (tasks s t)" using srv_okD(7,8) [OF ok, of t] assms(2) by auto
  note but = completed_but [OF assms(1) t(1) assms(5-8)]
  obtain h where h: "highest s v = Some h" "\<not> edf_ready_order s t h"
    using npsf_invD(2) [OF assms(1), of v] assms(2) unfolding best_at_def by blast
  have ht: "h \<noteq> t" "pl h = Nowhere" "edf_ok (tasks s h)" "domain (rt_param (tasks s h)) = Some v"
    using srv_okD(3-5) [OF ok h(1)] assms(2) by auto
  have hs: "highest s' v = Some h" using h(1) assms(7) by simp
  have "edf_ok (tasks s' h)" "domain (rt_param (tasks s' h)) = Some v"
    using same_paramsD(2,8) [OF assms(6), of h] ht by simp_all
  then have "srv_ok (pl(t := p)) s'"
    using but(1) hs ht(1,2) unfolding srv_ok_def srv_ok_but_def by (metis fun_upd_other option.inject)
  moreover have "\<not> edf_ready_order s' x h" if "(pl(t := p)) x = Ready v" for x
  proof (cases "x = t")
    case True
    then show ?thesis
      using next_job_not_before [OF t(2) assms(3) ht(3,1) assms(4) h(2)] same_params_order [OF assms(6)] by simp
  next
    case False
    then have "pl x = Ready v" using that by simp
    moreover from this obtain g where "highest s v = Some g" "\<not> edf_ready_order s x g"
      using npsf_invD(2) [OF assms(1), of v] unfolding best_at_def by blast
    ultimately show ?thesis using but(3) [OF False ht(1)] srv_okD(7) [OF ok, of x] ht(3) h(1) by simp
  qed
  then have "best_at (pl(t := p)) s' v" using hs unfolding best_at_def by blast
  ultimately show ?thesis using but(2) unfolding npsf_inv_def by metis
qed

lemma complete_queued:
  assumes "npsf_inv pl s" "pl t = Ready v" "edf_ok (npsf_job_completion (tasks s t))" "get_rt_period (tasks s t) < 2 ^ 63"
  shows "ok (Option.bind (remove_rt edf_ready_order v t (upd_task t npsf_job_completion s)) (npsf_requeue t v now))
    (\<lambda>s'. highest s' v \<noteq> Some t \<and> complete_post t pl now s s')"
proof -
  note ok = npsf_invD(1) [OF assms(1)]
  let ?s = "upd_task t npsf_job_completion s"
  have t: "domain (rt_param (tasks s t)) = Some v" using srv_okD(8) [OF ok, of t] assms(2) by simp
  obtain s0 where s0: "remove_rt edf_ready_order v t s = Some s0" "queue_inv npsf_home (pl(t := Nowhere)) s0"
    "tasks s0 = (tasks s)(t := set_in_heap False (tasks s t))" "kstate.more s0 = kstate.more s" "this_cpu s0 = this_cpu s" "curr s0 = curr s"
    using remove_rt_spec [OF srv_okD(1) [OF ok] assms(2) npsf_home_stable(1)] unfolding ok_iff_ex by blast
  define s1 where "s1 = upd_task t npsf_job_completion s0"
  have s1: "remove_rt edf_ready_order v t ?s = Some s1"
    using remove_rt_stale [OF srv_okD(1) [OF ok] assms(2), of npsf_job_completion] s0(1) by (simp add: s1_def)
  have q1: "queue_inv npsf_home (pl(t := Nowhere)) s1"
    unfolding s1_def by (rule queue_inv_free [OF s0(2)]) simp_all
  have p1: "same_params ?s s1" "servers s1 = servers s" "cfg s1 = cfg s"
    using s0(3) npsf_more(1) [OF s0(4)] cfg_more [OF s0(4-6)]
    by (auto simp: s1_def same_params_def simp flip: job_completion_simps(10))
  have jc: "tasks s1 t = npsf_job_completion (set_in_heap False (tasks s t))" using s0(3) by (simp add: s1_def)
  then have rq: "edf_ok (tasks s1 t)" "domain (rt_param (tasks s1 t)) = Some v"
    "is_released (tasks s1 t) now = is_released (npsf_job_completion (tasks s t)) now"
    using same_paramsD(2,8,9) [OF p1(1), of t] assms(3) t by simp_all
  have nowhere: "(pl(t := Nowhere)) t = Nowhere" by simp
  have "ok (npsf_requeue t v now s1) (\<lambda>s'. highest s' v \<noteq> Some t \<and> complete_post t pl now s s')"
  proof (rule ok_mono [OF npsf_requeue_ok [OF q1 nowhere rq(1,2), of now]], elim exE conjE)
    fix s2 p
    assume s2: "queue_inv npsf_home ((pl(t := Nowhere))(t := p)) s2" "same_params s1 s2" "servers s2 = servers s1" "cfg s2 = cfg s1"
      and "if is_released (tasks s1 t) now then p = Ready v else \<exists>r. p = Waiting r"
    then have p: "if is_released (npsf_job_completion (tasks s t)) now then p = Ready v else \<exists>r. p = Waiting r"
      using rq(3) by simp
    then have p': "p = Ready v \<or> (\<exists>r. p = Waiting r)" by (auto split: if_splits)
    have same: "same_params ?s s2" "servers s2 = servers s" "cfg s2 = cfg s"
      using same_params_trans [OF p1(1) s2(2)] s2(3,4) p1(2,3) by simp_all
    have "npsf_inv (pl(t := p)) s2"
      by (rule requeued_not_best [OF assms _ same(1,2) p']) (use s2(1) in simp)
    moreover have "busy (pl(t := p)) s2 x = busy pl s x" for x using assms(2) p' same(2) by (auto simp: busy_def)
    moreover have "waits (pl(t := p)) x \<longleftrightarrow> (if x = t then \<not> is_released (npsf_job_completion (tasks s t)) now else waits pl x)" for x
      using p by (auto simp: waits_def split: if_splits)
    moreover have "highest s2 v \<noteq> Some t" using srv_okD(3) [OF ok, of v t] assms(2) same(2) by auto
    ultimately show "highest s2 v \<noteq> Some t \<and> complete_post t pl now s s2"
      using same unfolding complete_post_def by blast
  qed
  then show ?thesis by (simp add: s1 ok_bind)
qed

text \<open>What a server does when the CPU that it runs on reschedules.\<close>

definition completes :: "task_struct \<Rightarrow> bool" where
  "completes p \<longleftrightarrow> is_realtime p \<and> is_running p \<and>
     (budget_enforced p \<and> budget_exhausted p \<or> get_rt_flags p = RT_F_SLEEP)"

lemma npsf_schedule_server_ok:
  assumes "npsf_inv pl s" "domain (rt_param (tasks s t)) = Some v" "is_realtime (tasks s t)"
    "is_running (tasks s t) \<Longrightarrow> busy pl s t \<and> \<not> waits pl t" "\<not> is_running (tasks s t) \<Longrightarrow> highest s v \<noteq> Some t"
    "edf_ok (npsf_job_completion (tasks s t))" "get_rt_period (tasks s t) < 2 ^ 63"
  shows "ok (npsf_schedule_server t v now s)
    (\<lambda>s'. if completes (tasks s t) then complete_post t pl now s s' else s' = s)"
proof -
  note ok = npsf_invD(1) [OF assms(1)]
  show ?thesis
  proof (cases "completes (tasks s t)")
    case False
    then have "npsf_schedule_server t v now s = Some s"
      using assms(3,5) by (cases "is_running (tasks s t)") (auto simp: npsf_schedule_server_def completes_def Let_def)
    then show ?thesis using False by simp
  next
    case True
    have run: "is_running (tasks s t)" using True by (simp add: completes_def)
    have eq: "npsf_schedule_server t v now s = do {
        s1 \<leftarrow> (if highest s v \<noteq> Some t
              then do { q \<leftarrow> is_queued t s; BUG_ON (\<not> q); remove_rt edf_ready_order v t (upd_task t npsf_job_completion s) }
              else Some (upd_task t npsf_job_completion s));
        s2 \<leftarrow> npsf_requeue t v now s1;
        Some (if highest s2 v = Some t then let (nxt, s3) = take_ready edf_ready_order v s2 in set_highest v nxt s3 else s2) }"
      using True by (auto simp: npsf_schedule_server_def completes_def Let_def is_queued_def)
    show ?thesis
    proof (cases "highest s v = Some t")
      case h: True
      show ?thesis unfolding eq using h True by (simp add: ok_bind) (rule ok_mono [OF complete_choice [OF assms(1) h assms(6)]], simp)
    next
      case h: False
      have "pl t \<noteq> Nowhere" using assms(4) [OF run] h srv_okD(5) [OF ok, of _ t] assms(2) by (auto simp: busy_def)
      then have r: "pl t = Ready v" using assms(4) [OF run] assms(2) srv_okD(8) [OF ok] by (cases "pl t") (auto simp: waits_def)
      have q: "is_queued t s = Some True" using srv_okD(6,7) [OF ok, of t] r by (simp add: is_queued_def edf_ok_def)
      show ?thesis
        unfolding eq using h True q complete_queued [OF assms(1) r assms(6,7), of now]
        by (simp add: ok_bind) (erule ok_mono, erule ok_mono, simp)
    qed
  qed
qed

end
