(* ===== verification/Npsf_Sample.thy ===== *)
theory Npsf_Sample
  imports Npsf Sample_State
begin

text \<open>
  A concrete set-up of NPS-F for the examples: two CPUs with slots of 1000 time units. Server 0 runs on
  CPU 0, server 2 on CPU 1, and server 1 first on CPU 0 and then on CPU 1. Tasks 1, 2 and 3 belong to
  the servers 0, 1 and 2; the other tasks are not real-time tasks.
\<close>

definition sample_reserve :: "nat \<Rightarrow> npsf_reserve" where
  "sample_reserve r =
     (if r = 0 then \<lparr>rsv_server = Some 0, rsv_budget = 600, rsv_cpu = 0, rsv_id = 0, next_npsf = Some 0, is_currently_scheduled = True\<rparr>
      else if r = 1 then \<lparr>rsv_server = Some 1, rsv_budget = 400, rsv_cpu = 0, rsv_id = 1, next_npsf = Some 2, is_currently_scheduled = False\<rparr>
      else if r = 2 then \<lparr>rsv_server = Some 1, rsv_budget = 300, rsv_cpu = 1, rsv_id = 1, next_npsf = Some 1, is_currently_scheduled = True\<rparr>
      else \<lparr>rsv_server = Some 2, rsv_budget = 700, rsv_cpu = 1, rsv_id = 2, next_npsf = Some 3, is_currently_scheduled = False\<rparr>)"

definition sample_server :: "nat \<Rightarrow> npsf_server" where
  "sample_server v =
     (if v = 0 then \<lparr>highest_prio = None, curr_reserve = 0, first_reserve = 0, first_cpu_wants_ipi = False\<rparr>
      else if v = 1 then \<lparr>highest_prio = None, curr_reserve = 2, first_reserve = 1, first_cpu_wants_ipi = False\<rparr>
      else \<lparr>highest_prio = None, curr_reserve = 3, first_reserve = 3, first_cpu_wants_ipi = False\<rparr>)"

definition sample_entry :: "cpu_id \<Rightarrow> cpu_entry" where
  "sample_entry c =
     (if c = 0 then \<lparr>cpu_reserve = Some 0, npsf_reserves = [0, 1], npsf_timer = None, should_expire = 0, last_seen_npsf_id = 1\<rparr>
      else \<lparr>cpu_reserve = Some 2, npsf_reserves = [2, 3], npsf_timer = None, should_expire = 0, last_seen_npsf_id = 2\<rparr>)"

definition npsf_sample_task :: "tid \<Rightarrow> task_struct" where
  "npsf_sample_task t =
     (upd_params (\<lambda>p. p\<lparr>npsf_id := int t - 1\<rparr>) (sample_task (sample_rt_task (if t = 3 then 1 else 0) 10 (100 * of_nat t)) t))
     \<lparr>policy := 0\<rparr>"

definition npsf_sample :: npsf_state where
  "npsf_sample =
     \<lparr>tasks = npsf_sample_task,
      rel_heaps = (\<lambda>_. \<lparr>rh_time = 0, rh_heap = bheap_init, rh_timer = None, rh_dom = 0\<rparr>),
      doms = (\<lambda>_. \<lparr>ready_queue = bheap_init, slot = (\<lambda>_. []), release_master = None, tobe_released = []\<rparr>),
      curr = (\<lambda>c. c + 10), this_cpu = 0, ipis = [], tick_period = 1000000,
      budget_timer = (\<lambda>_. \<lparr>et_timer = None, et_running = False, et_armed = False\<rparr>),
      servers = sample_server, reserves = sample_reserve, entries = sample_entry, all_servers_added = True,
      timers_activated = True, time_origin = 5000, npsf_slot_length = 1000\<rparr>"

lemmas npsf_sample_simps = npsf_sample_def sample_reserve_def sample_server_def sample_entry_def

end
