(* ===== verification/Npsf_Slots.thy ===== *)
theory Npsf_Slots
  imports Npsf_Sample
begin

text \<open>
  The division of time among the reserves of a CPU: a slot of \<^verbatim>\<open>npsf_slot_length\<close> starts at
  \<^verbatim>\<open>time_origin\<close> and every slot length after it, and within a slot the reserves follow one another in
  the order of the list of the CPU, each for its budget.
\<close>

section \<open>Windows\<close>

text \<open>Where the reserve at position \<open>i\<close> begins within a slot.\<close>

definition window_start :: "(nat \<Rightarrow> npsf_reserve) \<Rightarrow> nat list \<Rightarrow> nat \<Rightarrow> nat" where
  "window_start rsvs rs i = sum_list (map (\<lambda>r. unat (rsv_budget (rsvs r))) (take i rs))"

lemma window_start_simps [simp]:
  "window_start rsvs rs 0 = 0"
  "window_start rsvs (r # rs) (Suc i) = unat (rsv_budget (rsvs r)) + window_start rsvs rs i"
  "window_start rsvs [] i = 0"
  by (simp_all add: window_start_def)

lemma window_start_mono: "i \<le> j \<Longrightarrow> window_start rsvs rs i \<le> window_start rsvs rs j"
proof (induction rs arbitrary: i j)
  case (Cons r rs)
  then show ?case by (cases i; cases j) simp_all
qed simp

lemma window_start_Suc:
  "i < length rs \<Longrightarrow> window_start rsvs rs (Suc i) = window_start rsvs rs i + unat (rsv_budget (rsvs (rs ! i)))"
  by (simp add: window_start_def take_Suc_conv_app_nth)

lemma find_reserve_spec:
  assumes "unat e + window_start rsvs rs (length rs) < 2 ^ 64" "unat e \<le> unat offset"
  shows "find_reserve rsvs offset e rs = Some (r, e') \<longleftrightarrow>
      (\<exists>i < length rs. r = rs ! i \<and> unat e + window_start rsvs rs i \<le> unat offset \<and>
         unat offset < unat e + window_start rsvs rs (Suc i) \<and> unat e' = unat e + window_start rsvs rs (Suc i))" (is "?A = ?B e rs")
    and "find_reserve rsvs offset e rs = None \<longleftrightarrow> unat e + window_start rsvs rs (length rs) \<le> unat offset"
proof -
  have "(find_reserve rsvs offset e rs = Some (r, e') \<longleftrightarrow> ?B e rs) \<and>
    (find_reserve rsvs offset e rs = None \<longleftrightarrow> unat e + window_start rsvs rs (length rs) \<le> unat offset)"
    using assms
  proof (induction rs arbitrary: e)
    case (Cons x rs)
    define b where "b = rsv_budget (rsvs x)"
    have add: "unat (e + b) = unat e + unat b"
      using Cons.prems(1) by (intro unat_plus_no_overflow) (simp add: b_def)
    have ex: "?B e (x # rs) \<longleftrightarrow> (r = x \<and> unat e \<le> unat offset \<and> unat offset < unat e + unat b \<and> unat e' = unat e + unat b) \<or>
        (\<exists>i < length rs. r = rs ! i \<and> unat e + unat b + window_start rsvs rs i \<le> unat offset \<and>
          unat offset < unat e + unat b + window_start rsvs rs (Suc i) \<and> unat e' = unat e + unat b + window_start rsvs rs (Suc i))"
      by (simp add: b_def Ex_less_Suc2 add.assoc)
    show ?case
    proof (cases "unat offset < unat e + unat b")
      case True
      have "\<not> (unat e + unat b + window_start rsvs rs i \<le> unat offset)" for i using True by simp
      moreover have "e' = e + b \<longleftrightarrow> unat e' = unat e + unat b" by (metis add unsigned_word_eqI)
      ultimately show ?thesis unfolding ex using True Cons.prems(2) add
        by (auto simp: b_def word_less_nat_alt)
    next
      case False
      have "find_reserve rsvs offset e (x # rs) = find_reserve rsvs offset (e + b) rs"
        using False add by (simp add: b_def word_less_nat_alt)
      moreover have "unat (e + b) + window_start rsvs rs (length rs) < 2 ^ 64" "unat (e + b) \<le> unat offset"
        using False add Cons.prems(1) by (simp_all add: b_def)
      ultimately show ?thesis unfolding ex using Cons.IH [of "e + b"] False add by (simp add: b_def add.assoc)
    qed
  qed simp
  then show "?A = ?B e rs" "find_reserve rsvs offset e rs = None \<longleftrightarrow> unat e + window_start rsvs rs (length rs) \<le> unat offset"
    by blast+
qed

section \<open>Slots\<close>

text \<open>The time since the begin of the slot.\<close>

definition slot_offset :: "'z npsf_state_scheme \<Rightarrow> lt_t \<Rightarrow> nat" where
  "slot_offset s now = (unat now - unat (time_origin s)) mod unat (npsf_slot_length s)"

lemma slot_begin_spec:
  assumes "npsf_slot_length s \<noteq> 0" "time_origin s \<le> now"
  shows "\<exists>b. slot_begin now s = Some b \<and> unat b = unat now - slot_offset s now \<and> b \<le> now \<and>
    delta_from_slot_begin now s = Some (now - b) \<and> unat (now - b) = slot_offset s now"
proof -
  define L where "L = unat (npsf_slot_length s)"
  define D where "D = unat now - unat (time_origin s)"
  define b where "b = (now - time_origin s) div npsf_slot_length s * npsf_slot_length s + time_origin s"
  have le: "unat (time_origin s) \<le> unat now" using assms(2) by (simp add: word_le_nat_alt)
  have d: "unat (now - time_origin s) = D" using assms(2) by (simp add: D_def unat_minus_le)
  have q: "unat ((now - time_origin s) div npsf_slot_length s) = D div L" by (simp add: unat_div d L_def)
  have bound: "D div L * L \<le> D" "unat now < 2 ^ 64" by (simp_all add: word_64_bound [simplified])
  have "D \<le> unat now" by (simp add: D_def)
  then have "D div L * L < 2 ^ 64" using bound by linarith
  then have "unat ((now - time_origin s) div npsf_slot_length s * npsf_slot_length s) = D div L * L"
    unfolding unat_word_ariths(2) q L_def [symmetric] by (intro mod_less) simp
  moreover have sum: "D + unat (time_origin s) = unat now" using le by (simp add: D_def)
  moreover have "D div L * L + unat (time_origin s) \<le> unat now" using bound(1) sum by linarith
  ultimately have ub: "unat b = D div L * L + unat (time_origin s)"
    unfolding b_def using bound(2) by (intro trans [OF unat_plus_no_overflow]) simp_all
  have off: "slot_offset s now = D mod L" by (simp add: slot_offset_def D_def L_def)
  have "D div L * L = D - D mod L" by (simp add: minus_mod_eq_div_mult)
  then have b: "unat b = unat now - slot_offset s now" unfolding ub off using sum mod_less_eq_dividend [of D L] by linarith
  have "b \<le> now" using b by (simp add: word_le_nat_alt)
  moreover have "unat (now - b) = slot_offset s now"
    using b unat_minus_le [OF \<open>b \<le> now\<close>] off sum mod_less_eq_dividend [of D L] by linarith
  ultimately show ?thesis
    using assms(1) b by (intro exI [of _ b]) (simp add: slot_begin_def delta_from_slot_begin_def b_def)
qed

text \<open>The reserves of a CPU, with windows that do not overflow.\<close>

definition windows_ok :: "'z npsf_state_scheme \<Rightarrow> cpu_id \<Rightarrow> bool" where
  "windows_ok s c \<longleftrightarrow> (let rs = npsf_reserves (entries s c) in window_start (reserves s) rs (length rs) < 2 ^ 64)"

definition windows_fill :: "'z npsf_state_scheme \<Rightarrow> cpu_id \<Rightarrow> bool" where
  "windows_fill s c \<longleftrightarrow>
     (let rs = npsf_reserves (entries s c) in unat (npsf_slot_length s) \<le> window_start (reserves s) rs (length rs))"

lemma slot_offset_less: "npsf_slot_length s \<noteq> 0 \<Longrightarrow> slot_offset s now < unat (npsf_slot_length s)"
  by (simp add: slot_offset_def word_unat_eq_iff)

lemma get_current_reserve_spec:
  assumes "npsf_slot_length s \<noteq> 0" "time_origin s \<le> now" "windows_ok s c"
  defines "rs \<equiv> npsf_reserves (entries s c)"
  shows "get_current_reserve c now s = Some r \<longleftrightarrow> (\<exists>i < length rs. r = rs ! i \<and>
      window_start (reserves s) rs i \<le> slot_offset s now \<and> slot_offset s now < window_start (reserves s) rs (Suc i))"
    and "get_current_reserve c now s = None \<longleftrightarrow> window_start (reserves s) rs (length rs) \<le> slot_offset s now"
proof -
  obtain b where b: "delta_from_slot_begin now s = Some (now - b)" "unat (now - b) = slot_offset s now"
    using slot_begin_spec [OF assms(1,2)] by blast
  have w: "unat (0 :: lt_t) + window_start (reserves s) rs (length rs) < 2 ^ 64" "unat (0 :: lt_t) \<le> unat (now - b)"
    using assms(3) by (simp_all add: windows_ok_def rs_def Let_def)
  note f = find_reserve_spec [OF w]
  have cur: "get_current_reserve c now s = map_option fst (find_reserve (reserves s) (now - b) 0 rs)"
    by (cases "find_reserve (reserves s) (now - b) 0 rs")
      (simp_all add: get_current_reserve_def b(1) get_reserve_for_offset_def rs_def split_beta)
  show "get_current_reserve c now s = None \<longleftrightarrow> window_start (reserves s) rs (length rs) \<le> slot_offset s now"
    unfolding cur using f(2) b(2) by simp
  show "get_current_reserve c now s = Some r \<longleftrightarrow> (\<exists>i < length rs. r = rs ! i \<and>
      window_start (reserves s) rs i \<le> slot_offset s now \<and> slot_offset s now < window_start (reserves s) rs (Suc i))"
    (is "_ = ?B")
  proof
    assume "get_current_reserve c now s = Some r"
    then obtain e where "find_reserve (reserves s) (now - b) 0 rs = Some (r, e)" unfolding cur by auto
    then show ?B using f(1) [of r e] b(2) by auto
  next
    assume B: ?B
    then obtain i where i: "i < length rs" "slot_offset s now < window_start (reserves s) rs (Suc i)" "r = rs ! i"
      "window_start (reserves s) rs i \<le> slot_offset s now" by blast
    have "window_start (reserves s) rs (Suc i) < 2 ^ 64"
      using window_start_mono [of "Suc i" "length rs" "reserves s" rs] i(1) w(1) by simp
    then have "unat (of_nat (window_start (reserves s) rs (Suc i)) :: lt_t) = window_start (reserves s) rs (Suc i)"
      by (simp add: unat_of_nat take_bit_nat_eq_self)
    then have "find_reserve (reserves s) (now - b) 0 rs = Some (r, of_nat (window_start (reserves s) rs (Suc i)))"
      using f(1) [of r "of_nat (window_start (reserves s) rs (Suc i))"] i b(2) by auto
    then show "get_current_reserve c now s = Some r" unfolding cur by simp
  qed
qed

section \<open>The timer that switches reserves\<close>

lemma next_in_nth:
  "distinct rs \<Longrightarrow> i < length rs \<Longrightarrow> next_in (rs ! i) f rs = Some (if Suc i < length rs then rs ! Suc i else f)"
proof (induction rs arbitrary: i rule: induct_list012)
  case (3 x y zs)
  then show ?case
  proof (cases i)
    case (Suc j)
    then have "next_in ((y # zs) ! j) f (y # zs) = Some (if Suc j < length (y # zs) then (y # zs) ! Suc j else f)"
      using 3(2) [of j] 3(3,4) by simp
    moreover have "x \<noteq> (y # zs) ! j" using 3(3,4) Suc nth_mem [of j "y # zs"] by auto
    ultimately show ?thesis using Suc by simp
  qed simp
qed simp_all

lemma local_next_nth:
  assumes "npsf_reserves e = rs" "distinct rs" "i < length rs"
  shows "local_next_reserve (rs ! i) e = Some (rs ! (Suc i mod length rs))"
proof -
  obtain f fs where rs: "rs = f # fs" using assms(3) by (cases rs) auto
  have "next_in (rs ! i) f rs = Some (if Suc i < length rs then rs ! Suc i else f)" by (rule next_in_nth [OF assms(2,3)])
  moreover have "(if Suc i < length rs then rs ! Suc i else f) = rs ! (Suc i mod length rs)"
  proof (cases "Suc i < length rs")
    case False
    then have "Suc i = length rs" using assms(3) by simp
    then show ?thesis using rs by simp
  qed simp
  ultimately show ?thesis using assms(1) rs by (simp add: local_next_reserve_def)
qed

lemma catchup_time_ends:
  "\<not> lt_before (clock (i + n)) target \<Longrightarrow> \<exists>t. catchup_time clock i from' target = Some t \<and> \<not> lt_before t target"
proof (induction n arbitrary: i from')
  case 0
  then have "catchup_time clock (i + 1) (clock i) target = Some (clock i)" by (subst catchup_time.simps) simp
  then show ?case using 0 by (subst catchup_time.simps) (cases "lt_before from' target", simp_all)
next
  case (Suc n)
  then show ?case by (subst catchup_time.simps) (cases "lt_before from' target", simp_all)
qed

text \<open>What is behind the next reserve switch of a CPU, and when it happens.\<close>

lemma next_switch_spec:
  assumes "npsf_slot_length s \<noteq> 0" "time_origin s \<le> now" "windows_ok s c" "windows_fill s c"
  defines "rs \<equiv> npsf_reserves (entries s c)"
  assumes "distinct rs" "\<forall>r \<in> set rs. rsv_server (reserves s r) \<noteq> None"
    "unat now + 2 * window_start (reserves s) rs (length rs) < 2 ^ 64"
  shows "\<exists>e i v. get_next_reserve_switch_time c now s = Some e \<and> i < length rs \<and>
    get_current_reserve c now s = Some (rs ! i) \<and> rsv_server (reserves s (rs ! (Suc i mod length rs))) = Some v \<and>
    unat e = unat now - slot_offset s now + window_start (reserves s) rs (Suc i) +
      (if first_reserve (servers s v) \<noteq> rs ! (Suc i mod length rs)
       then unat (rsv_budget (reserves s (rs ! (Suc i mod length rs)))) else 0) \<and> now < e"
proof -
  define W where "W = window_start (reserves s) rs"
  obtain b where b: "slot_begin now s = Some b" "unat b = unat now - slot_offset s now" "b \<le> now" "unat (now - b) = slot_offset s now"
    using slot_begin_spec [OF assms(1,2)] by blast
  have w: "unat (0 :: lt_t) + window_start (reserves s) rs (length rs) < 2 ^ 64" "unat (0 :: lt_t) \<le> unat (now - b)"
    using assms(8) by (simp_all add: W_def)
  note f = find_reserve_spec [OF w]
  have "slot_offset s now < W (length rs)"
    using slot_offset_less [OF assms(1), of now] assms(4) by (simp add: windows_fill_def Let_def rs_def W_def)
  then obtain r e0 where r0: "find_reserve (reserves s) (now - b) 0 rs = Some (r, e0)"
    using f(2) b(4) by (cases "find_reserve (reserves s) (now - b) 0 rs") (auto simp: W_def)
  then obtain i where i: "i < length rs" "r = rs ! i" "W i \<le> slot_offset s now" "slot_offset s now < W (Suc i)" "unat e0 = W (Suc i)"
    using f(1) [of r e0] b(4) by (auto simp: W_def)
  have cur: "get_current_reserve c now s = Some (rs ! i)"
    using get_current_reserve_spec(1) [OF assms(1-3), of "rs ! i"] i by (auto simp: rs_def W_def)
  define n where "n = rs ! (Suc i mod length rs)"
  have "Suc i mod length rs < length rs" using i(1) by (intro mod_less_divisor) auto
  then have n: "n \<in> set rs" unfolding n_def by (rule nth_mem)
  then obtain v where v: "rsv_server (reserves s n) = Some v" using assms(7) by fastforce
  obtain k where k: "k < length rs" "n = rs ! k" using n by (metis in_set_conv_nth)
  have le: "W (Suc i) \<le> W (length rs)" "unat (rsv_budget (reserves s n)) \<le> W (length rs)"
    using window_start_mono [of "Suc i" "length rs" "reserves s" rs] i(1) window_start_mono [of "Suc k" "length rs" "reserves s" rs]
      window_start_Suc [OF k(1), of "reserves s"] k by (simp_all add: W_def)
  have bnd: "unat now + 2 * W (length rs) < 2 ^ 64" using assms(8) by (simp add: W_def)
  have e1: "unat (e0 + b) = W (Suc i) + unat b"
    using unat_plus_no_overflow [of e0 b] b(2) i(5) le(1) bnd by simp
  define e where "e = (if first_reserve (servers s v) \<noteq> n then e0 + b + rsv_budget (reserves s n) else e0 + b)"
  have eq: "get_next_reserve_switch_time c now s = Some e"
    using b(1) r0 local_next_nth [OF _ assms(6) i(1), of "entries s c"] i(2) v
    by (simp add: get_next_reserve_switch_time_def get_reserve_for_offset_def rs_def e_def n_def)
  have e: "unat e = unat b + W (Suc i) + (if first_reserve (servers s v) \<noteq> n then unat (rsv_budget (reserves s n)) else 0)"
    using unat_plus_no_overflow [of "e0 + b" "rsv_budget (reserves s n)"] e1 b(2) le bnd by (simp add: e_def)
  have "unat now < unat b + W (Suc i)" using i(4) b(2,3) unat_minus_le [OF b(3)] b(4) by (simp add: word_le_nat_alt)
  then have "now < e" using e by (simp add: word_less_nat_alt)
  then show ?thesis using eq i(1) cur v e b(2) by (auto simp: n_def W_def)
qed

text \<open>The callback of the timer ends, once the time of the next switch is known.\<close>

lemma reserve_switch_tick_ends:
  assumes "get_next_reserve_switch_time c now' s = Some e" "all_servers_added s" "npsf_reserves (entries s c) \<noteq> []"
    "0 \<le> sint (now - should_expire (entries s c)) \<or> \<not> lt_before (clock n) (should_expire (entries s c))"
  shows "reserve_switch_tick c now clock now' s = Some (set_tsk_need_resched (curr s (this_cpu s))
    (upd_entry c (\<lambda>E. E\<lparr>should_expire := e, npsf_timer := Some (e, c)\<rparr>) s))"
proof -
  obtain t where t: "(if 0 \<le> sint (now - should_expire (entries s c)) then Some now
      else catchup_time clock 0 now (should_expire (entries s c))) = Some t"
    using assms(4) catchup_time_ends [of clock 0 n] by (cases "0 \<le> sint (now - should_expire (entries s c))") auto
  then show ?thesis
    using assms(1-3) by (simp add: reserve_switch_tick_def no_reserves_def upd_entry_def Let_def)
qed

section \<open>Properties\<close>

text \<open>
  C35: NPS-F divides time among reserves. At any time, the reserve of a CPU is the one in whose window
  the time since the begin of the slot lies, where the windows follow one another in the order of the
  reserves and are as long as their budgets. The search falls off the list, which stops the kernel,
  exactly if the budgets of the CPU end before that time; nothing in the kernel checks that they fill
  the slot.
\<close>

theorem npsf_time_partition:
  assumes "npsf_slot_length s \<noteq> 0" "time_origin s \<le> now" "windows_ok s c"
  shows "(get_current_reserve c now s = Some r \<longleftrightarrow> (\<exists>i < length (npsf_reserves (entries s c)).
      r = npsf_reserves (entries s c) ! i \<and>
      window_start (reserves s) (npsf_reserves (entries s c)) i \<le> slot_offset s now \<and>
      slot_offset s now < window_start (reserves s) (npsf_reserves (entries s c)) (Suc i))) \<and>
    (get_current_reserve c now s = None \<longleftrightarrow>
      window_start (reserves s) (npsf_reserves (entries s c)) (length (npsf_reserves (entries s c))) \<le> slot_offset s now)"
  using get_current_reserve_spec [OF assms] by blast

theorem npsf_time_partition_witness:
  "get_current_reserve 0 7650 npsf_sample = Some 1 \<and> slot_offset npsf_sample 7650 = 650"
proof -
  have "npsf_slot_length npsf_sample \<noteq> 0" "time_origin npsf_sample \<le> 7650" "windows_ok npsf_sample 0"
    by (simp_all add: npsf_sample_simps windows_ok_def window_start_def)
  note part = npsf_time_partition [OF this, of 1]
  have off: "slot_offset npsf_sample 7650 = 650" by (simp add: npsf_sample_simps slot_offset_def)
  have "\<exists>i < length (npsf_reserves (entries npsf_sample 0)). 1 = npsf_reserves (entries npsf_sample 0) ! i \<and>
      window_start (reserves npsf_sample) (npsf_reserves (entries npsf_sample 0)) i \<le> 650 \<and>
      650 < window_start (reserves npsf_sample) (npsf_reserves (entries npsf_sample 0)) (Suc i)"
    by (rule exI [of _ 1]) (simp add: npsf_sample_simps window_start_def)
  then show ?thesis using part off by simp
qed

text \<open>
  C36: the timer that switches reserves. If the clock gets as far as the time the timer was set for, the
  callback ends, even if it fires early; the timer is then set for the end of the current window, or,
  if a migrating server that does not start on this CPU comes next, for the end of the window after
  it, and in any case for a later time than now.
\<close>

theorem npsf_switch_timer:
  assumes "npsf_slot_length s \<noteq> 0" "time_origin s \<le> now'" "windows_ok s c" "windows_fill s c"
    "npsf_reserves (entries s c) = rs" "distinct rs" "\<forall>r \<in> set rs. rsv_server (reserves s r) \<noteq> None"
    "unat now' + 2 * window_start (reserves s) rs (length rs) < 2 ^ 64" "all_servers_added s"
    "0 \<le> sint (now - should_expire (entries s c)) \<or> \<not> lt_before (clock n) (should_expire (entries s c))"
  shows "\<exists>s' e i v. reserve_switch_tick c now clock now' s = Some s' \<and> npsf_timer (entries s' c) = Some (e, c) \<and>
    should_expire (entries s' c) = e \<and> i < length rs \<and> get_current_reserve c now' s = Some (rs ! i) \<and>
    rsv_server (reserves s (rs ! (Suc i mod length rs))) = Some v \<and>
    unat e = unat now' - slot_offset s now' + window_start (reserves s) rs (Suc i) +
      (if first_reserve (servers s v) \<noteq> rs ! (Suc i mod length rs)
       then unat (rsv_budget (reserves s (rs ! (Suc i mod length rs)))) else 0) \<and> now' < e"
proof -
  note nx = next_switch_spec [OF assms(1-4), unfolded assms(5), OF assms(6-8)]
  then obtain e i v where e: "get_next_reserve_switch_time c now' s = Some e" "i < length rs"
    and rest: "get_current_reserve c now' s = Some (rs ! i)" "rsv_server (reserves s (rs ! (Suc i mod length rs))) = Some v"
      "unat e = unat now' - slot_offset s now' + window_start (reserves s) rs (Suc i) +
      (if first_reserve (servers s v) \<noteq> rs ! (Suc i mod length rs)
       then unat (rsv_budget (reserves s (rs ! (Suc i mod length rs)))) else 0)" "now' < e" by blast
  have "npsf_reserves (entries s c) \<noteq> []" using e(2) assms(5) by auto
  from reserve_switch_tick_ends [where clock = clock and n = n and now = now, OF e(1) assms(9) this] assms(10)
  have "\<exists>s'. reserve_switch_tick c now clock now' s = Some s' \<and> npsf_timer (entries s' c) = Some (e, c) \<and>
      should_expire (entries s' c) = e" by (simp add: set_tsk_need_resched_def upd_task_def upd_entry_def)
  then show ?thesis using rest e(2) by blast
qed

theorem npsf_switch_timer_witness:
  "\<exists>s'. reserve_switch_tick 1 7701 (\<lambda>_. 0) 7702 npsf_sample = Some s' \<and> 7702 < should_expire (entries s' 1) \<and>
     unat (should_expire (entries s' 1)) = 8300"
proof -
  have c: "npsf_slot_length npsf_sample \<noteq> 0" "time_origin npsf_sample \<le> 7702" "windows_ok npsf_sample 1" "windows_fill npsf_sample 1"
    "npsf_reserves (entries npsf_sample 1) = [2, 3]" "distinct [2 :: nat, 3]"
    "\<forall>r \<in> set [2, 3]. rsv_server (reserves npsf_sample r) \<noteq> None"
    "unat (7702 :: lt_t) + 2 * window_start (reserves npsf_sample) [2, 3] (length [2 :: nat, 3]) < 2 ^ 64" "all_servers_added npsf_sample"
    "0 \<le> sint (7701 - should_expire (entries npsf_sample 1)) \<or> \<not> lt_before 0 (should_expire (entries npsf_sample 1))"
    by (simp_all add: npsf_sample_simps windows_ok_def windows_fill_def window_start_def)
  from npsf_switch_timer [OF c] obtain s' e i v where
    s': "reserve_switch_tick 1 7701 (\<lambda>_. 0) 7702 npsf_sample = Some s'" "should_expire (entries s' 1) = e" "7702 < e"
    and i: "i < length [2 :: nat, 3]" "get_current_reserve 1 7702 npsf_sample = Some ([2, 3] ! i)"
    and v: "rsv_server (reserves npsf_sample ([2, 3] ! (Suc i mod length [2 :: nat, 3]))) = Some v"
    and e: "unat e = unat (7702 :: lt_t) - slot_offset npsf_sample 7702 + window_start (reserves npsf_sample) [2, 3] (Suc i) +
      (if first_reserve (servers npsf_sample v) \<noteq> [2, 3] ! (Suc i mod length [2 :: nat, 3])
       then unat (rsv_budget (reserves npsf_sample ([2, 3] ! (Suc i mod length [2 :: nat, 3])))) else 0)" by blast
  have "get_current_reserve 1 7702 npsf_sample = Some 3" by code_simp
  then have i1: "i = 1" using i by (cases i) simp_all
  have v1: "v = 1" using v by (simp add: i1 npsf_sample_simps)
  have "unat e = 8300" using e by (simp add: i1 v1 npsf_sample_simps window_start_def slot_offset_def)
  then show ?thesis using s' by auto
qed

end
