(* ===== verification/Npsf_Machine.thy ===== *)
theory Npsf_Machine
  imports Npsf_Server Npsf_Slots
begin

text \<open>
  NPS-F as a system: the handlers of several CPUs, interleaved wherever the code gives up the lock of a
  server. The environment is Linux: which tasks are on its run queues, which task runs on a CPU, a
  clock that does not go back, and the wait of \<^verbatim>\<open>sched_litmus.c\<close> until the stack of the next task is no
  longer in use.
\<close>

section \<open>The system\<close>

record npsf_sys = npsf_state +
  in_sched :: "cpu_id \<Rightarrow> sched_phase option"
  on_rq :: "tid \<Rightarrow> bool"
  clk :: lt_t

datatype npsf_call =
    NSchedule cpu_id lt_t lt_t
  | NPart cpu_id
  | NFinish cpu_id tid
  | NRelease cpu_id tid lt_t
  | NTaskNew cpu_id tid lt_t lt_t lt_t
  | NWakeUp cpu_id tid lt_t lt_t lt_t
  | NBlock cpu_id tid lt_t
  | NExit cpu_id tid lt_t
  | NTick cpu_id
  | NReserveTick cpu_id lt_t "nat \<Rightarrow> lt_t" lt_t
  | NLinux tid "task_struct \<Rightarrow> task_struct"

fun npsf_exec :: "npsf_call \<Rightarrow> npsf_sys \<Rightarrow> npsf_sys option" where
  "npsf_exec (NSchedule c now now') s = do {
     (ph, s) \<leftarrow> npsf_schedule_prev (curr s c) now now' (s\<lparr>this_cpu := c\<rparr>);
     Some (s\<lparr>in_sched := (in_sched s)(c := Some ph), clk := now'\<rparr>)
   }"
| "npsf_exec (NPart c) s = do {
     ph \<leftarrow> in_sched s c;
     (ph, s) \<leftarrow> npsf_schedule_part ph (s\<lparr>this_cpu := c\<rparr>);
     Some (s\<lparr>in_sched := (in_sched s)(c := Some ph)\<rparr>)
   }"
| "npsf_exec (NFinish c idle) s =
     (case in_sched s c of
        Some (Chosen nxt) \<Rightarrow>
          Some ((switch_to c idle (nxt, npsf_schedule_end nxt s))\<lparr>in_sched := (in_sched s)(c := None)\<rparr>)
      | _ \<Rightarrow> None)"
| "npsf_exec (NRelease c r now) s = do {
     s \<leftarrow> on_release_timer (npsf_release_jobs now) r (s\<lparr>this_cpu := c\<rparr>);
     Some (s\<lparr>clk := now\<rparr>)
   }"
| "npsf_exec (NTaskNew c t now now' now'') s = do {
     s \<leftarrow> npsf_task_new t now now' now'' (upd_task t (\<lambda>p. p\<lparr>policy := SCHED_LITMUS\<rparr>) (s\<lparr>this_cpu := c\<rparr>));
     Some (s\<lparr>clk := now''\<rparr>)
   }"
| "npsf_exec (NWakeUp c t now now' now'') s = do {
     s \<leftarrow> npsf_task_wake_up t now now' now'' (s\<lparr>this_cpu := c\<rparr>);
     Some (s\<lparr>on_rq := (on_rq s)(t := True), clk := now''\<rparr>)
   }"
| "npsf_exec (NBlock c t now) s = do {
     s \<leftarrow> npsf_task_block t now (s\<lparr>this_cpu := c\<rparr>);
     Some (s\<lparr>on_rq := (on_rq s)(t := False), clk := now\<rparr>)
   }"
| "npsf_exec (NExit c t now) s = do {
     s \<leftarrow> npsf_task_exit t now (s\<lparr>this_cpu := c\<rparr>);
     Some (upd_task t (\<lambda>p. p\<lparr>policy := 0\<rparr>) (s\<lparr>clk := now\<rparr>))
   }"
| "npsf_exec (NTick c) s = Some (npsf_scheduler_tick (curr s c) (s\<lparr>this_cpu := c\<rparr>))"
| "npsf_exec (NReserveTick c now clock now') s = reserve_switch_tick c now clock now' (s\<lparr>this_cpu := c\<rparr>)"
| "npsf_exec (NLinux t f) s = Some (upd_task t f s)"

text \<open>A task that \<^verbatim>\<open>npsf_schedule\<close> has chosen on a CPU that has not switched to it yet.\<close>

definition in_flight :: "npsf_sys \<Rightarrow> cpu_id \<Rightarrow> tid \<Rightarrow> bool" where
  "in_flight s c n \<longleftrightarrow> in_sched s c = Some (Chosen (Some n)) \<or> (\<exists>p. in_sched s c = Some (Notifying p (Some n)))"

definition chosen_of :: "sched_phase option \<Rightarrow> tid option option" where
  "chosen_of ph = (case ph of Some (Chosen nxt) \<Rightarrow> Some nxt | _ \<Rightarrow> None)"

text \<open>
  When Linux makes a call, on the CPUs \<open>cpus\<close>. A task that runs is on the run queue, a blocked one is not;
  a task is woken up, made a real-time task or stopped from being one while no CPU is switching to it,
  and woken up only when every CPU that runs it is already switching away. Time stamps stay below \<open>2 ^ 63\<close>.
\<close>

fun npsf_enabled :: "cpu_id set \<Rightarrow> npsf_call \<Rightarrow> npsf_sys \<Rightarrow> bool" where
  "npsf_enabled cpus (NSchedule c now now') s \<longleftrightarrow>
     c \<in> cpus \<and> in_sched s c = None \<and> clk s \<le> now \<and> now \<le> now' \<and> now' < 2 ^ 63 \<and> time_origin s \<le> now \<and>
     (is_realtime (tasks s (curr s c)) \<longrightarrow>
        (is_running (tasks s (curr s c)) \<longleftrightarrow> on_rq s (curr s c)) \<and>
        edf_ok (npsf_job_completion (tasks s (curr s c))) \<and> get_rt_period (tasks s (curr s c)) < 2 ^ 63)"
| "npsf_enabled cpus (NPart c) s \<longleftrightarrow> c \<in> cpus \<and> in_sched s c \<noteq> None \<and> chosen_of (in_sched s c) = None"
| "npsf_enabled cpus (NFinish c idle) s \<longleftrightarrow>
     c \<in> cpus \<and> \<not> is_realtime (tasks s idle) \<and>
     (\<exists>nxt. in_sched s c = Some (Chosen nxt) \<and> (\<forall>c' \<in> cpus. c' \<noteq> c \<longrightarrow> curr s c' \<noteq> (case nxt of Some n \<Rightarrow> n | None \<Rightarrow> idle)))"
| "npsf_enabled cpus (NRelease c r now) s \<longleftrightarrow>
     rh_timer (rel_heaps s r) \<noteq> None \<and> clk s \<le> now \<and> rh_time (rel_heaps s r) \<le> now \<and> now < 2 ^ 63"
| "npsf_enabled cpus (NTaskNew c t now now' now'') s \<longleftrightarrow>
     \<not> is_realtime (tasks s t) \<and> on_rq s t \<and> (\<forall>c' \<in> cpus. \<not> in_flight s c' t) \<and> get_partition (tasks s t) \<in> cpus \<and>
     npsf_admit_task t s = 0 \<and> edf_ok (release_at now ((tasks s t)\<lparr>policy := SCHED_LITMUS\<rparr>)) \<and>
     clk s \<le> now \<and> now \<le> now' \<and> now' \<le> now'' \<and> now'' < 2 ^ 63"
| "npsf_enabled cpus (NWakeUp c t now now' now'') s \<longleftrightarrow>
     is_realtime (tasks s t) \<and> \<not> on_rq s t \<and> (\<forall>c' \<in> cpus. \<not> in_flight s c' t \<and> (curr s c' = t \<longrightarrow> in_sched s c' \<noteq> None)) \<and>
     edf_ok (tasks s t) \<and> edf_ok (release_at now (tasks s t)) \<and>
     clk s \<le> now \<and> now \<le> now' \<and> now' \<le> now'' \<and> now'' < 2 ^ 63"
| "npsf_enabled cpus (NBlock c t now) s \<longleftrightarrow>
     c \<in> cpus \<and> curr s c = t \<and> in_sched s c = None \<and> is_realtime (tasks s t) \<and> heap_node (rt_param (tasks s t)) \<and>
     clk s \<le> now \<and> now < 2 ^ 63"
| "npsf_enabled cpus (NExit c t now) s \<longleftrightarrow>
     is_realtime (tasks s t) \<and> heap_node (rt_param (tasks s t)) \<and> (\<forall>r. t \<notin># waiting_of s r) \<and>
     (\<forall>c' \<in> cpus. \<not> in_flight s c' t) \<and> clk s \<le> now \<and> now < 2 ^ 63"
| "npsf_enabled cpus (NTick c) s \<longleftrightarrow> True"
| "npsf_enabled cpus (NReserveTick c now clock now') s \<longleftrightarrow>
     c \<in> cpus \<and> time_origin s \<le> now' \<and>
     unat now' + 2 * window_start (reserves s) (npsf_reserves (entries s c)) (length (npsf_reserves (entries s c))) < 2 ^ 64 \<and>
     (0 \<le> sint (now - should_expire (entries s c)) \<or> (\<exists>n. \<not> lt_before (clock n) (should_expire (entries s c))))"
| "npsf_enabled cpus (NLinux t f) s \<longleftrightarrow>
     qview (f (tasks s t)) = qview (tasks s t) \<and> domain (rt_param (f (tasks s t))) = domain (rt_param (tasks s t)) \<and>
     task_npsfid (f (tasks s t)) = task_npsfid (tasks s t)"

section \<open>The set-up and the owners of the servers\<close>

definition used :: "cpu_id set \<Rightarrow> 'z npsf_state_scheme \<Rightarrow> nat set" where
  "used cpus s = (\<Union>c \<in> cpus. set (npsf_reserves (entries s c)))"

text \<open>
  A proper set-up: the reserves of every CPU fill the slot, the next reserve of a reserve belongs to
  the same server, servers have distinct numbers, and no server has two reserves on a CPU.
\<close>

definition config_ok :: "cpu_id set \<Rightarrow> 'z npsf_state_scheme \<Rightarrow> bool" where
  "config_ok cpus s \<longleftrightarrow> all_servers_added s \<and> npsf_slot_length s \<noteq> 0 \<and>
     (\<forall>c \<in> cpus. npsf_reserves (entries s c) \<noteq> [] \<and> distinct (npsf_reserves (entries s c)) \<and> windows_ok s c \<and> windows_fill s c) \<and>
     (\<forall>c \<in> cpus. \<forall>r \<in> set (npsf_reserves (entries s c)). rsv_cpu (reserves s r) = c \<and> rsv_server (reserves s r) \<noteq> None \<and>
        (\<exists>n \<in> used cpus s. next_npsf (reserves s r) = Some n \<and> rsv_server (reserves s n) = rsv_server (reserves s r))) \<and>
     (\<forall>r \<in> used cpus s. \<forall>r' \<in> used cpus s. rsv_id (reserves s r) = rsv_id (reserves s r') \<longleftrightarrow>
        rsv_server (reserves s r) = rsv_server (reserves s r')) \<and>
     (\<forall>c \<in> cpus. \<forall>r \<in> set (npsf_reserves (entries s c)). \<forall>r' \<in> set (npsf_reserves (entries s c)).
        rsv_server (reserves s r) = rsv_server (reserves s r') \<longrightarrow> r = r')"

definition serves :: "'z npsf_state_scheme \<Rightarrow> cpu_id \<Rightarrow> nat \<Rightarrow> bool" where
  "serves s c v \<longleftrightarrow> (\<exists>r. cpu_reserve (entries s c) = Some r \<and> rsv_server (reserves s r) = Some v)"

definition owners_ok :: "cpu_id set \<Rightarrow> 'z npsf_state_scheme \<Rightarrow> bool" where
  "owners_ok cpus s \<longleftrightarrow> (\<forall>c \<in> cpus. \<exists>r v. cpu_reserve (entries s c) = Some r \<and> r \<in> set (npsf_reserves (entries s c)) \<and>
     rsv_server (reserves s r) = Some v \<and> curr_reserve (servers s v) = r)"

definition chosen_ok :: "npsf_sys \<Rightarrow> cpu_id \<Rightarrow> tid option \<Rightarrow> bool" where
  "chosen_ok s c nxt \<longleftrightarrow>
     (\<forall>n. nxt = Some n \<longrightarrow> is_realtime (tasks s n) \<and> (\<exists>v. domain (rt_param (tasks s n)) = Some v \<and> serves s c v))"

fun phase_at :: "npsf_sys \<Rightarrow> cpu_id \<Rightarrow> sched_phase \<Rightarrow> bool" where
  "phase_at s c (Chosen nxt) \<longleftrightarrow> chosen_ok s c nxt"
| "phase_at s c (Switching p n) \<longleftrightarrow> cpu_reserve (entries s c) = Some p \<and> n \<in> set (npsf_reserves (entries s c)) \<and> n \<noteq> p"
| "phase_at s c (Keeping p) \<longleftrightarrow> cpu_reserve (entries s c) = Some p"
| "phase_at s c (Notifying p nxt) \<longleftrightarrow> p \<in> set (npsf_reserves (entries s c)) \<and> cpu_reserve (entries s c) \<noteq> Some p \<and>
     (\<exists>v. rsv_server (reserves s p) = Some v \<and> curr_reserve (servers s v) = p) \<and> chosen_ok s c nxt"

definition phase_ok :: "cpu_id set \<Rightarrow> npsf_sys \<Rightarrow> bool" where
  "phase_ok cpus s \<longleftrightarrow> (\<forall>c \<in> cpus. \<forall>ph. in_sched s c = Some ph \<longrightarrow> phase_at s c ph)"

definition member_of :: "cpu_id set \<Rightarrow> 'z npsf_state_scheme \<Rightarrow> task_struct \<Rightarrow> bool" where
  "member_of cpus s t \<longleftrightarrow> (\<exists>r \<in> used cpus s. rsv_id (reserves s r) = task_npsfid t \<and>
     domain (rt_param t) = rsv_server (reserves s r) \<and> rsv_server (reserves s r) \<noteq> None)"

text \<open>
  The servers know exactly the real-time tasks on the run queues. A task that is the choice of a server
  or ready is released; the task that runs on a CPU, and the one that it switches to, do not wait for
  a release.
\<close>

definition tasks_ok :: "cpu_id set \<Rightarrow> (tid \<Rightarrow> place) \<Rightarrow> npsf_sys \<Rightarrow> bool" where
  "tasks_ok cpus pl s \<longleftrightarrow>
     (\<forall>x. busy pl s x \<longleftrightarrow> is_realtime (tasks s x) \<and> on_rq s x) \<and>
     (\<forall>x. busy pl s x \<longrightarrow> \<not> waits pl x \<longrightarrow> get_release (tasks s x) \<le> clk s) \<and> clk s < 2 ^ 63 \<and>
     (\<forall>c \<in> cpus. \<forall>x. in_sched s c = None \<and> curr s c = x \<or> in_flight s c x \<longrightarrow> \<not> waits pl x) \<and>
     (\<forall>c \<in> cpus. \<forall>c' \<in> cpus. curr s c = curr s c' \<longrightarrow> c = c') \<and>
     (\<forall>x. is_realtime (tasks s x) \<longrightarrow> member_of cpus s (tasks s x))"

definition npsf_safe :: "cpu_id set \<Rightarrow> npsf_sys \<Rightarrow> bool" where
  "npsf_safe cpus s \<longleftrightarrow> config_ok cpus s \<and> owners_ok cpus s \<and> phase_ok cpus s \<and> (\<exists>pl. npsf_inv pl s \<and> tasks_ok cpus pl s)"

section \<open>What a step leaves alone\<close>

text \<open>The set-up, and with it the switching of reserves.\<close>

definition static_of where
  "static_of s = ((\<lambda>r. (rsv_server (reserves s r), rsv_budget (reserves s r), rsv_cpu (reserves s r), rsv_id (reserves s r),
     next_npsf (reserves s r))), (\<lambda>c. npsf_reserves (entries s c)), all_servers_added s, npsf_slot_length s)"

definition control_of where
  "control_of s = (static_of s, (\<lambda>c. cpu_reserve (entries s c)), (\<lambda>v. curr_reserve (servers s v)), in_sched s, curr s)"

lemma static_ofD:
  assumes "static_of s' = static_of s"
  shows "rsv_server (reserves s' r) = rsv_server (reserves s r)" "rsv_budget (reserves s' r) = rsv_budget (reserves s r)"
    "rsv_cpu (reserves s' r) = rsv_cpu (reserves s r)" "rsv_id (reserves s' r) = rsv_id (reserves s r)"
    "next_npsf (reserves s' r) = next_npsf (reserves s r)" "npsf_reserves (entries s' c) = npsf_reserves (entries s c)"
    "all_servers_added s' = all_servers_added s" "npsf_slot_length s' = npsf_slot_length s"
  using assms by (simp_all add: static_of_def fun_eq_iff)

lemma control_ofD:
  assumes "control_of s' = control_of s"
  shows "static_of s' = static_of s" "cpu_reserve (entries s' c) = cpu_reserve (entries s c)"
    "curr_reserve (servers s' v) = curr_reserve (servers s v)" "in_sched s' = in_sched s" "curr s' = curr s"
  using assms by (simp_all add: control_of_def fun_eq_iff)

lemma used_static: "static_of s' = static_of s \<Longrightarrow> used cpus s' = used cpus s"
  by (simp add: used_def static_ofD(6) [of s' s])

lemma windows_static:
  assumes "static_of s' = static_of s"
  shows "windows_ok s' c = windows_ok s c" "windows_fill s' c = windows_fill s c"
  by (simp_all add: windows_ok_def windows_fill_def window_start_def static_ofD [OF assms])

lemma config_static: "static_of s' = static_of s \<Longrightarrow> config_ok cpus s' = config_ok cpus s"
  unfolding config_ok_def by (simp add: static_ofD [of s' s] windows_static [of s' s] used_static [of s' s])

lemma member_static: "static_of s' = static_of s \<Longrightarrow> member_of cpus s' t = member_of cpus s t"
  unfolding member_of_def by (simp add: static_ofD [of s' s] used_static [of s' s])

lemma serves_control: "control_of s' = control_of s \<Longrightarrow> serves s' c v = serves s c v"
  by (simp add: serves_def control_ofD(2) [of s' s] static_ofD(1) [OF control_ofD(1), of s' s])

lemma owners_control: "control_of s' = control_of s \<Longrightarrow> owners_ok cpus s' = owners_ok cpus s"
  by (simp add: owners_ok_def control_ofD(2,3) [of s' s] static_ofD(1,6) [OF control_ofD(1), of s' s])

lemma in_flight_cong: "in_sched s' c = in_sched s c \<Longrightarrow> in_flight s' c n = in_flight s c n"
  by (simp add: in_flight_def)

lemma chosen_control:
  assumes "control_of s' = control_of s" "chosen_ok s c nxt"
    "\<And>n. nxt = Some n \<Longrightarrow> is_realtime (tasks s' n) = is_realtime (tasks s n) \<and>
       domain (rt_param (tasks s' n)) = domain (rt_param (tasks s n))"
  shows "chosen_ok s' c nxt"
  using assms(2,3) by (simp add: chosen_ok_def serves_control [OF assms(1)])

lemma phase_control:
  assumes "control_of s' = control_of s" "phase_ok cpus s"
    "\<And>c n. c \<in> cpus \<Longrightarrow> in_flight s c n \<Longrightarrow> is_realtime (tasks s' n) = is_realtime (tasks s n) \<and>
       domain (rt_param (tasks s' n)) = domain (rt_param (tasks s n))"
  shows "phase_ok cpus s'"
  unfolding phase_ok_def
proof (intro ballI allI impI)
  fix c ph
  assume c: "c \<in> cpus" "in_sched s' c = Some ph"
  then have ph: "in_sched s c = Some ph" by (simp add: control_ofD(4) [OF assms(1)])
  have old: "phase_at s c ph" using assms(2) c(1) ph by (simp add: phase_ok_def)
  have ch: "chosen_ok s' c nxt" if which: "ph = Chosen nxt \<or> (\<exists>p. ph = Notifying p nxt)" for nxt
  proof (rule chosen_control [OF assms(1)])
    show "chosen_ok s c nxt" using old which by auto
    show "is_realtime (tasks s' n) = is_realtime (tasks s n) \<and> domain (rt_param (tasks s' n)) = domain (rt_param (tasks s n))"
      if "nxt = Some n" for n
      by (rule assms(3) [OF c(1)]) (use that ph which in \<open>auto simp: in_flight_def\<close>)
  qed
  show "phase_at s' c ph"
  proof (cases ph)
    case (Chosen nxt)
    then show ?thesis using ch by simp
  next
    case (Notifying p nxt)
    then show ?thesis using ch old by (simp add: control_ofD [OF assms(1)] static_ofD [OF control_ofD(1) [OF assms(1)]])
  qed (use old in \<open>simp_all add: control_ofD [OF assms(1)] static_ofD [OF control_ofD(1) [OF assms(1)]]\<close>)
qed

lemma tasks_okD:
  assumes "tasks_ok cpus pl s"
  shows "busy pl s x \<longleftrightarrow> is_realtime (tasks s x) \<and> on_rq s x"
    "busy pl s x \<Longrightarrow> \<not> waits pl x \<Longrightarrow> get_release (tasks s x) \<le> clk s" "clk s < 2 ^ 63"
    "c \<in> cpus \<Longrightarrow> in_sched s c = None \<Longrightarrow> \<not> waits pl (curr s c)" "c \<in> cpus \<Longrightarrow> in_flight s c x \<Longrightarrow> \<not> waits pl x"
    "c \<in> cpus \<Longrightarrow> c' \<in> cpus \<Longrightarrow> curr s c = curr s c' \<Longrightarrow> c = c'"
    "is_realtime (tasks s x) \<Longrightarrow> member_of cpus s (tasks s x)"
  using assms unfolding tasks_ok_def by blast+

lemma npsf_safe_step:
  assumes "config_ok cpus s" "owners_ok cpus s" "phase_ok cpus s" "control_of s' = control_of s"
    "\<And>c n. c \<in> cpus \<Longrightarrow> in_flight s c n \<Longrightarrow> is_realtime (tasks s' n) = is_realtime (tasks s n) \<and>
       domain (rt_param (tasks s' n)) = domain (rt_param (tasks s n))"
    "npsf_inv pl' s'" "tasks_ok cpus pl' s'"
  shows "npsf_safe cpus s'"
proof -
  have "phase_ok cpus s'" by (rule phase_control [OF assms(4,3)]) (rule assms(5))
  then show ?thesis
    using assms(1,2,6,7) config_static [OF control_ofD(1) [OF assms(4)]] owners_control [OF assms(4)]
    unfolding npsf_safe_def by blast
qed

text \<open>
  The tasks after a step: the old ones, and perhaps one more that waits, which is neither running nor
  about to run.
\<close>

lemma tasks_ok_step:
  assumes "tasks_ok cpus pl s" "control_of s' = control_of s" "clk s' < 2 ^ 63"
    "\<And>x. busy pl' s' x \<longleftrightarrow> is_realtime (tasks s' x) \<and> on_rq s' x"
    "\<And>x. busy pl' s' x \<Longrightarrow> \<not> waits pl' x \<Longrightarrow> get_release (tasks s' x) \<le> clk s'"
    "\<And>x c. waits pl' x \<Longrightarrow> waits pl x \<or> (c \<in> cpus \<longrightarrow> \<not> in_flight s c x \<and> (in_sched s c = None \<longrightarrow> curr s c \<noteq> x))"
    "\<And>x. is_realtime (tasks s' x) \<Longrightarrow> member_of cpus s (tasks s' x)"
  shows "tasks_ok cpus pl' s'"
proof -
  note ctl = control_ofD [OF assms(2)]
  show ?thesis
    unfolding tasks_ok_def ctl(5)
  proof (intro conjI allI ballI impI)
    show "\<not> waits pl' x" if "c \<in> cpus" "in_sched s' c = None \<and> curr s c = x \<or> in_flight s' c x" for c x
      using that assms(6) [of x c] tasks_okD(4,5) [OF assms(1)] ctl(4) in_flight_cong [of s' c s x] by metis
    show "member_of cpus s' (tasks s' x)" if "is_realtime (tasks s' x)" for x
      using assms(7) [OF that] by (simp add: member_static [OF ctl(1)])
    show "c = c'" if "c \<in> cpus" "c' \<in> cpus" "curr s c = curr s c'" for c c'
      by (rule tasks_okD(6) [OF assms(1) that])
  qed (rule assms(3,4,5); assumption)+
qed

text \<open>The queues and the choices depend on nothing else.\<close>

lemma npsf_inv_cong:
  fixes s s' :: "'z npsf_state_scheme"
  assumes "npsf_inv pl s" "\<And>t. qview (tasks s' t) = qview (tasks s t)"
    "\<And>t. domain (rt_param (tasks s' t)) = domain (rt_param (tasks s t))" "doms s' = doms s" "rel_heaps s' = rel_heaps s"
    "tick_period s' = tick_period s" "\<And>v. highest s' v = highest s v"
  shows "npsf_inv pl s'"
proof -
  note ok = npsf_invD(1) [OF assms(1)]
  note q = qviewD [OF assms(2)]
  have "queue_inv npsf_home pl s'"
    by (rule queue_inv_frame [OF srv_okD(1) [OF ok] assms(4-6)]) (simp_all add: assms(2,3) q npsf_home_def)
  then have ok': "srv_ok pl s'" using ok by (simp add: srv_ok_def assms(3,7) q(8))
  have "best_at pl s' v" for v
    unfolding best_at_def
  proof (intro allI impI)
    fix x assume x: "pl x = Ready v"
    then obtain h where h: "highest s v = Some h" "\<not> edf_ready_order s x h"
      using npsf_invD(2) [OF assms(1), of v] unfolding best_at_def by blast
    have "edf_ok (tasks s x)" "edf_ok (tasks s h)" using srv_okD(4,7) [OF ok] h(1) x by auto
    then have "edf_ready_order s' x h = edf_ready_order s x h"
      using q by (intro edf_ready_order_cong) (simp_all add: edf_ok_def)
    then show "\<exists>h. highest s' v = Some h \<and> \<not> edf_ready_order s' x h" using h by (simp add: assms(7))
  qed
  then show ?thesis using ok' by (simp add: npsf_inv_def)
qed

lemma npsf_inv_env [simp]:
  fixes s :: npsf_sys
  shows "npsf_inv pl (s\<lparr>this_cpu := c\<rparr>) = npsf_inv pl s" "npsf_inv pl (s\<lparr>in_sched := i\<rparr>) = npsf_inv pl s"
    "npsf_inv pl (s\<lparr>on_rq := q\<rparr>) = npsf_inv pl s" "npsf_inv pl (s\<lparr>clk := k\<rparr>) = npsf_inv pl s"
    "npsf_inv pl (s\<lparr>curr := cr\<rparr>) = npsf_inv pl s"
  by (rule iffI; erule npsf_inv_cong; simp)+

lemma busy_env [simp]:
  fixes s :: npsf_sys
  shows "busy pl (s\<lparr>this_cpu := c\<rparr>) = busy pl s" "busy pl (s\<lparr>in_sched := i\<rparr>) = busy pl s"
    "busy pl (s\<lparr>on_rq := q\<rparr>) = busy pl s" "busy pl (s\<lparr>clk := k\<rparr>) = busy pl s" "busy pl (s\<lparr>curr := cr\<rparr>) = busy pl s"
  by (simp_all add: busy_def fun_eq_iff)

lemma control_env [simp]:
  "control_of (s\<lparr>this_cpu := c\<rparr>) = control_of s" "control_of (s\<lparr>on_rq := q\<rparr>) = control_of s"
  "control_of (s\<lparr>clk := k\<rparr>) = control_of s" "control_of (upd_task t f s) = control_of s"
  by (simp_all add: control_of_def static_of_def upd_task_def)

lemma same_params_env [simp]:
  fixes s s' :: npsf_sys
  shows "same_params (s\<lparr>this_cpu := c\<rparr>) s' = same_params s s'" "same_params s (s'\<lparr>on_rq := q\<rparr>) = same_params s s'"
    "same_params s (s'\<lparr>clk := k\<rparr>) = same_params s s'"
  by (simp_all add: same_params_def)

lemma cfg_control:
  fixes s s' :: npsf_sys
  assumes "cfg s' = cfg s"
  shows "control_of s' = control_of s" "on_rq s' = on_rq s" "clk s' = clk s"
proof -
  have "in_sched s' = in_sched s \<and> on_rq s' = on_rq s \<and> clk s' = clk s"
    using cfgD(10) [OF assms] by (cases s; cases s'; simp)
  then show "control_of s' = control_of s" "on_rq s' = on_rq s" "clk s' = clk s"
    using cfgD [OF assms] by (simp_all add: control_of_def static_of_def fun_eq_iff)
qed

lemma busy_edf_ok: "npsf_inv pl s \<Longrightarrow> busy pl s x \<Longrightarrow> edf_ok (tasks s x)"
  using srv_okD(4,7) [OF npsf_invD(1), of pl s] unfolding busy_def by blast

lemma choice_busy: "npsf_inv pl s \<Longrightarrow> highest s v = Some h \<Longrightarrow> busy pl s h \<and> \<not> waits pl h"
  using srv_okD(3) [OF npsf_invD(1), of pl s v h] by (auto simp: busy_def waits_def)

lemma is_released_small: "get_release t < 2 ^ 63 \<Longrightarrow> now < 2 ^ 63 \<Longrightarrow> is_released t now \<longleftrightarrow> get_release t \<le> now"
  unfolding is_released_def by (rule lt_before_eq_small) (simp_all add: word_less_nat_alt)

lemma choice_released:
  assumes "npsf_inv pl s" "tasks_ok cpus pl s" "clk s \<le> now" "now < 2 ^ 63" "highest s v = Some h"
  shows "is_released (tasks s h) now"
proof -
  have h: "busy pl s h" "\<not> waits pl h" using choice_busy [OF assms(1,5)] by simp_all
  then have "get_release (tasks s h) \<le> now" using tasks_okD(2) [OF assms(2)] assms(3) by (meson order_trans)
  then show ?thesis using is_released_small busy_edf_ok [OF assms(1) h(1)] assms(4) by (simp add: edf_ok_def)
qed

section \<open>The steps\<close>

lemma npsf_safeE:
  assumes "npsf_safe cpus s"
  obtains pl where "config_ok cpus s" "owners_ok cpus s" "phase_ok cpus s" "npsf_inv pl s" "tasks_ok cpus pl s"
  using assms unfolding npsf_safe_def by blast

text \<open>A step that keeps the tasks and the set-up.\<close>

lemma safe_by_params:
  fixes s s' :: npsf_sys
  assumes "config_ok cpus s" "owners_ok cpus s" "phase_ok cpus s" "tasks_ok cpus pl s" "npsf_inv pl' s'"
    "same_params s s'" "control_of s' = control_of s" "clk s \<le> clk s'" "clk s' < 2 ^ 63"
    "\<And>x. busy pl' s' x \<longleftrightarrow> is_realtime (tasks s x) \<and> on_rq s' x"
    "\<And>x. busy pl' s' x \<Longrightarrow> \<not> waits pl' x \<Longrightarrow> busy pl s x \<and> \<not> waits pl x \<or> get_release (tasks s x) \<le> clk s'"
    "\<And>x c. waits pl' x \<Longrightarrow> waits pl x \<or> (c \<in> cpus \<longrightarrow> \<not> in_flight s c x \<and> (in_sched s c = None \<longrightarrow> curr s c \<noteq> x))"
  shows "npsf_safe cpus s'"
proof (rule npsf_safe_step [OF assms(1-3,7)])
  note par = same_paramsD [OF assms(6)]
  show "is_realtime (tasks s' n) = is_realtime (tasks s n) \<and> domain (rt_param (tasks s' n)) = domain (rt_param (tasks s n))" for n
    by (simp add: par)
  show "tasks_ok cpus pl' s'"
  proof (rule tasks_ok_step [OF assms(4,7,9)])
    show "get_release (tasks s' x) \<le> clk s'" if "busy pl' s' x" "\<not> waits pl' x" for x
      using assms(11) [OF that] tasks_okD(2) [OF assms(4), of x] assms(8) par(3) [of x] by (metis order_trans)
    show "member_of cpus s (tasks s' x)" if "is_realtime (tasks s' x)" for x
      using tasks_okD(7) [OF assms(4), of x] that by (simp add: member_of_def par)
  qed (use assms(10,12) in \<open>simp_all add: par\<close>)
qed (rule assms(5))

lemma npsf_release_safe:
  assumes "npsf_safe cpus s" "npsf_enabled cpus (NRelease c r now) s"
  shows "ok (npsf_exec (NRelease c r now) s) (npsf_safe cpus)"
proof -
  obtain pl where safe: "config_ok cpus s" "owners_ok cpus s" "phase_ok cpus s" "npsf_inv pl s" "tasks_ok cpus pl s"
    using assms(1) by (rule npsf_safeE)
  have en: "rh_timer (rel_heaps s r) \<noteq> None" "clk s \<le> now" "rh_time (rel_heaps s r) \<le> now" "now < 2 ^ 63"
    using assms(2) by simp_all
  let ?s = "s\<lparr>this_cpu := c\<rparr>"
  have rel: "pl x = Waiting r \<Longrightarrow> get_release (tasks s x) \<le> now" for x
    using release_okD(9) [of pl s x r] srv_okD(1) [OF npsf_invD(1) [OF safe(4)]] en(3) by (simp add: queue_inv_def)
  have "ok (on_release_timer (npsf_release_jobs now) r ?s) (\<lambda>s'. npsf_safe cpus (s'\<lparr>clk := now\<rparr>))"
  proof (rule ok_mono [OF npsf_release_ok [of pl]], goal_cases)
    case (4 s')
    then obtain pl' where s': "npsf_inv pl' s'" "\<And>x. busy pl' s' x = busy pl s x"
      "\<And>x. waits pl' x \<longleftrightarrow> waits pl x \<and> pl x \<noteq> Waiting r" "same_params s s'" "cfg s' = cfg ?s" by auto
    show ?case
    proof (rule safe_by_params [OF safe(1-3,5), of pl'])
      show "busy pl' (s'\<lparr>clk := now\<rparr>) x \<longleftrightarrow> is_realtime (tasks s x) \<and> on_rq (s'\<lparr>clk := now\<rparr>) x" for x
        using s'(2) tasks_okD(1) [OF safe(5)] cfg_control(2) [OF s'(5)] by simp
      show "busy pl s x \<and> \<not> waits pl x \<or> get_release (tasks s x) \<le> clk (s'\<lparr>clk := now\<rparr>)"
        if "busy pl' (s'\<lparr>clk := now\<rparr>) x" "\<not> waits pl' x" for x
        using that s'(2,3) rel by auto
    qed (use s' en cfg_control [OF s'(5)] in simp_all)
  qed (use safe en choice_released [OF safe(4,5) en(2,4)] in simp_all)
  then show ?thesis by (simp add: ok_bind)
qed

text \<open>A task that no server knows may change.\<close>

lemma npsf_inv_free:
  fixes s :: "'z npsf_state_scheme"
  assumes "npsf_inv pl s" "\<not> busy pl s t" "pid (f (tasks s t)) = pid (tasks s t)"
    "in_heap (rt_param (f (tasks s t))) = in_heap (rt_param (tasks s t))"
  shows "npsf_inv pl (upd_task t f s)"
proof -
  note ok = npsf_invD(1) [OF assms(1)]
  have nt: "pl t = Nowhere" "\<And>v. highest s v \<noteq> Some t" using assms(2) by (auto simp: busy_def)
  have other: "tasks (upd_task t f s) x = tasks s x" if "x \<noteq> t" for x using that by simp
  have "queue_inv npsf_home pl (upd_task t f s)" by (rule queue_inv_free [where f = f, OF srv_okD(1) [OF ok] nt(1) assms(3,4)])
  then have "srv_ok pl (upd_task t f s)"
    using ok nt unfolding srv_ok_def by (metis npsf_upd_simps(1) other)
  moreover have "best_at pl (upd_task t f s) v" for v
    unfolding best_at_def
  proof (intro allI impI)
    fix x assume x: "pl x = Ready v"
    then obtain h where h: "highest s v = Some h" "\<not> edf_ready_order s x h"
      using npsf_invD(2) [OF assms(1), of v] unfolding best_at_def by blast
    have "edf_ok (tasks s x)" "edf_ok (tasks s h)" "x \<noteq> t" "h \<noteq> t" using srv_okD(4,7) [OF ok] h(1) x nt by auto
    then have "edf_ready_order (upd_task t f s) x h = edf_ready_order s x h" by (intro order_other) (simp_all add: edf_ok_def)
    then show "\<exists>h. highest (upd_task t f s) v = Some h \<and> \<not> edf_ready_order (upd_task t f s) x h" using h by simp
  qed
  ultimately show ?thesis by (simp add: npsf_inv_def)
qed

lemma busy_upd_task [simp]: "busy pl (upd_task t f s) = busy pl s"
  by (simp add: busy_def fun_eq_iff)

lemma parts_free:
  assumes "config_ok cpus s" "owners_ok cpus s" "phase_ok cpus s" "tasks_ok cpus pl s" "\<not> busy pl s t"
    "\<And>c. c \<in> cpus \<Longrightarrow> \<not> in_flight s c t" "is_realtime (f (tasks s t)) \<Longrightarrow> member_of cpus s (f (tasks s t))"
    "b \<longrightarrow> \<not> is_realtime (f (tasks s t))"
  defines "s1 \<equiv> upd_task t f (s\<lparr>on_rq := (on_rq s)(t := b)\<rparr>)"
  shows "config_ok cpus s1" "owners_ok cpus s1" "phase_ok cpus s1" "tasks_ok cpus pl s1"
proof -
  have ctl: "control_of s1 = control_of s" by (simp add: s1_def)
  have tsk: "tasks s1 x = (if x = t then f (tasks s t) else tasks s x)" "on_rq s1 x = (if x = t then b else on_rq s x)" for x
    by (simp_all add: s1_def upd_task_def)
  have k: "clk s1 = clk s" by (simp add: s1_def upd_task_def)
  have bsy: "busy pl s1 = busy pl s" by (simp add: s1_def)
  show "config_ok cpus s1" "owners_ok cpus s1"
    using assms(1,2) config_static [OF control_ofD(1) [OF ctl]] owners_control [OF ctl] by simp_all
  show "phase_ok cpus s1" by (rule phase_control [OF ctl assms(3)]) (use assms(6) tsk in auto)
  show "tasks_ok cpus pl s1"
  proof (rule tasks_ok_step [OF assms(4) ctl])
    show "busy pl s1 x \<longleftrightarrow> is_realtime (tasks s1 x) \<and> on_rq s1 x" for x
      unfolding bsy tsk using tasks_okD(1) [OF assms(4), of x] assms(5,8) by (cases "x = t") auto
    show "get_release (tasks s1 x) \<le> clk s1" if "busy pl s1 x" "\<not> waits pl x" for x
      using that tasks_okD(2) [OF assms(4), of x] assms(5) unfolding bsy tsk k by auto
    show "member_of cpus s (tasks s1 x)" if "is_realtime (tasks s1 x)" for x
      using that assms(7) tasks_okD(7) [OF assms(4), of x] unfolding tsk by (auto split: if_splits)
  qed (use tasks_okD(3) [OF assms(4)] k in simp_all)
qed

text \<open>A change that nothing above depends on.\<close>

lemma npsf_linux_safe:
  assumes "npsf_safe cpus s" "npsf_enabled cpus (NLinux t f) s"
  shows "npsf_safe cpus (upd_task t f s)"
proof -
  obtain pl where safe: "config_ok cpus s" "owners_ok cpus s" "phase_ok cpus s" "npsf_inv pl s" "tasks_ok cpus pl s"
    using assms(1) by (rule npsf_safeE)
  let ?s = "upd_task t f s"
  have v: "qview (tasks ?s x) = qview (tasks s x)" "domain (rt_param (tasks ?s x)) = domain (rt_param (tasks s x))"
    "task_npsfid (tasks ?s x) = task_npsfid (tasks s x)" for x
    using assms(2) by simp_all
  note q = qviewD [OF v(1)]
  have inv: "npsf_inv pl ?s" by (rule npsf_inv_cong [OF safe(4)]) (use v in simp_all)
  have env: "on_rq ?s = on_rq s" "clk ?s = clk s" by (simp_all add: upd_task_def)
  have "tasks_ok cpus pl ?s"
    by (rule tasks_ok_step [OF safe(5)])
      (use tasks_okD [OF safe(5)] in \<open>simp_all add: q v env member_of_def del: upd_task_simps\<close>)
  then show ?thesis by (intro npsf_safe_step [OF safe(1-3) _ _ inv]) (simp_all only: control_env q v)
qed

lemma upd_task_env:
  "upd_task t f (s\<lparr>clk := k\<rparr>) = (upd_task t f s)\<lparr>clk := k\<rparr>" "upd_task t f (s\<lparr>on_rq := q\<rparr>) = (upd_task t f s)\<lparr>on_rq := q\<rparr>"
  by (cases s; simp add: upd_task_def)+

lemma upd_task_npsf [simp]:
  "reserves (upd_task t f s) = reserves s" "entries (upd_task t f s) = entries s"
  "all_servers_added (upd_task t f s) = all_servers_added s"
  by (simp_all add: upd_task_def)

lemma need_resched_safe: "npsf_safe cpus s \<Longrightarrow> npsf_safe cpus (set_tsk_need_resched t s)"
  unfolding set_tsk_need_resched_def by (rule npsf_linux_safe) (simp_all add: qview_def task_npsfid_def rt_simps)

lemma member_domain: "member_of cpus s t \<Longrightarrow> \<exists>v. domain (rt_param t) = Some v"
  by (auto simp: member_of_def)

text \<open>
  A task that no server knows arrives at its server, with new parameters, while no CPU switches to it;
  if it has to wait for its release, no CPU runs it either.
\<close>

lemma arrive_safe:
  assumes "config_ok cpus s" "owners_ok cpus s" "phase_ok cpus s" "npsf_inv pl s" "tasks_ok cpus pl s" "\<not> busy pl s t"
    and idle: "\<And>c. c \<in> cpus \<Longrightarrow> \<not> in_flight s c t"
      "\<And>c. c \<in> cpus \<Longrightarrow> \<not> is_released (f (tasks s t)) now' \<Longrightarrow> in_sched s c = None \<Longrightarrow> curr s c \<noteq> t"
    and f: "pid (f (tasks s t)) = pid (tasks s t)" "in_heap (rt_param (f (tasks s t))) = in_heap (rt_param (tasks s t))"
      "edf_ok (f (tasks s t))" "domain (rt_param (f (tasks s t))) = Some v" "member_of cpus s (f (tasks s t))"
    and time: "clk s \<le> now'" "now' \<le> now''" "now'' < 2 ^ 63"
  shows "ok (Option.bind (npsf_requeue t v now' (upd_task t f (s\<lparr>this_cpu := c\<rparr>))) (npsf_reschedule_server v now''))
    (\<lambda>s'. npsf_safe cpus (s'\<lparr>on_rq := (on_rq s')(t := True), clk := now''\<rparr>) \<and> on_rq s' = on_rq s)"
proof -
  define s1 where "s1 = upd_task t f (s\<lparr>on_rq := (on_rq s)(t := False)\<rparr>)"
  let ?s = "upd_task t f (s\<lparr>this_cpu := c\<rparr>)"
  note p1 = parts_free [where t = t and f = f and b = False, OF assms(1-3,5,6) idle(1), folded s1_def, simplified]
  have parts: "config_ok cpus s1" "owners_ok cpus s1" "phase_ok cpus s1" "tasks_ok cpus pl s1"
    using p1 f(5) by blast+
  have inv: "npsf_inv pl ?s" by (rule npsf_inv_free) (use assms(4,6) f(1,2) in simp_all)
  have rel: "is_released (tasks ?s h) now''" if h: "highest ?s v = Some h" for h
  proof -
    have "h \<noteq> t" using h assms(6) by (auto simp: busy_def)
    then show ?thesis using choice_released [OF assms(4,5) _ time(3), of v h] h time by simp
  qed
  show ?thesis
  proof (rule ok_mono [OF npsf_arrive_ok [OF inv _ _ _ rel]], goal_cases)
    case (5 s')
    then obtain pl' where s': "npsf_inv pl' s'" "\<And>x. busy pl' s' x \<longleftrightarrow> busy pl s x \<or> x = t"
      "\<And>x. waits pl' x \<longleftrightarrow> waits pl x \<or> x = t \<and> \<not> is_released (f (tasks s t)) now'" "same_params ?s s'" "cfg s' = cfg (s\<lparr>this_cpu := c\<rparr>)"
      by auto
    let ?s' = "s'\<lparr>on_rq := (on_rq s')(t := True), clk := now''\<rparr>"
    have s1: "tasks s1 = tasks ?s" "on_rq s1 = (on_rq s)(t := False)" "clk s1 = clk s" "busy pl s1 = busy pl s" "curr s1 = curr s"
      "in_sched s1 = in_sched s" "control_of s1 = control_of s"
      by (simp_all add: s1_def) (simp_all add: upd_task_def)
    have nrel: "get_release (f (tasks s t)) \<le> now''" if "is_released (f (tasks s t)) now'"
      using that is_released_small [OF _ le_less_trans [OF time(2,3)], of "f (tasks s t)"] f(3) time(2)
      by (metis edf_ok_def order_trans)
    have "npsf_safe cpus ?s'"
    proof (rule safe_by_params [OF parts, of pl' ?s'])
      show "busy pl' ?s' x \<longleftrightarrow> is_realtime (tasks s1 x) \<and> on_rq ?s' x" for x
        using s'(2) tasks_okD(1) [OF parts(4), of x] f(3) cfg_control(2) [OF s'(5)] by (simp add: s1 edf_ok_def)
      show "busy pl s1 x \<and> \<not> waits pl x \<or> get_release (tasks s1 x) \<le> clk ?s'" if "busy pl' ?s' x" "\<not> waits pl' x" for x
        using that s'(2,3) nrel by (auto simp: s1)
      show "waits pl x \<or> (c' \<in> cpus \<longrightarrow> \<not> in_flight s1 c' x \<and> (in_sched s1 c' = None \<longrightarrow> curr s1 c' \<noteq> x))" if "waits pl' x" for x c'
        using that s'(3) idle in_flight_cong [of s1 c' s x] s1(5,6) by metis
      show "same_params s1 ?s'" using s'(4) by (simp add: same_params_def s1(1))
      show "control_of ?s' = control_of s1" using cfg_control(1) [OF s'(5)] s1(7) by simp
    qed (use s' time s1 in simp_all)
    then show ?case using cfg_control(2) [OF s'(5)] by simp
  qed (use assms(6) f in simp_all)
qed

lemma release_at_simps [simp]:
  "pid (release_at n t) = pid t" "in_heap (rt_param (release_at n t)) = in_heap (rt_param t)"
  "domain (rt_param (release_at n t)) = domain (rt_param t)" "task_npsfid (release_at n t) = task_npsfid t"
  "is_realtime (release_at n t) = is_realtime t" "get_release (release_at n t) = n"
  "heap_node (rt_param (release_at n t)) = heap_node (rt_param t)"
  by (simp_all add: release_at_def prepare_for_next_period_def task_npsfid_def rt_simps)

lemma npsf_wake_up_safe:
  assumes "npsf_safe cpus s" "npsf_enabled cpus (NWakeUp c t now now' now'') s"
  shows "ok (npsf_exec (NWakeUp c t now now' now'') s) (npsf_safe cpus)"
proof -
  obtain pl where safe: "config_ok cpus s" "owners_ok cpus s" "phase_ok cpus s" "npsf_inv pl s" "tasks_ok cpus pl s"
    using assms(1) by (rule npsf_safeE)
  have en: "is_realtime (tasks s t)" "\<not> on_rq s t" "\<And>c'. c' \<in> cpus \<Longrightarrow> \<not> in_flight s c' t"
    "\<And>c'. c' \<in> cpus \<Longrightarrow> curr s c' = t \<Longrightarrow> in_sched s c' \<noteq> None"
    "edf_ok (tasks s t)" "edf_ok (release_at now (tasks s t))" "clk s \<le> now" "now \<le> now'" "now' \<le> now''" "now'' < 2 ^ 63"
    using assms(2) by auto
  have nb: "\<not> busy pl s t" using tasks_okD(1) [OF safe(5)] en(2) by simp
  have mem: "member_of cpus s (tasks s t)" by (rule tasks_okD(7) [OF safe(5) en(1)])
  then obtain v where v: "domain (rt_param (tasks s t)) = Some v" using member_domain by blast
  define f where "f = (if is_tardy (tasks s t) now then release_at now else (\<lambda>p. p))"
  let ?s = "s\<lparr>this_cpu := c\<rparr>"
  have fs: "(if is_tardy (tasks ?s t) now then upd_task t (release_at now) ?s else ?s) = upd_task t f ?s"
    by (simp add: f_def upd_task_def)
  have q: "is_queued t ?s = Some False"
    using srv_okD(6) [OF npsf_invD(1) [OF safe(4)], of t] nb en(5) by (simp add: is_queued_def busy_def edf_ok_def)
  have nh: "highest ?s v \<noteq> Some t" using nb by (auto simp: busy_def)
  have "ok (Option.bind (npsf_requeue t v now' (upd_task t f ?s)) (npsf_reschedule_server v now''))
    (\<lambda>s'. npsf_safe cpus (s'\<lparr>on_rq := (on_rq s')(t := True), clk := now''\<rparr>) \<and> on_rq s' = on_rq s)"
  proof (rule arrive_safe [OF safe nb])
    show "edf_ok (f (tasks s t))" using en(5,6) by (simp add: f_def)
    show "curr s c' \<noteq> t" if "c' \<in> cpus" "in_sched s c' = None" for c' using that en(4) by blast
    show "clk s \<le> now'" using en(7,8) by (rule order_trans)
    show "member_of cpus s (f (tasks s t))" using mem by (simp add: f_def member_of_def)
  qed (use en(3,9,10) v in \<open>simp_all add: f_def\<close>)
  moreover have "npsf_task_wake_up t now now' now'' ?s =
      Option.bind (npsf_requeue t v now' (upd_task t f ?s)) (npsf_reschedule_server v now'')"
    unfolding npsf_task_wake_up_def Let_def fs using en(1) v q nh by simp
  ultimately show ?thesis by (auto simp: ok_bind elim!: ok_mono)
qed

lemma find_npsf_Some: "find_npsf rsvs i rs = Some r \<Longrightarrow> r \<in> set rs \<and> rsv_id (rsvs r) = i"
  by (induction rs) (auto split: if_splits)

lemma npsf_task_new_safe:
  assumes "npsf_safe cpus s" "npsf_enabled cpus (NTaskNew c t now now' now'') s"
  shows "ok (npsf_exec (NTaskNew c t now now' now'') s) (npsf_safe cpus)"
proof -
  obtain pl where safe: "config_ok cpus s" "owners_ok cpus s" "phase_ok cpus s" "npsf_inv pl s" "tasks_ok cpus pl s"
    using assms(1) by (rule npsf_safeE)
  have en: "\<not> is_realtime (tasks s t)" "on_rq s t" "\<And>c'. c' \<in> cpus \<Longrightarrow> \<not> in_flight s c' t" "get_partition (tasks s t) \<in> cpus"
    "npsf_admit_task t s = 0" "edf_ok (release_at now ((tasks s t)\<lparr>policy := SCHED_LITMUS\<rparr>))" "clk s \<le> now" "now \<le> now'" "now' \<le> now''" "now'' < 2 ^ 63"
    using assms(2) by auto
  have nb: "\<not> busy pl s t" using tasks_okD(1) [OF safe(5)] en(1) by simp
  let ?e = "entries s (get_partition (tasks s t))"
  obtain r where r: "find_npsf (reserves s) (task_npsfid (tasks s t)) (npsf_reserves ?e) = Some r"
    using en(5) by (auto simp: npsf_admit_task_def ENODEV_def EINVAL_def split: if_splits)
  note r' = find_npsf_Some [OF r]
  have "rsv_server (reserves s r) \<noteq> None" using safe(1) r' en(4) unfolding config_ok_def by blast
  then obtain v where v: "rsv_server (reserves s r) = Some v" by blast
  define f where "f = (\<lambda>p. release_at now (upd_rt (\<lambda>p. p\<lparr>domain := Some v\<rparr>) (p\<lparr>policy := SCHED_LITMUS\<rparr>)))"
  let ?s = "s\<lparr>this_cpu := c\<rparr>"
  have fs: "upd_task t (release_at now) (upd_task t (upd_rt (\<lambda>p. p\<lparr>domain := Some v\<rparr>))
      (upd_task t (\<lambda>p. p\<lparr>policy := SCHED_LITMUS\<rparr>) ?s)) = upd_task t f ?s"
    by (simp add: f_def upd_task_def)
  have ff: "get_release (f p) = now" "domain (rt_param (f p)) = Some v" "pid (f p) = pid p" "task_npsfid (f p) = task_npsfid p"
    "in_heap (rt_param (f p)) = in_heap (rt_param p)" for p
    by (simp_all add: f_def) (simp_all add: rt_simps task_npsfid_def)
  have ef: "edf_ok (f (tasks s t))"
    using en(6) by (simp add: f_def edf_ok_def release_at_def prepare_for_next_period_def rt_simps is_realtime_def)
  have "ok (Option.bind (npsf_requeue t v now' (upd_task t f ?s)) (npsf_reschedule_server v now''))
    (\<lambda>s'. npsf_safe cpus (s'\<lparr>on_rq := (on_rq s')(t := True), clk := now''\<rparr>) \<and> on_rq s' = on_rq s)"
  proof (rule arrive_safe [OF safe nb])
    have "now' < 2 ^ 63" using en(9,10) by (rule le_less_trans)
    then have "is_released (f (tasks s t)) now'"
      using is_released_small [of "f (tasks s t)" now'] ef en(8) by (simp add: ff edf_ok_def)
    then show "curr s c' \<noteq> t" if "\<not> is_released (f (tasks s t)) now'" for c' using that by simp
    show "member_of cpus s (f (tasks s t))" unfolding member_of_def ff used_def
      by (rule bexI [of _ r]) (use r' v en(4) in auto)
    show "clk s \<le> now'" using en(7,8) by (rule order_trans)
  qed (use en(3,9,10) ef ff in simp_all)
  then have "ok (Option.bind (npsf_requeue t v now' (upd_task t f ?s)) (npsf_reschedule_server v now''))
    (\<lambda>s'. npsf_safe cpus ((set_tsk_need_resched t s')\<lparr>clk := now''\<rparr>))"
  proof (rule ok_mono, goal_cases)
    case (1 s')
    have "(on_rq s')(t := True) = on_rq s'" using 1(2) en(2) by (auto simp: fun_eq_iff)
    then have "s'\<lparr>on_rq := (on_rq s')(t := True), clk := now''\<rparr> = s'\<lparr>clk := now''\<rparr>" by simp
    then have "npsf_safe cpus (s'\<lparr>clk := now''\<rparr>)" using 1(2) by metis
    then have "npsf_safe cpus (set_tsk_need_resched t (s'\<lparr>clk := now''\<rparr>))" by (rule need_resched_safe)
    then show ?case by (simp add: set_tsk_need_resched_def upd_task_env)
  qed
  moreover have "npsf_task_new t now now' now'' (upd_task t (\<lambda>p. p\<lparr>policy := SCHED_LITMUS\<rparr>) ?s) =
      Option.bind (Option.bind (npsf_requeue t v now' (upd_task t f ?s)) (npsf_reschedule_server v now''))
        (\<lambda>s'. Some (set_tsk_need_resched t s'))"
  proof -
    have "npsf_reserves ?e \<noteq> []" using r' by auto
    then show ?thesis
      unfolding npsf_task_new_def Let_def using r v
      by (simp add: fs [symmetric] no_reserves_def task_npsfid_def rt_simps)
  qed
  ultimately show ?thesis by (simp add: ok_bind)
qed

text \<open>A task leaves its server.\<close>

lemma leave_safe:
  assumes "config_ok cpus s" "owners_ok cpus s" "phase_ok cpus s" "npsf_inv pl s" "tasks_ok cpus pl s" "\<not> waits pl t"
    "domain (rt_param (tasks s t)) = Some v" "heap_node (rt_param (tasks s t))" "clk s \<le> now" "now < 2 ^ 63"
  shows "ok (remove_from_server t v now (s\<lparr>this_cpu := c\<rparr>)) (\<lambda>s'. npsf_safe cpus (s'\<lparr>on_rq := (on_rq s')(t := False), clk := now\<rparr>) \<and>
    control_of s' = control_of s \<and> on_rq s' = on_rq s)"
proof (rule ok_mono [OF npsf_leave_ok [of pl]], goal_cases)
  case (5 s')
  then obtain pl' where s': "npsf_inv pl' s'" "\<And>x. busy pl' s' x \<longleftrightarrow> busy pl s x \<and> x \<noteq> t" "\<And>x. waits pl' x = waits pl x"
    "same_params s s'" "cfg s' = cfg (s\<lparr>this_cpu := c\<rparr>)" by auto
  let ?s' = "s'\<lparr>on_rq := (on_rq s')(t := False), clk := now\<rparr>"
  have "npsf_safe cpus ?s'"
  proof (rule safe_by_params [OF assms(1-3,5), of pl' ?s'])
    show "busy pl' ?s' x \<longleftrightarrow> is_realtime (tasks s x) \<and> on_rq ?s' x" for x
      using s'(2) tasks_okD(1) [OF assms(5), of x] cfg_control(2) [OF s'(5)] by auto
    show "busy pl s x \<and> \<not> waits pl x \<or> get_release (tasks s x) \<le> clk ?s'" if "busy pl' ?s' x" "\<not> waits pl' x" for x
      using that s'(2,3) by simp
  qed (use s' assms(9,10) cfg_control [OF s'(5)] in simp_all)
  then show ?case using cfg_control [OF s'(5)] by simp
qed (use assms in simp_all)

lemma npsf_block_safe:
  assumes "npsf_safe cpus s" "npsf_enabled cpus (NBlock c t now) s"
  shows "ok (npsf_exec (NBlock c t now) s) (npsf_safe cpus)"
proof -
  obtain pl where safe: "config_ok cpus s" "owners_ok cpus s" "phase_ok cpus s" "npsf_inv pl s" "tasks_ok cpus pl s"
    using assms(1) by (rule npsf_safeE)
  have en: "c \<in> cpus" "curr s c = t" "in_sched s c = None" "is_realtime (tasks s t)" "heap_node (rt_param (tasks s t))"
    "clk s \<le> now" "now < 2 ^ 63" using assms(2) by simp_all
  obtain v where v: "domain (rt_param (tasks s t)) = Some v"
    using member_domain tasks_okD(7) [OF safe(5) en(4)] by blast
  have "\<not> waits pl t" using tasks_okD(4) [OF safe(5) en(1,3)] en(2) by simp
  from leave_safe [where c = c, OF safe this v en(5-7)] show ?thesis
    using en(4) v by (simp add: npsf_task_block_def ok_bind ok_conj)
qed

lemma npsf_exit_safe:
  assumes "npsf_safe cpus s" "npsf_enabled cpus (NExit c t now) s"
  shows "ok (npsf_exec (NExit c t now) s) (npsf_safe cpus)"
proof -
  obtain pl where safe: "config_ok cpus s" "owners_ok cpus s" "phase_ok cpus s" "npsf_inv pl s" "tasks_ok cpus pl s"
    using assms(1) by (rule npsf_safeE)
  have en: "is_realtime (tasks s t)" "heap_node (rt_param (tasks s t))" "\<And>r. t \<notin># waiting_of s r"
    "\<And>c'. c' \<in> cpus \<Longrightarrow> \<not> in_flight s c' t" "clk s \<le> now" "now < 2 ^ 63" using assms(2) by simp_all
  obtain v where v: "domain (rt_param (tasks s t)) = Some v"
    using member_domain tasks_okD(7) [OF safe(5) en(1)] by blast
  have "pl t \<noteq> Waiting r" for r
    using en(3) [of r] srv_okD(2) [OF npsf_invD(1) [OF safe(4)]] by (auto simp: placed_simps(2) count_eq_zero_iff [symmetric])
  then have nw: "\<not> waits pl t" by (simp add: waits_def)
  let ?f = "\<lambda>p :: task_struct. p\<lparr>policy := 0\<rparr>"
  have gone: "npsf_safe cpus (upd_task t ?f (s'\<lparr>clk := now\<rparr>))"
    if s': "npsf_safe cpus (s'\<lparr>on_rq := (on_rq s')(t := False), clk := now\<rparr>)" "control_of s' = control_of s" "on_rq s' = on_rq s" for s'
  proof -
    let ?s1 = "s'\<lparr>on_rq := (on_rq s')(t := False), clk := now\<rparr>"
    obtain pl' where p: "config_ok cpus ?s1" "owners_ok cpus ?s1" "phase_ok cpus ?s1" "npsf_inv pl' ?s1" "tasks_ok cpus pl' ?s1"
      using s'(1) by (rule npsf_safeE)
    have nb: "\<not> busy pl' ?s1 t" using tasks_okD(1) [OF p(5), of t] by simp
    have nf: "\<not> in_flight ?s1 c' t" if "c' \<in> cpus" for c'
      using en(4) [OF that] control_ofD(4) [OF s'(2)] by (simp add: in_flight_def)
    have nr: "\<not> is_realtime (?f (tasks ?s1 t))" by (simp add: is_realtime_def SCHED_LITMUS_def)
    let ?s2 = "upd_task t ?f (?s1\<lparr>on_rq := (on_rq ?s1)(t := on_rq s' t)\<rparr>)"
    note q = parts_free [where t = t and f = ?f and b = "on_rq s' t", OF p(1-3,5) nb nf]
    have "npsf_inv pl' (upd_task t ?f ?s1)" by (rule npsf_inv_free [OF p(4) nb]) simp_all
    then have "npsf_safe cpus ?s2"
      unfolding npsf_safe_def using q nr by (metis npsf_inv_env(3) upd_task_env(2))
    moreover have "?s2 = upd_task t ?f (s'\<lparr>clk := now\<rparr>)" by (simp add: upd_task_def)
    ultimately show ?thesis by simp
  qed
  have "ok (remove_from_server t v now (s\<lparr>this_cpu := c\<rparr>)) (\<lambda>s'. npsf_safe cpus (upd_task t ?f (s'\<lparr>clk := now\<rparr>)))"
    by (rule ok_mono [OF leave_safe [OF safe nw v en(2,5,6)]]) (use gone in blast)
  then show ?thesis using en(1) v by (simp add: npsf_task_exit_def ok_bind)
qed

lemma safe_same:
  assumes "npsf_safe cpus s" "control_of s' = control_of s" "tasks s' = tasks s" "doms s' = doms s" "rel_heaps s' = rel_heaps s"
    "tick_period s' = tick_period s" "\<And>v. highest s' v = highest s v" "on_rq s' = on_rq s" "clk s' = clk s"
  shows "npsf_safe cpus s'"
proof -
  obtain pl where safe: "config_ok cpus s" "owners_ok cpus s" "phase_ok cpus s" "npsf_inv pl s" "tasks_ok cpus pl s"
    using assms(1) by (rule npsf_safeE)
  have inv: "npsf_inv pl s'" by (rule npsf_inv_cong [OF safe(4)]) (simp_all add: assms(3-7))
  have "busy pl s' = busy pl s" by (simp add: busy_def fun_eq_iff assms(7))
  then have "tasks_ok cpus pl s'"
    by (intro tasks_ok_step [OF safe(5) assms(2)]) (use tasks_okD [OF safe(5)] in \<open>simp_all add: assms(3,8,9)\<close>)
  then show ?thesis by (intro npsf_safe_step [OF safe(1-3) assms(2) _ inv]) (simp_all add: assms(3))
qed

lemma safe_this_cpu: "npsf_safe cpus s \<Longrightarrow> npsf_safe cpus (s\<lparr>this_cpu := c\<rparr>)"
  by (erule safe_same) simp_all

lemma npsf_tick_safe: "npsf_safe cpus s \<Longrightarrow> ok (npsf_exec (NTick c) s) (npsf_safe cpus)"
  by (simp add: npsf_scheduler_tick_def need_resched_safe safe_this_cpu)

lemma npsf_reserve_tick_safe:
  assumes "npsf_safe cpus s" "npsf_enabled cpus (NReserveTick c now clock now') s"
  shows "ok (npsf_exec (NReserveTick c now clock now') s) (npsf_safe cpus)"
proof -
  let ?s = "s\<lparr>this_cpu := c\<rparr>" and ?rs = "npsf_reserves (entries s c)"
  have cfg: "config_ok cpus s" using assms(1) by (simp add: npsf_safe_def)
  have en: "c \<in> cpus" "time_origin s \<le> now'" "unat now' + 2 * window_start (reserves s) ?rs (length ?rs) < 2 ^ 64"
    "0 \<le> sint (now - should_expire (entries s c)) \<or> (\<exists>n. \<not> lt_before (clock n) (should_expire (entries s c)))"
    using assms(2) by simp_all
  have st: "static_of ?s = static_of s" by (simp add: static_of_def)
  have c: "all_servers_added s" "npsf_slot_length s \<noteq> 0" "?rs \<noteq> []" "distinct ?rs" "windows_ok s c" "windows_fill s c"
    "\<forall>r \<in> set ?rs. rsv_server (reserves s r) \<noteq> None"
    using cfg en(1) unfolding config_ok_def by blast+
  obtain e where e: "get_next_reserve_switch_time c now' ?s = Some e"
    using next_switch_spec [of ?s now' c] c en(2,3) by (auto simp: windows_static [OF st])
  obtain n where n: "0 \<le> sint (now - should_expire (entries ?s c)) \<or> \<not> lt_before (clock n) (should_expire (entries ?s c))"
    using en(4) by auto
  have "npsf_safe cpus (upd_entry c (\<lambda>E. E\<lparr>should_expire := e, npsf_timer := Some (e, c)\<rparr>) ?s)"
    by (rule safe_same [OF assms(1)])
      (simp_all add: upd_entry_def control_of_def static_of_def fun_eq_iff)
  then show ?thesis
    using reserve_switch_tick_ends [OF e, where clock = clock and n = n and now = now] n c(1,3) need_resched_safe by simp
qed

section \<open>The sections of the scheduler\<close>

lemma serves_unique:
  assumes "config_ok cpus s" "owners_ok cpus s" "c \<in> cpus" "c' \<in> cpus" "serves s c v" "serves s c' v"
  shows "c = c'"
proof -
  obtain r r' where r: "cpu_reserve (entries s c) = Some r" "rsv_server (reserves s r) = Some v"
      "cpu_reserve (entries s c') = Some r'" "rsv_server (reserves s r') = Some v"
    using assms(5,6) by (auto simp: serves_def)
  have "curr_reserve (servers s v) = r" "r \<in> set (npsf_reserves (entries s c))" using assms(2,3) r by (force simp: owners_ok_def)+
  moreover have "curr_reserve (servers s v) = r'" "r' \<in> set (npsf_reserves (entries s c'))"
    using assms(2,4) r by (force simp: owners_ok_def)+
  ultimately show ?thesis using assms(1,3,4) unfolding config_ok_def by metis
qed

lemma phase_at_cong:
  assumes "phase_at s c ph" "static_of s' = static_of s" "cpu_reserve (entries s' c) = cpu_reserve (entries s c)"
    "\<And>x. is_realtime (tasks s' x) = is_realtime (tasks s x) \<and> domain (rt_param (tasks s' x)) = domain (rt_param (tasks s x))"
    "\<And>p v nxt. ph = Notifying p nxt \<Longrightarrow> rsv_server (reserves s p) = Some v \<Longrightarrow> curr_reserve (servers s v) = p \<Longrightarrow>
       curr_reserve (servers s' v) = p"
  shows "phase_at s' c ph"
proof -
  have ch: "chosen_ok s c nxt \<Longrightarrow> chosen_ok s' c nxt" for nxt
    by (simp add: chosen_ok_def serves_def assms(3) static_ofD [OF assms(2)] assms(4))
  show ?thesis
  proof (cases ph)
    case (Notifying p nxt)
    then obtain v where "rsv_server (reserves s p) = Some v" "curr_reserve (servers s v) = p" using assms(1) by auto
    then show ?thesis
      using Notifying assms(1) assms(5) [OF Notifying] ch by (auto simp: assms(3) static_ofD [OF assms(2)])
  qed (use assms(1) ch in \<open>simp_all add: assms(3) static_ofD [OF assms(2)]\<close>)
qed

text \<open>A section of the scheduler that leaves the tasks and the choices alone.\<close>

lemma part_safe:
  assumes "config_ok cpus s" "tasks_ok cpus pl s" "npsf_inv pl s'" "same_params s s'" "\<And>v. highest s' v = highest s v"
    "static_of s' = static_of s" "curr s' = curr s" "on_rq s' = on_rq s" "clk s' = clk s"
    "in_sched s' = (in_sched s)(c := Some ph)" "owners_ok cpus s'"
    "\<And>c' ph'. c' \<in> cpus \<Longrightarrow> c' \<noteq> c \<Longrightarrow> in_sched s c' = Some ph' \<Longrightarrow> phase_at s' c' ph'" "phase_at s' c ph"
    "\<And>n. in_flight s' c n \<Longrightarrow> \<not> waits pl n"
  shows "npsf_safe cpus s'"
proof -
  note par = same_paramsD [OF assms(4)]
  have bsy: "busy pl s' = busy pl s" by (simp add: busy_def fun_eq_iff assms(5))
  have other: "in_flight s' c' x = in_flight s c' x" if "c' \<noteq> c" for c' x using that by (simp add: in_flight_def assms(10))
  have "tasks_ok cpus pl s'"
    unfolding tasks_ok_def bsy assms(7-9) par
  proof (intro conjI allI ballI impI)
    show "\<not> waits pl x" if "c' \<in> cpus" "in_sched s' c' = None \<and> curr s c' = x \<or> in_flight s' c' x" for c' x
      using that assms(14) other tasks_okD(4,5) [OF assms(2)] by (cases "c' = c") (auto simp: assms(10))
    show "member_of cpus s' (tasks s' x)" if "is_realtime (tasks s x)" for x
      using tasks_okD(7) [OF assms(2) that] by (simp add: member_static [OF assms(6)]) (simp add: member_of_def par)
  qed (use tasks_okD(1-3,6) [OF assms(2)] in blast)+
  moreover have "phase_ok cpus s'" using assms(12,13) by (auto simp: phase_ok_def assms(10))
  ultimately show ?thesis
    using assms(1,3,11) config_static [OF assms(6)] unfolding npsf_safe_def by blast
qed

lemma choice_chosen:
  fixes s :: npsf_sys
  assumes "npsf_inv pl s" "serves s c v"
  shows "chosen_ok s c (highest s v)"
  using srv_okD(4,5) [OF npsf_invD(1) [OF assms(1)], of v] assms(2) by (auto simp: chosen_ok_def edf_ok_def)

lemma section_simps [simp]:
  fixes s :: npsf_sys
  shows "tasks (set_currently r b s) = tasks s" "highest (set_currently r b s) v = highest s v"
    "static_of (set_currently r b s) = static_of s" "curr (set_currently r b s) = curr s" "on_rq (set_currently r b s) = on_rq s"
    "clk (set_currently r b s) = clk s" "in_sched (set_currently r b s) = in_sched s" "entries (set_currently r b s) = entries s"
    "servers (set_currently r b s) = servers s" "rsv_server (reserves (set_currently r b s) r') = rsv_server (reserves s r')"
    "this_cpu (set_currently r b s) = this_cpu s" "next_npsf (reserves (set_currently r b s) r') = next_npsf (reserves s r')"
    "npsf_inv pl (set_currently r b s) = npsf_inv pl s"
proof -
  show "npsf_inv pl (set_currently r b s) = npsf_inv pl s"
    by (rule iffI; erule npsf_inv_cong) (simp_all add: set_currently_def upd_reserve_def)
qed (simp_all add: set_currently_def upd_reserve_def static_of_def fun_eq_iff)

lemma static_env [simp]:
  "static_of (s\<lparr>in_sched := i\<rparr>) = static_of s" "static_of (s\<lparr>this_cpu := c\<rparr>) = static_of s" "static_of (s\<lparr>clk := k\<rparr>) = static_of s"
  "static_of (upd_server v g s) = static_of s"
  by (simp_all add: static_of_def upd_server_def)

lemma in_sched_upd [simp]: "in_sched (upd_server v g s) = in_sched s" "in_sched (upd_entry c h s) = in_sched s"
  by (simp_all add: upd_server_def upd_entry_def)

lemma npsf_keep_safe:
  assumes "npsf_safe cpus s" "c \<in> cpus" "in_sched s c = Some (Keeping p)"
  shows "ok (npsf_exec (NPart c) s) (npsf_safe cpus)"
proof -
  obtain pl where safe: "config_ok cpus s" "owners_ok cpus s" "phase_ok cpus s" "npsf_inv pl s" "tasks_ok cpus pl s"
    using assms(1) by (rule npsf_safeE)
  have p: "cpu_reserve (entries s c) = Some p" using safe(3) assms(2,3) by (auto simp: phase_ok_def)
  then obtain v where v: "rsv_server (reserves s p) = Some v" using safe(2) assms(2) by (auto simp: owners_ok_def)
  let ?s = "(set_currently p True (s\<lparr>this_cpu := c\<rparr>))\<lparr>in_sched := (in_sched s)(c := Some (Chosen (highest s v)))\<rparr>"
  have "npsf_safe cpus ?s"
  proof (rule part_safe [OF safe(1,5)])
    show inv: "npsf_inv pl ?s" using safe(4) by simp
    show "phase_at ?s c (Chosen (highest s v))"
      using choice_chosen [OF inv, of c v] p v by (simp add: serves_def)
    show "owners_ok cpus ?s" using safe(2) by (simp add: owners_ok_def)
    show "phase_at ?s c' ph" if "c' \<in> cpus" "in_sched s c' = Some ph" for c' ph
      by (rule phase_at_cong [of s]) (use that safe(3) in \<open>simp_all add: phase_ok_def same_params_def\<close>)
    show "\<not> waits pl n" if "in_flight ?s c n" for n using that choice_busy [OF safe(4), of v n] by (auto simp: in_flight_def)
  qed (simp_all add: same_params_def)
  then show ?thesis using assms(3) v by (simp add: npsf_schedule_keep_def Let_def)
qed

text \<open>The next reserve does not own its server yet, and the CPU stays with the previous one.\<close>

lemma next_lost_safe:
  fixes n :: nat
  assumes "npsf_safe cpus s" "c \<in> cpus" "cpu_reserve (entries s c) = Some p"
  defines "s1 \<equiv> set_currently n True (s\<lparr>this_cpu := c\<rparr>)"
  shows "npsf_safe cpus
    ((set_currently n False (if b then upd_server v (\<lambda>S. S\<lparr>first_cpu_wants_ipi := True\<rparr>) s1 else s1))
      \<lparr>in_sched := (in_sched s)(c := Some (Keeping p))\<rparr>)" (is "npsf_safe cpus ?lost")
proof -
  obtain pl where safe: "config_ok cpus s" "owners_ok cpus s" "phase_ok cpus s" "npsf_inv pl s" "tasks_ok cpus pl s"
    using assms(1) by (rule npsf_safeE)
  define s2 where "s2 = (if b then upd_server v (\<lambda>S. S\<lparr>first_cpu_wants_ipi := True\<rparr>) s1 else s1)"
  have f: "tasks s2 = tasks s" "curr s2 = curr s" "on_rq s2 = on_rq s" "clk s2 = clk s" "in_sched s2 = in_sched s"
    "entries s2 = entries s" "rsv_server (reserves s2 r) = rsv_server (reserves s r)" "static_of s2 = static_of s"
    "curr_reserve (servers s2 x) = curr_reserve (servers s x)" "highest s2 x = highest s x" for r x
    by (auto simp: s2_def s1_def) (auto simp: upd_server_def)
  have "npsf_inv pl s1" using safe(4) by (simp add: s1_def)
  then have inv: "npsf_inv pl s2" by (rule npsf_inv_cong) (simp_all add: s2_def upd_server_def)
  show ?thesis
    unfolding s2_def [symmetric]
  proof (rule part_safe [OF safe(1,5)])
    show "owners_ok cpus ((set_currently n False s2)\<lparr>in_sched := (in_sched s)(c := Some (Keeping p))\<rparr>)"
      using safe(2) by (simp add: owners_ok_def f)
    show "phase_at ((set_currently n False s2)\<lparr>in_sched := (in_sched s)(c := Some (Keeping p))\<rparr>) c' ph"
      if "c' \<in> cpus" "in_sched s c' = Some ph" for c' ph
      by (rule phase_at_cong [of s]) (use that safe(3) in \<open>simp_all add: phase_ok_def same_params_def f\<close>)
    show "phase_at ((set_currently n False s2)\<lparr>in_sched := (in_sched s)(c := Some (Keeping p))\<rparr>) c (Keeping p)"
      using assms(3) by (simp add: f)
    show "\<not> waits pl x" if "in_flight ((set_currently n False s2)\<lparr>in_sched := (in_sched s)(c := Some (Keeping p))\<rparr>) c x" for x
      using that by (simp add: in_flight_def)
  qed (use inv in \<open>simp_all add: same_params_def f\<close>)
qed

text \<open>It owns its server, and the CPU switches to it.\<close>

lemma next_won_safe:
  assumes "npsf_safe cpus s" "c \<in> cpus" "cpu_reserve (entries s c) = Some p" "n \<in> set (npsf_reserves (entries s c))" "n \<noteq> p"
    "rsv_server (reserves s n) = Some v" "curr_reserve (servers s v) = n"
  shows "npsf_safe cpus ((upd_entry c (\<lambda>E. E\<lparr>cpu_reserve := Some n\<rparr>) (set_currently n True (s\<lparr>this_cpu := c\<rparr>)))
    \<lparr>in_sched := (in_sched s)(c := Some (Notifying p (highest s v)))\<rparr>)" (is "npsf_safe cpus ?won")
proof -
  obtain pl where safe: "config_ok cpus s" "owners_ok cpus s" "phase_ok cpus s" "npsf_inv pl s" "tasks_ok cpus pl s"
    using assms(1) by (rule npsf_safeE)
  obtain w where w: "rsv_server (reserves s p) = Some w" "curr_reserve (servers s w) = p" "p \<in> set (npsf_reserves (entries s c))"
    using safe(2) assms(2,3) by (force simp: owners_ok_def)
  have ent: "npsf_reserves (entries ?won x) = npsf_reserves (entries s x)"
    "cpu_reserve (entries ?won x) = (if x = c then Some n else cpu_reserve (entries s x))" "tasks ?won = tasks s"
    "servers ?won = servers s" "rsv_server (reserves ?won r) = rsv_server (reserves s r)" "static_of ?won = static_of s" for x r
    by (simp_all add: upd_entry_def static_of_def) (simp_all add: set_currently_def upd_reserve_def fun_eq_iff)
  show ?thesis
  proof (rule part_safe [OF safe(1,5)])
    have "npsf_inv pl (set_currently n True (s\<lparr>this_cpu := c\<rparr>))" using safe(4) by simp
    then show inv: "npsf_inv pl ?won" by (rule npsf_inv_cong) (simp_all add: upd_entry_def)
    have "serves ?won c v" unfolding serves_def ent using assms(6) by simp
    then show "phase_at ?won c (Notifying p (highest s v))"
      using choice_chosen [OF inv, of c v] assms(3,5) w unfolding phase_at.simps ent by simp
    show "owners_ok cpus ?won" using safe(2) assms(4,6,7) unfolding owners_ok_def ent by auto
    show "phase_at ?won c' ph" if "c' \<in> cpus" "c' \<noteq> c" "in_sched s c' = Some ph" for c' ph
      by (rule phase_at_cong [of s]) (use that safe(3) ent in \<open>simp_all add: phase_ok_def same_params_def\<close>)
    show "\<not> waits pl x" if "in_flight ?won c x" for x using that choice_busy [OF safe(4), of v x] by (auto simp: in_flight_def)
  qed (use ent in \<open>simp_all add: same_params_def upd_entry_def\<close>)
qed

lemma npsf_next_safe:
  assumes "npsf_safe cpus s" "c \<in> cpus" "in_sched s c = Some (Switching p n)"
  shows "ok (npsf_exec (NPart c) s) (npsf_safe cpus)"
proof -
  have cfg: "config_ok cpus s" "phase_ok cpus s" using assms(1) by (simp_all add: npsf_safe_def)
  have ph: "cpu_reserve (entries s c) = Some p" "n \<in> set (npsf_reserves (entries s c))" "n \<noteq> p"
    using cfg(2) assms(2,3) by (auto simp: phase_ok_def)
  obtain v where v: "rsv_server (reserves s n) = Some v" using cfg(1) assms(2) ph(2) unfolding config_ok_def by blast
  show ?thesis
  proof (cases "curr_reserve (servers s v) = n")
    case True
    then show ?thesis
      using assms(3) v next_won_safe [OF assms(1,2) ph v True] by (simp add: npsf_schedule_next_def Let_def)
  next
    case False
    then show ?thesis
      using assms(3) v next_lost_safe [where v = v and n = n and b = True, OF assms(1,2) ph(1)]
        next_lost_safe [where v = v and n = n and b = False, OF assms(1,2) ph(1)]
      by (simp add: npsf_schedule_next_def Let_def)
  qed
qed

text \<open>The server of the previous reserve goes to the next CPU.\<close>

lemma preempt_inv:
  fixes s :: npsf_sys and r :: nat
  assumes "npsf_inv pl s"
  defines "s' \<equiv> npsf_preempt r s"
  shows "npsf_inv pl s'" "same_params s s'" "servers s' = servers s" "cfg s' = cfg s"
proof -
  have f: "same_tasks s s'" "doms s' = doms s" "rel_heaps s' = rel_heaps s" "tick_period s' = tick_period s"
    "kstate.more s' = kstate.more s" "this_cpu s' = this_cpu s" "curr s' = curr s"
    by (simp_all add: s'_def npsf_preempt_def)
  show p: "same_params s s'" by (rule same_tasks_same_params [OF f(1)])
  show sv: "servers s' = servers s" by (rule npsf_more(1) [OF f(5)])
  show "cfg s' = cfg s" by (rule cfg_more [OF f(5-7)])
  have "queue_inv npsf_home pl s'" by (rule queue_inv_view [OF srv_okD(1) [OF npsf_invD(1) [OF assms(1)]] f(1-4)])
  then show "npsf_inv pl s'"
    using srv_ok_same [OF npsf_invD(1) [OF assms(1)] _ p sv] best_at_same [OF npsf_invD(2) [OF assms(1)] p] sv
    by (simp add: npsf_inv_def)
qed

definition handed_over where
  "handed_over v n pl s s' \<longleftrightarrow> npsf_inv pl s' \<and> same_params s s' \<and> (\<forall>x. highest s' x = highest s x) \<and>
     reserves s' = reserves s \<and> entries s' = entries s \<and> static_of s' = static_of s \<and> curr s' = curr s \<and>
     in_sched s' = in_sched s \<and> on_rq s' = on_rq s \<and> clk s' = clk s \<and>
     (\<forall>x. curr_reserve (servers s' x) = (if x = v then n else curr_reserve (servers s x)))"

lemma notify_hands_over:
  fixes s :: npsf_sys
  assumes "npsf_inv pl s" "rsv_server (reserves s p) = Some v" "next_npsf (reserves s p) = Some n" "curr_reserve (servers s v) = p"
  shows "ok (npsf_notify_next_cpu p s) (handed_over v n pl s)"
proof (cases "n = p")
  case True
  then show ?thesis using assms by (simp add: npsf_notify_next_cpu_def handed_over_def)
next
  case False
  define s1 where "s1 = upd_server v (\<lambda>S. S\<lparr>curr_reserve := n\<rparr>) s"
  define s2 where "s2 = upd_server v (\<lambda>S. S\<lparr>first_cpu_wants_ipi := False\<rparr>) s1"
  have inv: "npsf_inv pl s1" "npsf_inv pl s2"
    by (rule npsf_inv_cong [OF assms(1)]; simp add: s1_def s2_def upd_server_def)+
  have h1: "handed_over v n pl s s1" "handed_over v n pl s s2"
    using inv by (simp_all add: handed_over_def same_params_def s1_def s2_def upd_server_def static_of_def)
  note pre = preempt_inv [OF inv(2), of n]
  note c = cfg_control [OF pre(4)] cfgD [OF pre(4)]
  have "handed_over v n pl s (npsf_preempt n s2)"
    using h1(2) pre(1,3) same_params_trans [OF _ pre(2), of s] c control_ofD [OF c(1)] unfolding handed_over_def by simp
  then show ?thesis using assms(2,3) False h1(1) by (simp add: npsf_notify_next_cpu_def s1_def s2_def Let_def)
qed

lemma npsf_notify_safe:
  assumes "npsf_safe cpus s" "c \<in> cpus" "in_sched s c = Some (Notifying p nxt)"
  shows "ok (npsf_exec (NPart c) s) (npsf_safe cpus)"
proof -
  obtain pl where safe: "config_ok cpus s" "owners_ok cpus s" "phase_ok cpus s" "npsf_inv pl s" "tasks_ok cpus pl s"
    using assms(1) by (rule npsf_safeE)
  have pa: "phase_at s c (Notifying p nxt)" using safe(3) assms(2,3) unfolding phase_ok_def by blast
  then have ph: "p \<in> set (npsf_reserves (entries s c))" "cpu_reserve (entries s c) \<noteq> Some p" "chosen_ok s c nxt" by simp_all
  obtain v where v: "rsv_server (reserves s p) = Some v" "curr_reserve (servers s v) = p" using pa by auto
  have home: "rsv_cpu (reserves s r) = c'" if "c' \<in> cpus" "r \<in> set (npsf_reserves (entries s c'))" for r c'
    using safe(1) that unfolding config_ok_def by blast
  obtain n where n: "next_npsf (reserves s p) = Some n" using safe(1) assms(2) ph(1) unfolding config_ok_def by blast
  let ?s = "s\<lparr>this_cpu := c\<rparr>"
  have "npsf_safe cpus (s'\<lparr>in_sched := (in_sched s')(c := Some (Chosen nxt))\<rparr>)" (is "npsf_safe cpus ?t")
    if h: "handed_over v n pl ?s s'" for s'
  proof (rule part_safe [OF safe(1,5)])
    note d = h [unfolded handed_over_def]
    show par: "same_params s ?t" using d by (simp add: same_params_def)
    show st: "static_of ?t = static_of s" using d by simp
    show "owners_ok cpus ?t"
      unfolding owners_ok_def
    proof
      fix c' assume c': "c' \<in> cpus"
      then obtain r w where r: "cpu_reserve (entries s c') = Some r" "r \<in> set (npsf_reserves (entries s c'))"
        "rsv_server (reserves s r) = Some w" "curr_reserve (servers s w) = r" using safe(2) by (auto simp: owners_ok_def)
      have "w \<noteq> v" using home [OF c' r(2)] home [OF assms(2) ph(1)] r(1,4) v(2) ph(2) by auto
      then show "\<exists>r w. cpu_reserve (entries ?t c') = Some r \<and> r \<in> set (npsf_reserves (entries ?t c')) \<and>
        rsv_server (reserves ?t r) = Some w \<and> curr_reserve (servers ?t w) = r" using r d by auto
    qed
    show "phase_at ?t c' ph'" if c': "c' \<in> cpus" "c' \<noteq> c" "in_sched s c' = Some ph'" for c' ph'
    proof (rule phase_at_cong [OF _ st])
      show old: "phase_at s c' ph'" using c' safe(3) by (simp add: phase_ok_def)
      show "curr_reserve (servers ?t w) = q" if q: "ph' = Notifying q x" "curr_reserve (servers s w) = q" for q w x
      proof -
        have "q \<in> set (npsf_reserves (entries s c'))" using old q(1) by simp
        then have "w \<noteq> v" using home [OF c'(1)] home [OF assms(2) ph(1)] q(2) v(2) c'(2) by blast
        then show ?thesis using q(2) d by simp
      qed
    qed (use d same_paramsD(4,8) [OF par] in simp_all)
    show "phase_at ?t c (Chosen nxt)"
      using ph(3) d same_paramsD(4,8) [OF par] by (simp add: chosen_ok_def serves_def)
    show "\<not> waits pl x" if "in_flight ?t c x" for x
      using that tasks_okD(5) [OF safe(5) assms(2), of x] assms(3) by (auto simp: in_flight_def)
  qed (use h in \<open>simp_all add: handed_over_def\<close>)
  moreover have "ok (npsf_notify_next_cpu p ?s) (handed_over v n pl ?s)"
    by (rule notify_hands_over) (use safe(4) v n in simp_all)
  ultimately show ?thesis using assms(3) by (auto simp: npsf_schedule_notify_def ok_bind elim!: ok_mono)
qed

text \<open>The switch to the chosen task.\<close>

lemma npsf_finish_safe:
  assumes "npsf_safe cpus s" "npsf_enabled cpus (NFinish c idle) s"
  shows "ok (npsf_exec (NFinish c idle) s) (npsf_safe cpus)"
proof -
  obtain nxt where nxt: "in_sched s c = Some (Chosen nxt)"
      "\<And>c'. c' \<in> cpus \<Longrightarrow> c' \<noteq> c \<Longrightarrow> curr s c' \<noteq> (case nxt of Some n \<Rightarrow> n | None \<Rightarrow> idle)"
    and c: "c \<in> cpus" "\<not> is_realtime (tasks s idle)"
    using assms(2) by auto
  define s1 where "s1 = npsf_schedule_end nxt s"
  have s1: "npsf_safe cpus s1"
    unfolding s1_def npsf_schedule_end_def
    by (cases nxt) (auto intro!: npsf_linux_safe assms(1) simp: qview_def task_npsfid_def rt_simps)
  have f: "in_sched s1 = in_sched s" "curr s1 = curr s" "is_realtime (tasks s1 idle) = is_realtime (tasks s idle)"
    by (cases nxt; simp add: s1_def npsf_schedule_end_def rt_simps upd_task_def)+
  obtain pl where safe: "config_ok cpus s1" "owners_ok cpus s1" "phase_ok cpus s1" "npsf_inv pl s1" "tasks_ok cpus pl s1"
    using s1 by (rule npsf_safeE)
  let ?n = "case nxt of Some n \<Rightarrow> n | None \<Rightarrow> idle"
  let ?s = "s1\<lparr>curr := (curr s1)(c := ?n), in_sched := (in_sched s)(c := None)\<rparr>"
  have st: "static_of ?s = static_of s1" by (simp add: static_of_def)
  have nw: "\<not> waits pl ?n"
  proof (cases nxt)
    case None
    have "\<not> busy pl s1 idle" using tasks_okD(1) [OF safe(5)] c(2) f(3) by simp
    then show ?thesis using None by (auto simp: busy_def waits_def)
  next
    case (Some n)
    then show ?thesis using tasks_okD(5) [OF safe(5) c(1), of n] nxt(1) f(1) by (simp add: in_flight_def)
  qed
  have "tasks_ok cpus pl ?s"
    unfolding tasks_ok_def
  proof (intro conjI allI ballI impI)
    show "\<not> waits pl x" if "c' \<in> cpus" "in_sched ?s c' = None \<and> curr ?s c' = x \<or> in_flight ?s c' x" for c' x
      using that nw f(1,2) tasks_okD(4,5) [OF safe(5), of c'] by (cases "c' = c") (auto simp: in_flight_def)
    show "c' = c''" if "c' \<in> cpus" "c'' \<in> cpus" "curr ?s c' = curr ?s c''" for c' c''
      using that nxt(2) [of c'] nxt(2) [of c''] tasks_okD(6) [OF safe(5), of c' c''] f(2)
      by (cases "c' = c"; cases "c'' = c") simp_all
    show "busy pl ?s x \<longleftrightarrow> is_realtime (tasks ?s x) \<and> on_rq ?s x" for x using tasks_okD(1) [OF safe(5)] by simp
    show "get_release (tasks ?s x) \<le> clk ?s" if "busy pl ?s x" "\<not> waits pl x" for x using that tasks_okD(2) [OF safe(5)] by simp
    show "member_of cpus ?s (tasks ?s x)" if "is_realtime (tasks ?s x)" for x
      using that tasks_okD(7) [OF safe(5), of x] by (simp add: member_static [OF st])
  qed (use tasks_okD(3) [OF safe(5)] in simp)
  moreover have "phase_ok cpus ?s"
    unfolding phase_ok_def
  proof (intro ballI allI impI)
    fix c' ph assume c': "c' \<in> cpus" "in_sched ?s c' = Some ph"
    then have "phase_at s1 c' ph" using safe(3) f(1) by (auto simp: phase_ok_def split: if_splits)
    then show "phase_at ?s c' ph" by (rule phase_at_cong [OF _ st]) (simp_all add: same_params_def)
  qed
  moreover have "owners_ok cpus ?s" using safe(2) by (simp add: owners_ok_def)
  ultimately have "npsf_safe cpus ?s" using safe(1,4) config_static [OF st] unfolding npsf_safe_def by auto
  then show ?thesis using nxt(1) by (simp add: switch_to_def s1_def)
qed

text \<open>What the server of the previous reserve does: only the task that was running may start to wait.\<close>

definition served where
  "served pl prev v now s s' \<longleftrightarrow> (\<exists>pl'. npsf_inv pl' s' \<and> (\<forall>x. busy pl' s' x = busy pl s x) \<and>
     (\<forall>x. waits pl' x \<longrightarrow> waits pl x \<or> x = prev \<and> domain (rt_param (tasks s prev)) = Some v) \<and>
     (\<forall>x. busy pl s x \<longrightarrow> \<not> waits pl' x \<longrightarrow> get_release (tasks s' x) \<le> now)) \<and>
     (\<forall>x. is_realtime (tasks s' x) = is_realtime (tasks s x) \<and> domain (rt_param (tasks s' x)) = domain (rt_param (tasks s x)) \<and>
        task_npsfid (tasks s' x) = task_npsfid (tasks s x)) \<and> cfg s' = cfg s"

lemma job_completion_npsfid [simp]: "task_npsfid (npsf_job_completion t) = task_npsfid t"
  by (simp add: task_npsfid_def npsf_job_completion_def prepare_for_next_period_def rt_simps)

lemma complete_served:
  fixes s :: npsf_sys
  assumes "complete_post prev pl now s s'" "tasks_ok cpus pl s" "clk s \<le> now" "now < 2 ^ 63"
    "edf_ok (npsf_job_completion (tasks s prev))" "domain (rt_param (tasks s prev)) = Some v"
  shows "served pl prev v now s s'"
proof -
  let ?jc = "npsf_job_completion (tasks s prev)"
  obtain pl' where p: "npsf_inv pl' s'" "\<And>x. busy pl' s' x = busy pl s x"
    "\<And>x. waits pl' x \<longleftrightarrow> (if x = prev then \<not> is_released ?jc now else waits pl x)"
    and par: "same_params (upd_task prev npsf_job_completion s) s'" and cf: "cfg s' = cfg s"
    using assms(1) by (auto simp: complete_post_def)
  note q = same_paramsD [OF par]
  have rel: "get_release (tasks s' x) \<le> now" if "busy pl s x" "\<not> waits pl' x" for x
    using that p(3) [of x] is_released_small [of ?jc now] assms(4,5) order_trans [OF tasks_okD(2) [OF assms(2)] assms(3)] q(3) [of x]
    by (cases "x = prev") (simp_all add: edf_ok_def)
  show ?thesis
    unfolding served_def
  proof (intro conjI exI [of _ pl'] allI)
    show "busy pl' s' x = busy pl s x" for x by (rule p(2))
    show "waits pl' x \<longrightarrow> waits pl x \<or> x = prev \<and> domain (rt_param (tasks s prev)) = Some v" for x
      using p(3) assms(6) by simp
  qed (use p(1) rel cf in \<open>simp_all add: q(4,7,8)\<close>)
qed

lemma schedule_server_served:
  fixes s :: npsf_sys
  assumes "npsf_inv pl s" "tasks_ok cpus pl s" "clk s \<le> now" "now < 2 ^ 63" "\<not> waits pl prev"
    "is_realtime (tasks s prev) \<Longrightarrow> (is_running (tasks s prev) \<longleftrightarrow> on_rq s prev) \<and>
        edf_ok (npsf_job_completion (tasks s prev)) \<and> get_rt_period (tasks s prev) < 2 ^ 63"
    "is_realtime (tasks s prev) \<Longrightarrow> b \<Longrightarrow> domain (rt_param (tasks s prev)) = Some v"
  shows "ok (if is_realtime (tasks s prev) \<and> b then npsf_schedule_server prev v now s else Some s) (served pl prev v now s)"
proof -
  have stay: "served pl prev v now s s"
    unfolding served_def using assms(1) tasks_okD(2) [OF assms(2)] order_trans [OF _ assms(3)] by blast
  have "ok (npsf_schedule_server prev v now s) (served pl prev v now s)" if rt: "is_realtime (tasks s prev)" and b
  proof -
    note run = assms(6) [OF rt]
    have dom: "domain (rt_param (tasks s prev)) = Some v" by (rule assms(7) [OF rt \<open>b\<close>])
    show ?thesis
    proof (rule ok_mono [OF npsf_schedule_server_ok [OF assms(1) dom rt]], goal_cases)
      case (5 s')
      then show ?case
        using complete_served [OF _ assms(2-4) _ dom] run stay by (cases "completes (tasks s prev)") auto
    qed (use run tasks_okD(1) [OF assms(2), of prev] rt assms(5) choice_busy [OF assms(1), of v prev] in auto)
  qed
  then show ?thesis using stay by simp
qed

text \<open>It is neither about to run elsewhere nor running elsewhere.\<close>

lemma served_elsewhere:
  assumes "config_ok cpus s" "owners_ok cpus s" "phase_ok cpus s" "tasks_ok cpus pl s" "c \<in> cpus" "serves s c v"
    "c' \<in> cpus" "c' \<noteq> c" "in_sched s c' = None \<and> curr s c' = x \<or> in_flight s c' x"
  shows "\<not> (x = curr s c \<and> domain (rt_param (tasks s (curr s c))) = Some v)"
proof
  assume x: "x = curr s c \<and> domain (rt_param (tasks s (curr s c))) = Some v"
  then have "in_flight s c' x" using assms(8,9) tasks_okD(6) [OF assms(4,5,7)] by auto
  then have "chosen_ok s c' (Some x)"
    using assms(3,7) unfolding phase_ok_def in_flight_def by (metis phase_at.simps(1,4))
  then have "serves s c' v" using x by (auto simp: chosen_ok_def)
  then show False using serves_unique [OF assms(1,2,5,7,6)] assms(8) by simp
qed

lemma served_safe:
  fixes ph :: sched_phase
  assumes "config_ok cpus s" "owners_ok cpus s" "phase_ok cpus s" "npsf_inv pl s" "tasks_ok cpus pl s" "c \<in> cpus" "serves s c v"
    "served pl (curr s c) v now (s\<lparr>this_cpu := c\<rparr>) s1" "now < 2 ^ 63"
  defines "t \<equiv> s1\<lparr>in_sched := (in_sched s1)(c := Some ph), clk := now\<rparr>"
  assumes "phase_at t c ph" "\<And>x. in_flight t c x \<Longrightarrow> \<exists>w. highest s1 w = Some x"
  shows "npsf_safe cpus t"
proof -
  obtain pl' where p: "npsf_inv pl' s1" "\<And>x. busy pl' s1 x = busy pl s x"
    "\<And>x. waits pl' x \<Longrightarrow> waits pl x \<or> x = curr s c \<and> domain (rt_param (tasks s (curr s c))) = Some v"
    "\<And>x. busy pl s x \<Longrightarrow> \<not> waits pl' x \<Longrightarrow> get_release (tasks s1 x) \<le> now" and cf: "cfg s1 = cfg (s\<lparr>this_cpu := c\<rparr>)"
    using assms(8) by (auto simp: served_def)
  have q: "is_realtime (tasks s1 x) = is_realtime (tasks s x)" "domain (rt_param (tasks s1 x)) = domain (rt_param (tasks s x))"
    "task_npsfid (tasks s1 x) = task_npsfid (tasks s x)" for x
    using assms(8) by (simp_all add: served_def)
  note ctl = cfg_control [OF cf, simplified]
  note d = control_ofD [OF ctl(1)]
  have st: "static_of t = static_of s" using d(1) by (simp add: t_def)
  have "tasks_ok cpus pl' t"
    unfolding tasks_ok_def
  proof (intro conjI allI ballI impI)
    show "\<not> waits pl' x" if c': "c' \<in> cpus" "in_sched t c' = None \<and> curr t c' = x \<or> in_flight t c' x" for c' x
    proof (cases "c' = c")
      case True
      then show ?thesis using c' assms(12) choice_busy [OF p(1)] by (auto simp: t_def)
    next
      case False
      then have old: "in_sched s c' = None \<and> curr s c' = x \<or> in_flight s c' x"
        using c'(2) d(4,5) by (simp add: t_def in_flight_def)
      show ?thesis
        using p(3) [of x] served_elsewhere [OF assms(1-3,5-7) c'(1) False old] old tasks_okD(4,5) [OF assms(5) c'(1)] by blast
    qed
    show "c' = c''" if "c' \<in> cpus" "c'' \<in> cpus" "curr t c' = curr t c''" for c' c''
      using that tasks_okD(6) [OF assms(5), of c' c''] d(5) by (simp add: t_def)
    show "busy pl' t x \<longleftrightarrow> is_realtime (tasks t x) \<and> on_rq t x" for x
      using p(2) tasks_okD(1) [OF assms(5), of x] ctl(2) q by (simp add: t_def)
    show "get_release (tasks t x) \<le> clk t" if "busy pl' t x" "\<not> waits pl' x" for x using that p(2,4) by (simp add: t_def)
    show "member_of cpus t (tasks t x)" if "is_realtime (tasks t x)" for x
      using that tasks_okD(7) [OF assms(5), of x] q by (simp add: member_static [OF st]) (simp add: t_def member_of_def)
  qed (use assms(9) in \<open>simp add: t_def\<close>)
  moreover have "phase_at t c' ph'" if c': "c' \<in> cpus" "in_sched t c' = Some ph'" for c' ph'
  proof (cases "c' = c")
    case False
    then have "phase_at s c' ph'" using c' assms(3) d(4) by (auto simp: phase_ok_def t_def)
    then show ?thesis by (rule phase_at_cong [OF _ st]) (use q d in \<open>simp_all add: t_def\<close>)
  qed (use c' assms(11) in \<open>simp add: t_def\<close>)
  moreover have "owners_ok cpus t"
    using assms(2) owners_control [OF ctl(1), of cpus] by (simp add: t_def owners_ok_def)
  ultimately show ?thesis
    using assms(1) p(1) config_static [OF st, of cpus] unfolding npsf_safe_def phase_ok_def t_def by auto
qed

text \<open>The reserve of a CPU at a time, and the server of a task that has the number of a reserve.\<close>

lemma current_reserve_on:
  assumes "config_ok cpus s" "c \<in> cpus" "time_origin s \<le> now"
  shows "\<exists>n \<in> set (npsf_reserves (entries s c)). get_current_reserve c now s = Some n"
proof -
  have w: "npsf_slot_length s \<noteq> 0" "windows_ok s c" "windows_fill s c" using assms(1,2) unfolding config_ok_def by blast+
  note spec = get_current_reserve_spec [OF w(1) assms(3) w(2)]
  have "get_current_reserve c now s \<noteq> None"
    using spec(2) w(3) slot_offset_less [OF w(1), of now] by (auto simp: windows_fill_def Let_def)
  then obtain n where "get_current_reserve c now s = Some n" by blast
  then show ?thesis using spec(1) [of n] by (metis nth_mem)
qed

lemma member_server:
  assumes "config_ok cpus s" "member_of cpus s t" "p \<in> used cpus s" "task_npsfid t = rsv_id (reserves s p)"
  shows "domain (rt_param t) = rsv_server (reserves s p)"
  using assms unfolding config_ok_def member_of_def by metis

text \<open>The first section of the scheduler.\<close>

lemma npsf_prev_served:
  assumes "config_ok cpus s" "owners_ok cpus s" "npsf_inv pl s" "tasks_ok cpus pl s" "npsf_enabled cpus (NSchedule c now now') s"
  shows "\<exists>p n v s1. cpu_reserve (entries s c) = Some p \<and> n \<in> set (npsf_reserves (entries s c)) \<and>
    get_current_reserve c now (s\<lparr>this_cpu := c\<rparr>) = Some n \<and>
    rsv_server (reserves s p) = Some v \<and> served pl (curr s c) v now' (s\<lparr>this_cpu := c\<rparr>) s1 \<and>
    npsf_schedule_prev (curr s c) now now' (s\<lparr>this_cpu := c\<rparr>) =
      Some (if p = n then (Chosen (highest s1 v), s1) else (Switching p n, set_currently p False s1))"
proof -
  let ?s = "s\<lparr>this_cpu := c\<rparr>"
  have en: "c \<in> cpus" "in_sched s c = None" "clk s \<le> now" "now \<le> now'" "now' < 2 ^ 63" "time_origin s \<le> now"
    "is_realtime (tasks s (curr s c)) \<Longrightarrow> (is_running (tasks s (curr s c)) \<longleftrightarrow> on_rq s (curr s c)) \<and>
        edf_ok (npsf_job_completion (tasks s (curr s c))) \<and> get_rt_period (tasks s (curr s c)) < 2 ^ 63"
    using assms(5) by simp_all
  obtain p v where p: "cpu_reserve (entries s c) = Some p" "p \<in> set (npsf_reserves (entries s c))" "rsv_server (reserves s p) = Some v"
    using assms(2) en(1) by (auto simp: owners_ok_def)
  have cfg0: "config_ok cpus ?s" using assms(1) config_static [of ?s s] by simp
  obtain n where n: "n \<in> set (npsf_reserves (entries s c))" "get_current_reserve c now ?s = Some n"
    using current_reserve_on [OF cfg0 en(1)] en(6) by auto
  have added: "all_servers_added s" using assms(1) by (simp add: config_ok_def)
  let ?b = "task_npsfid (tasks s (curr s c)) = rsv_id (reserves s p)"
  have "ok (if is_realtime (tasks ?s (curr s c)) \<and> ?b then npsf_schedule_server (curr s c) v now' ?s else Some ?s)
      (served pl (curr s c) v now' ?s)"
  proof (rule schedule_server_served [of _ _ cpus])
    have "control_of ?s = control_of s" by simp
    then show "tasks_ok cpus pl ?s"
      by (rule tasks_ok_step [OF assms(4)]) (use tasks_okD [OF assms(4)] in simp_all)
    show "domain (rt_param (tasks ?s (curr s c))) = Some v" if "is_realtime (tasks ?s (curr s c))" ?b
      using member_server [OF assms(1) tasks_okD(7) [OF assms(4)], of "curr s c" p] that p(2,3) en(1) by (auto simp: used_def)
    show "clk ?s \<le> now'" using en(3,4) by simp
    show "\<not> waits pl (curr s c)" by (rule tasks_okD(4) [OF assms(4) en(1,2)])
  qed (use assms(3) en in auto)
  then obtain s1 where s1: "(if is_realtime (tasks s (curr s c)) \<and> ?b then npsf_schedule_server (curr s c) v now' ?s else Some ?s) = Some s1"
    "served pl (curr s c) v now' ?s s1" by (auto simp: ok_iff_ex)
  have "npsf_reserves (entries s c) \<noteq> []" using p(2) by auto
  then have "npsf_schedule_prev (curr s c) now now' ?s =
      Some (if p = n then (Chosen (highest s1 v), s1) else (Switching p n, set_currently p False s1))"
    unfolding npsf_schedule_prev_def using added p(1,3) n(2) s1(1) by (simp add: no_reserves_def)
  then show ?thesis using p(1,3) n s1(2) by blast
qed

lemma npsf_schedule_safe:
  assumes "npsf_safe cpus s" "npsf_enabled cpus (NSchedule c now now') s"
  shows "ok (npsf_exec (NSchedule c now now') s) (npsf_safe cpus)"
proof -
  obtain pl where safe: "config_ok cpus s" "owners_ok cpus s" "phase_ok cpus s" "npsf_inv pl s" "tasks_ok cpus pl s"
    using assms(1) by (rule npsf_safeE)
  let ?s = "s\<lparr>this_cpu := c\<rparr>"
  have c: "c \<in> cpus" "now' < 2 ^ 63" using assms(2) by simp_all
  obtain p n v s1 where p: "cpu_reserve (entries s c) = Some p" "n \<in> set (npsf_reserves (entries s c))" "rsv_server (reserves s p) = Some v"
    and s1: "served pl (curr s c) v now' ?s s1"
    and ex: "npsf_schedule_prev (curr s c) now now' ?s = Some (if p = n then (Chosen (highest s1 v), s1) else (Switching p n, set_currently p False s1))"
    using npsf_prev_served [OF safe(1,2,4,5) assms(2)] by blast
  have srv: "serves s c v" using p by (simp add: serves_def)
  have cf: "cfg s1 = cfg ?s" using s1 by (simp add: served_def)
  note d = cfgD [OF cf]
  note step = served_safe [OF safe c(1) srv s1 c(2)]
  obtain pl' where inv: "npsf_inv pl' s1" using s1 by (auto simp: served_def)
  let ?t = "\<lambda>ph. s1\<lparr>in_sched := (in_sched s1)(c := Some ph), clk := now'\<rparr>"
  have "npsf_safe cpus (?t (Chosen (highest s1 v)))"
  proof (rule step)
    have "serves (?t (Chosen (highest s1 v))) c v" using srv d(1,2) by (simp add: serves_def)
    then show "phase_at (?t (Chosen (highest s1 v))) c (Chosen (highest s1 v))"
      using choice_chosen [of pl' "?t (Chosen (highest s1 v))" c v] inv by simp
  qed (auto simp: in_flight_def)
  moreover have "npsf_safe cpus ((set_currently p False s1)\<lparr>in_sched := (in_sched s1)(c := Some (Switching p n)), clk := now'\<rparr>)" if "p \<noteq> n"
  proof (rule safe_same)
    show "npsf_safe cpus (?t (Switching p n))"
      by (rule step) (use p that d(2) in \<open>auto simp: in_flight_def\<close>)
  qed (auto simp: control_of_def set_currently_def upd_reserve_def static_of_def)
  ultimately show ?thesis using ex by (auto split: if_splits)
qed

section \<open>The machine\<close>

text \<open>The system when all servers have been added: no real-time task, empty queues.\<close>

definition npsf_init :: "cpu_id set \<Rightarrow> npsf_sys \<Rightarrow> bool" where
  "npsf_init cpus s \<longleftrightarrow> config_ok cpus s \<and> owners_ok cpus s \<and> (\<forall>c. in_sched s c = None) \<and>
     (\<forall>d. ready_queue (doms s d) = bheap_init \<and> tobe_released (doms s d) = [] \<and> (\<forall>k. slot (doms s d) k = [])) \<and>
     (\<forall>r. rh_heap (rel_heaps s r) = bheap_init \<and> rh_timer (rel_heaps s r) = None) \<and>
     (\<forall>t. \<not> in_heap (rt_param (tasks s t)) \<and> \<not> is_realtime (tasks s t)) \<and> (\<forall>v. highest s v = None) \<and>
     inj (\<lambda>t. pid (tasks s t)) \<and> inj_on (curr s) cpus \<and> clk s < 2 ^ 63"

lemma npsf_init_safe:
  assumes "npsf_init cpus s"
  shows "npsf_safe cpus s"
proof -
  let ?pl = "\<lambda>_. Nowhere"
  have "queue_inv npsf_home ?pl s"
    using assms unfolding npsf_init_def queue_inv_def heaps_ok_def placed_def release_ok_def slot_of_def inj_def
    by (simp add: bq.empty_inv bq.empty_elems)
  then have "npsf_inv ?pl s"
    using assms by (simp add: npsf_init_def npsf_inv_def srv_ok_def best_at_def)
  moreover have "tasks_ok cpus ?pl s"
    using assms by (auto simp: npsf_init_def tasks_ok_def busy_def waits_def inj_on_def)
  moreover have "phase_ok cpus s" using assms by (simp add: npsf_init_def phase_ok_def)
  ultimately show ?thesis using assms unfolding npsf_safe_def npsf_init_def by blast
qed

lemma npsf_call_ok:
  assumes "npsf_safe cpus s" "npsf_enabled cpus call s"
  shows "ok (npsf_exec call s) (npsf_safe cpus)"
proof (cases call)
  case (NPart c)
  then obtain ph where ph: "in_sched s c = Some ph" "c \<in> cpus" "chosen_of (Some ph) = None" using assms(2) by auto
  then show ?thesis
    using npsf_keep_safe [OF assms(1)] npsf_next_safe [OF assms(1)] npsf_notify_safe [OF assms(1)] NPart
    by (cases ph) (simp_all only: chosen_of_def sched_phase.case option.case option.distinct)
next
  case (NLinux t f)
  then show ?thesis using npsf_linux_safe assms by simp
next
  case (NTick c)
  then show ?thesis using npsf_tick_safe [OF assms(1)] by simp
qed (insert assms, hypsubst, erule (1) npsf_schedule_safe npsf_finish_safe npsf_release_safe npsf_task_new_safe
    npsf_wake_up_safe npsf_block_safe npsf_exit_safe npsf_reserve_tick_safe)+

text \<open>NPS-F is a machine that never stops, whatever CPUs it runs on.\<close>

interpretation npsf_machine: kernel_machine "npsf_init cpus" "npsf_enabled cpus" npsf_exec "npsf_safe cpus" for cpus
  by unfold_locales (simp_all only: npsf_init_safe npsf_call_ok)

lemma inv_ready:
  assumes "npsf_inv pl s" "x \<in># ready_of s v"
  shows "\<exists>h. highest s v = Some h \<and> \<not> edf_ready_order s x h"
proof -
  have "pl x = Ready v" "best_at pl s v"
    using placed_simps(3) [OF srv_okD(2) [OF npsf_invD(1) [OF assms(1)]], of x v] assms(2) npsf_invD(2) [OF assms(1)] by auto
  then show ?thesis by (simp add: best_at_def)
qed

lemma safe_ready: "npsf_safe cpus s \<Longrightarrow> x \<in># ready_of s v \<Longrightarrow> \<exists>h. highest s v = Some h \<and> \<not> edf_ready_order s x h"
  unfolding npsf_safe_def using inv_ready by blast

text \<open>What \<^verbatim>\<open>npsf_schedule\<close> decides if nothing comes between its sections.\<close>

definition runs_best :: "tid option \<Rightarrow> nat \<Rightarrow> npsf_sys \<Rightarrow> bool" where
  "runs_best nxt v s \<longleftrightarrow> nxt = highest s v \<and> (\<forall>x. x \<in># ready_of s v \<longrightarrow> (\<exists>h. nxt = Some h \<and> \<not> edf_ready_order s x h))"

lemma runs_best_end:
  assumes "npsf_inv pl s"
  shows "runs_best (highest s v) v (npsf_schedule_end (highest s v) s)"
proof -
  let ?s = "npsf_schedule_end (highest s v) s"
  have "npsf_inv pl ?s"
    by (rule npsf_inv_cong [OF assms]; cases "highest s v"; simp add: npsf_schedule_end_def qview_def rt_simps)
  then have "x \<in># ready_of ?s v \<Longrightarrow> \<exists>h. highest ?s v = Some h \<and> \<not> edf_ready_order ?s x h" for x by (rule inv_ready)
  moreover have "highest ?s v = highest s v" by (cases "highest s v") (simp_all add: npsf_schedule_end_def)
  ultimately show ?thesis unfolding runs_best_def by metis
qed

lemma schedule_end_simps [simp]: "entries (npsf_schedule_end n s) = entries s" "servers (npsf_schedule_end n s) = servers s"
  by (cases n; simp add: npsf_schedule_end_def)+

definition schedule_outcome where
  "schedule_outcome c p n v w s nxt s' \<longleftrightarrow>
     (if curr_reserve (servers s v) = n
      then cpu_reserve (entries s' c) = Some n \<and> runs_best nxt v s' \<and>
        (p = n \<or> next_npsf (reserves s p) = Some (curr_reserve (servers s' w)))
      else cpu_reserve (entries s' c) = Some p \<and> runs_best nxt w s')"

lemma lost_outcome:
  fixes s :: npsf_sys
  assumes "npsf_inv pl s" "rsv_server (reserves s n) = Some v" "rsv_server (reserves s p) = Some w" "curr_reserve (servers s v) \<noteq> n"
  shows "ok (Option.bind (npsf_schedule_part (Switching p n) s) (\<lambda>(ph, s). npsf_schedule_part ph s))
    (\<lambda>(ph, s'). ph = Chosen (highest s' w) \<and> npsf_inv pl s' \<and> entries s' = entries s)"
proof -
  let ?s1 = "set_currently n True s"
  define s2 where "s2 = (if first_reserve (servers s v) = n then upd_server v (\<lambda>S. S\<lparr>first_cpu_wants_ipi := True\<rparr>) ?s1 else ?s1)"
  have "npsf_inv pl ?s1" using assms(1) by simp
  then have "npsf_inv pl s2" by (rule npsf_inv_cong) (simp_all add: s2_def upd_server_def)
  moreover have "entries s2 = entries s" "rsv_server (reserves s2 p) = Some w"
    using assms(3) by (simp_all add: s2_def) (simp_all add: upd_server_def)
  ultimately show ?thesis
    using assms(2,4) by (simp add: npsf_schedule_next_def npsf_schedule_keep_def s2_def [symmetric] Let_def split del: if_split)
qed

lemma won_outcome:
  fixes s :: npsf_sys
  assumes "npsf_inv pl s" "rsv_server (reserves s n) = Some v" "rsv_server (reserves s p) = Some w"
    "curr_reserve (servers s v) = n" "curr_reserve (servers s w) = p" "next_npsf (reserves s p) = Some n'"
  shows "ok (Option.bind (npsf_schedule_part (Switching p n) s) (\<lambda>(ph, s). npsf_schedule_part ph s))
    (\<lambda>(ph, s'). ph = Chosen (highest s' v) \<and> npsf_inv pl s' \<and> cpu_reserve (entries s' (this_cpu s)) = Some n \<and>
       curr_reserve (servers s' w) = n')"
proof -
  define s1 where "s1 = upd_entry (this_cpu s) (\<lambda>E. E\<lparr>cpu_reserve := Some n\<rparr>) (set_currently n True s)"
  have "npsf_inv pl (set_currently n True s)" using assms(1) by simp
  then have inv: "npsf_inv pl s1" by (rule npsf_inv_cong) (simp_all add: s1_def upd_entry_def)
  have f: "rsv_server (reserves s1 p) = Some w" "next_npsf (reserves s1 p) = Some n'" "servers s1 = servers s"
    "cpu_reserve (entries s1 (this_cpu s)) = Some n"
    using assms(3,6) by (simp_all add: s1_def upd_entry_def)
  have "ok (npsf_notify_next_cpu p s1) (handed_over w n' pl s1)"
    by (rule notify_hands_over [OF inv f(1,2)]) (simp add: f(3) assms(5))
  then have "ok (npsf_schedule_part (Notifying p (highest s v)) s1) (\<lambda>(ph, s'). ph = Chosen (highest s' v) \<and> npsf_inv pl s' \<and>
      cpu_reserve (entries s' (this_cpu s)) = Some n \<and> curr_reserve (servers s' w) = n')"
    using f by (auto simp: npsf_schedule_notify_def ok_bind handed_over_def elim!: ok_mono)
  then show ?thesis
    using assms(2,4) by (simp add: npsf_schedule_next_def s1_def Let_def)
qed

lemma npsf_schedule_outcome:
  assumes "npsf_safe cpus s" "npsf_enabled cpus (NSchedule c now now') s" "this_cpu s = c" "cpu_reserve (entries s c) = Some p"
    "get_current_reserve c now s = Some n" "rsv_server (reserves s p) = Some w" "rsv_server (reserves s n) = Some v"
  shows "ok (npsf_schedule (curr s c) now now' s) (\<lambda>(nxt, s'). schedule_outcome c p n v w s nxt s')"
proof -
  obtain pl where safe: "config_ok cpus s" "owners_ok cpus s" "phase_ok cpus s" "npsf_inv pl s" "tasks_ok cpus pl s"
    using assms(1) by (rule npsf_safeE)
  have c: "c \<in> cpus" using assms(2) by simp
  have tc: "s\<lparr>this_cpu := c\<rparr> = s" using assms(3) by simp
  obtain s1 where s1: "served pl (curr s c) w now' s s1"
    and ex: "npsf_schedule_prev (curr s c) now now' s = Some (if p = n then (Chosen (highest s1 w), s1) else (Switching p n, set_currently p False s1))"
    using npsf_prev_served [OF safe(1,2,4,5) assms(2)] assms(4-6) unfolding tc by auto
  obtain pl' where inv: "npsf_inv pl' s1" using s1 by (auto simp: served_def)
  have "cfg s1 = cfg s" using s1 by (simp add: served_def)
  note d = cfgD [OF this]
  have r: "p \<in> set (npsf_reserves (entries s c))" "curr_reserve (servers s w) = p"
    using safe(2) c assms(4,6) by (force simp: owners_ok_def)+
  obtain n' where n': "next_npsf (reserves s p) = Some n'" using safe(1) c r(1) unfolding config_ok_def by blast
  let ?s2 = "set_currently p False s1"
  consider (same) "p = n" | (lost) "p \<noteq> n" "curr_reserve (servers s v) \<noteq> n" | (won) "p \<noteq> n" "curr_reserve (servers s v) = n" by blast
  then show ?thesis
  proof cases
    case same
    then show ?thesis
      using ex assms(4,6,7) r(2) runs_best_end [OF inv, of w] d(2) by (simp add: npsf_schedule_def schedule_outcome_def)
  next
    case lost
    then have "ok (Option.bind (npsf_schedule_part (Switching p n) ?s2) (\<lambda>(ph, s). npsf_schedule_part ph s))
        (\<lambda>(ph, s'). ph = Chosen (highest s' w) \<and> npsf_inv pl' s' \<and> entries s' = entries ?s2)"
      by (intro lost_outcome [where v = v]) (use inv assms(6,7) d in simp_all)
    then show ?thesis
      using ex lost assms(4) runs_best_end [of pl'] d(2)
      by (auto simp: npsf_schedule_def schedule_outcome_def ok_bind elim!: ok_mono)
  next
    case won
    then have "ok (Option.bind (npsf_schedule_part (Switching p n) ?s2) (\<lambda>(ph, s). npsf_schedule_part ph s))
        (\<lambda>(ph, s'). ph = Chosen (highest s' v) \<and> npsf_inv pl' s' \<and> cpu_reserve (entries s' (this_cpu ?s2)) = Some n \<and>
          curr_reserve (servers s' w) = n')"
      by (intro won_outcome) (use inv assms(6,7) d r(2) n' in simp_all)
    then show ?thesis
      using ex won n' runs_best_end [of pl'] d(6) assms(3)
      by (auto simp: npsf_schedule_def schedule_outcome_def ok_bind elim!: ok_mono)
  qed
qed

lemma safe_flight:
  assumes "npsf_safe cpus s" "c \<in> cpus" "in_flight s c n"
  shows "\<exists>v. domain (rt_param (tasks s n)) = Some v \<and> serves s c v"
proof -
  have "phase_ok cpus s" using assms(1) by (simp add: npsf_safe_def)
  then have "chosen_ok s c (Some n)"
    using assms(2,3) unfolding phase_ok_def in_flight_def by (metis phase_at.simps(1,4))
  then show ?thesis by (auto simp: chosen_ok_def)
qed

lemma safe_serves: "npsf_safe cpus s \<Longrightarrow> c \<in> cpus \<Longrightarrow> c' \<in> cpus \<Longrightarrow> serves s c v \<Longrightarrow> serves s c' v \<Longrightarrow> c = c'"
  unfolding npsf_safe_def using serves_unique by blast

section \<open>Properties\<close>

text \<open>
  C34: NPS-F with the sections of \<^verbatim>\<open>npsf_schedule\<close>, the timers and the calls of Linux in any order, on any
  set of CPUs. No call stops the kernel. In every reachable state the highest-priority job of a server
  is the one that the plugin stores in \<^verbatim>\<open>highest_prio\<close>, no two CPUs run the same server, although the
  CPUs read the clock independently, and no task is about to run on two CPUs.
\<close>

theorem npsf_reachable_safe:
  assumes "reachable (npsf_init cpus) (npsf_enabled cpus) npsf_exec s"
  shows "(npsf_enabled cpus call s \<longrightarrow> npsf_exec call s \<noteq> None) \<and>
    (\<forall>v x. x \<in># ready_of s v \<longrightarrow> (\<exists>h. highest s v = Some h \<and> \<not> edf_ready_order s x h)) \<and>
    (\<forall>c \<in> cpus. \<forall>c' \<in> cpus. \<forall>v. serves s c v \<longrightarrow> serves s c' v \<longrightarrow> c = c') \<and>
    (\<forall>c \<in> cpus. \<forall>c' \<in> cpus. \<forall>n. in_flight s c n \<longrightarrow> in_flight s c' n \<longrightarrow> c = c')"
proof -
  have safe: "npsf_safe cpus s" by (rule npsf_machine.reachable_inv [OF assms])
  have "c = c'" if "c \<in> cpus" "c' \<in> cpus" "in_flight s c n" "in_flight s c' n" for c c' n
    using safe_flight [OF safe that(1,3)] safe_flight [OF safe that(2,4)] safe_serves [OF safe that(1,2)] by auto
  then show ?thesis
    using npsf_machine.reachable_no_bug [OF assms, of call] safe_ready [OF safe] safe_serves [OF safe] by blast
qed

definition npsf_sample_sys :: npsf_sys where
  "npsf_sample_sys = npsf_state.extend npsf_sample (npsf_sys.fields (\<lambda>_. None) (\<lambda>_. True) 5500)"

lemma npsf_sample_sys_simps [simp]:
  "servers npsf_sample_sys = sample_server" "reserves npsf_sample_sys = sample_reserve" "entries npsf_sample_sys = sample_entry"
  "tasks npsf_sample_sys = npsf_sample_task" "in_sched npsf_sample_sys = (\<lambda>_. None)" "on_rq npsf_sample_sys = (\<lambda>_. True)"
  "clk npsf_sample_sys = 5500" "all_servers_added npsf_sample_sys" "npsf_slot_length npsf_sample_sys = 1000"
  "curr npsf_sample_sys = (\<lambda>c. c + 10)" "time_origin npsf_sample_sys = 5000" "doms npsf_sample_sys = doms npsf_sample"
  "rel_heaps npsf_sample_sys = rel_heaps npsf_sample"
  by (simp_all add: npsf_sample_sys_def npsf_sample_def npsf_state.defs npsf_sys.defs)

lemma npsf_sample_sys_init: "npsf_init {0, 1} npsf_sample_sys"
proof -
  have "used {0, 1} npsf_sample_sys = {0, 1, 2, 3}" by (auto simp: used_def sample_entry_def)
  then have "config_ok {0, 1} npsf_sample_sys"
    by (simp add: config_ok_def windows_ok_def windows_fill_def window_start_def sample_entry_def sample_reserve_def)
  moreover have "owners_ok {0, 1} npsf_sample_sys"
    by (simp add: owners_ok_def sample_entry_def sample_reserve_def sample_server_def)
  moreover have "inj (\<lambda>t. pid (tasks npsf_sample_sys t))" by (simp add: npsf_sample_task_def sample_simps rt_simps inj_def)
  ultimately show ?thesis
    by (simp add: npsf_init_def npsf_sample_def sample_server_def inj_on_def npsf_sample_task_def sample_simps rt_simps
        is_realtime_def SCHED_LITMUS_def)
qed

lemma npsf_sample_arrival: "npsf_enabled {0, 1} (NTaskNew 0 2 6000 6001 6002) npsf_sample_sys"
  by (simp add: in_flight_def npsf_admit_task_def npsf_sample_task_def sample_simps rt_simps sample_entry_def sample_reserve_def
      is_realtime_def SCHED_LITMUS_def edf_ok_def release_at_def prepare_for_next_period_def task_npsfid_def)

theorem npsf_reachable_safe_witness:
  "npsf_exec (NTaskNew 0 2 6000 6001 6002) npsf_sample_sys \<noteq> None \<and> serves npsf_sample_sys 1 1 \<and> \<not> serves npsf_sample_sys 0 1"
proof -
  note t = npsf_reachable_safe [OF npsf_machine.reachable_start [OF npsf_sample_sys_init], of "NTaskNew 0 2 6000 6001 6002"]
  have run: "npsf_exec (NTaskNew 0 2 6000 6001 6002) npsf_sample_sys \<noteq> None"
    by (rule conjunct1 [OF t, THEN mp, OF npsf_sample_arrival])
  have srv: "serves npsf_sample_sys 1 1" by (simp add: serves_def sample_entry_def sample_reserve_def)
  have "\<not> serves npsf_sample_sys 0 1" using t srv by (metis insertI1 insertI2 zero_neq_one)
  then show ?thesis using run srv by blast
qed

text \<open>
  C33: the decision of \<^verbatim>\<open>npsf_schedule\<close> on a CPU whose sections are not interleaved with others. The reserve
  \<open>n\<close> whose window the time is in gets the CPU if it owns its server already, and then the server of the
  old reserve \<open>p\<close> is handed over to its next reserve; otherwise another CPU still runs the server, and
  the CPU stays with the server of \<open>p\<close>. Either way the task that runs is the highest-priority job of the
  server that the CPU runs, and none if the server has no job.
\<close>

theorem npsf_schedule_correct:
  assumes "npsf_safe cpus s" "npsf_enabled cpus (NSchedule c now now') s" "this_cpu s = c" "cpu_reserve (entries s c) = Some p"
    "get_current_reserve c now s = Some n" "rsv_server (reserves s p) = Some w" "rsv_server (reserves s n) = Some v"
  shows "ok (npsf_schedule (curr s c) now now' s) (\<lambda>(nxt, s').
    if curr_reserve (servers s v) = n
    then cpu_reserve (entries s' c) = Some n \<and> runs_best nxt v s' \<and>
      (p = n \<or> next_npsf (reserves s p) = Some (curr_reserve (servers s' w)))
    else cpu_reserve (entries s' c) = Some p \<and> runs_best nxt w s')"
  using npsf_schedule_outcome [OF assms] unfolding schedule_outcome_def by (elim ok_mono) auto

text \<open>CPU 1 leaves the server 1 to CPU 0 and turns to the server 2.\<close>

theorem npsf_schedule_correct_witness:
  "\<exists>nxt s'. npsf_schedule 11 7350 7360 (npsf_sample_sys\<lparr>this_cpu := 1\<rparr>) = Some (nxt, s') \<and>
     cpu_reserve (entries s' 1) = Some 3 \<and> curr_reserve (servers s' 1) = 1 \<and> runs_best nxt 2 s'"
proof -
  let ?s = "npsf_sample_sys\<lparr>this_cpu := 1\<rparr>"
  have safe: "npsf_safe {0, 1} ?s" by (rule safe_this_cpu [OF npsf_init_safe [OF npsf_sample_sys_init]])
  have "\<not> is_realtime (npsf_sample_task 11)"
    by (simp add: npsf_sample_task_def is_realtime_def SCHED_LITMUS_def)
  then have en: "npsf_enabled {0, 1} (NSchedule 1 7350 7360) ?s" by simp
  have n: "get_current_reserve 1 7350 ?s = Some 3"
    by (simp add: get_current_reserve_def delta_from_slot_begin_def slot_begin_def get_reserve_for_offset_def sample_entry_def
        sample_reserve_def Let_def)
  show ?thesis
    using npsf_schedule_correct [OF safe en _ _ n, of 2 1 2]
    by (auto simp: ok_iff_ex sample_entry_def sample_reserve_def sample_server_def)
qed

end
