(* ===== verification/Npsf_Setup.thy ===== *)
theory Npsf_Setup
  imports Npsf_Machine
begin

text \<open>
  Setting NPS-F up: the system call that adds a server with its reserves, the timers, the clean-up and
  the activation of the plugin. Memory is a pair of sets of live objects: an access to an object that
  is not live, and freeing it twice, is \<open>None\<close>, and a new reserve keeps the former contents of its
  memory where the code does not initialise it. Pointers are those of a 64-bit machine.
\<close>

section \<open>State\<close>

record npsf_setup = npsf_state +
  online :: "cpu_id list"
  saved_online :: nat
  rt_task_count :: nat
  reserves_allocated :: bool
  live_reserve :: "nat \<Rightarrow> bool"
  live_server :: "nat \<Rightarrow> bool"

text \<open>
  The arguments of the system call and what the kernel answers: the copies from user space, the
  allocations, the contents of the array on the stack, the word behind the array of budgets, and the
  clock.
\<close>

record add_server_env =
  id_fault :: bool
  user_id :: int
  budgets_mem :: bool
  user_budgets :: "nat \<Rightarrow> cpu_id option \<times> lt_t"
  budgets_fault :: bool
  server_mem :: "nat option"
  reserve_mem :: "nat \<Rightarrow> nat option"
  stack_array :: "nat \<Rightarrow> nat"
  beyond_budgets :: "cpu_id option"
  add_clock :: lt_t

section \<open>Adding a server\<close>

definition do_add_reserve ::
  "nat option \<Rightarrow> cpu_id \<Rightarrow> nat \<Rightarrow> int \<Rightarrow> lt_t \<Rightarrow> 'z npsf_setup_scheme \<Rightarrow> int \<times> 'z npsf_setup_scheme"
where
  "do_add_reserve mem c v i b s =
     (if i \<le> last_seen_npsf_id (entries s c) then (- EINVAL, s)
      else if rt_task_count s \<noteq> 0 then (- EACCES, s)
      else case mem of
        None \<Rightarrow> (- ENOMEM, s)
      | Some r \<Rightarrow>
          let s = s\<lparr>live_reserve := (live_reserve s)(r := True)\<rparr>;
              s = upd_reserve r (\<lambda>R. R\<lparr>rsv_server := Some v, rsv_id := i, rsv_budget := b, rsv_cpu := c\<rparr>) s;
              rs = npsf_reserves (entries s c) @ [r]
          in (0, upd_entry c (\<lambda>E. E\<lparr>npsf_reserves := rs, last_seen_npsf_id := i, cpu_reserve := Some (hd rs)\<rparr>) s))"

definition kickoff_timer :: "lt_t \<Rightarrow> cpu_id \<Rightarrow> 'z npsf_state_scheme \<Rightarrow> 'z npsf_state_scheme" where
  "kickoff_timer e c = upd_entry c (\<lambda>E. E\<lparr>npsf_timer := Some (e, c), should_expire := e\<rparr>)"

definition kickoff_timers :: "lt_t \<Rightarrow> 'z npsf_setup_scheme \<Rightarrow> 'z npsf_setup_scheme option" where
  "kickoff_timers now s = do {
     kickoff \<leftarrow> slot_begin (now + npsf_slot_length s * 2) s;
     let s = fold (kickoff_timer kickoff) (online s) s;
     Some (s\<lparr>timers_activated := True\<rparr>)
   }"

text \<open>
  The array of budgets after the copy from user space: the call copies \<^verbatim>\<open>sizeof(budgets)\<close> bytes, the size
  of a pointer, for every CPU, and an entry has 16 bytes, with the budget in the second half.
\<close>

definition copied_budgets :: "nat \<Rightarrow> (nat \<Rightarrow> cpu_id option \<times> lt_t) \<Rightarrow> nat \<Rightarrow> cpu_id option \<times> lt_t" where
  "copied_budgets n user i =
     (if 16 * i + 4 \<le> 8 * n then fst (user i) else None, if 16 * i + 16 \<le> 8 * n then snd (user i) else 0)"

definition budget_cpu :: "add_server_env \<Rightarrow> nat \<Rightarrow> nat \<Rightarrow> cpu_id option" where
  "budget_cpu env n i = (if i < n then fst (copied_budgets n (user_budgets env) i) else beyond_budgets env)"

definition budget_of :: "add_server_env \<Rightarrow> nat \<Rightarrow> nat \<Rightarrow> lt_t" where
  "budget_of env n i = snd (copied_budgets n (user_budgets env) i)"

text \<open>The first loop: \<open>ret\<close> is the last result, and \<open>Inl\<close> leaves the call with an error.\<close>

function add_reserves ::
  "add_server_env \<Rightarrow> nat \<Rightarrow> nat \<Rightarrow> nat \<Rightarrow> int \<Rightarrow> (nat \<Rightarrow> nat) \<Rightarrow> 'z npsf_setup_scheme \<Rightarrow>
    (int \<times> 'z npsf_setup_scheme) + (int \<times> (nat \<Rightarrow> nat) \<times> 'z npsf_setup_scheme)"
where
  "add_reserves env n v i ret arr s =
     (if budget_cpu env n i \<noteq> None \<and> i < n
      then case do_add_reserve (reserve_mem env i) (the (budget_cpu env n i)) v (user_id env) (budget_of env n i) s of
             (ret, s) \<Rightarrow>
               if ret < 0 then Inl (ret, s) else add_reserves env n v (i + 1) ret (arr(i := the (reserve_mem env i))) s
      else Inr (ret, arr, s))"
  by pat_completeness auto

termination by (relation "measure (\<lambda>(env, n, v, i, ret, arr, s). n - i)") auto

declare add_reserves.simps [simp del]

text \<open>The second loop: the reserves of a server form a ring.\<close>

definition next_of :: "add_server_env \<Rightarrow> nat \<Rightarrow> (nat \<Rightarrow> nat) \<Rightarrow> nat \<Rightarrow> nat" where
  "next_of env n arr i =
     (if i = 0 \<and> budget_cpu env n (i + 1) = None then arr i
      else if i + 1 < n \<and> (0 < i \<and> budget_cpu env n (i + 1) = None) then arr 0
      else arr (i + 1))"

function link_reserves :: "add_server_env \<Rightarrow> nat \<Rightarrow> (nat \<Rightarrow> nat) \<Rightarrow> nat \<Rightarrow> 'z npsf_setup_scheme \<Rightarrow> 'z npsf_setup_scheme" where
  "link_reserves env n arr i s =
     (if budget_cpu env n i \<noteq> None \<and> i < n
      then link_reserves env n arr (i + 1) (upd_reserve (arr i) (\<lambda>R. R\<lparr>next_npsf := Some (next_of env n arr i)\<rparr>) s)
      else s)"
  by pat_completeness auto

termination by (relation "measure (\<lambda>(env, n, arr, i, s). n - i)") auto

declare link_reserves.simps [simp del]

definition print_reserve :: "cpu_id \<Rightarrow> 'z npsf_setup_scheme \<Rightarrow> unit option" where
  "print_reserve c s =
     BUG_ON (list_ex (\<lambda>r. case rsv_server (reserves s r) of None \<Rightarrow> True | Some v \<Rightarrow> highest_prio (servers s v) \<noteq> None)
       (npsf_reserves (entries s c)))"

function print_reserves :: "add_server_env \<Rightarrow> nat \<Rightarrow> nat \<Rightarrow> 'z npsf_setup_scheme \<Rightarrow> unit option" where
  "print_reserves env n i s =
     (if budget_cpu env n i \<noteq> None \<and> i < n
      then do {
        print_reserve (the (budget_cpu env n i)) s;
        print_reserves env n (i + 1) s
      }
      else Some ())"
  by pat_completeness auto

termination by (relation "measure (\<lambda>(env, n, i, s). n - i)") auto

declare print_reserves.simps [simp del]

text \<open>The last server: every CPU starts with its first reserve, and a CPU without one is a stray pointer.\<close>

fun set_first_reserves :: "cpu_id list \<Rightarrow> 'z npsf_setup_scheme \<Rightarrow> 'z npsf_setup_scheme option" where
  "set_first_reserves [] s = Some s"
| "set_first_reserves (c # cs) s = do {
     r \<leftarrow> (case npsf_reserves (entries s c) of [] \<Rightarrow> None | r # _ \<Rightarrow> Some r);
     v \<leftarrow> rsv_server (reserves s r);
     let s = upd_server v (\<lambda>S. S\<lparr>curr_reserve := r\<rparr>) s;
     set_first_reserves cs (upd_entry c (\<lambda>E. E\<lparr>cpu_reserve := Some r\<rparr>) s)
   }"

definition sys_add_server :: "add_server_env \<Rightarrow> bool \<Rightarrow> 'z npsf_setup_scheme \<Rightarrow> (int \<times> 'z npsf_setup_scheme) option" where
  "sys_add_server env final s =
     (let n = saved_online s
      in if n \<noteq> length (online s) then Some (- EFAULT, s)
         else if id_fault env then Some (- EFAULT, s)
         else do {
           BUG_ON (\<not> budgets_mem env);
           (if budgets_fault env then Some (- EFAULT, s)
            else case server_mem env of
              None \<Rightarrow> Some (- ENOMEM, s)
            | Some v \<Rightarrow> do {
                let s = set_highest v None (edf_domain_init v (s\<lparr>live_server := (live_server s)(v := True)\<rparr>));
                (case add_reserves env n v 0 (- EFAULT) (stack_array env) s of
                   Inl e \<Rightarrow> Some e
                 | Inr (ret, arr, s) \<Rightarrow> do {
                     let s = upd_server v (\<lambda>S. S\<lparr>curr_reserve := arr 0, first_reserve := arr 0, first_cpu_wants_ipi := False\<rparr>) s;
                     let s = link_reserves env n arr 0 s;
                     print_reserves env n 0 s;
                     s \<leftarrow> (if final
                           then do {
                             s \<leftarrow> set_first_reserves (online s) s;
                             s \<leftarrow> kickoff_timers (add_clock env) s;
                             Some (s\<lparr>all_servers_added := True\<rparr>)
                           }
                           else Some s);
                     Some (ret, s\<lparr>reserves_allocated := True\<rparr>)
                   })
              })
         })"

section \<open>Timers, clean-up and activation\<close>




text \<open>The walk along a ring, which takes the server from the other reserves; every reserve on the way is accessed.\<close>

partial_function (option) detach_ring :: "nat \<Rightarrow> nat \<Rightarrow> 'z npsf_setup_scheme \<Rightarrow> 'z npsf_setup_scheme option" where
  "detach_ring tmp r s =
     (if \<not> live_reserve s r then None
      else case next_npsf (reserves s r) of
        None \<Rightarrow> Some s
      | Some n \<Rightarrow>
          if n = tmp then Some s
          else if \<not> live_reserve s n then None
          else detach_ring tmp n (upd_reserve n (\<lambda>R. R\<lparr>rsv_server := None\<rparr>) s))"

definition kfree_server :: "nat \<Rightarrow> 'z npsf_setup_scheme \<Rightarrow> 'z npsf_setup_scheme option" where
  "kfree_server v s = do {
     BUG_ON (\<not> live_server s v);
     Some (s\<lparr>live_server := (live_server s)(v := False)\<rparr>)
   }"

definition kfree_reserve :: "nat \<Rightarrow> 'z npsf_setup_scheme \<Rightarrow> 'z npsf_setup_scheme option" where
  "kfree_reserve r s = do {
     BUG_ON (\<not> live_reserve s r);
     Some (s\<lparr>live_reserve := (live_reserve s)(r := False)\<rparr>)
   }"

definition cleanup_reserve :: "nat \<Rightarrow> 'z npsf_setup_scheme \<Rightarrow> 'z npsf_setup_scheme option" where
  "cleanup_reserve r s = do {
     BUG_ON (\<not> live_reserve s r);
     s \<leftarrow> (if rsv_server (reserves s r) \<noteq> None
           then do {
             s \<leftarrow> detach_ring r r s;
             (case rsv_server (reserves s r) of None \<Rightarrow> Some s | Some v \<Rightarrow> kfree_server v s)
           }
           else Some s);
     kfree_reserve r s
   }"

fun cleanup_reserves :: "nat list \<Rightarrow> 'z npsf_setup_scheme \<Rightarrow> 'z npsf_setup_scheme option" where
  "cleanup_reserves [] s = Some s"
| "cleanup_reserves (r # rs) s = do {
     s \<leftarrow> cleanup_reserve r s;
     cleanup_reserves rs s
   }"

fun cleanup_npsf :: "cpu_id list \<Rightarrow> 'z npsf_setup_scheme \<Rightarrow> 'z npsf_setup_scheme option" where
  "cleanup_npsf [] s = Some s"
| "cleanup_npsf (c # cs) s = do {
     s \<leftarrow> cleanup_reserves (npsf_reserves (entries s c)) s;
     cleanup_npsf cs s
   }"

definition npsf_deactivate_plugin :: "'z npsf_setup_scheme \<Rightarrow> int" where
  "npsf_deactivate_plugin s = (if timers_activated s then - 1 else 0)"



definition exit_npsf :: "'z npsf_setup_scheme \<Rightarrow> 'z npsf_setup_scheme option" where
  "exit_npsf s =
     (if timers_activated s then Some (s\<lparr>timers_activated := False\<rparr>)
      else if reserves_allocated s then cleanup_npsf (online s) s
      else Some s)"

section \<open>The reserves of a new server\<close>

definition added :: "nat \<Rightarrow> cpu_id \<Rightarrow> nat \<Rightarrow> int \<Rightarrow> lt_t \<Rightarrow> 'z npsf_setup_scheme \<Rightarrow> 'z npsf_setup_scheme" where
  "added r c v i b s =
     upd_entry c (\<lambda>E. E\<lparr>npsf_reserves := npsf_reserves E @ [r], last_seen_npsf_id := i,
         cpu_reserve := Some (hd (npsf_reserves E @ [r]))\<rparr>)
       (upd_reserve r (\<lambda>R. R\<lparr>rsv_server := Some v, rsv_id := i, rsv_budget := b, rsv_cpu := c\<rparr>)
         (s\<lparr>live_reserve := (live_reserve s)(r := True)\<rparr>))"

lemma do_add_reserve_cases:
  "do_add_reserve mem c v i b s = (ret, s') \<Longrightarrow> \<not> ret < 0 \<Longrightarrow> \<exists>r. mem = Some r \<and> ret = 0 \<and> s' = added r c v i b s"
  by (auto simp: do_add_reserve_def added_def EINVAL_def EACCES_def ENOMEM_def Let_def upd_entry_def upd_reserve_def
      split: if_splits option.splits)

definition nth_reserve :: "add_server_env \<Rightarrow> nat \<Rightarrow> nat" where
  "nth_reserve env i = the (reserve_mem env i)"

definition added_nth :: "add_server_env \<Rightarrow> nat \<Rightarrow> nat \<Rightarrow> nat \<Rightarrow> 'z npsf_setup_scheme \<Rightarrow> 'z npsf_setup_scheme" where
  "added_nth env n v i = added (nth_reserve env i) (the (budget_cpu env n i)) v (user_id env) (budget_of env n i)"

text \<open>The number of entries up to the first one without a CPU, or the end.\<close>

definition stops_at :: "add_server_env \<Rightarrow> nat \<Rightarrow> nat \<Rightarrow> nat \<Rightarrow> bool" where
  "stops_at env n i m \<longleftrightarrow> i \<le> m \<and> (\<forall>j. i \<le> j \<longrightarrow> j < m \<longrightarrow> budget_cpu env n j \<noteq> None \<and> j < n) \<and>
     (budget_cpu env n m = None \<or> n \<le> m)"

lemma stops_at_step:
  assumes "stops_at env n (Suc i) m" "budget_cpu env n i \<noteq> None" "i < n"
  shows "stops_at env n i m"
proof -
  have "budget_cpu env n j \<noteq> None \<and> j < n" if "i \<le> j" "j < m" for j
    using that assms by (cases "j = i") (simp_all add: stops_at_def)
  then show ?thesis using assms(1) by (simp add: stops_at_def)
qed

lemma add_reserves_spec:
  "add_reserves env n v i ret arr s = Inr (ret', arr', s') \<Longrightarrow>
    \<exists>m. stops_at env n i m \<and> ret' = (if m = i then ret else 0) \<and> (\<forall>j. i \<le> j \<longrightarrow> j < m \<longrightarrow> reserve_mem env j \<noteq> None) \<and>
      arr' = (\<lambda>j. if i \<le> j \<and> j < m then nth_reserve env j else arr j) \<and> s' = fold (added_nth env n v) [i..<m] s"
proof (induction env n v i ret arr s rule: add_reserves.induct)
  case (1 env n v i ret arr s)
  show ?case
  proof (cases "budget_cpu env n i \<noteq> None \<and> i < n")
    case True
    obtain r1 s1 where d: "do_add_reserve (reserve_mem env i) (the (budget_cpu env n i)) v (user_id env) (budget_of env n i) s = (r1, s1)"
      by (metis surj_pair)
    have ok: "\<not> r1 < 0" "add_reserves env n v (i + 1) r1 (arr(i := the (reserve_mem env i))) s1 = Inr (ret', arr', s')"
      using 1(2) True d by (subst (asm) add_reserves.simps, simp split: if_splits)+
    obtain r where r: "reserve_mem env i = Some r" "r1 = 0"
      "s1 = added r (the (budget_cpu env n i)) v (user_id env) (budget_of env n i) s"
      using do_add_reserve_cases [OF d ok(1)] by blast
    obtain m where m: "stops_at env n (Suc i) m" "ret' = (if m = Suc i then r1 else 0)"
      "\<forall>j. Suc i \<le> j \<longrightarrow> j < m \<longrightarrow> reserve_mem env j \<noteq> None"
      "arr' = (\<lambda>j. if Suc i \<le> j \<and> j < m then nth_reserve env j else (arr(i := the (reserve_mem env i))) j)"
      "s' = fold (added_nth env n v) [Suc i..<m] s1"
      using 1(1) [OF True d [symmetric] ok] by auto
    have im: "i < m" using m(1) by (simp add: stops_at_def)
    have "s' = fold (added_nth env n v) [i..<m] s"
      using m(5) r(1,3) im by (simp add: upt_conv_Cons added_nth_def nth_reserve_def)
    moreover have "arr' = (\<lambda>j. if i \<le> j \<and> j < m then nth_reserve env j else arr j)"
      using im by (auto simp: m(4) fun_eq_iff nth_reserve_def)
    moreover have "reserve_mem env j \<noteq> None" if "i \<le> j" "j < m" for j
      using that m(3) r(1) by (cases "j = i") auto
    ultimately show ?thesis
      using stops_at_step [OF m(1)] True m(2) r(2) im by (intro exI [of _ m]) auto
  next
    case False
    then show ?thesis
      using 1(2) by (intro exI [of _ i], subst (asm) add_reserves.simps) (auto simp: stops_at_def)
  qed
qed

lemma add_reserves_error: "add_reserves env n v i ret arr s = Inl (ret', s') \<Longrightarrow> ret' < 0"
proof (induction env n v i ret arr s rule: add_reserves.induct)
  case (1 env n v i ret arr s)
  obtain r1 s1 where d: "do_add_reserve (reserve_mem env i) (the (budget_cpu env n i)) v (user_id env) (budget_of env n i) s = (r1, s1)"
    by (metis surj_pair)
  have c: "budget_cpu env n i \<noteq> None \<and> i < n"
    using 1(2) by (subst (asm) add_reserves.simps) (simp split: if_splits)
  then have "r1 < 0 \<and> ret' = r1 \<or> \<not> r1 < 0 \<and> add_reserves env n v (i + 1) r1 (arr(i := the (reserve_mem env i))) s1 = Inl (ret', s')"
    using 1(2) d by (subst (asm) add_reserves.simps) (simp split: if_splits)
  then show ?case using 1(1) [OF c d [symmetric]] by blast
qed

lemma link_reserves_spec:
  "stops_at env n i m \<Longrightarrow> link_reserves env n arr i s =
     fold (\<lambda>j. upd_reserve (arr j) (\<lambda>R. R\<lparr>next_npsf := Some (next_of env n arr j)\<rparr>)) [i..<m] s"
proof (induction env n arr i s rule: link_reserves.induct)
  case (1 env n arr i s)
  show ?case
  proof (cases "budget_cpu env n i \<noteq> None \<and> i < n")
    case True
    then have "i < m" using 1(2) unfolding stops_at_def by (metis leD le_neq_implies_less)
    moreover have "stops_at env n (i + 1) m" using 1(2) calculation by (auto simp: stops_at_def)
    ultimately show ?thesis
      using 1(1) [OF True] True by (subst link_reserves.simps) (simp add: upt_conv_Cons)
  next
    case False
    have "m = i" using 1(2) False unfolding stops_at_def by (metis le_neq_implies_less order_refl)
    then show ?thesis using False by (subst link_reserves.simps) auto
  qed
qed

lemma added_nth_simps [simp]:
  fixes s :: "'z npsf_setup_scheme"
  shows "servers (added_nth env n v i s) = servers s" "online (added_nth env n v i s) = online s"
    "live_server (added_nth env n v i s) = live_server s"
    "live_reserve (added_nth env n v i s) = (live_reserve s)(nth_reserve env i := True)"
    "reserves (added_nth env n v i s) = (reserves s)(nth_reserve env i := (reserves s (nth_reserve env i))
      \<lparr>rsv_server := Some v, rsv_id := user_id env, rsv_budget := budget_of env n i, rsv_cpu := the (budget_cpu env n i)\<rparr>)"
    "npsf_reserves (entries (added_nth env n v i s) c') =
      npsf_reserves (entries s c') @ (if c' = the (budget_cpu env n i) then [nth_reserve env i] else [])"
  by (simp_all add: added_nth_def added_def upd_entry_def upd_reserve_def)

lemma added_all:
  fixes s :: "'z npsf_setup_scheme" and env :: add_server_env and n v :: nat
  defines "s' \<equiv> \<lambda>m. fold (added_nth env n v) [0..<m] s"
  assumes "inj_on (nth_reserve env) {..<m}"
  shows "servers (s' m) = servers s" "online (s' m) = online s" "live_server (s' m) = live_server s"
    "live_reserve (s' m) r \<longleftrightarrow> live_reserve s r \<or> r \<in> nth_reserve env ` {..<m}"
    "i < m \<Longrightarrow> reserves (s' m) (nth_reserve env i) = (reserves s (nth_reserve env i))
      \<lparr>rsv_server := Some v, rsv_id := user_id env, rsv_budget := budget_of env n i, rsv_cpu := the (budget_cpu env n i)\<rparr>"
    "r \<notin> nth_reserve env ` {..<m} \<Longrightarrow> reserves (s' m) r = reserves s r"
    "npsf_reserves (entries (s' m) c) =
      npsf_reserves (entries s c) @ map (nth_reserve env) (filter (\<lambda>i. the (budget_cpu env n i) = c) [0..<m])"
proof -
  have "servers (s' m) = servers s \<and> online (s' m) = online s \<and> live_server (s' m) = live_server s \<and>
    (\<forall>r. live_reserve (s' m) r \<longleftrightarrow> live_reserve s r \<or> r \<in> nth_reserve env ` {..<m}) \<and>
    (\<forall>i < m. reserves (s' m) (nth_reserve env i) = (reserves s (nth_reserve env i))
      \<lparr>rsv_server := Some v, rsv_id := user_id env, rsv_budget := budget_of env n i, rsv_cpu := the (budget_cpu env n i)\<rparr>) \<and>
    (\<forall>r. r \<notin> nth_reserve env ` {..<m} \<longrightarrow> reserves (s' m) r = reserves s r) \<and>
    (\<forall>c. npsf_reserves (entries (s' m) c) =
      npsf_reserves (entries s c) @ map (nth_reserve env) (filter (\<lambda>i. the (budget_cpu env n i) = c) [0..<m]))"
    using assms(2)
  proof (induction m)
    case 0
    then show ?case by (simp add: s'_def)
  next
    case (Suc m)
    have step: "s' (Suc m) = added_nth env n v m (s' m)" by (simp add: s'_def)
    have inj: "inj_on (nth_reserve env) {..<m}" using Suc.prems by (rule inj_on_subset) auto
    have new: "nth_reserve env m \<notin> nth_reserve env ` {..<m}"
      using Suc.prems by (metis imageE inj_onD lessThan_iff less_Suc_eq less_irrefl)
    note IH = Suc.IH [OF inj]
    have "nth_reserve env i \<noteq> nth_reserve env m" if "i < m" for i using that new by (metis imageI lessThan_iff)
    then show ?case
      unfolding step using IH new by (auto simp: lessThan_Suc less_Suc_eq)
  qed
  then show "servers (s' m) = servers s" "online (s' m) = online s" "live_server (s' m) = live_server s"
    "live_reserve (s' m) r \<longleftrightarrow> live_reserve s r \<or> r \<in> nth_reserve env ` {..<m}"
    "i < m \<Longrightarrow> reserves (s' m) (nth_reserve env i) = (reserves s (nth_reserve env i))
      \<lparr>rsv_server := Some v, rsv_id := user_id env, rsv_budget := budget_of env n i, rsv_cpu := the (budget_cpu env n i)\<rparr>"
    "r \<notin> nth_reserve env ` {..<m} \<Longrightarrow> reserves (s' m) r = reserves s r"
    "npsf_reserves (entries (s' m) c) =
      npsf_reserves (entries s c) @ map (nth_reserve env) (filter (\<lambda>i. the (budget_cpu env n i) = c) [0..<m])"
    by simp_all
qed

lemma linked_all:
  fixes s :: "'z npsf_setup_scheme" and arr g :: "nat \<Rightarrow> nat"
  defines "s' \<equiv> \<lambda>m. fold (\<lambda>j. upd_reserve (arr j) (\<lambda>R. R\<lparr>next_npsf := Some (g j)\<rparr>)) [0..<m] s"
  assumes "inj_on arr {..<m}"
  shows "servers (s' m) = servers s" "online (s' m) = online s" "live_server (s' m) = live_server s"
    "live_reserve (s' m) = live_reserve s" "entries (s' m) = entries s"
    "i < m \<Longrightarrow> reserves (s' m) (arr i) = (reserves s (arr i))\<lparr>next_npsf := Some (g i)\<rparr>"
    "r \<notin> arr ` {..<m} \<Longrightarrow> reserves (s' m) r = reserves s r"
proof -
  have "servers (s' m) = servers s \<and> online (s' m) = online s \<and> live_server (s' m) = live_server s \<and>
    live_reserve (s' m) = live_reserve s \<and> entries (s' m) = entries s \<and>
    (\<forall>i < m. reserves (s' m) (arr i) = (reserves s (arr i))\<lparr>next_npsf := Some (g i)\<rparr>) \<and>
    (\<forall>r. r \<notin> arr ` {..<m} \<longrightarrow> reserves (s' m) r = reserves s r)"
    using assms(2)
  proof (induction m)
    case 0
    then show ?case by (simp add: s'_def)
  next
    case (Suc m)
    have step: "s' (Suc m) = upd_reserve (arr m) (\<lambda>R. R\<lparr>next_npsf := Some (g m)\<rparr>) (s' m)" by (simp add: s'_def)
    have inj: "inj_on arr {..<m}" using Suc.prems by (rule inj_on_subset) auto
    have new: "arr m \<notin> arr ` {..<m}"
      using Suc.prems by (metis imageE inj_onD lessThan_iff less_Suc_eq less_irrefl)
    note IH = Suc.IH [OF inj]
    have "arr i \<noteq> arr m" if "i < m" for i using that new by (metis imageI lessThan_iff)
    then show ?case
      unfolding step using IH new by (auto simp: upd_reserve_def lessThan_Suc less_Suc_eq)
  qed
  then show "servers (s' m) = servers s" "online (s' m) = online s" "live_server (s' m) = live_server s"
    "live_reserve (s' m) = live_reserve s" "entries (s' m) = entries s"
    "i < m \<Longrightarrow> reserves (s' m) (arr i) = (reserves s (arr i))\<lparr>next_npsf := Some (g i)\<rparr>"
    "r \<notin> arr ` {..<m} \<Longrightarrow> reserves (s' m) r = reserves s r" by simp_all
qed

text \<open>What the last server of a set-up changes beyond the new server: who runs first, and the timers.\<close>

definition memory_of where
  "memory_of s = (reserves s, live_reserve s, live_server s, online s, saved_online s, (\<lambda>c. npsf_reserves (entries s c)),
     time_origin s, npsf_slot_length s)"

lemma memory_ofD:
  assumes "memory_of s' = memory_of s"
  shows "reserves s' = reserves s" "live_reserve s' = live_reserve s" "live_server s' = live_server s" "online s' = online s"
    "saved_online s' = saved_online s" "npsf_reserves (entries s' c) = npsf_reserves (entries s c)"
    "time_origin s' = time_origin s" "npsf_slot_length s' = npsf_slot_length s"
  using assms by (simp_all add: memory_of_def fun_eq_iff)

lemma memory_env [simp]:
  "memory_of (s\<lparr>reserves_allocated := b\<rparr>) = memory_of s" "memory_of (s\<lparr>all_servers_added := b\<rparr>) = memory_of s"
  "memory_of (s\<lparr>timers_activated := b\<rparr>) = memory_of s"
  by (simp_all add: memory_of_def)

lemma set_first_memory: "set_first_reserves cs s = Some s' \<Longrightarrow> memory_of s' = memory_of s"
proof (induction cs arbitrary: s)
  case (Cons c cs)
  obtain r v where "set_first_reserves cs (upd_entry c (\<lambda>E. E\<lparr>cpu_reserve := Some r\<rparr>) (upd_server v (\<lambda>S. S\<lparr>curr_reserve := r\<rparr>) s)) = Some s'"
    using Cons.prems by (auto simp: bind_eq_Some_iff Let_def split: list.splits)
  from Cons.IH [OF this] show ?case by (simp add: memory_of_def upd_entry_def upd_server_def fun_eq_iff)
qed simp

lemma kickoff_memory: "memory_of (fold (kickoff_timer e) cs s) = memory_of s"
proof (induction cs arbitrary: s)
  case (Cons c cs)
  have "memory_of (kickoff_timer e c s) = memory_of s" by (simp add: kickoff_timer_def memory_of_def upd_entry_def fun_eq_iff)
  then show ?case using Cons.IH by simp
qed simp

lemma kickoff_timers_memory: "kickoff_timers now s = Some s' \<Longrightarrow> memory_of s' = memory_of s"
  using kickoff_memory [of _ "online s" s] by (auto simp: kickoff_timers_def bind_eq_Some_iff memory_of_def)

text \<open>The state with the new server, before anything runs.\<close>

definition with_server :: "add_server_env \<Rightarrow> nat \<Rightarrow> nat \<Rightarrow> nat \<Rightarrow> 'z npsf_setup_scheme \<Rightarrow> 'z npsf_setup_scheme" where
  "with_server env n v m s =
     fold (\<lambda>j. upd_reserve (nth_reserve env j) (\<lambda>R. R\<lparr>next_npsf := Some (nth_reserve env (Suc j mod m))\<rparr>)) [0..<m]
       (upd_server v (\<lambda>S. S\<lparr>curr_reserve := nth_reserve env 0, first_reserve := nth_reserve env 0, first_cpu_wants_ipi := False\<rparr>)
         (fold (added_nth env n v) [0..<m]
           (set_highest v None (edf_domain_init v (s\<lparr>live_server := (live_server s)(v := True)\<rparr>)))))"

lemma stops_at_half:
  assumes "stops_at env n 0 m" "2 \<le> n"
  shows "m \<le> (n + 1) div 2" "m < n" "budget_cpu env n m = None" "i < m \<Longrightarrow> budget_cpu env n i = fst (user_budgets env i)"
proof -
  have j: "16 * j + 4 \<le> 8 * n \<and> budget_cpu env n j = fst (user_budgets env j)" if "j < m" for j
    using assms(1) that by (auto simp: stops_at_def budget_cpu_def copied_budgets_def split: if_splits)
  show "m \<le> (n + 1) div 2" using j [of "m - 1"] by (cases m) auto
  then show "m < n" using assms(2) by linarith
  then show "budget_cpu env n m = None" using assms(1) by (simp add: stops_at_def)
  show "i < m \<Longrightarrow> budget_cpu env n i = fst (user_budgets env i)" using j by blast
qed

lemma next_of_ring:
  assumes "stops_at env n 0 m" "2 \<le> n" "i < m"
  shows "next_of env n arr i = arr (Suc i mod m)"
proof (cases "Suc i = m")
  case True
  then show ?thesis using stops_at_half(2,3) [OF assms(1,2)] by (auto simp: next_of_def)
next
  case False
  then have "Suc i < m" using assms(3) by simp
  then have "budget_cpu env n (Suc i) \<noteq> None" using assms(1) by (auto simp: stops_at_def)
  then show ?thesis using \<open>Suc i < m\<close> by (auto simp: next_of_def)
qed

lemma with_server_online:
  fixes s :: "'z npsf_setup_scheme"
  shows "online (with_server env n v m s) = online s" "time_origin (with_server env n v m s) = time_origin s"
    "npsf_slot_length (with_server env n v m s) = npsf_slot_length s"
proof -
  define g where "g = (\<lambda>s :: 'z npsf_setup_scheme. (online s, time_origin s, npsf_slot_length s))"
  have "g (fold (\<lambda>j. upd_reserve (f j) (h j)) js t) = g t" for f h and js :: "nat list" and t
    by (induction js arbitrary: t) (simp_all add: g_def upd_reserve_def)
  moreover have "g (fold (added_nth env n v) js t) = g t" for js t
    by (induction js arbitrary: t) (simp_all add: g_def added_nth_def added_def upd_entry_def upd_reserve_def)
  ultimately have "g (with_server env n v m s) = g s"
    unfolding with_server_def
    by (simp add: g_def upd_server_def set_highest_def edf_domain_init_def rt_domain_init_def upd_dom_def)
  then show "online (with_server env n v m s) = online s" "time_origin (with_server env n v m s) = time_origin s"
    "npsf_slot_length (with_server env n v m s) = npsf_slot_length s" by (simp_all add: g_def)
qed

text \<open>A call that succeeds.\<close>

lemma add_server_result:
  assumes "sys_add_server env final s = Some (0, s')" "2 \<le> length (online s)"
  shows "\<exists>v m. server_mem env = Some v \<and> stops_at env (length (online s)) 0 m \<and> 0 < m \<and> (\<forall>i < m. reserve_mem env i \<noteq> None) \<and>
    saved_online s = length (online s) \<and> reserves_allocated s' \<and> memory_of s' = memory_of (with_server env (length (online s)) v m s) \<and>
    (final \<longrightarrow> (\<exists>s1 s2. set_first_reserves (online s) (with_server env (length (online s)) v m s) = Some s1 \<and>
       kickoff_timers (add_clock env) s1 = Some s2 \<and> s' = s2\<lparr>all_servers_added := True, reserves_allocated := True\<rparr>))"
proof -
  let ?n = "length (online s)"
  have pre: "saved_online s = ?n" "\<not> id_fault env" "budgets_mem env" "\<not> budgets_fault env" "server_mem env \<noteq> None"
    using assms(1) by (auto simp: sys_add_server_def EFAULT_def ENOMEM_def Let_def bind_eq_Some_iff split: if_splits option.splits)
  then obtain v where v: "server_mem env = Some v" by blast
  let ?s0 = "set_highest v None (edf_domain_init v (s\<lparr>live_server := (live_server s)(v := True)\<rparr>))"
  obtain ret arr s1 where add: "add_reserves env ?n v 0 (- EFAULT) (stack_array env) ?s0 = Inr (ret, arr, s1)"
  proof (cases "add_reserves env ?n v 0 (- EFAULT) (stack_array env) ?s0")
    case (Inl e)
    then have e: "e = (0, s')" using assms(1) pre v by (simp add: sys_add_server_def Let_def)
    show ?thesis using add_reserves_error [OF Inl [unfolded e]] by simp
  next
    case (Inr e)
    then show ?thesis using that by (cases e) auto
  qed
  obtain m where m: "stops_at env ?n 0 m" "ret = (if m = 0 then - EFAULT else 0)" "\<And>j. j < m \<Longrightarrow> reserve_mem env j \<noteq> None"
    "\<And>j. j < m \<Longrightarrow> arr j = nth_reserve env j" "s1 = fold (added_nth env ?n v) [0..<m] ?s0"
    using add_reserves_spec [OF add] by auto
  let ?up = "upd_server v (\<lambda>S. S\<lparr>curr_reserve := arr 0, first_reserve := arr 0, first_cpu_wants_ipi := False\<rparr>) s1"
  let ?s2 = "link_reserves env ?n arr 0 ?up"
  have "ret = 0"
    using assms(1) pre v add by (auto simp: sys_add_server_def Let_def bind_eq_Some_iff split: if_splits)
  then have m0: "0 < m" using m(2) by (auto simp: EFAULT_def split: if_splits)
  have "?s2 = fold (\<lambda>j. upd_reserve (arr j) (\<lambda>R. R\<lparr>next_npsf := Some (next_of env ?n arr j)\<rparr>)) [0..<m] ?up"
    by (rule link_reserves_spec [OF m(1)])
  also have "\<dots> = with_server env ?n v m s"
    unfolding with_server_def using m(4) [OF m0] m(5)
    by (intro fold_cong) (simp_all add: m(4) next_of_ring [OF m(1) assms(2)] m0)
  finally have link: "?s2 = with_server env ?n v m s" .
  let ?w = "with_server env ?n v m s"
  have "Option.bind (print_reserves env ?n 0 ?w) (\<lambda>_. Option.bind
      (if final then do { s1 \<leftarrow> set_first_reserves (online ?w) ?w; s2 \<leftarrow> kickoff_timers (add_clock env) s1; Some (s2\<lparr>all_servers_added := True\<rparr>) }
       else Some ?w) (\<lambda>s. Some (ret, s\<lparr>reserves_allocated := True\<rparr>))) = Some (0, s')"
    using assms(1) pre v add unfolding link [symmetric] by (simp add: sys_add_server_def Let_def split del: if_split)
  then obtain t where t: "s' = t\<lparr>reserves_allocated := True\<rparr>" "if final then \<exists>s1 s2. set_first_reserves (online ?w) ?w = Some s1 \<and>
      kickoff_timers (add_clock env) s1 = Some s2 \<and> t = s2\<lparr>all_servers_added := True\<rparr> else t = ?w"
    by (cases final) (auto simp: bind_eq_Some_iff)
  have on: "online ?w = online s" by (rule with_server_online(1))
  have mem: "memory_of s' = memory_of ?w"
  proof (cases final)
    case True
    then obtain s1 s2 where f: "set_first_reserves (online ?w) ?w = Some s1" "kickoff_timers (add_clock env) s1 = Some s2"
      "t = s2\<lparr>all_servers_added := True\<rparr>" using t(2) by auto
    show ?thesis by (simp add: t(1) f(3) set_first_memory [OF f(1)] kickoff_timers_memory [OF f(2)])
  next
    case False
    then show ?thesis using t by simp
  qed
  show ?thesis
    using v m(1,3) m0 pre(1) mem t on by (intro exI [of _ v] exI [of _ m]) (auto split: if_splits)
qed

lemma with_server_memory:
  fixes s :: "'z npsf_setup_scheme" and env :: add_server_env and n v m :: nat
  defines "s' \<equiv> with_server env n v m s"
  assumes "inj_on (nth_reserve env) {..<m}"
  shows "i < m \<Longrightarrow> reserves s' (nth_reserve env i) = (reserves s (nth_reserve env i))
      \<lparr>rsv_server := Some v, rsv_id := user_id env, rsv_budget := budget_of env n i, rsv_cpu := the (budget_cpu env n i),
       next_npsf := Some (nth_reserve env (Suc i mod m))\<rparr>"
    "r \<notin> nth_reserve env ` {..<m} \<Longrightarrow> reserves s' r = reserves s r"
    "live_reserve s' r \<longleftrightarrow> live_reserve s r \<or> r \<in> nth_reserve env ` {..<m}" "live_server s' = (live_server s)(v := True)"
    "npsf_reserves (entries s' c) =
      npsf_reserves (entries s c) @ map (nth_reserve env) (filter (\<lambda>i. the (budget_cpu env n i) = c) [0..<m])"
proof -
  define s0 where "s0 = set_highest v None (edf_domain_init v (s\<lparr>live_server := (live_server s)(v := True)\<rparr>))"
  define s1 where "s1 = fold (added_nth env n v) [0..<m] s0"
  define s2 where "s2 = upd_server v (\<lambda>S. S\<lparr>curr_reserve := nth_reserve env 0, first_reserve := nth_reserve env 0, first_cpu_wants_ipi := False\<rparr>) s1"
  have s0: "reserves s0 = reserves s" "live_reserve s0 = live_reserve s" "live_server s0 = (live_server s)(v := True)" "entries s0 = entries s"
    by (simp_all add: s0_def set_highest_def upd_server_def edf_domain_init_def rt_domain_init_def upd_dom_def)
  note a = added_all [where s = s0 and env = env and n = n and v = v, OF assms(2), folded s1_def]
  have s2: "reserves s2 = reserves s1" "live_reserve s2 = live_reserve s1" "live_server s2 = live_server s1" "entries s2 = entries s1"
    by (simp_all add: s2_def upd_server_def)
  have s': "s' = fold (\<lambda>j. upd_reserve (nth_reserve env j) (\<lambda>R. R\<lparr>next_npsf := Some (nth_reserve env (Suc j mod m))\<rparr>)) [0..<m] s2"
    by (simp add: s'_def with_server_def s2_def s1_def s0_def)
  note l = linked_all [where s = s2 and arr = "nth_reserve env" and g = "\<lambda>j. nth_reserve env (Suc j mod m)", OF assms(2), folded s']
  show "i < m \<Longrightarrow> reserves s' (nth_reserve env i) = (reserves s (nth_reserve env i))
      \<lparr>rsv_server := Some v, rsv_id := user_id env, rsv_budget := budget_of env n i, rsv_cpu := the (budget_cpu env n i),
       next_npsf := Some (nth_reserve env (Suc i mod m))\<rparr>"
    using l(6) [of i] a(5) [of i] by (simp add: s0 s2)
  show "r \<notin> nth_reserve env ` {..<m} \<Longrightarrow> reserves s' r = reserves s r" using l(7) a(6) by (simp add: s0 s2)
  show "live_reserve s' r \<longleftrightarrow> live_reserve s r \<or> r \<in> nth_reserve env ` {..<m}" using l(4) a(4) by (simp add: s0 s2)
  show "live_server s' = (live_server s)(v := True)" using l(3) a(3) by (simp add: s0 s2)
  show "npsf_reserves (entries s' c) =
      npsf_reserves (entries s c) @ map (nth_reserve env) (filter (\<lambda>i. the (budget_cpu env n i) = c) [0..<m])"
    using l(5) a(7) by (simp add: s0 s2)
qed

lemma budget_of_half: "i < m \<Longrightarrow> budget_of env n i = (if 2 * i + 2 \<le> n then snd (user_budgets env i) else 0)"
  by (auto simp: budget_of_def copied_budgets_def)

section \<open>Cleaning up\<close>




















section \<open>Rings of the servers added\<close>

text \<open>
  What the kernel promises of its allocations, that they are not in use and distinct, and what the
  user has to promise: only CPUs that are online.
\<close>

definition fresh_memory :: "add_server_env \<Rightarrow> 'z npsf_setup_scheme \<Rightarrow> bool" where
  "fresh_memory env s \<longleftrightarrow> (\<forall>v. server_mem env = Some v \<longrightarrow> \<not> live_server s v) \<and>
     (\<forall>i r. reserve_mem env i = Some r \<longrightarrow> \<not> live_reserve s r \<and> (\<forall>j. reserve_mem env j = Some r \<longrightarrow> j = i)) \<and>
     (\<forall>i c. fst (user_budgets env i) = Some c \<longrightarrow> c \<in> set (online s))"

lemma fresh_memory_inj:
  assumes "fresh_memory env s" "\<forall>i < m. reserve_mem env i \<noteq> None"
  shows "inj_on (nth_reserve env) {..<m}" "i < m \<Longrightarrow> \<not> live_reserve s (nth_reserve env i)"
proof -
  have some: "i < m \<Longrightarrow> reserve_mem env i = Some (nth_reserve env i)" for i using assms(2) by (auto simp: nth_reserve_def)
  show "inj_on (nth_reserve env) {..<m}"
    using some assms(1) unfolding fresh_memory_def by (intro inj_onI) (metis lessThan_iff)
  show "i < m \<Longrightarrow> \<not> live_reserve s (nth_reserve env i)"
    using some assms(1) unfolding fresh_memory_def by blast
qed









section \<open>From one activation to the next\<close>











section \<open>Properties\<close>


text \<open>A set-up with four CPUs, and a server that shall have a reserve on each of them.\<close>

definition setup_sample :: npsf_setup where
  "setup_sample = npsf_state.extend (npsf_sample\<lparr>timers_activated := False, all_servers_added := False,
       entries := (\<lambda>c. \<lparr>cpu_reserve = None, npsf_reserves = [], npsf_timer = None, should_expire = 0, last_seen_npsf_id = - 1\<rparr>)\<rparr>)
     (npsf_setup.fields [0, 1, 2, 3] 4 0 False (\<lambda>_. False) (\<lambda>_. False))"

definition add_sample :: add_server_env where
  "add_sample = \<lparr>id_fault = False, user_id = 0, budgets_mem = True,
     user_budgets = (\<lambda>i. if i < 4 then (Some i, 100 * (of_nat i + 1)) else (None, 0)), budgets_fault = False,
     server_mem = Some 7, reserve_mem = (\<lambda>i. Some (100 + i)), stack_array = (\<lambda>_. 0), beyond_budgets = None, add_clock = 6000\<rparr>"

definition setup_sample1 :: npsf_setup where
  "setup_sample1 = snd (the (sys_add_server add_sample False setup_sample))"

lemma setup_sample_simps [simp]:
  "online setup_sample = [0, 1, 2, 3]" "saved_online setup_sample = 4" "live_reserve setup_sample = (\<lambda>_. False)"
  "live_server setup_sample = (\<lambda>_. False)" "npsf_reserves (entries setup_sample c) = []" "timers_activated setup_sample = False"
  by (simp_all add: setup_sample_def npsf_sample_def npsf_state.defs npsf_setup.defs)

lemma setup_sample1_result: "sys_add_server add_sample False setup_sample = Some (0, setup_sample1)"
proof -
  have "map_option fst (sys_add_server add_sample False setup_sample) = Some 0" by code_simp
  then show ?thesis by (auto simp: setup_sample1_def)
qed

lemma add_sample_fresh: "fresh_memory add_sample setup_sample"
  by (auto simp: fresh_memory_def add_sample_def less_Suc_eq numeral_eq_Suc split: if_splits)


text \<open>
  C38: what \<^verbatim>\<open>add_server\<close> makes of its array. With at least two CPUs, a successful call makes a ring of the
  reserves, all of the same server; but it takes at most half of the entries of the array, rounded up,
  and the last of them without its budget if the number of CPUs is odd, because the copy from user
  space counts the size of a pointer instead of that of an entry. The entries behind are ignored.
\<close>

theorem add_server_truncated:
  assumes "sys_add_server env final s = Some (0, s')" "length (online s) = n" "2 \<le> n" "fresh_memory env s"
  shows "\<exists>m v. 0 < m \<and> m \<le> (n + 1) div 2 \<and> (m = (n + 1) div 2 \<or> fst (user_budgets env m) = None) \<and> server_mem env = Some v \<and>
    (\<forall>i < m. fst (user_budgets env i) = Some (rsv_cpu (reserves s' (nth_reserve env i))) \<and>
      rsv_server (reserves s' (nth_reserve env i)) = Some v \<and> rsv_id (reserves s' (nth_reserve env i)) = user_id env \<and>
      rsv_budget (reserves s' (nth_reserve env i)) = (if 2 * i + 2 \<le> n then snd (user_budgets env i) else 0) \<and>
      next_npsf (reserves s' (nth_reserve env i)) = Some (nth_reserve env (Suc i mod m)) \<and>
      is_currently_scheduled (reserves s' (nth_reserve env i)) = is_currently_scheduled (reserves s (nth_reserve env i))) \<and>
    (\<forall>r. r \<notin> nth_reserve env ` {..<m} \<longrightarrow> reserves s' r = reserves s r)"
proof -
  obtain v m where r: "server_mem env = Some v" "stops_at env n 0 m" "0 < m" "\<forall>i < m. reserve_mem env i \<noteq> None"
    and mem: "memory_of s' = memory_of (with_server env n v m s)"
    using add_server_result [OF assms(1)] assms(2,3) by blast
  note d = memory_ofD(1) [OF mem]
  note w = with_server_memory [where s = s and env = env and n = n and v = v, OF fresh_memory_inj(1) [OF assms(4) r(4)]]
  note h = stops_at_half [OF r(2) assms(3)]
  have "m = (n + 1) div 2 \<or> fst (user_budgets env m) = None"
    using h(1-3) by (auto simp: budget_cpu_def copied_budgets_def split: if_splits)
  moreover have "fst (user_budgets env i) = Some (the (budget_cpu env n i))" if "i < m" for i
  proof -
    have "budget_cpu env n i \<noteq> None" using r(2) that by (simp add: stops_at_def)
    then show ?thesis using h(4) [OF that] by auto
  qed
  ultimately show ?thesis
    using r(1,3) h(1) w(1,2) d budget_of_half by (intro exI [of _ m] exI [of _ v]) auto
qed

theorem add_server_truncated_witness:
  "next_npsf (reserves setup_sample1 101) = Some 100 \<and> reserves setup_sample1 102 = reserves setup_sample 102 \<and>
   fst (user_budgets add_sample 2) = Some 2"
proof -
  obtain m where m: "0 < m" "m \<le> 2" "m = 2 \<or> fst (user_budgets add_sample m) = None"
    and link: "\<forall>i < m. next_npsf (reserves setup_sample1 (nth_reserve add_sample i)) = Some (nth_reserve add_sample (Suc i mod m))"
    and rest: "\<forall>r. r \<notin> nth_reserve add_sample ` {..<m} \<longrightarrow> reserves setup_sample1 r = reserves setup_sample r"
    using add_server_truncated [OF setup_sample1_result _ _ add_sample_fresh, of 4] by auto
  have nth: "nth_reserve add_sample i = 100 + i" for i by (simp add: nth_reserve_def add_sample_def)
  have "m = 2" using m by (auto simp: add_sample_def split: if_splits)
  have "next_npsf (reserves setup_sample1 101) = Some 100" using link [rule_format, of 1] \<open>m = 2\<close> by (simp add: nth)
  moreover have "reserves setup_sample1 102 = reserves setup_sample 102"
  proof -
    have "102 \<notin> nth_reserve add_sample ` {..<m}" using \<open>m = 2\<close> by (auto simp: nth)
    then show ?thesis using rest by blast
  qed
  ultimately show ?thesis by (simp add: add_sample_def)
qed

text \<open>The first reserve of a CPU and its server.\<close>

definition first_of :: "'z npsf_state_scheme \<Rightarrow> cpu_id \<Rightarrow> nat" where
  "first_of s c = hd (npsf_reserves (entries s c))"

lemma set_first_other:
  "set_first_reserves cs s = Some s' \<Longrightarrow> (\<forall>c \<in> set cs. rsv_server (reserves s (first_of s c)) \<noteq> Some v) \<Longrightarrow>
    curr_reserve (servers s' v) = curr_reserve (servers s v)"
  "set_first_reserves cs s = Some s' \<Longrightarrow> c \<notin> set cs \<Longrightarrow> cpu_reserve (entries s' c) = cpu_reserve (entries s c)"
proof (induction cs arbitrary: s)
  case (Cons a cs)
  {
    case 1
    then obtain r w where r: "r = first_of s a" "rsv_server (reserves s r) = Some w" "w \<noteq> v"
      "set_first_reserves cs (upd_entry a (\<lambda>E. E\<lparr>cpu_reserve := Some r\<rparr>) (upd_server w (\<lambda>S. S\<lparr>curr_reserve := r\<rparr>) s)) = Some s'"
      by (auto simp: bind_eq_Some_iff Let_def first_of_def split: list.splits)
    have "\<forall>c \<in> set cs. rsv_server (reserves s (first_of s c)) \<noteq> Some v" using 1(2) by simp
    then show ?case using Cons.IH(1) [OF r(4)] r(3) by (simp add: first_of_def upd_entry_def upd_server_def)
  next
    case 2
    then obtain r w where
      "set_first_reserves cs (upd_entry a (\<lambda>E. E\<lparr>cpu_reserve := Some r\<rparr>) (upd_server w (\<lambda>S. S\<lparr>curr_reserve := r\<rparr>) s)) = Some s'"
      by (auto simp: bind_eq_Some_iff Let_def split: list.splits)
    from Cons.IH(2) [OF this] 2(2) show ?case by (simp add: upd_entry_def upd_server_def)
  }
qed simp_all

lemma set_first_at:
  "set_first_reserves cs s = Some s' \<Longrightarrow> distinct cs \<Longrightarrow> c \<in> set cs \<Longrightarrow>
    npsf_reserves (entries s c) \<noteq> [] \<and> cpu_reserve (entries s' c) = Some (first_of s c) \<and> (\<exists>v. rsv_server (reserves s (first_of s c)) = Some v \<and>
      (inj_on (\<lambda>c. rsv_server (reserves s (first_of s c))) (set cs) \<longrightarrow> curr_reserve (servers s' v) = first_of s c))"
proof (induction cs arbitrary: s)
  case (Cons a cs)
  obtain r w where r: "npsf_reserves (entries s a) \<noteq> []" "r = first_of s a" "rsv_server (reserves s r) = Some w"
    "set_first_reserves cs (upd_entry a (\<lambda>E. E\<lparr>cpu_reserve := Some r\<rparr>) (upd_server w (\<lambda>S. S\<lparr>curr_reserve := r\<rparr>) s)) = Some s'"
    using Cons.prems(1) by (auto simp: bind_eq_Some_iff Let_def first_of_def split: list.splits)
  let ?s = "upd_entry a (\<lambda>E. E\<lparr>cpu_reserve := Some r\<rparr>) (upd_server w (\<lambda>S. S\<lparr>curr_reserve := r\<rparr>) s)"
  have f: "first_of ?s c = first_of s c" "reserves ?s = reserves s" "npsf_reserves (entries ?s c) = npsf_reserves (entries s c)" for c
    by (simp_all add: first_of_def upd_entry_def upd_server_def)
  show ?case
  proof (cases "c = a")
    case True
    have "cpu_reserve (entries s' a) = Some r"
      using set_first_other(2) [OF r(4)] Cons.prems(2) by (simp add: upd_entry_def)
    moreover have "curr_reserve (servers s' w) = r" if inj: "inj_on (\<lambda>c. rsv_server (reserves s (first_of s c))) (set (a # cs))"
    proof -
      have "rsv_server (reserves s (first_of s c)) \<noteq> Some w" if "c \<in> set cs" for c
        using inj_onD [OF inj, of c a] r(2,3) that Cons.prems(2) by auto
      then have "curr_reserve (servers s' w) = curr_reserve (servers ?s w)"
        by (intro set_first_other(1) [OF r(4)]) (simp add: f)
      then show ?thesis by (simp add: upd_entry_def upd_server_def)
    qed
    ultimately show ?thesis using True r(1-3) by simp
  next
    case False
    then show ?thesis using Cons.IH [OF r(4)] Cons.prems unfolding f by (auto intro: inj_on_subset)
  qed
qed simp

lemma kickoff_spec:
  "cpu_reserve (entries (fold (kickoff_timer e) cs s) c) = cpu_reserve (entries s c) \<and> servers (fold (kickoff_timer e) cs s) = servers s \<and>
    (c \<in> set cs \<longrightarrow> npsf_timer (entries (fold (kickoff_timer e) cs s) c) = Some (e, c)) \<and>
    (c \<notin> set cs \<longrightarrow> npsf_timer (entries (fold (kickoff_timer e) cs s) c) = npsf_timer (entries s c))"
proof (induction cs arbitrary: s)
  case (Cons a cs)
  show ?case using Cons.IH [of "kickoff_timer e a s"] by (auto simp: kickoff_timer_def upd_entry_def)
qed simp

text \<open>
  C39: the start of NPS-F. When the last server has been added, every CPU has a first reserve and starts
  with it, its timer is set for the begin of a slot, and NPS-F is on. The CPUs own the servers that
  they start with, which the scheduler relies on, exactly if no two CPUs start with the same server;
  the call does not check this.
\<close>

theorem npsf_start_owners:
  assumes "sys_add_server env True s = Some (0, s')" "2 \<le> length (online s)" "distinct (online s)"
    "\<forall>c \<in> set (online s). rsv_cpu (reserves s' (first_of s' c)) = c"
  shows "(owners_ok (set (online s)) s' \<longleftrightarrow> inj_on (\<lambda>c. rsv_server (reserves s' (first_of s' c))) (set (online s))) \<and>
    all_servers_added s' \<and> (\<exists>e. slot_begin (add_clock env + npsf_slot_length s * 2) s = Some e \<and>
      (\<forall>c \<in> set (online s). npsf_reserves (entries s' c) \<noteq> [] \<and> cpu_reserve (entries s' c) = Some (first_of s' c) \<and>
        npsf_timer (entries s' c) = Some (e, c)))"
proof -
  let ?n = "length (online s)"
  obtain v m s1 s2 where mem: "memory_of s' = memory_of (with_server env ?n v m s)"
    and f: "set_first_reserves (online s) (with_server env ?n v m s) = Some s1" "kickoff_timers (add_clock env) s1 = Some s2"
      "s' = s2\<lparr>all_servers_added := True, reserves_allocated := True\<rparr>"
    using add_server_result [OF assms(1,2)] by blast
  let ?w = "with_server env ?n v m s"
  note d = memory_ofD [OF mem]
  have same: "first_of s' c = first_of ?w c" "rsv_server (reserves s' r) = rsv_server (reserves ?w r)" for c r
    using d(1,6) by (simp_all add: first_of_def)
  note at = set_first_at [OF f(1) assms(3)]
  have "time_origin s1 = time_origin s" "npsf_slot_length s1 = npsf_slot_length s" "online s1 = online s"
    using memory_ofD(4,7,8) [OF set_first_memory [OF f(1)]] with_server_online by simp_all
  then obtain e where e: "slot_begin (add_clock env + npsf_slot_length s * 2) s = Some e"
    "s2 = (fold (kickoff_timer e) (online s) s1)\<lparr>timers_activated := True\<rparr>"
    using f(2) by (auto simp: kickoff_timers_def bind_eq_Some_iff slot_begin_def)
  note k = kickoff_spec [of e "online s" s1]
  have run: "npsf_reserves (entries s' c) \<noteq> []" "cpu_reserve (entries s' c) = Some (first_of s' c)" "npsf_timer (entries s' c) = Some (e, c)"
      "\<exists>v. rsv_server (reserves s' (first_of s' c)) = Some v" if "c \<in> set (online s)" for c
    using at [OF that] k [of c] that d(6) [of c] unfolding same by (auto simp: f(3) e(2))
  have sv: "servers s' = servers s1" using k [of 0] by (simp add: f(3) e(2))
  have own: "owners_ok (set (online s)) s'" if inj: "inj_on (\<lambda>c. rsv_server (reserves s' (first_of s' c))) (set (online s))"
    unfolding owners_ok_def
  proof
    fix c assume c: "c \<in> set (online s)"
    obtain v where "rsv_server (reserves s' (first_of s' c)) = Some v" "curr_reserve (servers s' v) = first_of s' c"
      using at [OF c] inj unfolding same sv by auto
    then show "\<exists>r v. cpu_reserve (entries s' c) = Some r \<and> r \<in> set (npsf_reserves (entries s' c)) \<and>
        rsv_server (reserves s' r) = Some v \<and> curr_reserve (servers s' v) = r"
      using run(1,2) [OF c] by (auto simp: first_of_def)
  qed
  have "inj_on (\<lambda>c. rsv_server (reserves s' (first_of s' c))) (set (online s))" if "owners_ok (set (online s)) s'"
  proof (rule inj_onI)
    fix c c' assume c: "c \<in> set (online s)" "c' \<in> set (online s)"
      "rsv_server (reserves s' (first_of s' c)) = rsv_server (reserves s' (first_of s' c'))"
    have cur: "\<exists>v. rsv_server (reserves s' (first_of s' x)) = Some v \<and> curr_reserve (servers s' v) = first_of s' x"
      if "x \<in> set (online s)" for x using \<open>owners_ok _ s'\<close> that run(2) [OF that] by (auto simp: owners_ok_def)
    have "first_of s' c = first_of s' c'" using cur [OF c(1)] cur [OF c(2)] c(3) by auto
    then show "c = c'" using assms(4) c(1,2) by metis
  qed
  then show ?thesis using own run e(1) f(3) by auto
qed

text \<open>Two CPUs with a server each.\<close>

definition setup_pair0 :: npsf_setup where
  "setup_pair0 = setup_sample\<lparr>online := [0, 1], saved_online := 2\<rparr>"

definition pair_env :: "nat \<Rightarrow> add_server_env" where
  "pair_env c = add_sample\<lparr>user_id := int c, user_budgets := (\<lambda>i. if i = 0 then (Some c, 1000) else (None, 0)),
     server_mem := Some (7 + c), reserve_mem := (\<lambda>i. Some (100 + c + 2 * i))\<rparr>"

definition setup_pair1 :: npsf_setup where
  "setup_pair1 = snd (the (sys_add_server (pair_env 0) False setup_pair0))"

definition setup_pair2 :: npsf_setup where
  "setup_pair2 = snd (the (sys_add_server (pair_env 1) True setup_pair1))"

theorem npsf_start_owners_witness:
  "owners_ok {0, 1} setup_pair2 \<and> cpu_reserve (entries setup_pair2 1) = Some 101 \<and> all_servers_added setup_pair2"
proof -
  have ret: "map_option fst (sys_add_server (pair_env 1) True setup_pair1) = Some 0" by code_simp
  then have res: "sys_add_server (pair_env 1) True setup_pair1 = Some (0, setup_pair2)" by (auto simp: setup_pair2_def)
  have on: "online setup_pair1 = [0, 1]" by code_simp
  have first: "first_of setup_pair2 0 = 100" "first_of setup_pair2 1 = 101" by code_simp+
  have rsv: "rsv_cpu (reserves setup_pair2 100) = 0" "rsv_cpu (reserves setup_pair2 101) = 1"
    "rsv_server (reserves setup_pair2 100) = Some 7" "rsv_server (reserves setup_pair2 101) = Some 8" by code_simp+
  show ?thesis using npsf_start_owners [OF res] unfolding on by (auto simp: first rsv first(2) [unfolded One_nat_def])
qed

end
