(* ===== verification/Spec2Isabelle.thy ===== *)
theory Spec2Isabelle
  imports Psn_Edf Gsn_Correct Edf_Wm Cd Hime Edf_Fm_Share Ftdev Npsf_Setup
begin

text \<open>
  A verification of the real-time schedulers of LITMUS-RT 2010 with the semi-partitioned plugins
  EDF-fm, EDF-WM, C=D, HIME and NPS-F. File names are relative to \<^verbatim>\<open>src/litmus2010\<close>.

  \<^bold>\<open>The program.\<close> LITMUS-RT extends Linux 2.6.34 by a scheduling class whose decisions are made by
  a \<^emph>\<open>plugin\<close>, a table of handlers (\<^verbatim>\<open>schedule\<close>, \<^verbatim>\<open>tick\<close>, \<^verbatim>\<open>task_new\<close>,
  \<^verbatim>\<open>task_wake_up\<close>, \<^verbatim>\<open>task_block\<close>, \<^verbatim>\<open>task_exit\<close>, \<^verbatim>\<open>admit_task\<close>, ...). The plugins
  keep their jobs in \<^emph>\<open>real-time domains\<close>: a ready queue, which is a binomial heap ordered by
  deadline, and a release queue, a hash table of heaps with a timer each. The partitioned plugins have
  one domain per CPU. A semi-partitioned plugin splits some tasks over several CPUs: EDF-fm sends whole
  jobs to one of two CPUs, EDF-WM, C=D and HIME cut each job into slices that run on different CPUs one
  after the other, and NPS-F runs servers in reserves that repeat on the CPUs in every slot of time.
  Feather-Trace records what happens in lock-free ring buffers that user space reads through a device.

  \<^bold>\<open>Conventions.\<close> A handler is a function on a record of the kernel state; what it changes is
  what runs between taking and returning its locks, so that calls interleave at the locks. A failed
  \<^verbatim>\<open>BUG_ON\<close>, which stops the kernel, is the value \<open>None\<close> of the option monad (\<open>Prelude\<close>), and
  \<open>ok m P\<close> says that \<open>m\<close> returns a value with \<open>P\<close>. Times are 64-bit words compared with
  wrap-around, as in \<^verbatim>\<open>lt_before\<close>; job numbers are 32-bit words. Tasks, CPUs and domains are named
  by numbers. The clock, results of the memory allocator, and copies from and to user space are
  arguments of the definitions. Calls that only trace have no counterpart.

  \<^bold>\<open>Shared parts.\<close>
  \<^item> \<open>Rt_Param\<close>: the records of \<^verbatim>\<open>include/litmus/rt_param.h\<close> and the accessors of
    \<^verbatim>\<open>include/litmus/litmus.h\<close>. The run-time union of the semi-partitioned plugins is kept as the
    words it overlays, because one access goes through the wrong member.
  \<^item> \<open>Bheap\<close>: \<^verbatim>\<open>litmus/bheap.c\<close> on trees. Every operation keeps the shape and order of a
    binomial heap and does to the multiset of values what it should; the locale \<open>prio_queue\<close> is the
    contract the queues rely on, interpreted as \<open>bq\<close> on the operations of the file.
  \<^item> \<open>Kernel\<close>: the state all plugins share, \<^verbatim>\<open>litmus/jobs.c\<close>, \<^verbatim>\<open>litmus/budget.c\<close>, and
    \<^verbatim>\<open>preempt_if_preemptable\<close> of \<^verbatim>\<open>litmus/sched_plugin.c\<close>.
  \<^item> \<open>Rt_Domain\<close> and \<open>Edf_Common\<close>: \<^verbatim>\<open>litmus/rt_domain.c\<close>, \<^verbatim>\<open>litmus/edf_common.c\<close>.
    \<open>Edf_Queues\<close> has the invariant \<open>queue_inv\<close>: every task is in at most one place (a ready
    queue, a release queue, running), where its data say it is, and the queues are heaps in EDF order.
  \<^item> \<open>Partitioned\<close>: the steps the plugins with one domain per CPU have in common, the contract
    \<open>resched_callback\<close> of the callback that a domain calls when its first job changes, and the
    scheduling decision. \<open>Sample_State\<close> is a concrete state for the witnesses.

  \<^bold>\<open>Plugins.\<close> Each plugin has a machine whose steps are the calls of its handlers, of release
  timers and of context switches, with the conditions under which Linux makes them; the locale
  \<open>kernel_machine\<close> of \<open>Prelude\<close> gives that every reachable state satisfies the invariant and
  that no enabled call stops the kernel.
  \<^item> \<open>Psn_Edf\<close>: \<^verbatim>\<open>litmus/sched_psn_edf.c\<close>.
  \<^item> \<open>Semi_Partitioned\<close>, \<open>Semi_Machine\<close>, \<open>Slices\<close>: the handlers that
    \<^verbatim>\<open>litmus/sched_edf_wm.c\<close>, \<^verbatim>\<open>litmus/sched_cd.c\<close> and \<^verbatim>\<open>litmus/sched_hime.c\<close> have in
    common, over a record of slice operations. The locale \<open>slice_plugin\<close> is the contract of these
    operations for the queues and \<open>slice_accounting\<close> the one for budgets; \<open>Edf_Wm\<close>, \<open>Cd\<close>
    and \<open>Hime\<close> interpret them on the operations of their file and prove their admission tests and
    the advancement from slice to slice. The loop of \<^verbatim>\<open>fast_forward_slices\<close> may run forever or run
    into a \<^verbatim>\<open>BUG_ON\<close>; it is a partial function, shown to return under the slice accounting.
  \<^item> \<open>Edf_Fm\<close> and \<open>Edf_Fm_Share\<close>: \<^verbatim>\<open>litmus/sched_edf_fm.c\<close>, and which of its two
    CPUs gets how many jobs of a migratory task.
  \<^item> \<open>Npsf\<close> (state and handlers of \<^verbatim>\<open>litmus/sched_npsf.c\<close>), \<open>Npsf_Server\<close> (the queues of
    a server), \<open>Npsf_Slots\<close> (which reserve a CPU serves at a time, and the timer that switches),
    \<open>Npsf_Machine\<close> (all interleavings of the sections of \<^verbatim>\<open>npsf_schedule\<close> on all CPUs),
    \<open>Npsf_Setup\<close> (adding servers, clean-up, activation), \<open>Npsf_Sample\<close> (a concrete set-up).

  \<^bold>\<open>Tracing.\<close> \<open>Feather_Buffer\<close> is \<^verbatim>\<open>include/litmus/feather_buffer.h\<close>: the functions as
  compositions of atomic operations, every interleaving of any number of writers with one reader, and
  the refinement of a bounded queue. \<open>Ftdev\<close> is \<^verbatim>\<open>litmus/ftdev.c\<close> and \<^verbatim>\<open>litmus/ft_event.c\<close>.

  \<^bold>\<open>Bounds.\<close> No definition has fuel: loops are structural, have a termination proof, or are
  partial functions in the option monad with a theorem that they return. Where a theorem needs two
  times to compare as numbers, it assumes that they lie within \<open>2 ^ 63\<close> nanoseconds (292 years) of
  each other, which is where the comparison of the code is one of times at all. The ring buffer has at
  most \<open>2 ^ 31\<close> slots, a power of two, as its allocation guarantees.

  \<^bold>\<open>Not modelled.\<close> Spin locks and memory barriers (the granularity of the steps stands for
  them); wait queues, run queues and the scheduling class of Linux (\<^verbatim>\<open>litmus/sched_litmus.c\<close>), which
  only call the handlers; the global and clustered schedulers and Pfair; the semaphores
  (\<^verbatim>\<open>litmus/fmlp.c\<close>, \<^verbatim>\<open>litmus/srp.c\<close>) and their object descriptors (\<^verbatim>\<open>litmus/fdso.c\<close>); the
  control device; text formatting and tracing calls; the user-space library and tools.
\<close>

end
